(* ===== verification/Prelude.thy ===== *)
theory Prelude
  imports
    Complex_Main
    "HOL-Library.Word"
    "HOL-Library.Char_ord"
    "HOL-Library.List_Lexorder"
    "HOL-Library.Multiset"
    "HOL-Library.AList"
    "HOL-Library.Sublist"
begin

unbundle bit_operations_syntax

text \<open>
  Shared vocabulary of the development: the machine types of the C++ code, byte strings, the
  exceptions the engine throws, the error-or-value results of its fallible pure functions, the
  host byte order (little endian) of the integers that are copied into files with \<open>memcpy\<close>, the
  decimal notation of \<open>std::to_string\<close> and \<open>std::stoull\<close>, and the generic list lemmas that
  several components use.

  A C++ \<open>std::string\<close> is a list of bytes. It is a HOL \<^typ>\<open>string\<close> here: a \<^typ>\<open>char\<close> is an
  eight bit value, and the orders of the theories Char_ord and List_Lexorder are the unsigned
  lexicographic order that \<open>std::string::compare\<close> uses.
\<close>

type_synonym u8 = "8 word"
type_synonym u32 = "32 word"
type_synonym u64 = "64 word"

text \<open>
  Collections: \<open>codec_simps\<close> holds the lengths and round trips of the byte encodings,
  \<open>record_order\<close> the facts about the order of versioned records, \<open>inv_intros\<close> the
  invariant-preservation lemmas of the components.
\<close>

named_theorems codec_simps
named_theorems record_order
named_theorems inv_intros

section \<open>Exceptions and results\<close>

text \<open>The exception classes the engine throws, with the message (and errno) it gives them.\<close>

datatype exn =
    runtime_error string
  | invalid_argument string
  | length_error string
  | out_of_range string
  | ios_failure string
  | system_error int string

text \<open>A fallible pure function returns \<open>Inl\<close> of the exception or \<open>Inr\<close> of its value.\<close>

type_synonym 'a result = "exn + 'a"

definition rbind :: "'a result \<Rightarrow> ('a \<Rightarrow> 'b result) \<Rightarrow> 'b result" where
  "rbind m f = (case m of Inl e \<Rightarrow> Inl e | Inr x \<Rightarrow> f x)"

lemma rbind_simps [simp]:
  "rbind (Inl e) f = Inl e"
  "rbind (Inr x) f = f x"
  by (simp_all add: rbind_def)

lemma rbind_eq_Inr [simp]: "rbind m f = Inr y \<longleftrightarrow> (\<exists>x. m = Inr x \<and> f x = Inr y)"
  by (cases m) auto

lemma rbind_cong [fundef_cong]:
  "m = m' \<Longrightarrow> (\<And>x. m' = Inr x \<Longrightarrow> f x = g x) \<Longrightarrow> rbind m f = rbind m' g"
  by (cases m') auto

section \<open>Little-endian integers\<close>

text \<open>The bytes of an unsigned integer in memory on the (little-endian) host, lowest first.\<close>

fun le_bytes :: "nat \<Rightarrow> nat \<Rightarrow> string" where
  "le_bytes 0 v = []"
| "le_bytes (Suc n) v = char_of (v mod 256) # le_bytes n (v div 256)"

fun le_value :: "string \<Rightarrow> nat" where
  "le_value [] = 0"
| "le_value (c # cs) = of_char c + 256 * le_value cs"

lemma length_le_bytes [simp]: "length (le_bytes n v) = n"
  by (induction n arbitrary: v) auto

lemma le_value_le_bytes: "v < 256 ^ n \<Longrightarrow> le_value (le_bytes n v) = v"
proof (induction n arbitrary: v)
  case 0
  then show ?case by simp
next
  case (Suc n)
  from Suc.prems have "v div 256 < 256 ^ n"
    by (simp add: less_mult_imp_div_less)
  with Suc.IH show ?case by simp
qed

lemma le_value_bound: "le_value s < 256 ^ length s"
proof (induction s)
  case Nil
  then show ?case by simp
next
  case (Cons c s)
  have "a + 256 * v < 256 * m" if "a < 256" "v < m" for a v m :: nat
    using that by linarith
  from this [OF nat_of_char_less_256 Cons] show ?case by simp
qed

lemma le_bytes_le_value: "le_bytes (length s) (le_value s) = s"
proof (induction s)
  case Nil
  then show ?case by simp
next
  case (Cons c s)
  have b: "(of_char c :: nat) < 256" by (rule nat_of_char_less_256)
  then have "(of_char c + 256 * le_value s) div 256 = le_value s"
    and "(of_char c + 256 * le_value s) mod 256 = of_char c" by simp_all
  with Cons show ?case by (simp del: of_char_mod_256)
qed

text \<open>\<open>memcpy\<close> of a \<open>uint8_t\<close>, \<open>uint32_t\<close> or \<open>uint64_t\<close> to and from a byte buffer.\<close>

definition put_u8 :: "u8 \<Rightarrow> string" where
  "put_u8 v = le_bytes 1 (unat v)"

definition put_u32 :: "u32 \<Rightarrow> string" where
  "put_u32 v = le_bytes 4 (unat v)"

definition put_u64 :: "u64 \<Rightarrow> string" where
  "put_u64 v = le_bytes 8 (unat v)"

definition get_u8 :: "string \<Rightarrow> u8" where
  "get_u8 s = of_nat (le_value s)"

definition get_u32 :: "string \<Rightarrow> u32" where
  "get_u32 s = of_nat (le_value s)"

definition get_u64 :: "string \<Rightarrow> u64" where
  "get_u64 s = of_nat (le_value s)"

lemma length_put [simp, codec_simps]:
  "length (put_u8 a) = 1" "length (put_u32 b) = 4" "length (put_u64 c) = 8"
  by (simp_all add: put_u8_def put_u32_def put_u64_def)

lemma le_value_le_bytes_unat:
  "LENGTH('a) \<le> 8 * n \<Longrightarrow> le_value (le_bytes n (unat (v :: 'a::len word))) = unat v"
proof -
  assume n: "LENGTH('a) \<le> 8 * n"
  have "unat v < 2 ^ LENGTH('a)" by (rule unsigned_less)
  also have "\<dots> \<le> 2 ^ (8 * n)" using n by (simp add: power_increasing)
  also have "\<dots> = 256 ^ n" by (simp add: power_mult)
  finally show ?thesis by (rule le_value_le_bytes)
qed

lemma get_put [simp, codec_simps]:
  "get_u8 (put_u8 a) = a" "get_u32 (put_u32 b) = b" "get_u64 (put_u64 c) = c"
  using le_value_le_bytes_unat [of 1 a] le_value_le_bytes_unat [of 4 b]
    le_value_le_bytes_unat [of 8 c]
  by (simp_all add: get_u8_def put_u8_def get_u32_def put_u32_def get_u64_def put_u64_def
      del: le_bytes.simps)

lemma put_u32_inject [simp]: "put_u32 a = put_u32 b \<longleftrightarrow> a = b"
  by (metis get_put(2))

lemma put_u64_inject [simp]: "put_u64 a = put_u64 b \<longleftrightarrow> a = b"
  by (metis get_put(3))

text \<open>Sizes that fit their integer type.\<close>

lemma unat_of_nat64: "n < 2 ^ 64 \<Longrightarrow> unat (of_nat n :: u64) = n"
  by (simp add: unat_of_nat)

lemma unat_of_nat32: "n < 2 ^ 32 \<Longrightarrow> unat (of_nat n :: u32) = n"
  by (simp add: unat_of_nat)

lemma of_nat_less64: "a < b \<Longrightarrow> b < 2 ^ 64 \<Longrightarrow> (of_nat a :: u64) < of_nat b"
  by (simp add: word_less_nat_alt unat_of_nat64)

lemma of_nat_less64_iff: "a < 2 ^ 64 \<Longrightarrow> b < 2 ^ 64 \<Longrightarrow> (of_nat a :: u64) < of_nat b \<longleftrightarrow> a < b"
  by (simp add: word_less_nat_alt unat_of_nat64)

lemma of_nat_eq64_iff: "a < 2 ^ 64 \<Longrightarrow> b < 2 ^ 64 \<Longrightarrow> (of_nat a :: u64) = of_nat b \<longleftrightarrow> a = b"
  by (metis unat_of_nat64)

lemma unat_of_nat_diff64: "a \<le> b \<Longrightarrow> b < 2 ^ 64 \<Longrightarrow> unat (of_nat b - of_nat a :: u64) = b - a"
proof -
  assume ab: "a \<le> b" "b < 2 ^ 64"
  then have "(of_nat b - of_nat a :: u64) = of_nat (b - a)" by (simp add: of_nat_diff)
  with ab show ?thesis using unat_of_nat64 [of "b - a"] by simp
qed

lemma unat_ucast64 [simp]: "unat (ucast (x :: u32) :: u64) = unat x"
proof -
  have "unat x < 2 ^ 32" using unsigned_less [of x] by simp
  then show ?thesis by (simp add: unsigned_ucast_eq take_bit_nat_eq_self)
qed

section \<open>Byte strings\<close>

text \<open>\<open>content.substr(pos, n)\<close> for a position inside the string.\<close>

definition substr :: "string \<Rightarrow> nat \<Rightarrow> nat \<Rightarrow> string" where
  "substr s pos n = take n (drop pos s)"

lemma length_substr: "length (substr s pos n) = min n (length s - pos)"
  by (simp add: substr_def)

lemma substr_append_drop:
  "length a = n \<Longrightarrow> substr (a @ b) (n + m) k = substr b m k"
  by (simp add: substr_def)

lemma substr_prefix: "length a = n \<Longrightarrow> substr (a @ b) 0 n = a"
  by (simp add: substr_def)

definition starts_with :: "string \<Rightarrow> string \<Rightarrow> bool" where
  "starts_with s p \<longleftrightarrow> take (length p) s = p"

definition ends_with :: "string \<Rightarrow> string \<Rightarrow> bool" where
  "ends_with s p \<longleftrightarrow> length p \<le> length s \<and> drop (length s - length p) s = p"

lemma starts_with_append [simp]: "starts_with (p @ s) p"
  by (simp add: starts_with_def)

lemma ends_with_append [simp]: "ends_with (s @ p) p"
  by (simp add: ends_with_def)

lemma starts_with_iff: "starts_with s p \<longleftrightarrow> (\<exists>t. s = p @ t)"
  unfolding starts_with_def by (metis append_eq_conv_conj append_take_drop_id)

section \<open>Decimal numerals\<close>

text \<open>\<open>std::to_string\<close> of an unsigned integer.\<close>

definition digit_char :: "nat \<Rightarrow> char" where
  "digit_char d = char_of (48 + d)"

definition is_digit :: "char \<Rightarrow> bool" where
  "is_digit c \<longleftrightarrow> 48 \<le> (of_char c :: nat) \<and> (of_char c :: nat) \<le> 57"

definition digit_value :: "char \<Rightarrow> nat" where
  "digit_value c = of_char c - 48"

fun to_string :: "nat \<Rightarrow> string" where
  "to_string n = (if n < 10 then [digit_char n] else to_string (n div 10) @ [digit_char (n mod 10)])"

declare to_string.simps [simp del]

text \<open>The value of a string of digits.\<close>

definition digits_value :: "string \<Rightarrow> nat" where
  "digits_value = foldl (\<lambda>v c. 10 * v + digit_value c) 0"

lemma of_char_digit_char: "d < 10 \<Longrightarrow> (of_char (digit_char d) :: nat) = 48 + d"
  by (simp add: digit_char_def)

lemma digit_char_simps [simp]:
  "d < 10 \<Longrightarrow> is_digit (digit_char d)"
  "d < 10 \<Longrightarrow> digit_value (digit_char d) = d"
  by (simp_all add: is_digit_def digit_value_def of_char_digit_char)

lemma to_string_nonempty [simp]: "to_string n \<noteq> []"
  by (subst to_string.simps) simp

lemma to_string_digits: "\<forall>c \<in> set (to_string n). is_digit c"
proof (induction n rule: to_string.induct)
  case (1 n)
  then show ?case by (subst to_string.simps) auto
qed

lemma length_to_string: "n < 10 ^ Suc k \<Longrightarrow> length (to_string n) \<le> Suc k"
proof (induction k arbitrary: n)
  case 0
  then show ?case by (subst to_string.simps) simp
next
  case (Suc k)
  then have "n div 10 < 10 ^ Suc k" by (simp add: div_less_iff_less_mult mult.commute)
  from Suc.IH [OF this] show ?case by (subst to_string.simps) simp
qed

lemma length_to_string64: "n < 2 ^ 64 \<Longrightarrow> length (to_string n) \<le> 20"
  using length_to_string [of n 19] by simp

lemma digits_value_to_string [simp]: "digits_value (to_string n) = n"
proof (induction n rule: to_string.induct)
  case (1 n)
  then show ?case
    by (subst to_string.simps) (auto simp: digits_value_def)
qed

lemma to_string_inject [simp]: "to_string m = to_string n \<longleftrightarrow> m = n"
  by (metis digits_value_to_string)

text \<open>
  \<open>std::stoull\<close> in base ten: white space, an optional sign, a non-empty run of digits. It
  returns the value and the number of characters it consumed, throws \<open>invalid_argument\<close> when
  there is no digit and \<open>out_of_range\<close> when the magnitude does not fit; a minus sign negates
  the value modulo \<open>2 ^ 64\<close>.
\<close>

definition is_space :: "char \<Rightarrow> bool" where
  "is_space c \<longleftrightarrow> (of_char c :: nat) \<in> {9, 10, 11, 12, 13, 32}"

definition stoull :: "string \<Rightarrow> (u64 \<times> nat) result" where
  "stoull s =
     (let spaces = takeWhile is_space s;
          rest = dropWhile is_space s;
          sign = (case rest of c # _ \<Rightarrow> if c = CHR ''-'' \<or> c = CHR ''+'' then [c] else [] | [] \<Rightarrow> []);
          digits = takeWhile is_digit (drop (length sign) rest);
          v = digits_value digits
      in if digits = [] then Inl (invalid_argument ''stoull'')
         else if v \<ge> 2 ^ 64 then Inl (out_of_range ''stoull'')
         else Inr (if sign = ''-'' then - of_nat v else of_nat v,
                   length spaces + length sign + length digits))"

lemma is_digit_not_special:
  "is_digit c \<Longrightarrow> \<not> is_space c \<and> c \<noteq> CHR ''-'' \<and> c \<noteq> CHR ''+''"
  by (auto simp: is_digit_def is_space_def)

lemma takeWhile_all: "\<forall>x \<in> set xs. P x \<Longrightarrow> takeWhile P xs = xs"
  by (induction xs) auto

lemma takeWhile_append_stop:
  "\<forall>x \<in> set xs. P x \<Longrightarrow> ys = [] \<or> \<not> P (hd ys) \<Longrightarrow> takeWhile P (xs @ ys) = xs"
  by (cases ys) (auto simp: takeWhile_all)

lemma stoull_digits:
  assumes "s \<noteq> []" "\<forall>c \<in> set s. is_digit c"
  shows "stoull s =
    (if digits_value s \<ge> 2 ^ 64 then Inl (out_of_range ''stoull'')
     else Inr (of_nat (digits_value s), length s))"
proof -
  from assms obtain c s' where s: "s = c # s'" by (cases s) auto
  with assms have c: "\<not> is_space c \<and> c \<noteq> CHR ''-'' \<and> c \<noteq> CHR ''+''"
    using is_digit_not_special by simp
  have tw: "takeWhile is_digit s = s" using assms takeWhile_all by blast
  show ?thesis using c tw unfolding s stoull_def by (simp add: Let_def)
qed

lemma stoull_to_string:
  "n < 2 ^ 64 \<Longrightarrow> stoull (to_string n) = Inr (of_nat n, length (to_string n))"
  by (simp add: stoull_digits to_string_digits)

section \<open>Sorted ranges\<close>

text \<open>
  \<open>std::lower_bound\<close> and \<open>std::upper_bound\<close> return the partition point of a range that the
  predicate partitions: the number of leading elements that satisfy it.
\<close>

definition partition_point :: "('a \<Rightarrow> bool) \<Rightarrow> 'a list \<Rightarrow> nat" where
  "partition_point P xs = length (takeWhile P xs)"

lemma partition_point_le [simp]: "partition_point P xs \<le> length xs"
  by (simp add: partition_point_def length_takeWhile_le)

lemma nth_before_partition_point: "i < partition_point P xs \<Longrightarrow> P (xs ! i)"
  unfolding partition_point_def by (metis nth_mem set_takeWhileD takeWhile_nth)

lemma nth_partition_point:
  "partition_point P xs < length xs \<Longrightarrow> \<not> P (xs ! partition_point P xs)"
  unfolding partition_point_def by (rule nth_length_takeWhile)

lemma take_partition_point: "take (partition_point P xs) xs = takeWhile P xs"
  unfolding partition_point_def by (rule takeWhile_eq_take [symmetric])

lemma drop_partition_point: "drop (partition_point P xs) xs = dropWhile P xs"
  unfolding partition_point_def by (rule dropWhile_eq_drop [symmetric])

lemma in_drop_nth:
  assumes "x \<in> set (drop p xs)"
  obtains j where "p + j < length xs" "x = xs ! (p + j)"
proof -
  from assms obtain j where "j < length (drop p xs)" "x = drop p xs ! j" by (metis in_set_conv_nth)
  then show thesis using that [of j] by simp
qed

end
