(* ===== verification/Programs.thy ===== *)
theory Programs
  imports Prelude
begin

text \<open>
  Stateful code: a program is a function from a state to its outcome and the new state. The
  outcome is the exception it throws or its value, and the state is kept when an exception
  passes through, as in C++. A program that does not return, because it loops or because it runs
  into undefined behaviour, is \<open>None\<close>. The rules of a small
  partial-correctness logic for such programs follow.
\<close>

type_synonym ('s, 'a) prog = "'s \<Rightarrow> ('a result \<times> 's) option"

definition io_ret :: "'a \<Rightarrow> ('s, 'a) prog" where
  "io_ret x s = Some (Inr x, s)"

definition io_throw :: "exn \<Rightarrow> ('s, 'a) prog" where
  "io_throw e s = Some (Inl e, s)"

definition io_bind :: "('s, 'a) prog \<Rightarrow> ('a \<Rightarrow> ('s, 'b) prog) \<Rightarrow> ('s, 'b) prog" where
  "io_bind m f s =
     (case m s of
        None \<Rightarrow> None
      | Some (Inl e, s') \<Rightarrow> Some (Inl e, s')
      | Some (Inr x, s') \<Rightarrow> f x s')"

text \<open>A total action, for example a system call or a field update.\<close>

definition io_act :: "('s \<Rightarrow> 'a \<times> 's) \<Rightarrow> ('s, 'a) prog" where
  "io_act f s = (case f s of (x, s') \<Rightarrow> Some (Inr x, s'))"

definition io_get :: "('s \<Rightarrow> 'a) \<Rightarrow> ('s, 'a) prog" where
  "io_get f s = Some (Inr (f s), s)"

definition io_upd :: "('s \<Rightarrow> 's) \<Rightarrow> ('s, unit) prog" where
  "io_upd f s = Some (Inr (), f s)"

text \<open>A pure computation that may throw.\<close>

definition io_lift :: "'a result \<Rightarrow> ('s, 'a) prog" where
  "io_lift r s = Some (r, s)"

text \<open>A pure computation that may be undefined.\<close>

definition io_defined :: "'a option \<Rightarrow> ('s, 'a) prog" where
  "io_defined x s = map_option (\<lambda>y. (Inr y, s)) x"

text \<open>\<open>try { m } catch (...) { h }\<close>\<close>

definition io_try :: "('s, 'a) prog \<Rightarrow> (exn \<Rightarrow> ('s, 'a) prog) \<Rightarrow> ('s, 'a) prog" where
  "io_try m h s =
     (case m s of
        None \<Rightarrow> None
      | Some (Inl e, s') \<Rightarrow> h e s'
      | Some (Inr x, s') \<Rightarrow> Some (Inr x, s'))"

text \<open>A destructor \<open>d\<close> that runs when the scope of \<open>m\<close> is left, normally or by an exception.\<close>

definition io_scope :: "('s, 'a) prog \<Rightarrow> ('s \<Rightarrow> 's) \<Rightarrow> ('s, 'a) prog" where
  "io_scope m d s = (case m s of None \<Rightarrow> None | Some (r, s') \<Rightarrow> Some (r, d s'))"

text \<open>
  A block with a local object: it starts in the state \<open>l\<close>, the body works on the outer state and
  the object, and the destructor \<open>d\<close> runs on whatever state the object has when the block is left.
\<close>

definition io_local :: "'l \<Rightarrow> ('s \<times> 'l, 'a) prog \<Rightarrow> ('l \<Rightarrow> 's \<Rightarrow> 's) \<Rightarrow> ('s, 'a) prog" where
  "io_local l m d s =
     (case m (s, l) of None \<Rightarrow> None | Some (r, (s', l')) \<Rightarrow> Some (r, d l' s'))"

definition io_outer :: "('s, 'a) prog \<Rightarrow> ('s \<times> 'l, 'a) prog" where
  "io_outer m sl = (case m (fst sl) of None \<Rightarrow> None | Some (r, s') \<Rightarrow> Some (r, (s', snd sl)))"

text \<open>A \<open>for\<close> loop over a container.\<close>

fun io_for :: "'a list \<Rightarrow> ('a \<Rightarrow> ('s, unit) prog) \<Rightarrow> ('s, unit) prog" where
  "io_for [] f = io_ret ()"
| "io_for (x # xs) f = io_bind (f x) (\<lambda>_. io_for xs f)"

text \<open>The same loop with a loop-carried value.\<close>

fun io_fold :: "('b \<Rightarrow> 'a \<Rightarrow> ('s, 'b) prog) \<Rightarrow> 'b \<Rightarrow> 'a list \<Rightarrow> ('s, 'b) prog" where
  "io_fold f acc [] = io_ret acc"
| "io_fold f acc (x # xs) = io_bind (f acc x) (\<lambda>acc'. io_fold f acc' xs)"

lemma io_bind_simps [simp]:
  "m s = Some (Inr x, s') \<Longrightarrow> io_bind m f s = f x s'"
  "m s = Some (Inl e, s') \<Longrightarrow> io_bind m f s = Some (Inl e, s')"
  "m s = None \<Longrightarrow> io_bind m f s = None"
  by (simp_all add: io_bind_def)

lemma io_apply [simp]:
  "io_ret x s = Some (Inr x, s)"
  "io_throw e s = Some (Inl e, s)"
  "io_get g s = Some (Inr (g s), s)"
  "io_upd h s = Some (Inr (), h s)"
  "io_lift r s = Some (r, s)"
  "io_defined (Some x) s = Some (Inr x, s)"
  "io_defined None s = None"
  by (simp_all add: io_ret_def io_throw_def io_get_def io_upd_def io_lift_def io_defined_def)

lemma io_bind_assoc: "io_bind (io_bind m f) g = io_bind m (\<lambda>x. io_bind (f x) g)"
  by (rule ext) (simp add: io_bind_def split: option.split sum.split)

lemma io_bind_ret: "io_bind (io_ret x) f = f x"
  by (rule ext) simp

lemma io_fold_append:
  "io_fold f acc (xs @ ys) s = io_bind (io_fold f acc xs) (\<lambda>acc'. io_fold f acc' ys) s"
  by (induction xs arbitrary: acc s) (auto simp: io_bind_def split: option.splits sum.splits)

section \<open>A partial-correctness logic\<close>

definition triple ::
  "('s \<Rightarrow> bool) \<Rightarrow> ('s, 'a) prog \<Rightarrow> ('a \<Rightarrow> 's \<Rightarrow> bool) \<Rightarrow> (exn \<Rightarrow> 's \<Rightarrow> bool) \<Rightarrow> bool" where
  "triple P m Q E \<longleftrightarrow>
     (\<forall>s r s'. P s \<longrightarrow> m s = Some (r, s') \<longrightarrow> (case r of Inl e \<Rightarrow> E e s' | Inr x \<Rightarrow> Q x s'))"

lemma tripleI:
  assumes "\<And>s x s'. P s \<Longrightarrow> m s = Some (Inr x, s') \<Longrightarrow> Q x s'"
    and "\<And>s e s'. P s \<Longrightarrow> m s = Some (Inl e, s') \<Longrightarrow> E e s'"
  shows "triple P m Q E"
  using assms unfolding triple_def by (auto split: sum.split)

lemma triple_ok: "triple P m Q E \<Longrightarrow> P s \<Longrightarrow> m s = Some (Inr x, s') \<Longrightarrow> Q x s'"
  unfolding triple_def by fastforce

lemma triple_exn: "triple P m Q E \<Longrightarrow> P s \<Longrightarrow> m s = Some (Inl e, s') \<Longrightarrow> E e s'"
  unfolding triple_def by fastforce

lemma triple_any:
  "triple P m (\<lambda>_. Q) (\<lambda>_. Q) \<Longrightarrow> P s \<Longrightarrow> m s = Some (r, s') \<Longrightarrow> Q s'"
  by (cases r) (auto dest: triple_ok triple_exn)

lemma triple_conseq:
  assumes "triple P m Q E" "\<And>s. P' s \<Longrightarrow> P s" "\<And>x s. Q x s \<Longrightarrow> Q' x s" "\<And>e s. E e s \<Longrightarrow> E' e s"
  shows "triple P' m Q' E'"
  using assms by (intro tripleI) (blast dest: triple_ok triple_exn)+

lemma triple_pre: "(\<And>s. P' s \<Longrightarrow> P s) \<Longrightarrow> triple P m Q E \<Longrightarrow> triple P' m Q E"
  by (rule triple_conseq)

lemma triple_ret: "triple (Q x) (io_ret x) Q E"
  by (rule tripleI) simp_all

lemma triple_throw: "triple (E e) (io_throw e) Q E"
  by (rule tripleI) simp_all

lemma triple_get: "triple (\<lambda>s. Q (g s) s) (io_get g) Q E"
  by (rule tripleI) simp_all

lemma triple_upd: "triple (\<lambda>s. Q () (h s)) (io_upd h) Q E"
  by (rule tripleI) simp_all

lemma triple_act: "triple (\<lambda>s. case f s of (x, s') \<Rightarrow> Q x s') (io_act f) Q E"
  by (rule tripleI) (auto simp: io_act_def split: prod.splits)

lemma triple_lift: "triple (\<lambda>s. case r of Inl e \<Rightarrow> E e s | Inr x \<Rightarrow> Q x s) (io_lift r) Q E"
  by (rule tripleI) (auto simp: io_lift_def)

lemma triple_defined: "triple (\<lambda>s. \<forall>x. y = Some x \<longrightarrow> Q x s) (io_defined y) Q E"
  by (rule tripleI) (auto simp: io_defined_def)

lemma triple_bind:
  assumes "triple P m R E" "\<And>x. triple (R x) (f x) Q E"
  shows "triple P (io_bind m f) Q E"
proof (rule tripleI)
  fix s y s'
  assume "P s" "io_bind m f s = Some (Inr y, s')"
  then obtain x t where "m s = Some (Inr x, t)" "f x t = Some (Inr y, s')"
    unfolding io_bind_def by (auto split: option.splits sum.splits)
  with \<open>P s\<close> assms show "Q y s'" by (metis triple_ok)
next
  fix s e s'
  assume "P s" "io_bind m f s = Some (Inl e, s')"
  then consider "m s = Some (Inl e, s')" | x t where "m s = Some (Inr x, t)" "f x t = Some (Inl e, s')"
    unfolding io_bind_def by (auto split: option.splits sum.splits)
  then show "E e s'"
    using \<open>P s\<close> assms by cases (metis triple_ok triple_exn)+
qed

lemma triple_try:
  assumes "triple P m Q R" "\<And>e. triple (R e) (h e) Q E"
  shows "triple P (io_try m h) Q E"
proof (rule tripleI)
  fix s y s'
  assume "P s" "io_try m h s = Some (Inr y, s')"
  then consider "m s = Some (Inr y, s')" | e t where "m s = Some (Inl e, t)" "h e t = Some (Inr y, s')"
    unfolding io_try_def by (auto split: option.splits sum.splits)
  then show "Q y s'"
    using \<open>P s\<close> assms by cases (metis triple_ok triple_exn)+
next
  fix s e s'
  assume "P s" "io_try m h s = Some (Inl e, s')"
  then obtain e' t where "m s = Some (Inl e', t)" "h e' t = Some (Inl e, s')"
    unfolding io_try_def by (auto split: option.splits sum.splits)
  with \<open>P s\<close> assms show "E e s'" by (metis triple_exn)
qed

lemma triple_scope:
  assumes "triple P m (\<lambda>x s. Q x (d s)) (\<lambda>e s. E e (d s))"
  shows "triple P (io_scope m d) Q E"
  using assms unfolding io_scope_def triple_def by (fastforce split: option.splits prod.splits)

lemma triple_local:
  assumes "triple (\<lambda>(s, x). P s \<and> x = l) m (\<lambda>x (s, l). Q x (d l s)) (\<lambda>e (s, l). E e (d l s))"
  shows "triple P (io_local l m d) Q E"
proof (rule tripleI)
  fix s x s'
  assume P: "P s" and "io_local l m d s = Some (Inr x, s')"
  then obtain t l' where "m (s, l) = Some (Inr x, (t, l'))" "s' = d l' t"
    unfolding io_local_def by (auto split: option.splits)
  with P show "Q x s'" using triple_ok [OF assms, of "(s, l)"] by auto
next
  fix s e s'
  assume P: "P s" and "io_local l m d s = Some (Inl e, s')"
  then obtain t l' where "m (s, l) = Some (Inl e, (t, l'))" "s' = d l' t"
    unfolding io_local_def by (auto split: option.splits)
  with P show "E e s'" using triple_exn [OF assms, of "(s, l)"] by auto
qed

lemma triple_outer:
  assumes "\<And>l. triple (\<lambda>s. P (s, l)) m (\<lambda>x s. Q x (s, l)) (\<lambda>e s. E e (s, l))"
  shows "triple P (io_outer m) Q E"
proof (rule tripleI)
  fix sl x sl'
  assume "P sl" "io_outer m sl = Some (Inr x, sl')"
  then show "Q x sl'"
    using triple_ok [OF assms [of "snd sl"], of "fst sl"]
    by (auto simp: io_outer_def split: option.splits prod.splits)
next
  fix sl e sl'
  assume "P sl" "io_outer m sl = Some (Inl e, sl')"
  then show "E e sl'"
    using triple_exn [OF assms [of "snd sl"], of "fst sl"]
    by (auto simp: io_outer_def split: option.splits prod.splits)
qed

lemma triple_if:
  "(b \<Longrightarrow> triple P m Q E) \<Longrightarrow> (\<not> b \<Longrightarrow> triple P m' Q E) \<Longrightarrow> triple P (if b then m else m') Q E"
  by simp

lemma triple_for:
  assumes "\<And>x. x \<in> set xs \<Longrightarrow> triple P (f x) (\<lambda>_. P) E"
  shows "triple P (io_for xs f) (\<lambda>_. P) E"
  using assms
proof (induction xs)
  case Nil
  show ?case unfolding io_for.simps by (rule triple_ret [where Q = "\<lambda>_. P"])
next
  case (Cons x xs)
  then show ?case by (auto intro!: triple_bind [where R = "\<lambda>_. P"])
qed

lemma triple_fold:
  assumes "\<And>acc x. x \<in> set xs \<Longrightarrow> triple (I acc) (f acc x) I E"
  shows "triple (I acc) (io_fold f acc xs) I E"
  using assms
proof (induction xs arbitrary: acc)
  case Nil
  show ?case unfolding io_fold.simps by (rule triple_ret)
next
  case (Cons x xs)
  then show ?case by (auto intro!: triple_bind [where R = I])
qed

lemmas triple_rules =
  triple_ret triple_throw triple_get triple_upd triple_act triple_lift

section \<open>Computations that may diverge\<close>

text \<open>
  The loops over iterators keep no state of their own: they return an exception or a value, or
  do not return.
\<close>

type_synonym 'a comp = "'a result option"

definition cbind :: "'a comp \<Rightarrow> ('a \<Rightarrow> 'b comp) \<Rightarrow> 'b comp" where
  "cbind m f = (case m of None \<Rightarrow> None | Some (Inl e) \<Rightarrow> Some (Inl e) | Some (Inr x) \<Rightarrow> f x)"

lemma cbind_simps [simp]:
  "cbind None f = None"
  "cbind (Some (Inl e)) f = Some (Inl e)"
  "cbind (Some (Inr x)) f = f x"
  by (simp_all add: cbind_def)

lemma cbind_eq_Inr [simp]:
  "cbind m f = Some (Inr y) \<longleftrightarrow> (\<exists>x. m = Some (Inr x) \<and> f x = Some (Inr y))"
  by (auto simp: cbind_def split: option.splits sum.splits)

lemma cbind_mono [partial_function_mono]:
  assumes "mono_option B" "\<And>y. mono_option (\<lambda>f. C y f)"
  shows "mono_option (\<lambda>f. cbind (B f) (\<lambda>y. C y f))"
proof (rule monotoneI)
  fix f g :: "'a \<Rightarrow> 'b option"
  assume fg: "fun_ord option_ord f g"
  with assms have B: "option_ord (B f) (B g)" and C: "\<And>y. option_ord (C y f) (C y g)"
    by (auto dest: monotoneD)
  show "option_ord (cbind (B f) (\<lambda>y. C y f)) (cbind (B g) (\<lambda>y. C y g))"
  proof (cases "B f")
    case None
    then show ?thesis by (simp add: flat_ord_def)
  next
    case (Some r)
    with B have "B g = Some r" by (simp add: flat_ord_def)
    with Some C show ?thesis by (cases r) (simp_all add: flat_ord_def)
  qed
qed

text \<open>A computation inside a program.\<close>

definition io_comp :: "'a comp \<Rightarrow> ('s, 'a) prog" where
  "io_comp c s = (case c of None \<Rightarrow> None | Some r \<Rightarrow> Some (r, s))"

end
