(* ===== verification/Utils.thy ===== *)
theory Utils
  imports Prelude
begin

unbundle bit_operations_syntax

text \<open>
  The data types of \<open>inc/utils.h\<close> and the free functions of \<open>src/utils.cpp\<close> that do no I/O:
  versioned records and the order of their keys, file names, the CRC32 and the encoding of an
  SSTable record. The merge machinery of the same file is in the theory Merge.
\<close>

section \<open>Data types\<close>

datatype Type = Type_VALUE | Type_TOMBSTONE

text \<open>\<open>static_cast<uint8_t>(type)\<close> and back.\<close>

definition type_code :: "Type \<Rightarrow> u8" where
  "type_code t = (case t of Type_VALUE \<Rightarrow> 0 | Type_TOMBSTONE \<Rightarrow> 1)"

definition type_of_code :: "u8 \<Rightarrow> Type" where
  "type_of_code c = (if c = 0 then Type_VALUE else Type_TOMBSTONE)"

record Entry =
  ent_type :: Type
  ent_seq :: u64
  ent_value :: string

datatype Result = Result_VALUE | Result_TOMBSTONE | Result_ABSENT

record Record =
  rec_key :: string
  rec_seq :: u64
  rec_type :: Type
  rec_value :: string

definition kEncodedRecordHeaderSize :: nat where
  "kEncodedRecordHeaderSize = 1 + 8 + 2 * 4"

definition kEncodedRecordChecksumSize :: nat where
  "kEncodedRecordChecksumSize = 4"

definition encodedRecordSize :: "Record \<Rightarrow> u64" where
  "encodedRecordSize r =
     of_nat kEncodedRecordHeaderSize + of_nat (length (rec_key r)) + of_nat (length (rec_value r))
     + of_nat kEncodedRecordChecksumSize"

record Index =
  idx_keySize :: u32
  idx_key :: string
  idx_offset :: u64

record TableMeta =
  tm_number :: u64
  tm_size :: u64
  tm_minKey :: string
  tm_maxKey :: string

text \<open>
  The key of the MemTable's \<open>std::map\<close>: \<open>operator<\<close> sorts by key, and within a key by
  descending sequence number. The class instance makes it the order of the type.
\<close>

datatype Key = Key (key_key: string) (key_seq: u64)

definition Key_less_than :: "Key \<Rightarrow> Key \<Rightarrow> bool" where
  "Key_less_than lhs rhs \<longleftrightarrow>
     (if key_key lhs \<noteq> key_key rhs then key_key lhs < key_key rhs else key_seq lhs > key_seq rhs)"

instantiation Key :: linorder
begin

definition less_Key :: "Key \<Rightarrow> Key \<Rightarrow> bool" where
  "less_Key = Key_less_than"

definition less_eq_Key :: "Key \<Rightarrow> Key \<Rightarrow> bool" where
  "less_eq_Key lhs rhs \<longleftrightarrow> lhs < rhs \<or> lhs = rhs"

instance
proof
  fix x y z :: Key
  show "x < y \<longleftrightarrow> x \<le> y \<and> \<not> y \<le> x"
    by (cases x; cases y) (auto simp: less_Key_def Key_less_than_def less_eq_Key_def)
  show "x \<le> x"
    by (simp add: less_eq_Key_def)
  show "x \<le> y \<Longrightarrow> y \<le> z \<Longrightarrow> x \<le> z"
    by (cases x; cases y; cases z) (auto simp: less_Key_def Key_less_than_def less_eq_Key_def split: if_splits)
  show "x \<le> y \<Longrightarrow> y \<le> x \<Longrightarrow> x = y"
    by (cases x; cases y) (auto simp: less_Key_def Key_less_than_def less_eq_Key_def split: if_splits)
  show "x \<le> y \<or> y \<le> x"
    by (cases x; cases y) (auto simp: less_Key_def Key_less_than_def less_eq_Key_def)
qed

end

lemma Key_less [simp, record_order]:
  "Key k s < Key k' s' \<longleftrightarrow> k < k' \<or> k = k' \<and> s' < s"
  by (auto simp: less_Key_def Key_less_than_def)

lemma Key_le [simp, record_order]:
  "Key k s \<le> Key k' s' \<longleftrightarrow> k < k' \<or> k = k' \<and> s' \<le> s"
  by (auto simp: less_eq_Key_def less_Key_def Key_less_than_def)

text \<open>The map key of a record.\<close>

definition rkey :: "Record \<Rightarrow> Key" where
  "rkey r = Key (rec_key r) (rec_seq r)"

lemma rkey_less [record_order]:
  "rkey a < rkey b \<longleftrightarrow> rec_key a < rec_key b \<or> rec_key a = rec_key b \<and> rec_seq b < rec_seq a"
  by (simp add: rkey_def)

lemma rkey_le [record_order]:
  "rkey a \<le> rkey b \<longleftrightarrow> rec_key a < rec_key b \<or> rec_key a = rec_key b \<and> rec_seq b \<le> rec_seq a"
  by (simp add: rkey_def)

lemma rkey_eq [record_order]: "rkey a = rkey b \<longleftrightarrow> rec_key a = rec_key b \<and> rec_seq a = rec_seq b"
  by (simp add: rkey_def)

section \<open>File names\<close>

definition kWalPrefix :: string where "kWalPrefix = ''wal_''"
definition kWalSuffix :: string where "kWalSuffix = ''.wal''"
definition kSSTablePrefix :: string where "kSSTablePrefix = ''sst_''"
definition kSSTableSuffix :: string where "kSSTableSuffix = ''.sst''"

definition parseNumberedFile :: "string \<Rightarrow> string \<Rightarrow> string \<Rightarrow> u64 option" where
  "parseNumberedFile filename filePrefix fileSuffix =
     (if length filename \<le> length filePrefix + length fileSuffix
         \<or> \<not> starts_with filename filePrefix \<or> \<not> ends_with filename fileSuffix
      then None
      else
        let numberText = substr filename (length filePrefix)
              (length filename - length filePrefix - length fileSuffix)
        in case stoull numberText of
             Inl _ \<Rightarrow> None
           | Inr (value, parsedCharacters) \<Rightarrow>
               if parsedCharacters \<noteq> length numberText then None else Some value)"

text \<open>A path is the list of its components, so that \<open>/\<close> appends one.\<close>

type_synonym path = "string list"

definition walPath :: "path \<Rightarrow> u64 \<Rightarrow> path" where
  "walPath dataDirectory fileNumber =
     dataDirectory @ [''wal'', kWalPrefix @ to_string (unat fileNumber) @ kWalSuffix]"

definition sstablePath :: "path \<Rightarrow> u64 \<Rightarrow> path" where
  "sstablePath dataDirectory fileNumber =
     dataDirectory @ [''sstable'', kSSTablePrefix @ to_string (unat fileNumber) @ kSSTableSuffix]"

section \<open>CRC32\<close>

definition kCrc32InitialValue :: u32 where "kCrc32InitialValue = 0xFFFFFFFF"
definition kCrc32Polynomial :: u32 where "kCrc32Polynomial = 0xEDB88320"

text \<open>One pass of the inner loop, one byte of the outer loop, and the whole checksum.\<close>

definition crc32_bit :: "u32 \<Rightarrow> u32" where
  "crc32_bit checksum =
     drop_bit 1 checksum XOR (kCrc32Polynomial AND (0 - (checksum AND 1)))"

definition crc32_byte :: "u32 \<Rightarrow> char \<Rightarrow> u32" where
  "crc32_byte checksum byte = (crc32_bit ^^ 8) (checksum XOR of_char byte)"

definition crc32 :: "string \<Rightarrow> u32" where
  "crc32 data = foldl crc32_byte kCrc32InitialValue data XOR kCrc32InitialValue"

section \<open>Encoding of SSTable records\<close>

definition encodeSSTableRecord :: "Record \<Rightarrow> string result" where
  "encodeSSTableRecord record =
     (if length (rec_key record) > 0xFFFFFFFF \<or> length (rec_value record) > 0xFFFFFFFF
      then Inl (length_error ''SSTable record field is too large'')
      else Inr (put_u8 (type_code (rec_type record)) @ put_u64 (rec_seq record)
                @ put_u32 (of_nat (length (rec_key record)))
                @ put_u32 (of_nat (length (rec_value record)))
                @ rec_key record @ rec_value record))"

definition rangesOverlap :: "TableMeta \<Rightarrow> string \<Rightarrow> string \<Rightarrow> bool" where
  "rangesOverlap table minKey maxKey \<longleftrightarrow> minKey \<le> tm_maxKey table \<and> tm_minKey table \<le> maxKey"

section \<open>Lemmas\<close>

lemma type_code_roundtrip [simp]: "type_of_code (type_code t) = t"
  by (cases t) (simp_all add: type_code_def type_of_code_def)

lemma type_code_le [simp]: "type_code t \<le> type_code Type_TOMBSTONE"
  by (cases t) (simp_all add: type_code_def)

lemma starts_with_app [simp]: "starts_with (p @ q @ s) p"
  by (simp add: starts_with_def)

lemma ends_with_app2 [simp]: "ends_with (p @ q @ s) s"
  using ends_with_append [of "p @ q" s] by simp

lemma numbered_file_roundtrip:
  "parseNumberedFile (filePrefix @ to_string (unat n) @ fileSuffix) filePrefix fileSuffix = Some n"
proof -
  have "stoull (to_string (unat n)) = Inr (n, length (to_string (unat n)))"
    using stoull_to_string [of "unat n"] unsigned_less [of n] by simp
  moreover have "0 < length (to_string (unat n))" by simp
  ultimately show ?thesis
    by (simp add: parseNumberedFile_def substr_def del: length_greater_0_conv)
qed

lemma walPath_inject [simp]: "walPath d m = walPath d n \<longleftrightarrow> m = n"
  by (simp add: walPath_def word_unat_eq_iff)

lemma sstablePath_inject [simp]: "sstablePath d m = sstablePath d n \<longleftrightarrow> m = n"
  by (simp add: sstablePath_def word_unat_eq_iff)

lemma walPath_sstablePath [simp]: "walPath d m \<noteq> sstablePath d n" "sstablePath d n \<noteq> walPath d m"
  by (simp_all add: walPath_def sstablePath_def)

subsection \<open>The checksum detects every error confined to four consecutive bytes\<close>

text \<open>
  One step of the shift register is linear and, because the polynomial has its top bit set,
  injective; it undoes a shift of a value that leaves the top bit free.
\<close>

lemma crc32_mask: "0 - (x AND 1) = (if bit x 0 then - 1 else (0 :: u32))"
  by (simp add: and_one_eq mod_2_eq_odd bit_0)

lemma bit_crc32_bit:
  "bit (crc32_bit x) n \<longleftrightarrow> bit x (Suc n) \<noteq> (bit kCrc32Polynomial n \<and> bit x 0)"
  unfolding crc32_bit_def crc32_mask
  by (auto simp: bit_simps dest: bit_imp_le_length)

lemma crc32_bit_linear: "crc32_bit (x XOR y) = crc32_bit x XOR crc32_bit y"
  by (rule bit_eqI) (auto simp: bit_crc32_bit bit_xor_iff)

lemma crc32_polynomial_top_bit: "bit kCrc32Polynomial 31"
  by code_simp

lemma crc32_bit_inj: "crc32_bit x = crc32_bit y \<Longrightarrow> x = y"
proof (rule bit_eqI)
  fix n
  assume eq: "crc32_bit x = crc32_bit y" and n: "possible_bit TYPE(32 word) n"
  have 32: "\<not> bit z (Suc 31)" for z :: u32 by (simp add: bit_word.rep_eq)
  have b0: "bit x 0 = bit y 0"
    using arg_cong [OF eq, of "\<lambda>z. bit z 31"] crc32_polynomial_top_bit 32
    by (simp only: bit_crc32_bit) simp
  have "bit x (Suc m) = bit y (Suc m)" for m
    using arg_cong [OF eq, of "\<lambda>z. bit z m"] b0 by (simp only: bit_crc32_bit) auto
  with b0 show "bit x n = bit y n" by (cases n) auto
qed

lemma crc32_bits_linear: "(crc32_bit ^^ n) (x XOR y) = (crc32_bit ^^ n) x XOR (crc32_bit ^^ n) y"
  by (induction n) (simp_all add: crc32_bit_linear)

lemma crc32_bits_inj: "(crc32_bit ^^ n) x = (crc32_bit ^^ n) y \<Longrightarrow> x = y"
  by (induction n) (auto dest: crc32_bit_inj)

lemma word_xor_cancel [simp]:
  fixes a b c :: "'a::len word"
  shows "a XOR c = b XOR c \<longleftrightarrow> a = b" "c XOR a = c XOR b \<longleftrightarrow> a = b"
proof -
  have r: "(x XOR c) XOR c = x" for x :: "'a word" by (simp add: xor.assoc)
  then show "a XOR c = b XOR c \<longleftrightarrow> a = b" by metis
  then show "c XOR a = c XOR b \<longleftrightarrow> a = b" by (simp add: xor.commute)
qed

lemma crc32_bit_shift: "\<not> bit y 31 \<Longrightarrow> crc32_bit (push_bit 1 y) = y"
proof (rule bit_eqI)
  fix n
  assume top: "\<not> bit y 31" and "possible_bit TYPE(32 word) n"
  then have "n < 32" by (simp add: possible_bit_def)
  with top show "bit (crc32_bit (push_bit 1 y)) n = bit y n"
    by (cases "n = 31")
      (auto simp: bit_crc32_bit bit_push_bit_iff possible_bit_def simp del: push_bit_of_1 push_bit_Suc
        push_bit_double dest: bit_imp_le_length)
qed

lemma crc32_bits_shift:
  "(\<And>i. 32 - n \<le> i \<Longrightarrow> \<not> bit y i) \<Longrightarrow> n \<le> 32 \<Longrightarrow> (crc32_bit ^^ n) (push_bit n y) = y"
proof (induction n)
  case 0
  then show ?case by simp
next
  case (Suc n)
  have "\<not> bit (push_bit n y) 31"
    using Suc.prems by (auto simp: bit_simps)
  then have "crc32_bit (push_bit (Suc n) y) = push_bit n y"
    using crc32_bit_shift [of "push_bit n y"] by simp
  moreover have "(crc32_bit ^^ n) (push_bit n y) = y"
    using Suc by simp
  ultimately show ?case by (simp only: funpow_Suc_right comp_apply)
qed

lemma bit_of_char_beyond: "bit (of_char c :: nat) n \<Longrightarrow> n < 8"
proof -
  assume "bit (of_char c :: nat) n"
  moreover have "take_bit 8 (of_char c :: nat) = of_char c"
    by (simp add: take_bit_eq_mod)
  ultimately show ?thesis by (metis bit_take_bit_iff)
qed

lemma get_u32_Cons: "get_u32 (c # cs) = of_char c XOR push_bit 8 (get_u32 cs)"
proof -
  have "(of_char c :: nat) AND push_bit 8 v = 0" for v :: nat
    by (rule bit_eqI) (auto simp: bit_simps dest: bit_of_char_beyond)
  then have "(of_char c :: nat) + push_bit 8 (le_value cs) = of_char c XOR push_bit 8 (le_value cs)"
    by (rule disjunctive_add_eq_xor)
  then have "get_u32 (c # cs) = of_nat (of_char c XOR push_bit 8 (le_value cs))"
    by (simp add: get_u32_def push_bit_eq_mult mult.commute)
  then show ?thesis
    by (simp add: get_u32_def of_nat_xor_eq of_nat_push_bit of_nat_of_char)
qed

lemma get_u32_high_bits: "8 * length cs \<le> i \<Longrightarrow> \<not> bit (get_u32 cs) i"
proof (induction cs arbitrary: i)
  case Nil
  then show ?case by (simp add: get_u32_def)
next
  case (Cons c cs)
  have "bit (of_char c :: u32) i \<Longrightarrow> i < 8"
    using bit_of_char_beyond [of c i] by (metis bit_of_nat_iff of_nat_of_char)
  with Cons show ?case by (auto simp: get_u32_Cons bit_simps)
qed

lemma get_u32_inj:
  "length a = length b \<Longrightarrow> length a \<le> 4 \<Longrightarrow> get_u32 a = get_u32 b \<Longrightarrow> a = b"
proof -
  assume len: "length a = length b" "length a \<le> 4" and eq: "get_u32 a = get_u32 b"
  have "256 ^ length a \<le> (256 :: nat) ^ 4"
    using len by (intro power_increasing) simp_all
  then have "le_value a < 2 ^ 32" "le_value b < 2 ^ 32"
    using le_value_bound [of a] le_value_bound [of b] len by simp_all
  with eq have "le_value a = le_value b"
    unfolding get_u32_def by (simp add: word_of_nat_eq_iff take_bit_nat_eq_self)
  with len show ?thesis by (metis le_bytes_le_value)
qed

lemma crc32_bytes_eq:
  "length bs \<le> 4 \<Longrightarrow> foldl crc32_byte s bs = (crc32_bit ^^ (8 * length bs)) (s XOR get_u32 bs)"
proof (induction bs arbitrary: s)
  case Nil
  then show ?case by (simp add: get_u32_def)
next
  case (Cons c bs)
  have hi: "(crc32_bit ^^ 8) (push_bit 8 (get_u32 bs)) = get_u32 bs"
    using Cons.prems by (intro crc32_bits_shift get_u32_high_bits) auto
  have "foldl crc32_byte s (c # bs) =
      (crc32_bit ^^ (8 * length bs)) (crc32_byte s c XOR get_u32 bs)"
    using Cons by simp
  also have "crc32_byte s c XOR get_u32 bs = (crc32_bit ^^ 8) (s XOR get_u32 (c # bs))"
    unfolding crc32_byte_def get_u32_Cons xor.assoc [symmetric]
    by (simp only: crc32_bits_linear hi)
  finally show ?case
    by (simp only: funpow_add [symmetric, THEN fun_cong, unfolded comp_apply]) (simp add: add.commute)
qed

lemma crc32_fold_inj: "foldl crc32_byte s q = foldl crc32_byte t q \<Longrightarrow> s = t"
proof (induction q arbitrary: s t)
  case Nil
  then show ?case by simp
next
  case (Cons c q)
  then have "crc32_byte s c = crc32_byte t c" by simp
  then have "s XOR of_char c = t XOR of_char c"
    unfolding crc32_byte_def by (rule crc32_bits_inj)
  then show ?case by simp
qed

lemma crc32_burst:
  assumes "length b = length b'" "length b \<le> 4" "b \<noteq> b'"
  shows "crc32 (p @ b @ q) \<noteq> crc32 (p @ b' @ q)"
proof
  let ?s = "foldl crc32_byte kCrc32InitialValue p"
  assume "crc32 (p @ b @ q) = crc32 (p @ b' @ q)"
  then have "foldl crc32_byte kCrc32InitialValue (p @ b @ q)
      = foldl crc32_byte kCrc32InitialValue (p @ b' @ q)"
    unfolding crc32_def by simp
  then have "foldl crc32_byte ?s b = foldl crc32_byte ?s b'"
    by (auto dest: crc32_fold_inj)
  then have "?s XOR get_u32 b = ?s XOR get_u32 b'"
    using assms by (simp only: crc32_bytes_eq) (rule crc32_bits_inj)
  then have "get_u32 b = get_u32 b'" by simp
  with assms show False using get_u32_inj by blast
qed

text \<open>
  C37: two messages that differ only inside a window of at most four consecutive bytes (in
  particular in a single byte) have different checksums.
\<close>

theorem crc32_detects_burst:
  assumes "length b = length b'" "length b \<le> 4" "b \<noteq> b'"
  shows "crc32 (p @ b @ q) \<noteq> crc32 (p @ b' @ q)"
  using assms by (rule crc32_burst)

theorem crc32_detects_burst_witness:
  "crc32 (''123'' @ ''45'' @ ''6789'') \<noteq> crc32 (''123'' @ ''54'' @ ''6789'')"
  by (rule crc32_detects_burst) simp_all

lemma crc32_bit_cases:
  "crc32_bit x = (if odd x then drop_bit 1 x XOR kCrc32Polynomial else drop_bit 1 x)"
  unfolding crc32_bit_def crc32_mask by (simp add: bit_0)

lemmas crc32_bit_numeral = crc32_bit_cases [of "numeral w" for w, unfolded kCrc32Polynomial_def]

lemma crc32_byte_bits:
  "crc32_byte c b = crc32_bit (crc32_bit (crc32_bit (crc32_bit (crc32_bit (crc32_bit (crc32_bit
     (crc32_bit (c XOR of_char b))))))))"
  by (simp add: crc32_byte_def eval_nat_numeral)

text \<open>The checksum of the standard check string is the standard CRC-32 check value.\<close>

theorem crc32_check_value: "crc32 ''123456789'' = 0xCBF43926"
  by (simp add: crc32_def crc32_byte_bits crc32_bit_numeral kCrc32InitialValue_def)
end
