(* ===== verification/FaultInjection.thy ===== *)
theory FaultInjection
  imports Programs Utils "HOL-Library.Stream"
begin

text \<open>
  The operating system as the engine sees it, and the fault-injection seam of
  \<open>inc/FaultInjection.h\<close> and \<open>src/FaultInjection.cpp\<close>.

  A world holds the regular files and the directories, the open file descriptors, the installed
  fault policy and the answers the operating system will give to the coming system calls. A
  theorem that holds for every world holds for every behaviour of the operating system: a write
  may be short or fail, and every other call may fail, at any point. A world whose answers are
  all \<open>OsOk\<close> and that has no policy is called nominal.
\<close>

section \<open>The world\<close>

datatype Op = Op_Write | Op_Fsync

record Decision =
  errnoValue :: int

definition Decision_proceed :: Decision where
  "Decision_proceed = \<lparr>errnoValue = 0\<rparr>"

definition Decision_fail :: "int \<Rightarrow> Decision" where
  "Decision_fail value = \<lparr>errnoValue = value\<rparr>"

text \<open>
  A policy is a \<open>std::function\<close> with captured state: what it decides for a call (operation, file
  descriptor, size) and how it behaves after that call.
\<close>

codatatype Policy =
  Policy (policy_decision: "Op \<Rightarrow> int \<Rightarrow> nat \<Rightarrow> Decision") (policy_after: "Op \<Rightarrow> int \<Rightarrow> nat \<Rightarrow> Policy")

datatype os_answer = OsOk | OsShort nat | OsErr int

record world =
  w_files :: "(path \<times> string) list"
  w_dirs :: "path list"
  w_fds :: "(int \<times> path) list"
  w_policy :: "Policy option"
  w_os :: "os_answer stream"

type_synonym 'a io = "(world, 'a) prog"

definition nominal :: "world \<Rightarrow> bool" where
  "nominal w \<longleftrightarrow> w_policy w = None \<and> w_os w = sconst OsOk"

definition EINTR :: int where "EINTR = 4"
definition ENOENT :: int where "ENOENT = 2"
definition EIO :: int where "EIO = 5"
definition EBADF :: int where "EBADF = 9"
definition EEXIST :: int where "EEXIST = 17"
definition EISDIR :: int where "EISDIR = 21"

text \<open>The content of a regular file.\<close>

abbreviation content_of :: "world \<Rightarrow> path \<Rightarrow> string option" where
  "content_of w p \<equiv> map_of (w_files w) p"

definition set_file :: "path \<Rightarrow> string \<Rightarrow> world \<Rightarrow> world" where
  "set_file p c w = w\<lparr>w_files := AList.update p c (w_files w)\<rparr>"

definition del_file :: "path \<Rightarrow> world \<Rightarrow> world" where
  "del_file p w = w\<lparr>w_files := AList.delete p (w_files w)\<rparr>"

section \<open>System calls\<close>

text \<open>The next answer. An error is never errno zero.\<close>

definition os_next :: "world \<Rightarrow> os_answer \<times> world" where
  "os_next w =
     (case shd (w_os w) of OsErr e \<Rightarrow> OsErr (if e = 0 then EIO else e) | a \<Rightarrow> a,
      w\<lparr>w_os := stl (w_os w)\<rparr>)"

text \<open>The lowest descriptor above the standard streams that is not in use.\<close>

definition fresh_fd :: "(int \<times> path) list \<Rightarrow> int" where
  "fresh_fd fds = hd (filter (\<lambda>i. i \<notin> fst ` set fds) (map int [3..<4 + length fds]))"

definition alloc_fd :: "path \<Rightarrow> world \<Rightarrow> int \<times> world" where
  "alloc_fd p w = (fresh_fd (w_fds w), w\<lparr>w_fds := (fresh_fd (w_fds w), p) # w_fds w\<rparr>)"

definition sys_write :: "int \<Rightarrow> string \<Rightarrow> world \<Rightarrow> (int + nat) \<times> world" where
  "sys_write fd data w0 =
     (case os_next w0 of (a, w) \<Rightarrow>
       case map_of (w_fds w) fd of
         None \<Rightarrow> (Inl EBADF, w)
       | Some p \<Rightarrow>
           (case a of
              OsErr e \<Rightarrow> (Inl e, w)
            | _ \<Rightarrow>
                let n = (case a of OsShort k \<Rightarrow> min k (length data) | _ \<Rightarrow> length data)
                in (Inr n, case content_of w p of None \<Rightarrow> w | Some c \<Rightarrow> set_file p (c @ take n data) w)))"

text \<open>Calls that answer zero or an errno.\<close>

definition sys_fsync :: "int \<Rightarrow> world \<Rightarrow> int \<times> world" where
  "sys_fsync fd w0 =
     (case os_next w0 of (a, w) \<Rightarrow>
       if map_of (w_fds w) fd = None then (EBADF, w)
       else (case a of OsErr e \<Rightarrow> e | _ \<Rightarrow> 0, w))"

definition sys_close :: "int \<Rightarrow> world \<Rightarrow> int \<times> world" where
  "sys_close fd w0 =
     (case os_next w0 of (a, w) \<Rightarrow>
       if map_of (w_fds w) fd = None then (EBADF, w)
       else (case a of OsErr e \<Rightarrow> e | _ \<Rightarrow> 0, w\<lparr>w_fds := AList.delete fd (w_fds w)\<rparr>))"

definition sys_rename :: "path \<Rightarrow> path \<Rightarrow> world \<Rightarrow> int \<times> world" where
  "sys_rename old new w0 =
     (case os_next w0 of (a, w) \<Rightarrow>
       case a of
         OsErr e \<Rightarrow> (e, w)
       | _ \<Rightarrow> (case content_of w old of
                 None \<Rightarrow> (ENOENT, w)
               | Some c \<Rightarrow> if new \<in> set (w_dirs w) then (EISDIR, w)
                           else (0, set_file new c (del_file old w))))"

definition sys_remove :: "path \<Rightarrow> world \<Rightarrow> int \<times> world" where
  "sys_remove p w0 =
     (case os_next w0 of (a, w) \<Rightarrow>
       case a of
         OsErr e \<Rightarrow> (e, w)
       | _ \<Rightarrow> (case content_of w p of None \<Rightarrow> (ENOENT, w) | Some _ \<Rightarrow> (0, del_file p w)))"

definition sys_ftruncate :: "int \<Rightarrow> nat \<Rightarrow> world \<Rightarrow> int \<times> world" where
  "sys_ftruncate fd n w0 =
     (case os_next w0 of (a, w) \<Rightarrow>
       case map_of (w_fds w) fd of
         None \<Rightarrow> (EBADF, w)
       | Some p \<Rightarrow>
           (case a of
              OsErr e \<Rightarrow> (e, w)
            | _ \<Rightarrow> (0, case content_of w p of
                         None \<Rightarrow> w
                       | Some c \<Rightarrow> set_file p (take n c @ replicate (n - length c) (char_of (0::nat))) w)))"

text \<open>\<open>::open\<close> answers an errno or the new descriptor; \<open>excl\<close> is \<open>O_EXCL\<close>, \<open>trunc\<close> is \<open>O_TRUNC\<close>.\<close>

definition sys_open_write :: "bool \<Rightarrow> bool \<Rightarrow> path \<Rightarrow> world \<Rightarrow> (int + int) \<times> world" where
  "sys_open_write excl trunc p w0 =
     (case os_next w0 of (a, w) \<Rightarrow>
       case a of
         OsErr e \<Rightarrow> (Inl e, w)
       | _ \<Rightarrow>
           if p \<in> set (w_dirs w) then (Inl (if excl then EEXIST else EISDIR), w)
           else if butlast p \<notin> set (w_dirs w) then (Inl ENOENT, w)
           else if excl \<and> content_of w p \<noteq> None then (Inl EEXIST, w)
           else
             let w1 = (if trunc \<or> content_of w p = None then set_file p [] w else w)
             in (case alloc_fd p w1 of (fd, w2) \<Rightarrow> (Inr fd, w2)))"

definition sys_open_dir :: "path \<Rightarrow> world \<Rightarrow> (int + int) \<times> world" where
  "sys_open_dir p w0 =
     (case os_next w0 of (a, w) \<Rightarrow>
       case a of
         OsErr e \<Rightarrow> (Inl e, w)
       | _ \<Rightarrow> if p \<in> set (w_dirs w) \<or> content_of w p \<noteq> None
             then (case alloc_fd p w of (fd, w2) \<Rightarrow> (Inr fd, w2))
             else (Inl ENOENT, w))"

text \<open>Queries of \<open>std::filesystem\<close>, with the error code they may report.\<close>

definition fs_query :: "(world \<Rightarrow> 'a) \<Rightarrow> world \<Rightarrow> (int + 'a) \<times> world" where
  "fs_query f w0 =
     (case os_next w0 of (a, w) \<Rightarrow> (case a of OsErr e \<Rightarrow> Inl e | _ \<Rightarrow> Inr (f w), w))"

definition path_exists :: "path \<Rightarrow> world \<Rightarrow> bool" where
  "path_exists p w \<longleftrightarrow> content_of w p \<noteq> None \<or> p \<in> set (w_dirs w)"

definition is_dir :: "path \<Rightarrow> world \<Rightarrow> bool" where
  "is_dir p w \<longleftrightarrow> p \<in> set (w_dirs w)"

text \<open>The overloads that throw \<open>filesystem_error\<close> instead.\<close>

definition fs_throwing :: "(world \<Rightarrow> 'a) \<Rightarrow> 'a io" where
  "fs_throwing f =
     io_bind (io_act (fs_query f)) (\<lambda>r.
       case r of Inl e \<Rightarrow> io_throw (system_error e ''filesystem error'') | Inr x \<Rightarrow> io_ret x)"

text \<open>\<open>create_directories\<close>: every missing ancestor; it fails on a regular file in the way.\<close>

definition fs_create_directories :: "path \<Rightarrow> world \<Rightarrow> int \<times> world" where
  "fs_create_directories p w0 =
     (case os_next w0 of (a, w) \<Rightarrow>
       case a of
         OsErr e \<Rightarrow> (e, w)
       | _ \<Rightarrow>
           if (\<exists>q \<in> set (prefixes p). content_of w q \<noteq> None) then (EEXIST, w)
           else (0, w\<lparr>w_dirs := w_dirs w @ filter (\<lambda>q. q \<notin> set (w_dirs w)) (prefixes p)\<rparr>))"

text \<open>\<open>std::ifstream input(path)\<close>: the bytes the stream will deliver, if it opens.\<close>

definition sys_open_read :: "path \<Rightarrow> world \<Rightarrow> string option \<times> world" where
  "sys_open_read p w0 =
     (case os_next w0 of (a, w) \<Rightarrow> (case a of OsErr e \<Rightarrow> None | _ \<Rightarrow> content_of w p, w))"

text \<open>The regular files of a directory, in the order the iterator reports them.\<close>

definition dir_entries :: "path \<Rightarrow> world \<Rightarrow> path list" where
  "dir_entries d w = filter (\<lambda>p. p \<noteq> [] \<and> butlast p = d) (map fst (w_files w))"

section \<open>The fault-injection seam\<close>

definition install :: "Policy \<Rightarrow> world \<Rightarrow> world" where
  "install policy w = w\<lparr>w_policy := Some policy\<rparr>"

definition clear :: "world \<Rightarrow> world" where
  "clear w = w\<lparr>w_policy := None\<rparr>"

text \<open>The scope of a \<open>ScopedPolicy\<close>: installs on construction, clears on destruction.\<close>

definition ScopedPolicy :: "Policy \<Rightarrow> 'a io \<Rightarrow> 'a io" where
  "ScopedPolicy policy m = io_bind (io_upd (install policy)) (\<lambda>_. io_scope m clear)"

definition consult :: "Op \<Rightarrow> int \<Rightarrow> nat \<Rightarrow> world \<Rightarrow> Decision \<times> world" where
  "consult operation fd sz w =
     (case w_policy w of
        None \<Rightarrow> (Decision_proceed, w)
      | Some policy \<Rightarrow>
          (policy_decision policy operation fd sz,
           w\<lparr>w_policy := Some (policy_after policy operation fd sz)\<rparr>))"

primcorec failNth_from :: "u32 \<Rightarrow> Op \<Rightarrow> u32 \<Rightarrow> int \<Rightarrow> Policy" where
  "policy_decision (failNth_from seen operation occurrence errno) =
     (\<lambda>currentOperation fd sz.
        if currentOperation \<noteq> operation then Decision_proceed
        else if seen + 1 = occurrence then Decision_fail errno else Decision_proceed)"
| "policy_after (failNth_from seen operation occurrence errno) =
     (\<lambda>currentOperation fd sz.
        failNth_from (if currentOperation \<noteq> operation then seen else seen + 1)
          operation occurrence errno)"

definition failNth :: "Op \<Rightarrow> u32 \<Rightarrow> int \<Rightarrow> Policy" where
  "failNth = failNth_from 0"

primcorec failEvery :: "Op \<Rightarrow> int \<Rightarrow> Policy" where
  "policy_decision (failEvery operation errno) =
     (\<lambda>currentOperation fd sz.
        if currentOperation = operation then Decision_fail errno else Decision_proceed)"
| "policy_after (failEvery operation errno) = (\<lambda>currentOperation fd sz. failEvery operation errno)"

text \<open>\<open>fault::write\<close> and \<open>fault::fsync\<close>: the errno of a failure, else the bytes written or zero.\<close>

definition fault_write :: "int \<Rightarrow> string \<Rightarrow> world \<Rightarrow> (int + nat) \<times> world" where
  "fault_write fd data w0 =
     (case consult Op_Write fd (length data) w0 of (decision, w) \<Rightarrow>
       if errnoValue decision \<noteq> 0 then (Inl (errnoValue decision), w) else sys_write fd data w)"

definition fault_fsync :: "int \<Rightarrow> world \<Rightarrow> int \<times> world" where
  "fault_fsync fd w0 =
     (case consult Op_Fsync fd 0 w0 of (decision, w) \<Rightarrow>
       if errnoValue decision \<noteq> 0 then (errnoValue decision, w) else sys_fsync fd w)"

section \<open>Lemmas\<close>

lemma file_set_file [simp]: "content_of (set_file p c w) = (content_of w)(p \<mapsto> c)"
  by (simp add: set_file_def update_conv' fun_eq_iff)

lemma file_del_file [simp]: "content_of (del_file p w) = (content_of w)(p := None)"
  by (simp add: del_file_def delete_conv' fun_eq_iff)

lemma set_file_fields [simp]:
  "w_dirs (set_file p c w) = w_dirs w" "w_fds (set_file p c w) = w_fds w"
  "w_policy (set_file p c w) = w_policy w" "w_os (set_file p c w) = w_os w"
  by (simp_all add: set_file_def)

lemma del_file_fields [simp]:
  "w_dirs (del_file p w) = w_dirs w" "w_fds (del_file p w) = w_fds w"
  "w_policy (del_file p w) = w_policy w" "w_os (del_file p w) = w_os w"
  by (simp_all add: del_file_def)

lemma os_next_frame:
  "os_next w = (a, w') \<Longrightarrow>
   w_files w' = w_files w \<and> w_dirs w' = w_dirs w \<and> w_fds w' = w_fds w \<and> a \<noteq> OsErr 0"
  by (auto simp: os_next_def EIO_def split: os_answer.splits if_splits)

lemma consult_frame:
  "consult op fd n w = (d, w') \<Longrightarrow>
   w_files w' = w_files w \<and> w_dirs w' = w_dirs w \<and> w_fds w' = w_fds w \<and> w_os w' = w_os w"
  by (auto simp: consult_def split: option.splits)

text \<open>In a nominal world a system call always succeeds and leaves the world nominal.\<close>

lemma nominal_os_next [simp]: "nominal w \<Longrightarrow> os_next w = (OsOk, w)"
  by (cases w) (simp add: nominal_def os_next_def)

lemma nominal_consult [simp]: "nominal w \<Longrightarrow> consult op fd n w = (Decision_proceed, w)"
  by (simp add: nominal_def consult_def)

lemma nominal_set_file [simp]: "nominal (set_file p c w) = nominal w"
  by (simp add: nominal_def)

lemma nominal_del_file [simp]: "nominal (del_file p w) = nominal w"
  by (simp add: nominal_def)

lemma nominal_fds [simp]: "nominal (w\<lparr>w_fds := f\<rparr>) = nominal w"
  by (simp add: nominal_def)

lemma nominal_dirs [simp]: "nominal (w\<lparr>w_dirs := d\<rparr>) = nominal w"
  by (simp add: nominal_def)

lemma fresh_fd_mem:
  "fresh_fd fds \<in> set (filter (\<lambda>i. i \<notin> fst ` set fds) (map int [3..<4 + length fds]))"
proof -
  let ?c = "map int [3..<4 + length fds]"
  have "\<not> set ?c \<subseteq> fst ` set fds"
  proof
    assume "set ?c \<subseteq> fst ` set fds"
    then have "card (set ?c) \<le> card (fst ` set fds)" by (intro card_mono) simp_all
    also have "\<dots> \<le> length fds" by (metis card_image_le card_length finite_set le_trans)
    finally show False by (simp add: card_image)
  qed
  then have "filter (\<lambda>i. i \<notin> fst ` set fds) ?c \<noteq> []" by (auto simp: filter_empty_conv)
  then show ?thesis unfolding fresh_fd_def by (rule hd_in_set)
qed

lemma fresh_fd_fresh: "fresh_fd fds \<notin> fst ` set fds"
  using fresh_fd_mem [of fds] by simp

lemma fresh_fd_lookup [simp]: "map_of fds (fresh_fd fds) = None"
  using fresh_fd_fresh by (simp add: map_of_eq_None_iff)

lemma fresh_fd_ge: "fresh_fd fds \<ge> 3"
  using fresh_fd_mem [of fds] by auto

end
