(* ===== verification/FileIO.thy ===== *)
theory FileIO
  imports FaultInjection
begin

text \<open>
  The file primitives of \<open>src/utils.cpp\<close>: \<open>removeFile\<close>, \<open>writeAll\<close>, the descriptor guard and the
  \<open>FileWriter\<close>, which writes a file under a temporary name and publishes it with a rename.
\<close>

section \<open>Definitions\<close>

definition removeFile :: "path \<Rightarrow> string \<Rightarrow> unit io" where
  "removeFile p message =
     io_bind (io_act (sys_remove p)) (\<lambda>err.
       if err \<noteq> 0 then io_throw (system_error err message) else io_ret ())"

text \<open>The loop retries a write that was interrupted, so it runs forever if every one is.\<close>

partial_function (option) writeAll :: "int \<Rightarrow> string \<Rightarrow> unit io" where
  "writeAll fd data w =
     (if data = [] then Some (Inr (), w)
      else
        case fault_write fd data w of (r, w') \<Rightarrow>
          (case r of
             Inl err \<Rightarrow>
               if err = EINTR then writeAll fd data w'
               else Some (Inl (system_error err ''write failed''), w')
           | Inr written \<Rightarrow>
               if written = 0 then Some (Inl (runtime_error ''write returned 0''), w')
               else writeAll fd (drop written data) w'))"

text \<open>The guard owns a descriptor, or none when it holds a negative number.\<close>

definition FdGuard_dtor :: "int \<Rightarrow> world \<Rightarrow> world" where
  "FdGuard_dtor fd w = (if fd \<ge> 0 then snd (sys_close fd w) else w)"

definition FdGuard_setFd :: "int \<Rightarrow> int \<Rightarrow> world \<Rightarrow> int \<times> world" where
  "FdGuard_setFd fd0 fd w = (fd, if fd0 \<ge> 0 then snd (sys_close fd0 w) else w)"

definition FdGuard_close :: "(world \<times> int, unit) prog" where
  "FdGuard_close =
     io_bind (io_get snd) (\<lambda>fd0.
       if fd0 < 0 then io_ret ()
       else
         io_bind (io_outer (io_act (sys_close fd0))) (\<lambda>err.
           if err \<noteq> 0 then io_throw (system_error err ''close failed'')
           else io_upd (\<lambda>(w, _). (w, -1))))"

record FileWriter =
  fw_path :: path
  fw_temporaryPath :: path
  fw_parentDirectory :: path
  fw_dataFile :: int

type_synonym 'a fw = "(world \<times> FileWriter, 'a) prog"

definition temporary_path :: "path \<Rightarrow> path" where
  "temporary_path p = butlast p @ [last p @ ''.tmp'']"

definition FileWriter_new :: "path \<Rightarrow> FileWriter io" where
  "FileWriter_new p =
     (let parent = (if butlast p = [] then [''.''] else butlast p) in
      io_bind
        (if butlast p = [] then io_ret ()
         else io_bind (io_act (fs_create_directories parent)) (\<lambda>err.
           if err \<noteq> 0 then io_throw (system_error err ''filesystem error'') else io_ret ()))
        (\<lambda>_. io_bind (io_act (sys_open_write False True (temporary_path p))) (\<lambda>r.
           case r of
             Inl _ \<Rightarrow> io_throw (runtime_error ''Failed to open file for writing!'')
           | Inr fd \<Rightarrow>
               io_bind (io_act (FdGuard_setFd (-1) fd)) (\<lambda>fd'.
                 io_ret \<lparr>fw_path = p, fw_temporaryPath = temporary_path p,
                         fw_parentDirectory = parent, fw_dataFile = fd'\<rparr>))))"

definition FileWriter_dtor :: "FileWriter \<Rightarrow> world \<Rightarrow> world" where
  "FileWriter_dtor fw = FdGuard_dtor (fw_dataFile fw)"

text \<open>\<open>writeAll(writer.getFd(), ...)\<close>\<close>

definition fw_write :: "string \<Rightarrow> unit fw" where
  "fw_write data = io_bind (io_get (\<lambda>(w, fw). fw_dataFile fw)) (\<lambda>fd. io_outer (writeAll fd data))"

definition FileWriter_add :: "Record \<Rightarrow> u64 fw" where
  "FileWriter_add record =
     io_bind (io_lift (encodeSSTableRecord record)) (\<lambda>encoded.
     io_bind (fw_write encoded) (\<lambda>_.
     io_bind (fw_write (put_u32 (crc32 encoded))) (\<lambda>_.
     io_ret (encodedRecordSize record))))"

text \<open>\<open>dataFile_.close()\<close>: the guard inside the writer.\<close>

definition fw_close :: "unit fw" where
  "fw_close = (\<lambda>(w, fw).
     case FdGuard_close (w, fw_dataFile fw) of
       None \<Rightarrow> None
     | Some (r, (w', fd')) \<Rightarrow> Some (r, (w', fw\<lparr>fw_dataFile := fd'\<rparr>)))"

definition FileWriter_finish :: "unit fw" where
  "FileWriter_finish =
     io_bind (io_get snd) (\<lambda>fw.
     io_bind (io_outer (io_act (fault_fsync (fw_dataFile fw)))) (\<lambda>err.
     if err \<noteq> 0 then io_throw (runtime_error ''Failed to fsync table!'') else
     io_bind fw_close (\<lambda>_.
     io_bind (io_outer (io_act (sys_rename (fw_temporaryPath fw) (fw_path fw)))) (\<lambda>err.
     if err \<noteq> 0 then io_throw (system_error err ''rename failed'') else
     io_bind (io_outer (io_act (sys_open_dir (fw_parentDirectory fw)))) (\<lambda>r.
     case r of
       Inl _ \<Rightarrow> io_throw (runtime_error ''Failed to open dir for reading!'')
     | Inr directoryDescriptor \<Rightarrow>
         io_outer (io_local directoryDescriptor
           (io_bind (io_outer (io_act (fault_fsync directoryDescriptor))) (\<lambda>err.
            if err \<noteq> 0 then io_throw (runtime_error ''Failed to fsync dir!'')
            else FdGuard_close))
           FdGuard_dtor))))))"

text \<open>A block \<open>{ FileWriter writer(path); body }\<close>.\<close>

definition with_FileWriter :: "path \<Rightarrow> 'a fw \<Rightarrow> 'a io" where
  "with_FileWriter p body =
     io_bind (FileWriter_new p) (\<lambda>fw. io_local fw body FileWriter_dtor)"

section \<open>Lemmas\<close>

lemma set_file_same: "content_of w p = Some c \<Longrightarrow> set_file p c w = w"
  by (simp add: set_file_def update_triv)

lemma set_file_twice [simp]: "set_file p c (set_file p d w) = set_file p c w"
  by (simp add: set_file_def update_last)

lemma del_set_file [simp]: "del_file p (set_file p c w) = del_file p w"
  by (simp add: del_file_def set_file_def delete_update_same)

lemma world_eta [simp]: "w\<lparr>w_fds := w_fds w\<rparr> = (w :: world)"
  by simp

text \<open>
  \<open>open_on w fd p c\<close>: descriptor \<open>fd\<close> is open on the file \<open>p\<close>, which holds \<open>c\<close>.
\<close>

definition open_on :: "world \<Rightarrow> int \<Rightarrow> path \<Rightarrow> string \<Rightarrow> bool" where
  "open_on w fd p c \<longleftrightarrow> map_of (w_fds w) fd = Some p \<and> content_of w p = Some c"

lemma open_on_set_file [simp]: "open_on w fd p c \<Longrightarrow> open_on (set_file p d w) fd p d"
  by (simp add: open_on_def)

subsection \<open>Nominal runs\<close>

lemma nominal_fault_write:
  "nominal w \<Longrightarrow> open_on w fd p c \<Longrightarrow>
   fault_write fd data w = (Inr (length data), set_file p (c @ data) w)"
  by (simp add: fault_write_def Decision_proceed_def sys_write_def open_on_def)

lemma nominal_fault_fsync:
  "nominal w \<Longrightarrow> map_of (w_fds w) fd \<noteq> None \<Longrightarrow> fault_fsync fd w = (0, w)"
  by (auto simp add: fault_fsync_def Decision_proceed_def sys_fsync_def)

lemma nominal_writeAll:
  "nominal w \<Longrightarrow> open_on w fd p c \<Longrightarrow> writeAll fd data w = Some (Inr (), set_file p (c @ data) w)"
proof (cases "data = []")
  case True
  assume "open_on w fd p c"
  with True show ?thesis by (simp add: writeAll.simps set_file_same open_on_def)
next
  case False
  assume "nominal w" "open_on w fd p c"
  with False show ?thesis by (simp add: writeAll.simps nominal_fault_write)
qed

text \<open>
  \<open>appends m x d\<close>: in a nominal world the writer program \<open>m\<close> returns \<open>x\<close> and appends exactly
  \<open>d\<close> to the temporary file, changing nothing else.
\<close>

definition appends :: "'a fw \<Rightarrow> 'a \<Rightarrow> string \<Rightarrow> bool" where
  "appends m x d \<longleftrightarrow>
     (\<forall>w fw c. nominal w \<longrightarrow> open_on w (fw_dataFile fw) (fw_temporaryPath fw) c \<longrightarrow>
        m (w, fw) = Some (Inr x, (set_file (fw_temporaryPath fw) (c @ d) w, fw)))"

lemma appends_run:
  "appends m x d \<Longrightarrow> nominal w \<Longrightarrow> open_on w (fw_dataFile fw) (fw_temporaryPath fw) c \<Longrightarrow>
   m (w, fw) = Some (Inr x, (set_file (fw_temporaryPath fw) (c @ d) w, fw))"
  by (simp add: appends_def)

lemma appends_ret: "appends (io_ret x) x []"
  by (auto simp: appends_def set_file_same open_on_def)

lemma appends_lift: "appends (io_lift (Inr x)) x []"
  by (auto simp: appends_def set_file_same open_on_def)

lemma appends_bind:
  assumes "appends m x d" "appends (f x) y d'"
  shows "appends (io_bind m f) y (d @ d')"
  unfolding appends_def
proof (intro allI impI)
  fix w c and fw :: FileWriter
  assume w: "nominal w" and o: "open_on w (fw_dataFile fw) (fw_temporaryPath fw) c"
  let ?w = "set_file (fw_temporaryPath fw) (c @ d) w"
  have "m (w, fw) = Some (Inr x, (?w, fw))"
    using assms(1) w o by (rule appends_run)
  moreover have "f x (?w, fw) = Some (Inr y, (set_file (fw_temporaryPath fw) ((c @ d) @ d') ?w, fw))"
    using assms(2) w o by (intro appends_run) simp_all
  ultimately show "io_bind m f (w, fw) =
      Some (Inr y, (set_file (fw_temporaryPath fw) (c @ d @ d') w, fw))"
    by simp
qed

lemma appends_write: "appends (fw_write data) () data"
  unfolding appends_def
proof (intro allI impI)
  fix w c and fw :: FileWriter
  assume "nominal w" "open_on w (fw_dataFile fw) (fw_temporaryPath fw) c"
  then show "fw_write data (w, fw) = Some (Inr (), set_file (fw_temporaryPath fw) (c @ data) w, fw)"
    by (simp add: fw_write_def io_bind_def io_outer_def nominal_writeAll)
qed

text \<open>The bytes of one record in the file: its encoding followed by its checksum.\<close>

definition record_bytes :: "Record \<Rightarrow> string" where
  "record_bytes r = (case encodeSSTableRecord r of Inl _ \<Rightarrow> [] | Inr e \<Rightarrow> e @ put_u32 (crc32 e))"

text \<open>What a published file leaves behind in a nominal world.\<close>

definition mkdirs :: "path \<Rightarrow> world \<Rightarrow> world" where
  "mkdirs p w = w\<lparr>w_dirs := w_dirs w @ filter (\<lambda>q. q \<notin> set (w_dirs w)) (prefixes p)\<rparr>"

definition publish :: "path \<Rightarrow> string \<Rightarrow> world \<Rightarrow> world" where
  "publish p c w = set_file p c (del_file (temporary_path p) (mkdirs (butlast p) w))"

text \<open>\<open>writable w p\<close>: nothing is in the way of creating \<open>p\<close> and its temporary.\<close>

definition writable :: "world \<Rightarrow> path \<Rightarrow> bool" where
  "writable w p \<longleftrightarrow> butlast p \<noteq> [] \<and> p \<noteq> []
     \<and> (\<forall>q \<in> set (prefixes (butlast p)). content_of w q = None)
     \<and> p \<notin> set (w_dirs w) \<and> temporary_path p \<notin> set (w_dirs w)"

lemma temporary_path_props [simp]:
  "butlast (temporary_path p) = butlast p" "temporary_path p \<noteq> []"
  by (simp_all add: temporary_path_def)

lemma temporary_path_neq [simp]: "p \<noteq> [] \<Longrightarrow> temporary_path p \<noteq> p"
  by (simp add: temporary_path_def) (metis append_butlast_last_id last_snoc append_self_conv list.discI)

lemma not_prefix_butlast: "p \<noteq> [] \<Longrightarrow> p \<notin> set (prefixes (butlast p))"
  by (metis in_set_prefixes not_prefix_induct append_butlast_last_id prefix_length_le length_butlast
      diff_less length_greater_0_conv less_one linorder_not_less)


lemma nominal_create_directories:
  "nominal w \<Longrightarrow> \<forall>q \<in> set (prefixes p). content_of w q = None \<Longrightarrow>
   fs_create_directories p w = (0, mkdirs p w)"
  by (simp add: fs_create_directories_def mkdirs_def)

lemma mkdirs_fields [simp]:
  "w_files (mkdirs p w) = w_files w" "w_fds (mkdirs p w) = w_fds w"
  "nominal (mkdirs p w) = nominal w" "set (w_dirs (mkdirs p w)) = set (w_dirs w) \<union> set (prefixes p)"
  by (auto simp: mkdirs_def nominal_def)

definition writer_on :: "path \<Rightarrow> int \<Rightarrow> FileWriter" where
  "writer_on p fd = \<lparr>fw_path = p, fw_temporaryPath = temporary_path p,
     fw_parentDirectory = butlast p, fw_dataFile = fd\<rparr>"

lemma writer_on_fields [simp]:
  "fw_path (writer_on p fd) = p" "fw_temporaryPath (writer_on p fd) = temporary_path p"
  "fw_parentDirectory (writer_on p fd) = butlast p" "fw_dataFile (writer_on p fd) = fd"
  "writer_on p fd\<lparr>fw_dataFile := fd'\<rparr> = writer_on p fd'"
  by (simp_all add: writer_on_def)

lemma prefixes_self [simp]: "p \<in> set (prefixes p)"
  by simp

lemma nominal_FileWriter_new:
  assumes "nominal w" "writable w p"
  shows "FileWriter_new p w = Some (Inr (writer_on p (fresh_fd (w_fds w))),
    set_file (temporary_path p) [] (mkdirs (butlast p) w)
      \<lparr>w_fds := (fresh_fd (w_fds w), temporary_path p) # w_fds w\<rparr>)"
proof -
  let ?w = "mkdirs (butlast p) w"
  have t: "temporary_path p \<notin> set (w_dirs ?w)" "butlast p \<in> set (w_dirs ?w)"
    using assms(2) not_prefix_butlast [of "temporary_path p"] by (simp_all add: writable_def)
  have "sys_open_write False True (temporary_path p) ?w =
     (Inr (fresh_fd (w_fds w)), set_file (temporary_path p) [] ?w
      \<lparr>w_fds := (fresh_fd (w_fds w), temporary_path p) # w_fds w\<rparr>)"
    using assms(1) t by (simp add: sys_open_write_def alloc_fd_def Let_def)
  moreover have "fs_create_directories (butlast p) w = (0, ?w)"
    using assms by (intro nominal_create_directories) (auto simp: writable_def)
  ultimately show ?thesis
    using assms(2) unfolding FileWriter_new_def
    by (simp add: writable_def io_bind_def io_act_def FdGuard_setFd_def writer_on_def Let_def)
qed

lemma delete_fresh: "fd \<notin> fst ` set fds \<Longrightarrow> AList.delete fd ((fd, p) # fds) = fds"
  by (simp add: delete_idem)

lemma nominal_sys_close:
  "nominal w \<Longrightarrow> map_of (w_fds w) fd \<noteq> None \<Longrightarrow>
   sys_close fd w = (0, w\<lparr>w_fds := AList.delete fd (w_fds w)\<rparr>)"
  by (auto simp: sys_close_def)

lemma nominal_finish:
  assumes "nominal w" "open_on w fd (temporary_path p) c" "fd \<ge> 0"
    and "p \<notin> set (w_dirs w)" "butlast p \<in> set (w_dirs w)"
  shows "FileWriter_finish (w, writer_on p fd) = Some (Inr (),
     (set_file p c (del_file (temporary_path p) (w\<lparr>w_fds := AList.delete fd (w_fds w)\<rparr>)),
      writer_on p (-1)))"
proof -
  define w1 where "w1 = w\<lparr>w_fds := AList.delete fd (w_fds w)\<rparr>"
  define w2 where "w2 = set_file p c (del_file (temporary_path p) w1)"
  define d where "d = fresh_fd (w_fds w2)"
  define w3 where "w3 = w2\<lparr>w_fds := (d, butlast p) # w_fds w2\<rparr>"
  have fs: "fault_fsync fd w = (0, w)"
    using assms by (intro nominal_fault_fsync) (auto simp: open_on_def)
  have cl: "fw_close (w, writer_on p fd) = Some (Inr (), (w1, writer_on p (-1)))"
    using assms nominal_sys_close [of w fd]
    by (simp add: fw_close_def FdGuard_close_def io_bind_def io_outer_def io_act_def open_on_def w1_def)
  have rn: "sys_rename (temporary_path p) p w1 = (0, w2)"
    using assms by (simp add: sys_rename_def open_on_def w1_def w2_def)
  have op: "sys_open_dir (butlast p) w2 = (Inr d, w3)"
    using assms by (simp add: sys_open_dir_def alloc_fd_def w1_def w2_def w3_def d_def)
  have n3: "nominal w3" and d3: "map_of (w_fds w3) d \<noteq> None"
    using assms by (simp_all add: w1_def w2_def w3_def)
  have fd3: "fault_fsync d w3 = (0, w3)"
    using n3 d3 by (rule nominal_fault_fsync)
  have "AList.delete d ((d, butlast p) # w_fds w2) = w_fds w2"
    unfolding d_def by (rule delete_fresh [OF fresh_fd_fresh])
  then have cl3: "sys_close d w3 = (0, w2)"
    using nominal_sys_close [OF n3 d3] by (simp add: w3_def)
  have "d \<ge> 3" unfolding d_def by (rule fresh_fd_ge)
  then show ?thesis
    unfolding FileWriter_finish_def w1_def [symmetric] w2_def [symmetric]
    by (simp add: io_bind_def io_outer_def io_act_def io_local_def fs cl rn op fd3 cl3
        FdGuard_close_def FdGuard_dtor_def)
qed

text \<open>
  A writer block whose body appends \<open>c\<close> publishes exactly \<open>c\<close> under the final name, and leaves
  neither a temporary file nor an open descriptor behind.
\<close>

lemma nominal_with_FileWriter:
  assumes "nominal w" "writable w p" "appends body x c"
  shows "with_FileWriter p (io_bind body (\<lambda>x. io_bind FileWriter_finish (\<lambda>_. io_ret x))) w
    = Some (Inr x, publish p c w)"
proof -
  define fd where "fd = fresh_fd (w_fds w)"
  define w1 where "w1 = set_file (temporary_path p) [] (mkdirs (butlast p) w)
      \<lparr>w_fds := (fd, temporary_path p) # w_fds w\<rparr>"
  define w2 where "w2 = set_file (temporary_path p) c w1"
  have new: "FileWriter_new p w = Some (Inr (writer_on p fd), w1)"
    unfolding w1_def fd_def by (rule nominal_FileWriter_new [OF assms(1,2)])
  have w1: "nominal w1" "open_on w1 fd (temporary_path p) []"
    using assms(1) by (simp_all add: w1_def open_on_def)
  have body: "body (w1, writer_on p fd) = Some (Inr x, (w2, writer_on p fd))"
    using appends_run [OF assms(3), of w1 "writer_on p fd" "[]"] w1 by (simp add: w2_def)
  have p: "p \<notin> set (w_dirs w2)" "butlast p \<in> set (w_dirs w2)"
    using assms(2) not_prefix_butlast [of p] by (simp_all add: w1_def w2_def writable_def)
  have "FileWriter_finish (w2, writer_on p fd) = Some (Inr (),
     (set_file p c (del_file (temporary_path p) (w2\<lparr>w_fds := AList.delete fd (w_fds w2)\<rparr>)),
      writer_on p (-1)))"
    using w1 p fresh_fd_ge [of "w_fds w"]
    by (intro nominal_finish) (simp_all add: w2_def fd_def)
  moreover have "del_file (temporary_path p) (w2\<lparr>w_fds := AList.delete fd (w_fds w2)\<rparr>)
      = del_file (temporary_path p) (mkdirs (butlast p) w)"
    using delete_fresh [OF fresh_fd_fresh, of "w_fds w" "temporary_path p"]
    by (simp add: w2_def w1_def fd_def del_file_def set_file_def mkdirs_def delete_update_same)
  ultimately have fin: "FileWriter_finish (w2, writer_on p fd)
      = Some (Inr (), (publish p c w, writer_on p (-1)))"
    by (simp add: publish_def)
  show ?thesis
    unfolding with_FileWriter_def
    by (simp add: io_bind_def io_local_def new body fin FileWriter_dtor_def FdGuard_dtor_def)
qed

subsection \<open>Runs with faults\<close>

lemma fault_fsync_frame:
  "fault_fsync fd w = (e, w') \<Longrightarrow>
   w_files w' = w_files w \<and> w_dirs w' = w_dirs w \<and> w_fds w' = w_fds w"
  by (auto simp: fault_fsync_def sys_fsync_def split: prod.splits if_splits
      dest!: os_next_frame consult_frame)

lemma sys_close_frame:
  "sys_close fd w = (e, w') \<Longrightarrow>
   w_files w' = w_files w \<and> w_dirs w' = w_dirs w \<and> w_fds w' = AList.delete fd (w_fds w)"
  by (auto simp: sys_close_def map_of_eq_None_iff split: prod.splits if_splits dest!: os_next_frame
      intro!: delete_idem [symmetric])

lemma fault_write_cases:
  assumes "fault_write fd data w = (r, w')" "open_on w fd p c"
  obtains (failed) err where "r = Inl err" "w_files w' = w_files w" "w_dirs w' = w_dirs w"
      "w_fds w' = w_fds w"
  | (wrote) n where "r = Inr n" "n \<le> length data" "w_files w' = w_files (set_file p (c @ take n data) w)"
      "w_dirs w' = w_dirs w" "w_fds w' = w_fds w"
proof -
  obtain d w1 where co: "consult Op_Write fd (length data) w = (d, w1)" by fastforce
  obtain a w2 where os: "os_next w1 = (a, w2)" by fastforce
  note fr = consult_frame [OF co] os_next_frame [OF os]
  show thesis
  proof (cases "errnoValue d \<noteq> 0")
    case True
    with assms(1) co fr show thesis by (intro failed) (auto simp: fault_write_def)
  next
    case False
    with assms co os fr show thesis
      by (cases a)
        (auto simp: fault_write_def sys_write_def open_on_def set_file_def Let_def
          intro: failed wrote)
  qed
qed

text \<open>Some first part of the data was appended, all of it if the answer is normal.\<close>

definition part_written :: "path \<Rightarrow> string \<Rightarrow> string \<Rightarrow> world \<Rightarrow> unit result \<Rightarrow> world \<Rightarrow> bool" where
  "part_written p c data w r w' \<longleftrightarrow> (\<exists>n. w_files w' = w_files (set_file p (c @ take n data) w) \<and> w_dirs w' = w_dirs w
     \<and> w_fds w' = w_fds w \<and> (r = Inr () \<longrightarrow> length data \<le> n))"

lemma part_written_none:
  assumes "open_on w fd p c" "w_files w' = w_files w" "w_dirs w' = w_dirs w" "w_fds w' = w_fds w" "r = Inr () \<longrightarrow> data = []"
  shows "part_written p c data w r w'"
  using assms unfolding part_written_def by (intro exI [of _ 0]) (auto simp: set_file_same open_on_def)

lemma part_written_more:
  assumes "w_files w1 = w_files (set_file p (c @ take k data) w)" "w_dirs w1 = w_dirs w" "w_fds w1 = w_fds w"
    and "part_written p (c @ take k data) (drop k data) w1 r w'"
  shows "part_written p c data w r w'"
proof -
  from assms(4) obtain n where "w_files w' = w_files (set_file p ((c @ take k data) @ take n (drop k data)) w1)"
    "w_dirs w' = w_dirs w1" "w_fds w' = w_fds w1" "r = Inr () \<longrightarrow> length (drop k data) \<le> n"
    unfolding part_written_def by blast
  with assms(1-3) show ?thesis
    unfolding part_written_def by (intro exI [of _ "k + n"]) (auto simp: take_add set_file_def update_last)
qed

lemma writeAll_part:
  assumes "writeAll fd data w = Some (r, w')" "open_on w fd p c"
  shows "part_written p c data w r w'"
proof -
  let ?P = "\<lambda>fd data w (r, w'). \<forall>c. open_on w fd p c \<longrightarrow> part_written p c data w r w'"
  have "?P fd data w (r, w')"
  proof (rule writeAll.raw_induct [where P = ?P, OF _ assms(1)])
    fix wa fd data w rw
    assume IH: "\<And>fd data w rw. wa fd data w = Some rw \<Longrightarrow> ?P fd data w rw"
      and step: "(if data = [] then Some (Inr (), w)
      else case fault_write fd data w of (r, w') \<Rightarrow>
          (case r of
             Inl err \<Rightarrow>
               if err = EINTR then wa fd data w'
               else Some (Inl (system_error err ''write failed''), w')
           | Inr written \<Rightarrow>
               if written = 0 then Some (Inl (runtime_error ''write returned 0''), w')
               else wa fd (drop written data) w')) = Some rw"
    have "part_written p c data w r w'" if "rw = (r, w')" and o: "open_on w fd p c" for r w' c
    proof -
      note eq = step [unfolded that(1)]
      show ?thesis
      proof (cases "data = []")
        case True
        with eq show ?thesis by (intro part_written_none [OF o]) auto
      next
        case False
        obtain x w1 where fw: "fault_write fd data w = (x, w1)" by fastforce
        have next_part: "part_written p c1 d w1 r w'" if "wa fd d w1 = Some (r, w')" "open_on w1 fd p c1" for c1 d
          using IH [OF that(1)] that(2) by simp
        from fw o show ?thesis
        proof (cases rule: fault_write_cases)
          case (failed err)
          then have "open_on w1 fd p c" using o by (simp add: open_on_def)
          moreover have "part_written p c data w r w'" if "part_written p c data w1 r w'"
            using part_written_more [of w1 p c 0 data w] failed o that by (simp add: set_file_same open_on_def)
          ultimately show ?thesis using eq False fw failed next_part part_written_none [OF o]
            by (cases "err = EINTR") auto
        next
          case (wrote k)
          then have o1: "open_on w1 fd p (c @ take k data)" using o by (simp add: open_on_def)
          show ?thesis
          proof (cases "k = 0")
            case True
            then have "w_files w1 = w_files w" using wrote o by (simp add: set_file_same open_on_def)
            with eq False fw wrote True show ?thesis by (auto intro: part_written_none [OF o])
          next
            case ne: False
            with eq False fw wrote have "wa fd (drop k data) w1 = Some (r, w')" by simp
            from part_written_more [OF wrote(3-5) next_part [OF this o1]] show ?thesis .
          qed
        qed
      qed
    qed
    then show "?P fd data w rw" by (cases rw) simp
  qed
  with assms(2) show ?thesis by simp
qed

text \<open>
  Whatever happens, \<open>writeAll\<close> touches only its file and appends a prefix of the data; when it
  returns normally it has appended all of it.
\<close>

lemma writeAll_outcome:
  assumes "writeAll fd data w = Some (r, w')" "open_on w fd p c"
  shows "\<exists>n. w_files w' = w_files (set_file p (c @ take n data) w) \<and> w_dirs w' = w_dirs w
     \<and> w_fds w' = w_fds w \<and> (r = Inr () \<longrightarrow> length data \<le> n)"
  using writeAll_part [OF assms] by (simp add: part_written_def)


text \<open>
  \<open>emits m R\<close>: under any faults the writer program \<open>m\<close> changes nothing but the temporary file,
  to which it appends some bytes \<open>d\<close> that are related by \<open>R\<close> to its outcome.
\<close>

definition emits :: "'a fw \<Rightarrow> ('a result \<Rightarrow> string \<Rightarrow> bool) \<Rightarrow> bool" where
  "emits m R \<longleftrightarrow>
     (\<forall>w fw c r w' fw'. open_on w (fw_dataFile fw) (fw_temporaryPath fw) c \<longrightarrow>
        m (w, fw) = Some (r, (w', fw')) \<longrightarrow>
        fw' = fw \<and> w_dirs w' = w_dirs w \<and> w_fds w' = w_fds w
        \<and> (\<exists>d. w_files w' = w_files (set_file (fw_temporaryPath fw) (c @ d) w) \<and> R r d))"

lemma emitsI:
  assumes "\<And>w fw c r w' fw'. open_on w (fw_dataFile fw) (fw_temporaryPath fw) c \<Longrightarrow>
      m (w, fw) = Some (r, (w', fw')) \<Longrightarrow>
      fw' = fw \<and> w_dirs w' = w_dirs w \<and> w_fds w' = w_fds w
      \<and> (\<exists>d. w_files w' = w_files (set_file (fw_temporaryPath fw) (c @ d) w) \<and> R r d)"
  shows "emits m R"
  using assms unfolding emits_def by blast

lemma emitsD:
  assumes "emits m R" "open_on w (fw_dataFile fw) (fw_temporaryPath fw) c"
    "m (w, fw) = Some (r, (w', fw'))"
  obtains d where "fw' = fw" "w_dirs w' = w_dirs w" "w_fds w' = w_fds w"
    "w_files w' = w_files (set_file (fw_temporaryPath fw) (c @ d) w)" "R r d"
  using assms unfolding emits_def by blast

lemma emits_weaken:
  assumes "emits m R" "\<And>r d. R r d \<Longrightarrow> R' r d"
  shows "emits m R'"
proof (rule emitsI)
  fix w c r w' fw' and fw :: FileWriter
  assume "open_on w (fw_dataFile fw) (fw_temporaryPath fw) c" "m (w, fw) = Some (r, (w', fw'))"
  from emitsD [OF assms(1) this] assms(2) show "fw' = fw \<and> w_dirs w' = w_dirs w \<and> w_fds w' = w_fds w
      \<and> (\<exists>d. w_files w' = w_files (set_file (fw_temporaryPath fw) (c @ d) w) \<and> R' r d)"
    by metis
qed

lemma emits_pure:
  assumes "\<And>s. m s = Some (r, s)" "R r []"
  shows "emits m R"
  using assms by (intro emitsI) (auto simp: set_file_same open_on_def intro!: exI [of _ "[]"])

lemma emits_bind:
  assumes m: "emits m R" and f: "\<And>x d. R (Inr x) d \<Longrightarrow> emits (f x) (S x)"
    and e: "\<And>e d. R (Inl e) d \<Longrightarrow> T (Inl e) d"
    and s: "\<And>x d r d'. R (Inr x) d \<Longrightarrow> S x r d' \<Longrightarrow> T r (d @ d')"
  shows "emits (io_bind m f) T"
proof (rule emitsI)
  fix w c r w' fw' and fw :: FileWriter
  let ?t = "fw_temporaryPath fw"
  assume o: "open_on w (fw_dataFile fw) ?t c" and run: "io_bind m f (w, fw) = Some (r, (w', fw'))"
  from run obtain x w1 fw1 where mx: "m (w, fw) = Some (x, (w1, fw1))"
    by (auto simp: io_bind_def split: option.splits sum.splits)
  from emitsD [OF m o this] obtain d where d: "fw1 = fw" "w_dirs w1 = w_dirs w" "w_fds w1 = w_fds w"
    "w_files w1 = w_files (set_file ?t (c @ d) w)" "R x d" .
  show "fw' = fw \<and> w_dirs w' = w_dirs w \<and> w_fds w' = w_fds w
      \<and> (\<exists>d. w_files w' = w_files (set_file ?t (c @ d) w) \<and> T r d)"
  proof (cases x)
    case (Inl err)
    with run mx have "r = Inl err" "w' = w1" "fw' = fw1" by (auto simp: io_bind_def)
    with d e Inl show ?thesis by auto
  next
    case (Inr y)
    with run mx d have fy: "f y (w1, fw) = Some (r, (w', fw'))" by (auto simp: io_bind_def)
    have o1: "open_on w1 (fw_dataFile fw) ?t (c @ d)" using o d by (simp add: open_on_def)
    have "emits (f y) (S y)" using f d(5) Inr by blast
    from emitsD [OF this o1 fy] obtain d' where d': "fw' = fw" "w_dirs w' = w_dirs w1"
      "w_fds w' = w_fds w1" "w_files w' = w_files (set_file ?t ((c @ d) @ d') w1)" "S y r d'" .
    have "w_files w' = w_files (set_file ?t (c @ d @ d') w)"
      using d d' by (simp add: set_file_def update_last)
    moreover have "T r (d @ d')" using s d(5) d'(5) Inr by blast
    ultimately show ?thesis using d(1-3) d'(1-3) by auto
  qed
qed

lemma emits_write: "emits (fw_write data) (\<lambda>r d. prefix d data \<and> (r = Inr () \<longrightarrow> d = data))"
proof (rule emitsI)
  fix w c r w' fw' and fw :: FileWriter
  let ?t = "fw_temporaryPath fw"
  assume o: "open_on w (fw_dataFile fw) ?t c" and run: "fw_write data (w, fw) = Some (r, (w', fw'))"
  from run have "writeAll (fw_dataFile fw) data w = Some (r, w')" and fw: "fw' = fw"
    by (auto simp: fw_write_def io_bind_def io_outer_def split: option.splits)
  from writeAll_outcome [OF this(1) o] obtain n where
    "w_files w' = w_files (set_file ?t (c @ take n data) w)" "w_dirs w' = w_dirs w"
    "w_fds w' = w_fds w" "r = Inr () \<longrightarrow> length data \<le> n"
    by blast
  then show "fw' = fw \<and> w_dirs w' = w_dirs w \<and> w_fds w' = w_fds w
      \<and> (\<exists>d. w_files w' = w_files (set_file ?t (c @ d) w) \<and> prefix d data \<and> (r = Inr () \<longrightarrow> d = data))"
    using fw by (auto simp: take_is_prefix)
qed

text \<open>
  \<open>produces m x d\<close>: without faults the writer program \<open>m\<close> returns \<open>x\<close> and appends exactly \<open>d\<close>;
  under faults it changes nothing but the temporary file, and if it returns normally it has
  returned \<open>x\<close> and appended \<open>d\<close>.
\<close>

definition produces :: "'a fw \<Rightarrow> 'a \<Rightarrow> string \<Rightarrow> bool" where
  "produces m x d \<longleftrightarrow> appends m x d \<and> emits m (\<lambda>r d'. \<forall>y. r = Inr y \<longrightarrow> y = x \<and> d' = d)"

lemma produces_ret: "produces (io_ret x) x []"
  by (simp add: produces_def appends_ret emits_pure)

lemma produces_lift: "produces (io_lift (Inr x)) x []"
  by (simp add: produces_def appends_lift emits_pure)

lemma produces_defined: "produces (io_defined (Some x)) x []"
proof -
  have "(io_defined (Some x) :: 'a fw) = io_ret x" by (rule ext) simp
  then show ?thesis by (simp only: produces_ret)
qed

lemma produces_write: "produces (fw_write data) () data"
  unfolding produces_def
proof
  show "emits (fw_write data) (\<lambda>r d'. \<forall>y. r = Inr y \<longrightarrow> y = () \<and> d' = data)"
    by (rule emits_weaken [OF emits_write]) auto
qed (rule appends_write)

lemma produces_bind:
  assumes "produces m x d" "produces (f x) y d'"
  shows "produces (io_bind m f) y (d @ d')"
  unfolding produces_def
proof
  show "appends (io_bind m f) y (d @ d')"
    using assms appends_bind [of m x d f y d'] by (simp add: produces_def)
  have m: "emits m (\<lambda>r d'. \<forall>y. r = Inr y \<longrightarrow> y = x \<and> d' = d)"
    and f: "emits (f x) (\<lambda>r e. \<forall>z. r = Inr z \<longrightarrow> z = y \<and> e = d')"
    using assms by (simp_all add: produces_def)
  show "emits (io_bind m f) (\<lambda>r e. \<forall>z. r = Inr z \<longrightarrow> z = y \<and> e = d @ d')"
    by (rule emits_bind [OF m, where S = "\<lambda>_ r e. \<forall>z. r = Inr z \<longrightarrow> z = y \<and> e = d'"])
      (use f in auto)
qed

lemma produces_add:
  assumes "encodeSSTableRecord r = Inr e"
  shows "produces (FileWriter_add r) (encodedRecordSize r) (record_bytes r)"
proof -
  have "produces (FileWriter_add r) (encodedRecordSize r) ([] @ e @ put_u32 (crc32 e) @ [])"
    unfolding FileWriter_add_def assms
    by (rule produces_bind [OF produces_lift produces_bind [OF produces_write produces_bind
          [OF produces_write produces_ret]]])
  then show ?thesis by (simp add: record_bytes_def assms)
qed

lemma produces_fold:
  assumes "\<And>acc x. x \<in> set xs \<Longrightarrow> produces (f acc x) (g acc x) (h x)"
  shows "produces (io_fold f acc xs) (foldl g acc xs) (concat (map h xs))"
  using assms
proof (induction xs arbitrary: acc)
  case Nil
  show ?case using produces_ret [of acc] by (simp only: io_fold.simps foldl.simps list.map concat.simps)
next
  case (Cons x xs)
  have "produces (io_bind (f acc x) (\<lambda>acc'. io_fold f acc' xs)) (foldl g (g acc x) xs)
      (h x @ concat (map h xs))"
    by (rule produces_bind [OF Cons.prems Cons.IH]) (use Cons.prems in auto)
  then show ?case by simp
qed

lemma sys_rename_cases:
  "sys_rename old new w = (e, w') \<Longrightarrow> content_of w old = Some c \<Longrightarrow>
   w_dirs w' = w_dirs w \<and> w_fds w' = w_fds w \<and>
   (e = 0 \<and> w_files w' = w_files (set_file new c (del_file old w)) \<or> e \<noteq> 0 \<and> w_files w' = w_files w)"
  by (auto simp: sys_rename_def ENOENT_def EISDIR_def set_file_def del_file_def
      split: prod.splits os_answer.splits if_splits dest!: os_next_frame)

lemma sys_open_dir_cases:
  "sys_open_dir p w = (r, w') \<Longrightarrow>
   w_dirs w' = w_dirs w \<and> w_files w' = w_files w \<and>
   (case r of Inl _ \<Rightarrow> w_fds w' = w_fds w
    | Inr d \<Rightarrow> d = fresh_fd (w_fds w) \<and> w_fds w' = (d, p) # w_fds w)"
  by (auto simp: sys_open_dir_def alloc_fd_def
      split: prod.splits os_answer.splits if_splits dest!: os_next_frame)

lemma FdGuard_close_cases:
  assumes "FdGuard_close (w, fd) = Some (r, (w', fd'))" "fd \<ge> 0"
  shows "w_files w' = w_files w \<and> w_dirs w' = w_dirs w \<and> w_fds w' = AList.delete fd (w_fds w)
    \<and> (r = Inr () \<and> fd' = -1 \<or> r \<noteq> Inr () \<and> fd' = fd)"
  using assms
  by (auto simp: FdGuard_close_def io_bind_def io_outer_def io_act_def
      split: prod.splits if_splits dest!: sys_close_frame)

lemma FdGuard_dtor_frame:
  "w_files (FdGuard_dtor fd w) = w_files w \<and> w_dirs (FdGuard_dtor fd w) = w_dirs w
   \<and> w_fds (FdGuard_dtor fd w) = (if fd \<ge> 0 then AList.delete fd (w_fds w) else w_fds w)"
  using sys_close_frame [of fd w "fst (sys_close fd w)" "snd (sys_close fd w)"]
  by (simp add: FdGuard_dtor_def)

text \<open>The block that syncs the directory changes no file and leaks no descriptor.\<close>

lemma sync_dir_frame:
  assumes "io_local d
      (io_bind (io_outer (io_act (fault_fsync d))) (\<lambda>err.
         if err \<noteq> 0 then io_throw (runtime_error msg) else FdGuard_close))
      FdGuard_dtor w = Some (r, w')" "d \<ge> 0"
  shows "w_files w' = w_files w \<and> w_dirs w' = w_dirs w \<and> w_fds w' = AList.delete d (w_fds w)"
proof -
  obtain e w1 where fs: "fault_fsync d w = (e, w1)" by fastforce
  note fr = fault_fsync_frame [OF fs]
  show ?thesis
  proof (cases "e = 0")
    case True
    with assms(1) fs obtain w2 d' where cl: "FdGuard_close (w1, d) = Some (r, (w2, d'))"
      and w': "w' = FdGuard_dtor d' w2"
      by (auto simp: io_local_def io_bind_def io_outer_def io_act_def split: option.splits)
    from FdGuard_close_cases [OF cl assms(2)] fr w' FdGuard_dtor_frame [of d' w2] show ?thesis
      by (auto simp: delete_idem)
  next
    case False
    with assms fs have "w' = FdGuard_dtor d w1"
      by (auto simp: io_local_def io_bind_def io_outer_def io_act_def)
    with fr assms(2) FdGuard_dtor_frame [of d w1] show ?thesis by auto
  qed
qed

text \<open>After the renaming only the directory is synchronised.\<close>

lemma finish_tail_frame:
  assumes run: "io_bind (io_outer (io_act (sys_open_dir d))) (\<lambda>r.
      case r of
        Inl _ \<Rightarrow> io_throw (runtime_error a)
      | Inr directoryDescriptor \<Rightarrow> io_outer (io_local directoryDescriptor
          (io_bind (io_outer (io_act (fault_fsync directoryDescriptor))) (\<lambda>err.
             if err \<noteq> 0 then io_throw (runtime_error b) else FdGuard_close)) FdGuard_dtor))
      (w, fw :: FileWriter) = Some (r, (w1, fw1))"
  shows "fw1 = fw \<and> w_dirs w1 = w_dirs w \<and> w_fds w1 = w_fds w \<and> w_files w1 = w_files w"
proof -
  obtain y wd where s: "sys_open_dir d w = (y, wd)" by fastforce
  note f = sys_open_dir_cases [OF s]
  show ?thesis
  proof (cases y)
    case (Inl err)
    with run s f show ?thesis by (auto simp: io_bind_def io_outer_def io_act_def)
  next
    case y: (Inr fd)
    with f have fd: "fd = fresh_fd (w_fds w)" "w_fds wd = (fd, d) # w_fds w" by auto
    let ?sync = "io_local fd
      (io_bind (io_outer (io_act (fault_fsync fd))) (\<lambda>err.
         if err \<noteq> 0 then io_throw (runtime_error b) else FdGuard_close)) FdGuard_dtor"
    have "?sync wd = Some (r, w1)" "fw1 = fw"
      using run s y
      by (auto simp: io_bind_def [where 's = "world \<times> FileWriter"]
          io_outer_def [where 'l = FileWriter] io_act_def [where 's = world] split: option.splits)
    moreover have "0 \<le> fd" using fd fresh_fd_ge [of "w_fds w"] by simp
    ultimately show ?thesis using sync_dir_frame [of fd b wd r w1] fd f y delete_fresh [OF fresh_fd_fresh] by auto
  qed
qed

text \<open>
  \<open>finish\<close>, then the destructor: either nothing but the descriptor changes, or the temporary has
  become the final file. A normal return means the latter.
\<close>

lemma finish_outcome:
  assumes run: "FileWriter_finish (w, writer_on p fd) = Some (r, (w1, fw1))"
    and o: "open_on w fd (temporary_path p) c" and fd: "fd \<ge> 0"
  defines "w' \<equiv> FileWriter_dtor fw1 w1"
  shows "w_dirs w' = w_dirs w \<and> w_fds w' = AList.delete fd (w_fds w) \<and>
    (w_files w' = w_files (set_file p c (del_file (temporary_path p) w))
     \<or> r \<noteq> Inr () \<and> w_files w' = w_files w)"
proof -
  note unf = FileWriter_finish_def io_bind_def io_outer_def io_act_def
  obtain e1 wa where s1: "fault_fsync fd w = (e1, wa)" by fastforce
  note f1 = fault_fsync_frame [OF s1]
  obtain x wb fdb where s2: "FdGuard_close (wa, fd) = Some (x, (wb, fdb))"
    by (cases "FdGuard_close (wa, fd)")
      (auto simp: FdGuard_close_def io_bind_def io_outer_def io_act_def fd split: prod.splits if_splits)
  note f2 = FdGuard_close_cases [OF s2 fd]
  have s2': "fw_close (wa, writer_on p fd) = Some (x, (wb, writer_on p fdb))"
    by (simp add: fw_close_def s2)
  obtain e3 wc where s3: "sys_rename (temporary_path p) p wb = (e3, wc)" by fastforce
  have "content_of wb (temporary_path p) = Some c" using o f1 f2 by (simp add: open_on_def)
  note f3 = sys_rename_cases [OF s3 this]
  consider (sync) "e1 \<noteq> 0" | (close) err where "e1 = 0" "x = Inl err" | (rename) "e1 = 0" "x = Inr ()" "e3 \<noteq> 0"
    | (renamed) "e1 = 0" "x = Inr ()" "e3 = 0" by (cases x) auto
  then show ?thesis
  proof cases
    case sync
    with run s1 have "w1 = wa" "fw1 = writer_on p fd" "r \<noteq> Inr ()" by (auto simp: unf)
    with f1 fd FdGuard_dtor_frame [of fd wa] show ?thesis by (simp add: w'_def FileWriter_dtor_def)
  next
    case close
    with run s1 s2' have "w1 = wb" "fw1 = writer_on p fdb" "r \<noteq> Inr ()" by (auto simp: unf)
    with f1 f2 fd FdGuard_dtor_frame [of fdb wb] show ?thesis
      by (auto simp: w'_def FileWriter_dtor_def delete_idem)
  next
    case rename
    with run s1 s2' s3 have "w1 = wc" "fw1 = writer_on p fdb" "r \<noteq> Inr ()" by (auto simp: unf)
    with f1 f2 f3 rename show ?thesis by (auto simp: w'_def FileWriter_dtor_def FdGuard_dtor_def)
  next
    case renamed
    have "fw1 = writer_on p fdb \<and> w_dirs w1 = w_dirs wc \<and> w_fds w1 = w_fds wc \<and> w_files w1 = w_files wc"
      using run s1 s2' s3 renamed
      by (intro finish_tail_frame) (simp add: FileWriter_finish_def io_bind_def [of "io_get _"] io_bind_def [of fw_close]
          io_bind_def [of "io_outer (io_act (fault_fsync _))"] io_bind_def [of "io_outer (io_act (sys_rename _ _))"]
          io_outer_def [of "io_act _"] io_act_def)
    with f1 f2 f3 renamed show ?thesis
      by (auto simp: w'_def FileWriter_dtor_def FdGuard_dtor_def set_file_def del_file_def)
  qed
qed


text \<open>Directories were only added, and only those on the way to the file \<open>p\<close>.\<close>

definition made_way :: "path \<Rightarrow> world \<Rightarrow> world \<Rightarrow> bool" where
  "made_way p w w' \<longleftrightarrow> set (w_dirs w) \<subseteq> set (w_dirs w')
     \<and> set (w_dirs w') \<subseteq> set (w_dirs w) \<union> set (prefixes (butlast p))"

lemma create_directories_frame:
  "fs_create_directories (butlast p) w = (e, w') \<Longrightarrow> w_files w' = w_files w \<and> w_fds w' = w_fds w \<and> made_way p w w'"
  by (auto simp: fs_create_directories_def made_way_def split: prod.splits os_answer.splits if_splits
      dest!: os_next_frame)

lemma open_trunc_cases:
  "sys_open_write False True p w = (r, w') \<Longrightarrow>
   w_dirs w' = w_dirs w \<and>
   (case r of
      Inl _ \<Rightarrow> w_files w' = w_files w \<and> w_fds w' = w_fds w
    | Inr fd \<Rightarrow> fd = fresh_fd (w_fds w) \<and> w_fds w' = (fd, p) # w_fds w
        \<and> w_files w' = w_files (set_file p [] w) \<and> butlast p \<in> set (w_dirs w))"
  by (auto simp: sys_open_write_def alloc_fd_def set_file_def Let_def
      split: prod.splits os_answer.splits if_splits dest!: os_next_frame)

lemma FileWriter_new_outcome:
  assumes "FileWriter_new p w = Some (r, w')" "butlast p \<noteq> []"
  shows "made_way p w w' \<and> (case r of
      Inl _ \<Rightarrow> w_files w' = w_files w \<and> w_fds w' = w_fds w
    | Inr fw \<Rightarrow> fw = writer_on p (fresh_fd (w_fds w))
        \<and> w_fds w' = (fresh_fd (w_fds w), temporary_path p) # w_fds w
        \<and> w_files w' = w_files (set_file (temporary_path p) [] w) \<and> butlast p \<in> set (w_dirs w'))"
proof -
  obtain e wa where mk: "fs_create_directories (butlast p) w = (e, wa)" by fastforce
  obtain x wb where op: "sys_open_write False True (temporary_path p) wa = (x, wb)" by fastforce
  from assms mk op create_directories_frame [OF mk] open_trunc_cases [OF op] show ?thesis
    by (auto simp: FileWriter_new_def Let_def io_bind_def io_act_def FdGuard_setFd_def
        writer_on_def set_file_def made_way_def split: if_splits sum.splits)
qed

lemma publication_outcome:
  assumes run: "with_FileWriter p (io_bind body (\<lambda>x. io_bind FileWriter_finish (\<lambda>_. io_ret x))) w
      = Some (r, w')"
    and p: "butlast p \<noteq> []" and body: "emits body R"
  shows "(\<forall>q. q \<noteq> p \<and> q \<noteq> temporary_path p \<longrightarrow> content_of w' q = content_of w q)
    \<and> w_fds w' = w_fds w
    \<and> (content_of w' p = content_of w p \<or> (\<exists>x c. R (Inr x) c \<and> content_of w' p = Some c))
    \<and> (\<forall>x. r = Inr x \<longrightarrow> (\<exists>c. R (Inr x) c \<and> content_of w' p = Some c))
    \<and> made_way p w w' \<and> (content_of w' = content_of w \<or> butlast p \<in> set (w_dirs w'))"
proof -
  let ?t = "temporary_path p" and ?fd = "fresh_fd (w_fds w)"
  have "p \<noteq> []" using p by auto
  then have tp: "?t \<noteq> p" "p \<noteq> ?t" using temporary_path_neq [of p] by metis+
  have fd: "?fd \<ge> 0" using fresh_fd_ge [of "w_fds w"] by simp
  obtain x0 w1 where new: "FileWriter_new p w = Some (x0, w1)"
    using run by (auto simp: with_FileWriter_def io_bind_def split: option.splits)
  note n = FileWriter_new_outcome [OF new p]
  show ?thesis
  proof (cases x0)
    case (Inl e)
    with run new n show ?thesis by (auto simp: with_FileWriter_def io_bind_def)
  next
    case (Inr fw)
    with n have fw: "fw = writer_on p ?fd" and fds1: "w_fds w1 = (?fd, ?t) # w_fds w"
      and f1: "w_files w1 = w_files (set_file ?t [] w)" and way: "made_way p w w1" "butlast p \<in> set (w_dirs w1)" by auto
    have del: "AList.delete ?fd (w_fds w1) = w_fds w"
      unfolding fds1 by (rule delete_fresh [OF fresh_fd_fresh])
    have o1: "open_on w1 ?fd ?t []" by (simp add: open_on_def fds1 f1)
    from run new Inr obtain wz fwz where loc:
      "io_bind body (\<lambda>x. io_bind FileWriter_finish (\<lambda>_. io_ret x)) (w1, fw) = Some (r, (wz, fwz))"
      and w': "w' = FileWriter_dtor fwz wz"
      by (auto simp: with_FileWriter_def io_bind_def [of "FileWriter_new p"] io_local_def
          split: option.splits)
    from loc obtain x w2 fw2 where b: "body (w1, fw) = Some (x, (w2, fw2))"
      by (auto simp: io_bind_def [of body] split: option.splits)
    from emitsD [OF body _ b, of "[]"] o1 fw obtain c where c: "fw2 = fw" "w_fds w2 = w_fds w1" "w_dirs w2 = w_dirs w1"
      "w_files w2 = w_files (set_file ?t c w1)" "R x c"
      by auto
    show ?thesis
    proof (cases x)
      case x: (Inl e)
      with loc b have "r = Inl e" "wz = w2" "fwz = fw2" by (auto simp: io_bind_def)
      with w' c fw f1 fd del tp way FdGuard_dtor_frame [of ?fd w2] show ?thesis
        by (simp add: FileWriter_dtor_def made_way_def)
    next
      case x: (Inr y)
      with loc b c fw obtain rf where
        fin: "FileWriter_finish (w2, writer_on p ?fd) = Some (rf, (wz, fwz))"
        and r: "r = (case rf of Inl e \<Rightarrow> Inl e | Inr _ \<Rightarrow> Inr y)"
        by (auto simp: io_bind_def [of body] io_bind_def [of FileWriter_finish]
            split: option.splits sum.splits)
      have "open_on w2 ?fd ?t c" using c fds1 by (simp add: open_on_def)
      note out = finish_outcome [OF fin this fd]
      then have "w_dirs w' = w_dirs w1" "w_fds w' = w_fds w" using w' c fds1 del by simp_all
      then have way': "made_way p w w'" "butlast p \<in> set (w_dirs w')" "w_fds w' = w_fds w"
        using way by (simp_all add: made_way_def)
      have "content_of w' = (content_of w)(?t := None, p := Some c) \<or> r \<noteq> Inr y \<and> content_of w' = (content_of w)(?t := Some c)"
        using out w' c f1 r by (auto simp: fun_eq_iff split: sum.splits)
      moreover have "r = Inr z \<Longrightarrow> z = y" for z using r by (simp split: sum.splits)
      ultimately show ?thesis using way' c(5) x tp by auto
    qed
  qed
qed

text \<open>The same for a body whose output is known.\<close>

lemma produced_file:
  assumes "with_FileWriter p (io_bind body (\<lambda>x. io_bind FileWriter_finish (\<lambda>_. io_ret x))) w
      = Some (r, w')"
    and "butlast p \<noteq> []" "produces body x c"
  shows "(\<forall>q. q \<noteq> p \<and> q \<noteq> temporary_path p \<longrightarrow> content_of w' q = content_of w q)
    \<and> w_fds w' = w_fds w \<and> (content_of w' p = content_of w p \<or> content_of w' p = Some c)
    \<and> (\<forall>y. r = Inr y \<longrightarrow> y = x \<and> content_of w' p = Some c)
    \<and> made_way p w w' \<and> (content_of w' = content_of w \<or> butlast p \<in> set (w_dirs w'))"
proof -
  have "emits body (\<lambda>r d'. \<forall>y. r = Inr y \<longrightarrow> y = x \<and> d' = c)" using assms(3) by (simp add: produces_def)
  from publication_outcome [OF assms(1,2) this] show ?thesis by auto
qed

text \<open>
  C9: whatever faults occur, a block that writes a file through a \<open>FileWriter\<close> and finishes it
  leaves every other file alone (the temporary apart), leaks no descriptor, and leaves the target
  either as it was or with the complete contents; when the block returns normally the target has
  the complete contents. \<open>R\<close> relates the outcome of the body to the bytes it wrote.
\<close>

theorem atomic_publication:
  assumes run: "with_FileWriter p (io_bind body (\<lambda>x. io_bind FileWriter_finish (\<lambda>_. io_ret x))) w
      = Some (r, w')"
    and p: "butlast p \<noteq> []" and body: "emits body R"
  shows "(\<forall>q. q \<noteq> p \<and> q \<noteq> temporary_path p \<longrightarrow> content_of w' q = content_of w q)
    \<and> w_fds w' = w_fds w
    \<and> (content_of w' p = content_of w p \<or> (\<exists>x c. R (Inr x) c \<and> content_of w' p = Some c))
    \<and> (\<forall>x. r = Inr x \<longrightarrow> (\<exists>c. R (Inr x) c \<and> content_of w' p = Some c))"
  using publication_outcome [OF assms] by blast

theorem atomic_publication_witness:
  "\<exists>w w'. with_FileWriter [''d'', ''f''] (io_bind (fw_write ''abc'') (\<lambda>x. io_bind FileWriter_finish (\<lambda>_. io_ret x))) w
      = Some (Inr (), w') \<and> content_of w' [''d'', ''f''] = Some ''abc''"
proof -
  let ?w = "\<lparr>w_files = [], w_dirs = [], w_fds = [], w_policy = None, w_os = sconst OsOk\<rparr>"
  have run: "with_FileWriter [''d'', ''f''] (io_bind (fw_write ''abc'')
      (\<lambda>x. io_bind FileWriter_finish (\<lambda>_. io_ret x))) ?w
      = Some (Inr (), publish [''d'', ''f''] ''abc'' ?w)"
    by (rule nominal_with_FileWriter [OF _ _ appends_write])
      (simp_all add: nominal_def writable_def temporary_path_def)
  have "butlast [''d'', ''f''] \<noteq> []" by simp
  from atomic_publication [OF run this emits_write] run show ?thesis by blast
qed

end
