(* ===== verification/WAL.thy ===== *)
theory WAL
  imports Utils
begin

text \<open>
  The format of the write-ahead log: the encoders and the parser in the anonymous namespace of
  \<open>src/MemTable.cpp\<close>. A log is a header followed by frames; a frame carries one batch, its length,
  its checksum and a commit marker. The parser returns the records of all complete frames and the
  offset where the last of them ends; it tells a torn append at the end of the file from the
  corruption of a committed frame.

  Positions are \<open>size_t\<close> values that index a buffer in memory. Every subtraction in the code is
  guarded by a comparison, so they are natural numbers here.
\<close>

section \<open>Encoders\<close>

definition kWalMagic :: string where "kWalMagic = ''LWAL''"
definition kWalVersion :: u8 where "kWalVersion = 2"
definition kWalHeaderSize :: nat where "kWalHeaderSize = length kWalMagic + 1"
definition kWalFrameMagic :: string where "kWalFrameMagic = ''WFRM''"
definition kWalCommitMagic :: string where "kWalCommitMagic = ''WCMT''"
definition kWalFrameMetadataSize :: nat where
  "kWalFrameMetadataSize = length kWalFrameMagic + 8 + 4 + length kWalCommitMagic"

definition newline :: char where "newline = char_of (10 :: nat)"

definition encodeWALRecord :: "Record \<Rightarrow> string" where
  "encodeWALRecord record =
     (if rec_type record = Type_VALUE then ''P,'' else ''D,'')
     @ to_string (unat (rec_seq record)) @ '','' @ to_string (length (rec_key record)) @ '',''
     @ rec_key record @ ''='' @ to_string (length (rec_value record)) @ '',''
     @ rec_value record @ [newline]"

definition encodeWALFrame :: "string \<Rightarrow> string" where
  "encodeWALFrame payload =
     kWalFrameMagic @ put_u64 (of_nat (length payload)) @ payload @ put_u32 (crc32 payload)
     @ kWalCommitMagic"

text \<open>The payload that \<open>MemTable::applyBatch\<close> builds for a batch.\<close>

definition batch_payload :: "Record list \<Rightarrow> string" where
  "batch_payload ops = to_string (length ops) @ '','' @ concat (map encodeWALRecord ops)"

section \<open>Frames\<close>

text \<open>\<open>readValue\<close> of \<open>n\<close> bytes at an offset.\<close>

definition readValue :: "string \<Rightarrow> nat \<Rightarrow> nat \<Rightarrow> string option" where
  "readValue content offset n =
     (if offset > length content \<or> n > length content - offset then None
      else Some (substr content offset n))"

definition validFrameAt :: "string \<Rightarrow> nat \<Rightarrow> bool" where
  "validFrameAt content frameStart =
     (if frameStart > length content \<or> length content - frameStart < kWalFrameMetadataSize
         \<or> \<not> starts_with (drop frameStart content) kWalFrameMagic
      then False
      else
        let payloadStart = frameStart + length kWalFrameMagic + 8 in
        case readValue content (frameStart + length kWalFrameMagic) 8 of
          None \<Rightarrow> False
        | Some bytes \<Rightarrow>
            let payloadSize = unat (get_u64 bytes) in
            if payloadSize > length content - frameStart - kWalFrameMetadataSize then False
            else
              let payloadEnd = payloadStart + payloadSize in
              case readValue content payloadEnd 4 of
                None \<Rightarrow> False
              | Some storedChecksum \<Rightarrow>
                  starts_with (drop (payloadEnd + 4) content) kWalCommitMagic
                  \<and> crc32 (substr content payloadStart payloadSize) = get_u32 storedChecksum)"

text \<open>\<open>content.find(pattern, pos)\<close>\<close>

function find_from :: "string \<Rightarrow> string \<Rightarrow> nat \<Rightarrow> nat option" where
  "find_from s p pos =
     (if pos + length p > length s then None
      else if starts_with (drop pos s) p then Some pos
      else find_from s p (Suc pos))"
  by pat_completeness auto
termination
  by (relation "measure (\<lambda>(s, p, pos). Suc (length s) - pos)") auto

declare find_from.simps [simp del]

lemma find_from_SomeD: "find_from s p pos = Some i \<Longrightarrow> pos \<le> i \<and> i + length p \<le> length s"
proof (induction s p pos rule: find_from.induct)
  case (1 s p pos)
  from "1.prems" show ?case
    by (subst (asm) find_from.simps) (auto split: if_splits dest: "1.IH")
qed

function hasValidFrameAfter :: "string \<Rightarrow> nat \<Rightarrow> bool" where
  "hasValidFrameAfter content searchPosition =
     (case find_from content kWalFrameMagic searchPosition of
        None \<Rightarrow> False
      | Some i \<Rightarrow> if validFrameAt content i then True else hasValidFrameAfter content (Suc i))"
  by pat_completeness auto
termination
  by (relation "measure (\<lambda>(s, pos). Suc (length s) - pos)")
    (auto dest: find_from_SomeD)

declare hasValidFrameAfter.simps [simp del]

section \<open>The batch parser\<close>

text \<open>\<open>WALBatchParser\<close>: each method takes the content and the position and returns the new position.\<close>

definition readLength :: "string \<Rightarrow> nat \<Rightarrow> (u64 \<times> nat) result" where
  "readLength content position =
     (let digits = takeWhile is_digit (drop position content);
          position' = position + length digits
      in if digits = [] then Inl (runtime_error ''Corrupt WAL record length'')
         else if position' = length content then Inl (runtime_error ''Corrupt WAL record length'')
         else
           case stoull digits of
             Inl _ \<Rightarrow> Inl (runtime_error ''Corrupt WAL record length'')
           | Inr (v, _) \<Rightarrow> Inr (v, position'))"

definition consume :: "string \<Rightarrow> char \<Rightarrow> nat \<Rightarrow> nat result" where
  "consume content expected position =
     (if position \<ge> length content \<or> content ! position \<noteq> expected
      then Inl (runtime_error ''Corrupt WAL record delimiter'')
      else Inr (Suc position))"

definition readField :: "string \<Rightarrow> u64 \<Rightarrow> nat \<Rightarrow> (string \<times> nat) result" where
  "readField content len position =
     (if unat len > length content - position then Inl (runtime_error ''Corrupt WAL record length'')
      else Inr (substr content position (unat len), position + unat len))"

definition readLengthPrefixedField :: "string \<Rightarrow> char \<Rightarrow> nat \<Rightarrow> (string \<times> nat) result" where
  "readLengthPrefixedField content terminator position =
     rbind (readLength content position) (\<lambda>(len, position).
     rbind (consume content CHR '','' position) (\<lambda>position.
     rbind (readField content len position) (\<lambda>(field, position).
     rbind (consume content terminator position) (\<lambda>position.
     Inr (field, position)))))"

definition readWALRecord :: "string \<Rightarrow> nat \<Rightarrow> ((string \<times> Entry) \<times> nat) result" where
  "readWALRecord content position =
     rbind (readField content 1 position) (\<lambda>(operation, position).
     rbind (consume content CHR '','' position) (\<lambda>position.
     if operation \<noteq> ''D'' \<and> operation \<noteq> ''P'' then Inl (runtime_error ''Corrupt WAL record operation'')
     else
     rbind (readLength content position) (\<lambda>(sequence, position).
     rbind (consume content CHR '','' position) (\<lambda>position.
     rbind (readLengthPrefixedField content CHR ''='' position) (\<lambda>(k, position).
     rbind (readLengthPrefixedField content newline position) (\<lambda>(v, position).
     let type = (if operation = ''P'' then Type_VALUE else Type_TOMBSTONE)
     in Inr ((k, \<lparr>ent_type = type, ent_seq = sequence, ent_value = v\<rparr>), position)))))))"

fun readWALRecords :: "string \<Rightarrow> nat \<Rightarrow> nat \<Rightarrow> ((string \<times> Entry) list \<times> nat) result" where
  "readWALRecords content 0 position = Inr ([], position)"
| "readWALRecords content (Suc n) position =
     rbind (readWALRecord content position) (\<lambda>(r, position).
     rbind (readWALRecords content n position) (\<lambda>(rs, position).
     Inr (r # rs, position)))"

definition WALBatchParser_parse :: "string \<Rightarrow> (string \<times> Entry) list result" where
  "WALBatchParser_parse content =
     rbind (readLength content 0) (\<lambda>(recordCount, position).
     rbind (consume content CHR '','' position) (\<lambda>position.
     rbind (readWALRecords content (unat recordCount) position) (\<lambda>(records, position).
     if position \<noteq> length content then Inl (runtime_error ''Corrupt WAL batch length'')
     else Inr records)))"

section \<open>The log parser\<close>

definition incompleteTailOrCorruption ::
  "string \<Rightarrow> nat \<Rightarrow> (string \<times> Entry) list \<Rightarrow> (string \<times> Entry) list result" where
  "incompleteTailOrCorruption content frameStart records =
     (let hasCommitMarker =
            length content - frameStart \<ge> kWalFrameMetadataSize \<and> ends_with content kWalCommitMagic
      in if hasCommitMarker \<or> hasValidFrameAfter content (frameStart + 1)
         then Inl (runtime_error ''Corrupt WAL frame before a committed batch'')
         else Inr records)"

text \<open>
  The loop of \<open>WALParser::parse\<close>, with the records collected so far and \<open>lastGoodOffset\<close> as its
  variables; it returns both.
\<close>

function WALParser_parse ::
  "string \<Rightarrow> nat \<Rightarrow> (string \<times> Entry) list \<Rightarrow> nat \<Rightarrow> ((string \<times> Entry) list \<times> nat) result" where
  "WALParser_parse content position records lastGoodOffset =
     (if \<not> position < length content then Inr (records, lastGoodOffset)
      else
        let frameStart = position;
            stop = rbind (incompleteTailOrCorruption content frameStart records)
                     (\<lambda>records. Inr (records, lastGoodOffset))
        in if length content - frameStart < kWalFrameMetadataSize
              \<or> \<not> starts_with (drop frameStart content) kWalFrameMagic
           then stop
           else
             case readValue content (frameStart + length kWalFrameMagic) 8 of
               None \<Rightarrow> stop
             | Some bytes \<Rightarrow>
                 let payloadSize = unat (get_u64 bytes) in
                 if payloadSize > length content - frameStart - kWalFrameMetadataSize then stop
                 else
                   let payloadStart = frameStart + length kWalFrameMagic + 8;
                       payloadEnd = payloadStart + payloadSize
                   in case readValue content payloadEnd 4 of
                        None \<Rightarrow> stop
                      | Some storedChecksum \<Rightarrow>
                          if \<not> starts_with (drop (payloadEnd + 4) content) kWalCommitMagic then stop
                          else
                            let payload = substr content payloadStart payloadSize in
                            if crc32 payload \<noteq> get_u32 storedChecksum
                            then Inl (runtime_error ''Corrupt WAL frame checksum'')
                            else
                              rbind (WALBatchParser_parse payload) (\<lambda>batchRecords.
                                let position' = payloadEnd + 4 + length kWalCommitMagic
                                in WALParser_parse content position' (records @ batchRecords) position'))"
  by pat_completeness auto
termination
  by (relation "measure (\<lambda>(content, position, records, lastGoodOffset). length content - position)")
    (auto simp: kWalFrameMagic_def kWalCommitMagic_def)

declare WALParser_parse.simps [simp del]

definition parseWALRecords :: "string \<Rightarrow> ((string \<times> Entry) list \<times> nat) result" where
  "parseWALRecords content = WALParser_parse content kWalHeaderSize [] kWalHeaderSize"

section \<open>Round trip of a batch\<close>

text \<open>\<open>at_pos content pos s\<close>: from \<open>pos\<close> on, the content is \<open>s\<close>.\<close>

definition at_pos :: "string \<Rightarrow> nat \<Rightarrow> string \<Rightarrow> bool" where
  "at_pos content pos s \<longleftrightarrow> pos \<le> length content \<and> drop pos content = s"

lemma at_pos_iff: "at_pos content pos s \<longleftrightarrow> (\<exists>p. content = p @ s \<and> length p = pos)"
  unfolding at_pos_def
  by (metis append_eq_conv_conj append_take_drop_id length_take linorder_le_cases min.absorb2 drop_all
      length_append le_add1)

lemma at_pos_skip: "at_pos content pos (a @ s) \<Longrightarrow> at_pos content (pos + length a) s"
  unfolding at_pos_iff by (metis append.assoc length_append)

lemma at_pos_length: "at_pos content pos s \<Longrightarrow> length content = pos + length s"
  unfolding at_pos_iff by auto

lemma at_pos_start: "at_pos s 0 s"
  by (simp add: at_pos_def)

lemma readLength_at:
  assumes "at_pos content pos (to_string n @ c # s)" "n < 2 ^ 64" "\<not> is_digit c"
  shows "readLength content pos = Inr (of_nat n, pos + length (to_string n))"
proof -
  have "takeWhile is_digit (drop pos content) = to_string n"
    using assms to_string_digits [of n] by (simp add: at_pos_def takeWhile_append_stop)
  moreover have "length content = pos + length (to_string n) + Suc (length s)"
    using at_pos_length [OF assms(1)] by simp
  ultimately show ?thesis
    using stoull_to_string [OF assms(2)] by (simp add: readLength_def)
qed

lemma consume_at: "at_pos content pos (c # s) \<Longrightarrow> consume content c pos = Inr (Suc pos)"
  unfolding at_pos_iff consume_def by auto

lemma readField_at:
  "at_pos content pos (f @ s) \<Longrightarrow> unat len = length f \<Longrightarrow>
   readField content len pos = Inr (f, pos + length f)"
  unfolding at_pos_iff by (auto simp: readField_def substr_def)

lemma not_digit_delims [simp]: "\<not> is_digit CHR '',''" "\<not> is_digit CHR ''=''" "\<not> is_digit newline"
  by (simp_all add: is_digit_def newline_def)


lemma at_pos_skip1: "at_pos content pos (c # s) \<Longrightarrow> at_pos content (Suc pos) s"
  using at_pos_skip [of content pos "[c]" s] by simp

lemma readLengthPrefixedField_at:
  assumes a: "at_pos content pos (to_string (length f) @ CHR '','' # f @ t # s)"
    and n: "length f < 2 ^ 64"
  shows "\<exists>pos'. readLengthPrefixedField content t pos = Inr (f, pos') \<and> at_pos content pos' s"
proof -
  note a1 = at_pos_skip [OF a] and n' = unat_of_nat64 [OF n]
  note a2 = at_pos_skip1 [OF a1]
  note a3 = at_pos_skip [OF a2]
  show ?thesis
    using readLength_at [OF a n] consume_at [OF a1] readField_at [OF a2] consume_at [OF a3]
      at_pos_skip1 [OF a3] n'
    by (simp add: readLengthPrefixedField_def n)
qed

text \<open>A record as the log stores it.\<close>

definition log_entry :: "Record \<Rightarrow> string \<times> Entry" where
  "log_entry r = (rec_key r, \<lparr>ent_type = rec_type r, ent_seq = rec_seq r, ent_value = rec_value r\<rparr>)"

text \<open>The sizes a log can describe; in memory they always hold.\<close>

definition loggable :: "Record \<Rightarrow> bool" where
  "loggable r \<longleftrightarrow> length (rec_key r) < 2 ^ 64 \<and> length (rec_value r) < 2 ^ 64"

lemma readWALRecord_at:
  assumes a: "at_pos content pos (encodeWALRecord r @ s)" and r: "loggable r"
  shows "\<exists>pos'. readWALRecord content pos = Inr (log_entry r, pos') \<and> at_pos content pos' s"
proof -
  let ?op = "if rec_type r = Type_VALUE then ''P'' else ''D''"
  have a: "at_pos content pos (?op @ CHR '','' # to_string (unat (rec_seq r)) @ CHR '','' #
      to_string (length (rec_key r)) @ CHR '','' # rec_key r @ CHR ''='' #
      to_string (length (rec_value r)) @ CHR '','' # rec_value r @ newline # s)"
    using a by (cases "rec_type r") (simp_all add: encodeWALRecord_def)
  note a1 = at_pos_skip [OF a]
  note a2 = at_pos_skip1 [OF a1]
  note a3 = at_pos_skip [OF a2]
  note a4 = at_pos_skip1 [OF a3]
  have seq: "unat (rec_seq r) < 2 ^ 64" using unsigned_less [of "rec_seq r"] by simp
  obtain p5 where 5: "readLengthPrefixedField content CHR ''='' (Suc (Suc (pos + length ?op) + length (to_string (unat (rec_seq r)))))
      = Inr (rec_key r, p5)"
    and a5: "at_pos content p5 (to_string (length (rec_value r)) @ CHR '','' # rec_value r @ newline # s)"
    using readLengthPrefixedField_at [OF a4] r by (auto simp: loggable_def)
  obtain p6 where 6: "readLengthPrefixedField content newline p5 = Inr (rec_value r, p6)"
    and a6: "at_pos content p6 s"
    using readLengthPrefixedField_at [OF a5] r by (auto simp: loggable_def)
  have "readField content 1 pos = Inr (?op, pos + length ?op)"
    using readField_at [OF a, of 1] by simp
  then show ?thesis
    using consume_at [OF a1] readLength_at [OF a2 seq] consume_at [OF a3] 5 6 a6
    by (cases "rec_type r") (simp_all add: readWALRecord_def log_entry_def)
qed

lemma readWALRecords_at:
  assumes "at_pos content pos (concat (map encodeWALRecord rs) @ s)" "\<forall>r \<in> set rs. loggable r"
  shows "\<exists>pos'. readWALRecords content (length rs) pos = Inr (map log_entry rs, pos') \<and> at_pos content pos' s"
  using assms
proof (induction rs arbitrary: pos)
  case (Cons r rs)
  then obtain p1 where "readWALRecord content pos = Inr (log_entry r, p1)"
    and "at_pos content p1 (concat (map encodeWALRecord rs) @ s)"
    using readWALRecord_at [of content pos r "concat (map encodeWALRecord rs) @ s"] by auto
  with Cons.IH [of p1] Cons.prems(2) show ?case by auto
qed simp

lemma WALBatchParser_roundtrip [codec_simps]:
  assumes "\<forall>r \<in> set rs. loggable r" "length rs < 2 ^ 64"
  shows "WALBatchParser_parse (batch_payload rs) = Inr (map log_entry rs)"
proof -
  let ?c = "batch_payload rs"
  have a: "at_pos ?c 0 (to_string (length rs) @ CHR '','' # concat (map encodeWALRecord rs) @ [])"
    by (simp add: at_pos_def batch_payload_def)
  note a1 = at_pos_skip [OF a]
  note a2 = at_pos_skip1 [OF a1]
  obtain p where "readWALRecords ?c (length rs) (Suc (0 + length (to_string (length rs)))) = Inr (map log_entry rs, p)"
    and "at_pos ?c p []"
    using readWALRecords_at [OF a2 assms(1)] by blast
  moreover have "p = length ?c" using at_pos_length [OF \<open>at_pos ?c p []\<close>] by simp
  ultimately show ?thesis
    using readLength_at [OF a assms(2)] consume_at [OF a1] unat_of_nat64 [OF assms(2)]
    by (simp add: WALBatchParser_parse_def)
qed

section \<open>Parsing complete frames\<close>

lemmas wal_sizes = kWalFrameMagic_def kWalCommitMagic_def kWalFrameMetadataSize_def

lemma length_encodeWALFrame [simp, codec_simps]: "length (encodeWALFrame payload) = 20 + length payload"
  by (simp add: encodeWALFrame_def wal_sizes)

text \<open>A frame with an arbitrary checksum field.\<close>

definition frame_with :: "string \<Rightarrow> string \<Rightarrow> string" where
  "frame_with payload checksum =
     kWalFrameMagic @ put_u64 (of_nat (length payload)) @ payload @ checksum @ kWalCommitMagic"

lemma encodeWALFrame_with: "encodeWALFrame payload = frame_with payload (put_u32 (crc32 payload))"
  by (simp add: encodeWALFrame_def frame_with_def)

lemma readValue_at:
  "at_pos content pos (x @ s) \<Longrightarrow> length x = n \<Longrightarrow> readValue content pos n = Some x"
  unfolding at_pos_iff by (auto simp: readValue_def substr_def)

lemma substr_at: "at_pos content pos (x @ s) \<Longrightarrow> length x = n \<Longrightarrow> substr content pos n = x"
  unfolding at_pos_iff by (auto simp: substr_def)

lemma starts_with_at: "at_pos content pos (x @ s) \<Longrightarrow> starts_with (drop pos content) x"
  by (simp add: at_pos_def)

lemma wal_lengths [simp]:
  "length kWalFrameMagic = 4" "length kWalCommitMagic = 4" "kWalFrameMetadataSize = 20"
  by (simp_all add: wal_sizes)

lemma length_frame_with [simp]: "length (frame_with payload checksum) = 16 + length payload + length checksum"
  by (simp add: frame_with_def)

lemma WALParser_frame:
  assumes a: "at_pos content pos (frame_with payload checksum @ s)"
    and n: "length payload < 2 ^ 64" "length checksum = 4"
  defines "pos' \<equiv> pos + 20 + length payload"
  shows "at_pos content pos' s"
    and "WALParser_parse content pos records good =
      (if crc32 payload \<noteq> get_u32 checksum then Inl (runtime_error ''Corrupt WAL frame checksum'')
       else rbind (WALBatchParser_parse payload) (\<lambda>rs. WALParser_parse content pos' (records @ rs) pos'))"
proof -
  note a0 = a [unfolded frame_with_def append.assoc]
  note a1 = at_pos_skip [OF a0]
  note a2 = at_pos_skip [OF a1]
  note a3 = at_pos_skip [OF a2]
  note a4 = at_pos_skip [OF a3]
  show "at_pos content pos' s"
    using at_pos_skip [OF a] n by (simp add: pos'_def ac_simps)
  have len: "length content = pos + 20 + length payload + length s"
    using at_pos_length [OF a] n by simp
  note reads = starts_with_at [OF a0] readValue_at [OF a1] substr_at [OF a2 refl] readValue_at [OF a3 n(2)]
    starts_with_at [OF a4]
  show "WALParser_parse content pos records good =
      (if crc32 payload \<noteq> get_u32 checksum then Inl (runtime_error ''Corrupt WAL frame checksum'')
       else rbind (WALBatchParser_parse payload) (\<lambda>rs. WALParser_parse content pos' (records @ rs) pos'))"
    using reads unat_of_nat64 [OF n(1)] len n(2)
    by (subst WALParser_parse.simps) (simp add: Let_def pos'_def ac_simps)
qed

text \<open>The bytes of the frames of a list of batches, and the records they carry.\<close>

definition wal_frames :: "Record list list \<Rightarrow> string" where
  "wal_frames batches = concat (map (\<lambda>ops. encodeWALFrame (batch_payload ops)) batches)"

definition wal_entries :: "Record list list \<Rightarrow> (string \<times> Entry) list" where
  "wal_entries batches = concat (map (map log_entry) batches)"

definition wal_header :: string where
  "wal_header = kWalMagic @ put_u8 kWalVersion"

definition batches_ok :: "Record list list \<Rightarrow> bool" where
  "batches_ok batches \<longleftrightarrow>
     (\<forall>ops \<in> set batches. length (batch_payload ops) < 2 ^ 64 \<and> length ops < 2 ^ 64
        \<and> (\<forall>r \<in> set ops. loggable r))"

lemma WALParser_frames:
  assumes "at_pos content pos (wal_frames batches @ s)" "batches_ok batches"
  shows "WALParser_parse content pos records pos =
      WALParser_parse content (pos + length (wal_frames batches)) (records @ wal_entries batches)
        (pos + length (wal_frames batches))"
  using assms
proof (induction batches arbitrary: pos records)
  case Nil
  then show ?case by (simp add: wal_frames_def wal_entries_def)
next
  case (Cons ops batches)
  let ?p = "batch_payload ops"
  have a: "at_pos content pos (frame_with ?p (put_u32 (crc32 ?p)) @ wal_frames batches @ s)"
    using Cons.prems(1) by (simp add: wal_frames_def encodeWALFrame_with)
  have n: "length ?p < 2 ^ 64" "length (put_u32 (crc32 ?p)) = 4"
    and rt: "WALBatchParser_parse ?p = Inr (map log_entry ops)" and ok: "batches_ok batches"
    using Cons.prems(2) by (simp_all add: batches_ok_def WALBatchParser_roundtrip)
  from WALParser_frame(2) [OF a n] rt Cons.IH [OF WALParser_frame(1) [OF a n] ok]
  show ?case by (simp add: wal_frames_def wal_entries_def ac_simps)
qed

lemma wal_header_size [simp]: "length wal_header = kWalHeaderSize"
  by (simp add: wal_header_def kWalHeaderSize_def)

lemma parseWALRecords_frames:
  assumes "batches_ok batches"
  shows "parseWALRecords (wal_header @ wal_frames batches @ s) =
    WALParser_parse (wal_header @ wal_frames batches @ s) (length (wal_header @ wal_frames batches))
      (wal_entries batches) (length (wal_header @ wal_frames batches))"
proof -
  have "at_pos (wal_header @ wal_frames batches @ s) kWalHeaderSize (wal_frames batches @ s)"
    by (simp add: at_pos_iff)
  from WALParser_frames [OF this assms] show ?thesis by (simp add: parseWALRecords_def)
qed

lemma parse_complete_log:
  assumes "batches_ok batches"
  shows "parseWALRecords (wal_header @ wal_frames batches)
    = Inr (wal_entries batches, length (wal_header @ wal_frames batches))"
  using parseWALRecords_frames [OF assms, of "[]"] by (simp add: WALParser_parse.simps)

text \<open>
  C28: parsing a log that holds the frames of any sequence of batches returns exactly the records of
  those batches, in order, and accepts the whole file.
\<close>

theorem wal_roundtrip:
  "batches_ok batches \<Longrightarrow>
   parseWALRecords (wal_header @ wal_frames batches)
     = Inr (wal_entries batches, length (wal_header @ wal_frames batches))"
  by (rule parse_complete_log)

definition batch_example :: "Record list" where
  "batch_example =
     [\<lparr>rec_key = ''a'', rec_seq = 1, rec_type = Type_VALUE, rec_value = ''x''\<rparr>,
      \<lparr>rec_key = ''b'', rec_seq = 2, rec_type = Type_TOMBSTONE, rec_value = []\<rparr>]"

lemma to_string_digit: "n < 10 \<Longrightarrow> to_string n = [digit_char n]"
  by (simp add: to_string.simps)

lemma batch_example_ok: "batches_ok [batch_example]"
  by (simp add: batches_ok_def batch_example_def loggable_def batch_payload_def encodeWALRecord_def
      to_string_digit)

theorem wal_roundtrip_witness:
  "parseWALRecords (wal_header @ wal_frames [batch_example])
    = Inr (wal_entries [batch_example], length (wal_header @ wal_frames [batch_example]))"
  by (rule wal_roundtrip [OF batch_example_ok])

section \<open>Tails\<close>

lemma find_from_iff:
  "find_from s p pos = Some i \<longleftrightarrow>
   pos \<le> i \<and> i + length p \<le> length s \<and> starts_with (drop i s) p
   \<and> (\<forall>j. pos \<le> j \<longrightarrow> j < i \<longrightarrow> \<not> starts_with (drop j s) p)"
proof (induction s p pos rule: find_from.induct)
  case (1 s p pos)
  show ?case
  proof (cases "\<not> pos + length p > length s \<and> \<not> starts_with (drop pos s) p")
    case True
    have "(\<forall>j. pos \<le> j \<longrightarrow> j < i \<longrightarrow> \<not> starts_with (drop j s) p)
        \<longleftrightarrow> (\<forall>j. Suc pos \<le> j \<longrightarrow> j < i \<longrightarrow> \<not> starts_with (drop j s) p)"
      using True by (metis Suc_leD le_eq_less_or_eq Suc_leI)
    moreover have "starts_with (drop i s) p \<Longrightarrow> pos \<le> i \<Longrightarrow> Suc pos \<le> i"
      using True by (metis le_eq_less_or_eq Suc_leI)
    ultimately show ?thesis
      using True "1.IH" by (subst find_from.simps) (auto dest: Suc_leD)
  next
    case False
    then show ?thesis
      by (subst find_from.simps) (auto simp: le_eq_less_or_eq)
  qed
qed

lemma find_from_None:
  "find_from s p pos = None \<longleftrightarrow>
   (\<forall>i. pos \<le> i \<longrightarrow> i + length p \<le> length s \<longrightarrow> \<not> starts_with (drop i s) p)"
proof (induction s p pos rule: find_from.induct)
  case (1 s p pos)
  have "(\<forall>i \<ge> pos. Q i) \<longleftrightarrow> Q pos \<and> (\<forall>i \<ge> Suc pos. Q i)" for Q
    by (metis Suc_leD Suc_leI le_eq_less_or_eq order_refl)
  from this [of "\<lambda>i. i + length p \<le> length s \<longrightarrow> \<not> starts_with (drop i s) p"] 1 show ?case
    by (subst find_from.simps) auto
qed

lemma validFrameAt_magic:
  "validFrameAt s i \<Longrightarrow> starts_with (drop i s) kWalFrameMagic \<and> i + 20 \<le> length s"
  by (auto simp: validFrameAt_def split: if_splits)

lemma hasValidFrameAfter_iff:
  "hasValidFrameAfter s pos \<longleftrightarrow> (\<exists>i \<ge> pos. validFrameAt s i)"
proof (induction s pos rule: hasValidFrameAfter.induct)
  case (1 s pos)
  show ?case
  proof (cases "find_from s kWalFrameMagic pos")
    case None
    have "\<not> validFrameAt s i" if "pos \<le> i" for i
      using that None validFrameAt_magic [of s i] unfolding find_from_None by auto
    with None show ?thesis by (subst hasValidFrameAfter.simps) auto
  next
    case (Some i)
    then have i: "pos \<le> i" and none: "\<And>j. pos \<le> j \<Longrightarrow> j < i \<Longrightarrow> \<not> validFrameAt s j"
      unfolding find_from_iff using validFrameAt_magic by blast+
    have "validFrameAt s i \<or> (\<exists>j \<ge> Suc i. validFrameAt s j) \<longleftrightarrow> (\<exists>j \<ge> pos. validFrameAt s j)"
      using i none by (metis Suc_leD Suc_leI le_trans linorder_not_less le_eq_less_or_eq)
    with 1 Some show ?thesis by (subst hasValidFrameAfter.simps) auto
  qed
qed

lemma validFrameAt_shift:
  assumes "at_pos content pos t"
  shows "validFrameAt content (pos + i) \<longleftrightarrow> validFrameAt t i"
proof -
  from assms obtain p where content: "content = p @ t" "length p = pos"
    unfolding at_pos_iff by blast
  have [simp]: "readValue content (pos + j) n = readValue t j n" for j n
    using content by (auto simp: readValue_def substr_def)
  have [simp]: "drop (pos + j) content = drop j t" "substr content (pos + j) n = substr t j n" for j n
    using content by (simp_all add: substr_def)
  have len: "length content = pos + length t" using content by simp
  show ?thesis
    unfolding validFrameAt_def len
    by (simp add: add.assoc Let_def cong: option.case_cong)
qed

lemma ends_with_at:
  assumes "at_pos content pos t" "length p \<le> length t"
  shows "ends_with content p \<longleftrightarrow> ends_with t p"
  using assms unfolding at_pos_iff by (auto simp: ends_with_def)

text \<open>
  \<open>incomplete t\<close>: the bytes \<open>t\<close> do not begin with a frame of the size they announce;
  \<open>looks_committed t\<close>: they end like a committed frame or hold a complete valid one further on.
\<close>

definition incomplete :: "string \<Rightarrow> bool" where
  "incomplete t \<longleftrightarrow> length t < 20 \<or> \<not> starts_with t kWalFrameMagic
     \<or> unat (get_u64 (substr t 4 8)) > length t - 20"

definition looks_committed :: "string \<Rightarrow> bool" where
  "looks_committed t \<longleftrightarrow> 20 \<le> length t \<and> ends_with t kWalCommitMagic \<or> (\<exists>i \<ge> 1. validFrameAt t i)"

lemma looks_committed_Nil: "\<not> looks_committed []"
  using validFrameAt_magic [of "[]"] by (auto simp: looks_committed_def)

lemma incompleteTail_at:
  assumes "at_pos content pos t"
  shows "incompleteTailOrCorruption content pos records =
    (if looks_committed t then Inl (runtime_error ''Corrupt WAL frame before a committed batch'')
     else Inr records)"
proof -
  have "(\<exists>i \<ge> pos + 1. validFrameAt content i) \<longleftrightarrow> (\<exists>i \<ge> 1. validFrameAt t i)"
  proof
    assume "\<exists>i \<ge> pos + 1. validFrameAt content i"
    then obtain i where "pos + 1 \<le> i" "validFrameAt content i" by blast
    with validFrameAt_shift [OF assms, of "i - pos"] show "\<exists>i \<ge> 1. validFrameAt t i"
      by (intro exI [of _ "i - pos"]) auto
  next
    assume "\<exists>i \<ge> 1. validFrameAt t i"
    with validFrameAt_shift [OF assms] show "\<exists>i \<ge> pos + 1. validFrameAt content i"
      by (metis add_le_cancel_left)
  qed
  moreover have "length content - pos = length t" using at_pos_length [OF assms] by simp
  ultimately show ?thesis
    using ends_with_at [OF assms, of kWalCommitMagic]
    by (auto simp: incompleteTailOrCorruption_def hasValidFrameAfter_iff looks_committed_def)
qed

lemma WALParser_incomplete:
  assumes a: "at_pos content pos t" and t: "incomplete t" "t \<noteq> []"
  shows "WALParser_parse content pos records good =
    (if looks_committed t then Inl (runtime_error ''Corrupt WAL frame before a committed batch'')
     else Inr (records, good))"
proof -
  have len: "length content = pos + length t" using a by (rule at_pos_length)
  have d: "drop pos content = t" using a by (simp add: at_pos_def)
  have rv: "length t \<ge> 20 \<Longrightarrow> readValue content (pos + 4) 8 = Some (substr t 4 8)"
    using len d drop_drop [of 4 pos content] by (auto simp: readValue_def substr_def add.commute)
  show ?thesis
    using t len d rv incompleteTail_at [OF a, of records]
    by (subst WALParser_parse.simps) (auto simp: incomplete_def Let_def)
qed

lemma parse_incomplete_tail:
  assumes "batches_ok batches" "incomplete t"
  shows "parseWALRecords (wal_header @ wal_frames batches @ t) =
    (if looks_committed t then Inl (runtime_error ''Corrupt WAL frame before a committed batch'')
     else Inr (wal_entries batches, length (wal_header @ wal_frames batches)))"
proof (cases "t = []")
  case True
  have "\<not> looks_committed []" by (rule looks_committed_Nil)
  with True parse_complete_log [OF assms(1)] show ?thesis by simp
next
  case False
  have "at_pos (wal_header @ wal_frames batches @ t) (length (wal_header @ wal_frames batches)) t"
    by (simp add: at_pos_def)
  from parseWALRecords_frames [OF assms(1), of t] WALParser_incomplete [OF this assms(2) False]
  show ?thesis by simp
qed

lemma cut_frame_incomplete:
  assumes "length p < 2 ^ 64" "k < length (encodeWALFrame p)"
  shows "incomplete (take k (encodeWALFrame p))"
proof (cases "k < 20")
  case False
  let ?f = "encodeWALFrame p"
  have "substr (take k ?f) 4 8 = put_u64 (of_nat (length p))"
    using False by (simp add: substr_def encodeWALFrame_def drop_take)
  with assms False show ?thesis by (auto simp: incomplete_def unat_of_nat64)
qed (simp add: incomplete_def)

text \<open>
  C29: recovery after a torn append. When the log ends in a proper prefix of the next frame, the
  parser returns exactly the records of the complete frames and the offset at which to truncate,
  unless the prefix happens to end in the commit marker or to contain a complete valid frame.
\<close>

theorem torn_append_recovered:
  assumes "batches_ok batches" "length p < 2 ^ 64" "k < length (encodeWALFrame p)"
    and "\<not> looks_committed (take k (encodeWALFrame p))"
  shows "parseWALRecords (wal_header @ wal_frames batches @ take k (encodeWALFrame p))
    = Inr (wal_entries batches, length (wal_header @ wal_frames batches))"
  using parse_incomplete_tail [OF assms(1) cut_frame_incomplete [OF assms(2,3)]] assms(4) by simp

lemma short_not_committed: "length t < 20 \<Longrightarrow> \<not> looks_committed t"
  using validFrameAt_magic [of t] by (fastforce simp: looks_committed_def)

theorem torn_append_recovered_witness:
  "parseWALRecords (wal_header @ wal_frames [batch_example]
      @ take 17 (encodeWALFrame (batch_payload batch_example)))
    = Inr (wal_entries [batch_example], length (wal_header @ wal_frames [batch_example]))"
proof (rule torn_append_recovered [OF batch_example_ok])
  show "length (batch_payload batch_example) < 2 ^ 64"
    using batch_example_ok by (simp add: batches_ok_def)
qed (simp_all add: short_not_committed)

text \<open>A marker in a key or a value is behind the first four bytes of the payload.\<close>

lemma marker_in_payload:
  assumes r: "r \<in> set ops" and m: "sublist kWalCommitMagic (rec_key r) \<or> sublist kWalCommitMagic (rec_value r)"
  obtains u v where "batch_payload ops = u @ kWalCommitMagic @ v" "4 \<le> length u"
proof -
  from r obtain before after where ops: "ops = before @ r # after" by (meson split_list)
  let ?head = "to_string (length ops) @ '','' @ concat (map encodeWALRecord before)
    @ (if rec_type r = Type_VALUE then ''P,'' else ''D,'')
    @ to_string (unat (rec_seq r)) @ '','' @ to_string (length (rec_key r)) @ '',''"
  have p: "batch_payload ops = ?head @ rec_key r @ ''='' @ to_string (length (rec_value r)) @ '','' @ rec_value r
      @ newline # concat (map encodeWALRecord after)" (is "_ = _ @ _ @ ?rest")
    by (simp add: batch_payload_def ops encodeWALRecord_def)
  have head: "4 \<le> length ?head" by simp
  from m show thesis
  proof
    assume "sublist kWalCommitMagic (rec_key r)"
    then obtain x y where "rec_key r = x @ kWalCommitMagic @ y" by (auto simp: sublist_def)
    with p head show thesis by (intro that [of "?head @ x" "y @ ?rest"]) simp_all
  next
    assume "sublist kWalCommitMagic (rec_value r)"
    then obtain x y where "rec_value r = x @ kWalCommitMagic @ y" by (auto simp: sublist_def)
    with p head show thesis
      by (intro that [of "?head @ rec_key r @ ''='' @ to_string (length (rec_value r)) @ '','' @ x"
          "y @ newline # concat (map encodeWALRecord after)"]) simp_all
  qed
qed

text \<open>
  C32: the exception is real, for every batch with the bytes \<open>WCMT\<close> in a key or a value. There is a
  place where the append of its frame can be torn so that the log, whatever committed batches it
  holds, is refused with the error for a damaged committed frame, although no committed byte of it
  is damaged.
\<close>

theorem torn_append_rejected:
  assumes "batches_ok [ops]" "r \<in> set ops"
    and "sublist kWalCommitMagic (rec_key r) \<or> sublist kWalCommitMagic (rec_value r)"
  shows "\<exists>k < length (encodeWALFrame (batch_payload ops)). \<forall>batches. batches_ok batches \<longrightarrow>
    parseWALRecords (wal_header @ wal_frames batches @ take k (encodeWALFrame (batch_payload ops)))
      = Inl (runtime_error ''Corrupt WAL frame before a committed batch'')"
proof -
  let ?f = "encodeWALFrame (batch_payload ops)"
  from marker_in_payload [OF assms(2,3)] obtain u v where u: "batch_payload ops = u @ kWalCommitMagic @ v" "4 \<le> length u" .
  let ?k = "16 + length u"
  have f: "?f = ((kWalFrameMagic @ put_u64 (of_nat (length (batch_payload ops))) @ u) @ kWalCommitMagic)
      @ v @ put_u32 (crc32 (batch_payload ops)) @ kWalCommitMagic"
    by (simp add: encodeWALFrame_def u(1))
  have len: "?k < length ?f" unfolding f by simp
  have "take ?k ?f = (kWalFrameMagic @ put_u64 (of_nat (length (batch_payload ops))) @ u) @ kWalCommitMagic"
    unfolding f by (simp only: take_append) simp
  then have "looks_committed (take ?k ?f)"
    using u(2) by (simp add: looks_committed_def ends_with_append del: append_assoc)
  moreover have "incomplete (take ?k ?f)"
    using assms(1) len by (intro cut_frame_incomplete) (simp_all add: batches_ok_def)
  ultimately have "\<forall>batches. batches_ok batches \<longrightarrow> parseWALRecords (wal_header @ wal_frames batches @ take ?k ?f)
      = Inl (runtime_error ''Corrupt WAL frame before a committed batch'')"
    using parse_incomplete_tail by simp
  with len show ?thesis by blast
qed

text \<open>A record whose value contains the commit marker, appended to a log with a committed batch.\<close>

definition marker_example :: Record where
  "marker_example = \<lparr>rec_key = ''k'', rec_seq = 1, rec_type = Type_VALUE, rec_value = ''WCMT!''\<rparr>"

theorem torn_append_rejected_witness:
  "\<exists>k < length (encodeWALFrame (batch_payload [marker_example])).
    parseWALRecords (wal_header @ wal_frames [batch_example] @ take k (encodeWALFrame (batch_payload [marker_example])))
      = Inl (runtime_error ''Corrupt WAL frame before a committed batch'')"
proof -
  have "batches_ok [[marker_example]]"
    by (simp add: batches_ok_def marker_example_def loggable_def batch_payload_def encodeWALRecord_def to_string_digit)
  moreover have "sublist kWalCommitMagic (rec_value marker_example)"
    by (auto simp: sublist_def marker_example_def kWalCommitMagic_def intro: exI [of _ "[]"])
  ultimately show ?thesis using torn_append_rejected [of "[marker_example]" marker_example] batch_example_ok by auto
qed

text \<open>
  C30: damage to at most four consecutive bytes of a committed frame's payload is reported as a
  checksum error, whatever precedes and follows the frame.
\<close>

theorem committed_damage_detected:
  assumes "batches_ok batches" "length (u @ b @ v) < 2 ^ 64"
    and "length b' = length b" "length b \<le> 4" "b' \<noteq> b"
  shows "parseWALRecords (wal_header @ wal_frames batches
      @ frame_with (u @ b' @ v) (put_u32 (crc32 (u @ b @ v))) @ rest)
    = Inl (runtime_error ''Corrupt WAL frame checksum'')"
proof -
  let ?c = "wal_header @ wal_frames batches @ frame_with (u @ b' @ v) (put_u32 (crc32 (u @ b @ v))) @ rest"
  have a: "at_pos ?c (length (wal_header @ wal_frames batches))
      (frame_with (u @ b' @ v) (put_u32 (crc32 (u @ b @ v))) @ rest)"
    by (simp add: at_pos_def)
  have "crc32 (u @ b' @ v) \<noteq> crc32 (u @ b @ v)"
    using assms(3-5) by (intro crc32_burst) simp_all
  then show ?thesis
    using WALParser_frame(2) [OF a] assms(2,3) parseWALRecords_frames [OF assms(1)] by simp
qed

theorem committed_damage_detected_witness:
  "parseWALRecords (wal_header @ wal_frames [batch_example]
      @ frame_with (''1,P,3,1,'' @ ''c'' @ ''=0,'' @ [newline])
          (put_u32 (crc32 (''1,P,3,1,'' @ ''k'' @ ''=0,'' @ [newline]))) @ [])
    = Inl (runtime_error ''Corrupt WAL frame checksum'')"
  by (rule committed_damage_detected [OF batch_example_ok]) simp_all

text \<open>
  Bytes that do not begin a complete frame are never skipped: when a valid frame follows
  them anywhere, the parser reports corruption instead of dropping that committed batch.
\<close>

theorem lost_frame_detected:
  assumes "batches_ok batches" "g \<noteq> []" "length p < 2 ^ 64"
    and "incomplete (g @ encodeWALFrame p @ rest)"
  shows "parseWALRecords (wal_header @ wal_frames batches @ g @ encodeWALFrame p @ rest)
    = Inl (runtime_error ''Corrupt WAL frame before a committed batch'')"
proof -
  let ?t = "g @ encodeWALFrame p @ rest"
  have a: "at_pos ?t (length g) (encodeWALFrame p @ rest)" by (simp add: at_pos_def)
  have "validFrameAt (encodeWALFrame p @ rest) 0"
    using unat_of_nat64 [OF assms(3)]
    by (simp add: validFrameAt_def encodeWALFrame_def readValue_def substr_def starts_with_def Let_def)
  with validFrameAt_shift [OF a, of 0] have "validFrameAt ?t (length g)" by simp
  moreover have "1 \<le> length g" using assms(2) by (cases g) auto
  ultimately have "looks_committed ?t" by (auto simp: looks_committed_def)
  with parse_incomplete_tail [OF assms(1,4)] show ?thesis by simp
qed

theorem lost_frame_detected_witness:
  "parseWALRecords (wal_header @ wal_frames [batch_example] @ ''??''
      @ encodeWALFrame (batch_payload batch_example) @ [])
    = Inl (runtime_error ''Corrupt WAL frame before a committed batch'')"
proof (rule lost_frame_detected [OF batch_example_ok])
  show "length (batch_payload batch_example) < 2 ^ 64"
    using batch_example_ok by (simp add: batches_ok_def)
qed (simp_all add: incomplete_def starts_with_def kWalFrameMagic_def)

end
