(* ===== verification/Versions.thy ===== *)
theory Versions
  imports Utils Programs
begin

text \<open>
  The abstract specification of the store: a collection of versioned records, and what a read of
  a key at a sequence number answers. A read returns the newest version of the key that is not
  newer than the sequence number; every component that answers reads is proved to agree with it.
\<close>

section \<open>Reads\<close>

definition pick :: "Record option \<Rightarrow> Record \<Rightarrow> Record option" where
  "pick best r = (case best of None \<Rightarrow> Some r | Some b \<Rightarrow> if rec_seq b < rec_seq r then Some r else best)"

definition eligible :: "string \<Rightarrow> u64 \<Rightarrow> Record \<Rightarrow> bool" where
  "eligible k q r \<longleftrightarrow> rec_key r = k \<and> rec_seq r \<le> q"

definition visible :: "Record list \<Rightarrow> string \<Rightarrow> u64 \<Rightarrow> Record option" where
  "visible rs k q = foldl pick None (filter (eligible k q) rs)"

text \<open>
  What \<open>get\<close> returns and what it leaves in its out-parameter, which it only writes when it finds
  a value.
\<close>

definition read_outcome :: "Record option \<Rightarrow> string \<Rightarrow> Result \<times> string" where
  "read_outcome found value =
     (case found of
        None \<Rightarrow> (Result_ABSENT, value)
      | Some r \<Rightarrow> if rec_type r = Type_TOMBSTONE then (Result_TOMBSTONE, value)
                 else (Result_VALUE, rec_value r))"

text \<open>The value a client sees.\<close>

definition read_value :: "Record list \<Rightarrow> string \<Rightarrow> u64 \<Rightarrow> string option" where
  "read_value rs k q =
     (case visible rs k q of
        None \<Rightarrow> None
      | Some r \<Rightarrow> if rec_type r = Type_TOMBSTONE then None else Some (rec_value r))"

text \<open>No two versions of a key have the same sequence number.\<close>

definition unique_versions :: "Record list \<Rightarrow> bool" where
  "unique_versions rs \<longleftrightarrow> inj_on rkey (set rs)"

text \<open>The order of every table: by key, and within a key newest first, without repetition.\<close>

definition sorted_records :: "Record list \<Rightarrow> bool" where
  "sorted_records rs \<longleftrightarrow> sorted_wrt (\<lambda>a b. rkey a < rkey b) rs"

text \<open>Every version in \<open>a\<close> is newer than every version of the same key in \<open>b\<close>.\<close>

definition newer_than :: "Record list \<Rightarrow> Record list \<Rightarrow> bool" where
  "newer_than a b \<longleftrightarrow>
     (\<forall>x \<in> set a. \<forall>y \<in> set b. rec_key x = rec_key y \<longrightarrow> rec_seq y < rec_seq x)"

section \<open>Lemmas\<close>

lemma pick_fold:
  "foldl pick best rs = None \<longleftrightarrow> best = None \<and> rs = []"
  by (induction rs arbitrary: best) (auto simp: pick_def split: option.splits)

lemma pick_fold_Some:
  "foldl pick best rs = Some r \<Longrightarrow>
   (r \<in> set rs \<or> best = Some r) \<and> (\<forall>x \<in> set rs. rec_seq x \<le> rec_seq r)
   \<and> (\<forall>b. best = Some b \<longrightarrow> rec_seq b \<le> rec_seq r)"
proof (induction rs arbitrary: best)
  case Nil
  then show ?case by simp
next
  case (Cons x rs)
  from Cons.IH [of "pick best x"] Cons.prems show ?case
    by (auto simp: pick_def split: option.splits if_splits)
qed

lemma visible_None: "visible rs k q = None \<longleftrightarrow> (\<forall>r \<in> set rs. \<not> eligible k q r)"
  by (auto simp: visible_def pick_fold filter_empty_conv)

lemma visible_SomeD:
  "visible rs k q = Some r \<Longrightarrow>
   r \<in> set rs \<and> eligible k q r \<and> (\<forall>x \<in> set rs. eligible k q x \<longrightarrow> rec_seq x \<le> rec_seq r)"
  unfolding visible_def by (drule pick_fold_Some) auto

lemma unique_versionsD:
  "unique_versions rs \<Longrightarrow> a \<in> set rs \<Longrightarrow> b \<in> set rs \<Longrightarrow>
   rec_key a = rec_key b \<Longrightarrow> rec_seq a = rec_seq b \<Longrightarrow> a = b"
  by (auto simp: unique_versions_def inj_on_def rkey_eq)

lemma visible_eqI:
  assumes "unique_versions rs" "r \<in> set rs" "eligible k q r"
    and "\<And>x. x \<in> set rs \<Longrightarrow> eligible k q x \<Longrightarrow> rec_seq x \<le> rec_seq r"
  shows "visible rs k q = Some r"
proof (cases "visible rs k q")
  case None
  with assms show ?thesis by (auto simp: visible_None)
next
  case (Some s)
  from visible_SomeD [OF this] assms have "rec_seq s = rec_seq r" "rec_key s = rec_key r" "s \<in> set rs"
    by (auto simp: eligible_def intro: order_antisym)
  with Some assms show ?thesis by (auto dest: unique_versionsD)
qed

text \<open>A read depends only on which versions there are, not on how they are arranged.\<close>

lemma visible_set_cong:
  assumes "set rs = set rs'" "unique_versions rs"
  shows "visible rs k q = visible rs' k q"
proof (cases "visible rs' k q")
  case None
  then have "visible rs k q = None" using assms(1) by (simp add: visible_None)
  with None show ?thesis by simp
next
  case (Some r)
  with visible_SomeD [OF Some] assms show ?thesis by (auto intro: visible_eqI)
qed

lemma sorted_records_unique: "sorted_records rs \<Longrightarrow> unique_versions rs"
  using strict_sorted_iff [of "map rkey rs"]
  by (simp add: unique_versions_def sorted_records_def sorted_wrt_map distinct_map)

lemma sorted_records_simps [simp]:
  "sorted_records []"
  "sorted_records (r # rs) \<longleftrightarrow> (\<forall>x \<in> set rs. rkey r < rkey x) \<and> sorted_records rs"
  by (simp_all add: sorted_records_def)

lemma sorted_records_append:
  "sorted_records (xs @ ys) \<longleftrightarrow>
   sorted_records xs \<and> sorted_records ys \<and> (\<forall>x \<in> set xs. \<forall>y \<in> set ys. rkey x < rkey y)"
  by (simp add: sorted_records_def sorted_wrt_append)

text \<open>In a sorted table the first eligible record is the answer.\<close>

lemma visible_sorted:
  assumes "sorted_records rs"
  shows "visible rs k q = find (eligible k q) rs"
  using assms
proof (induction rs)
  case Nil
  then show ?case by (simp add: visible_def)
next
  case (Cons r rs)
  show ?case
  proof (cases "eligible k q r")
    case True
    have "visible (r # rs) k q = Some r"
    proof (rule visible_eqI)
      show "unique_versions (r # rs)" using Cons.prems by (rule sorted_records_unique)
      fix x assume x: "x \<in> set (r # rs)" and "eligible k q x"
      with True have k: "rec_key x = rec_key r" by (simp add: eligible_def)
      from x Cons.prems have "x = r \<or> rkey r < rkey x" by auto
      with k show "rec_seq x \<le> rec_seq r" by (auto simp: rkey_less)
    qed (use True in auto)
    with True show ?thesis by simp
  next
    case False
    with Cons show ?thesis by (simp add: visible_def)
  qed
qed

lemma visible_append_gen:
  "visible (a @ b) k q = foldl pick (visible a k q) (filter (eligible k q) b)"
  by (simp add: visible_def)

lemma pick_fold_newest:
  "(\<And>x. x \<in> set rs \<Longrightarrow> rec_seq x \<le> rec_seq r) \<Longrightarrow> foldl pick (Some r) rs = Some r"
proof (induction rs)
  case (Cons x rs)
  then have "pick (Some r) x = Some r" by (simp add: pick_def leD)
  with Cons show ?case by simp
qed simp

text \<open>Searching a newer collection first finds the same record as searching both together.\<close>

lemma visible_append:
  assumes "newer_than a b"
  shows "visible (a @ b) k q = (case visible a k q of None \<Rightarrow> visible b k q | Some r \<Rightarrow> Some r)"
proof (cases "visible a k q")
  case None
  then show ?thesis by (simp add: visible_append_gen) (simp add: visible_def)
next
  case (Some r)
  then have "r \<in> set a" "rec_key r = k" using visible_SomeD by (auto simp: eligible_def)
  with assms have "rec_seq x \<le> rec_seq r" if "x \<in> set b" "eligible k q x" for x
    using that by (auto simp: newer_than_def eligible_def less_imp_le)
  then have "foldl pick (Some r) (filter (eligible k q) b) = Some r"
    by (intro pick_fold_newest) auto
  with Some show ?thesis by (simp add: visible_append_gen)
qed

lemma newer_than_append [simp]:
  "newer_than (a @ b) c \<longleftrightarrow> newer_than a c \<and> newer_than b c"
  "newer_than a (b @ c) \<longleftrightarrow> newer_than a b \<and> newer_than a c"
  by (auto simp: newer_than_def)

lemma newer_than_Nil [simp]: "newer_than [] b" "newer_than a []"
  by (simp_all add: newer_than_def)

lemma newer_than_subset:
  "newer_than a b \<Longrightarrow> set a' \<subseteq> set a \<Longrightarrow> set b' \<subseteq> set b \<Longrightarrow> newer_than a' b'"
  unfolding newer_than_def by blast

lemma newer_than_concat:
  "newer_than a (concat bs) \<longleftrightarrow> (\<forall>b \<in> set bs. newer_than a b)"
  by (auto simp: newer_than_def)

text \<open>Layers, newest first.\<close>

definition layered :: "Record list list \<Rightarrow> bool" where
  "layered ls \<longleftrightarrow> sorted_wrt newer_than ls"

lemma layered_simps [simp]:
  "layered []"
  "layered (l # ls) \<longleftrightarrow> (\<forall>x \<in> set ls. newer_than l x) \<and> layered ls"
  by (simp_all add: layered_def)

lemma layered_append:
  "layered (as @ bs) \<longleftrightarrow> layered as \<and> layered bs \<and> (\<forall>a \<in> set as. \<forall>b \<in> set bs. newer_than a b)"
  by (simp add: layered_def sorted_wrt_append)

lemma unique_append:
  assumes "unique_versions a" "unique_versions b" "newer_than a b"
  shows "unique_versions (a @ b)"
proof -
  have "rkey x \<noteq> rkey y" if "x \<in> set a" "y \<in> set b" for x y
    using assms(3) that unfolding newer_than_def rkey_eq by (metis order_less_irrefl)
  then have "rkey ` (set a - set b) \<inter> rkey ` (set b - set a) = {}" by blast
  with assms(1,2) show ?thesis by (simp add: unique_versions_def inj_on_Un)
qed

lemma layered_unique:
  "layered ls \<Longrightarrow> \<forall>l \<in> set ls. unique_versions l \<Longrightarrow> unique_versions (concat ls)"
proof (induction ls)
  case Nil
  then show ?case by (simp add: unique_versions_def)
next
  case (Cons l ls)
  then show ?case by (simp add: unique_append newer_than_concat)
qed

lemma visible_layered:
  "layered (l # ls) \<Longrightarrow>
   visible (concat (l # ls)) k q = (case visible l k q of None \<Rightarrow> visible (concat ls) k q | Some r \<Rightarrow> Some r)"
  using visible_append [of l "concat ls"] by (simp add: newer_than_concat)

text \<open>Records of other keys are irrelevant to a read.\<close>

lemma visible_filter:
  "(\<And>r. r \<in> set rs \<Longrightarrow> eligible k q r \<Longrightarrow> P r) \<Longrightarrow> visible (filter P rs) k q = visible rs k q"
proof -
  assume "\<And>r. r \<in> set rs \<Longrightarrow> eligible k q r \<Longrightarrow> P r"
  then have "filter (eligible k q) (filter P rs) = filter (eligible k q) rs"
    by (simp add: filter_filter) (metis (mono_tags, lifting) filter_cong)
  then show ?thesis by (simp add: visible_def)
qed

lemma visible_absent_key: "k \<notin> rec_key ` set rs \<Longrightarrow> visible rs k q = None"
  by (auto simp: visible_None eligible_def)

lemma read_outcome_cases:
  "fst (read_outcome found v) = Result_ABSENT \<longleftrightarrow> found = None"
  by (auto simp: read_outcome_def split: option.splits)

section \<open>Sources of versions\<close>

text \<open>
  A source answers reads of the records it holds. A probe may change the state (it may fill a
  cache), but whatever the sources hold they keep. \<open>search_all\<close> asks several sources in turn and
  stops at the first that knows the key.
\<close>

fun search_all ::
  "('t \<Rightarrow> string \<Rightarrow> ('s, Result \<times> string) prog) \<Rightarrow> 't list \<Rightarrow> string \<Rightarrow> ('s, Result \<times> string) prog" where
  "search_all probe [] v = io_ret (Result_ABSENT, v)"
| "search_all probe (t # ts) v =
     io_bind (probe t v) (\<lambda>(r, v').
       if r = Result_ABSENT then search_all probe ts v' else io_ret (r, v'))"

locale version_source =
  fixes probe :: "'t \<Rightarrow> string \<Rightarrow> u64 \<Rightarrow> string \<Rightarrow> ('s, Result \<times> string) prog"
    and holds :: "'t \<Rightarrow> 's \<Rightarrow> Record list \<Rightarrow> bool"
  assumes probe_reads: "holds t s rs \<Longrightarrow>
      \<exists>s'. probe t k q v s = Some (Inr (read_outcome (visible rs k q) v), s')
         \<and> (\<forall>t' rs'. holds t' s rs' \<longrightarrow> holds t' s' rs')"
begin

text \<open>Asking layered sources newest first is reading their union.\<close>

lemma search_all_reads:
  assumes "layered (map recs ts)" "\<forall>t \<in> set ts. holds t s (recs t)"
  shows "\<exists>s'. search_all (\<lambda>t v. probe t k q v) ts v s
        = Some (Inr (read_outcome (visible (concat (map recs ts)) k q) v), s')
      \<and> (\<forall>t' rs'. holds t' s rs' \<longrightarrow> holds t' s' rs')"
  using assms
proof (induction ts arbitrary: s)
  case Nil
  then show ?case by (simp add: visible_def read_outcome_def)
next
  case (Cons t ts)
  from Cons.prems(2) obtain s1 where
    p: "probe t k q v s = Some (Inr (read_outcome (visible (recs t) k q) v), s1)"
    and keep: "\<forall>t' rs'. holds t' s rs' \<longrightarrow> holds t' s1 rs'"
    using probe_reads by (meson list.set_intros(1))
  note vis = visible_layered [of "recs t" "map recs ts" k q]
  show ?case
  proof (cases "visible (recs t) k q")
    case None
    have "layered (map recs ts)" "\<forall>t \<in> set ts. holds t s1 (recs t)"
      using Cons.prems keep by auto
    from Cons.IH [OF this] keep p None vis Cons.prems(1) show ?thesis
      by (fastforce simp: io_bind_def read_outcome_def)
  next
    case (Some r)
    with p keep vis Cons.prems(1) show ?thesis
      by (auto simp: io_bind_def read_outcome_def)
  qed
qed

end

end
