(* ===== verification/MemTable.thy ===== *)
theory MemTable
  imports FileIO WAL Versions
begin

text \<open>
  The MemTable of \<open>src/MemTable.cpp\<close>: the ordered table in memory, its write-ahead log file and the
  recovery of the table from the log. The \<open>std::map\<close> is its sequence of entries in ascending key
  order.
\<close>

section \<open>The ordered map\<close>

fun insert_or_assign :: "'k::linorder \<Rightarrow> 'v \<Rightarrow> ('k \<times> 'v) list \<Rightarrow> ('k \<times> 'v) list" where
  "insert_or_assign k v [] = [(k, v)]"
| "insert_or_assign k v ((k', v') # xs) =
     (if k < k' then (k, v) # (k', v') # xs
      else if k = k' then (k', v) # xs
      else (k', v') # insert_or_assign k v xs)"

definition map_lower_bound :: "'k::linorder \<Rightarrow> ('k \<times> 'v) list \<Rightarrow> ('k \<times> 'v) list" where
  "map_lower_bound k xs = dropWhile (\<lambda>(k', _). k' < k) xs"

section \<open>State\<close>

record WALFileWriter =
  wal_path :: path
  wal_fd :: int
  wal_poisoned :: bool

record MemTable =
  mt_table :: "(Key \<times> Entry) list"
  mt_logPath :: path
  mt_walWriter :: WALFileWriter
  mt_currentSizeBytes :: u64
  mt_currentSeq :: u64

type_synonym 'a mt = "(world \<times> MemTable, 'a) prog"

section \<open>The table\<close>

definition entrySize :: "string \<Rightarrow> Entry \<Rightarrow> u64" where
  "entrySize k entry = of_nat (length k) + of_nat (length (ent_value entry)) + 1 + 8"

definition applyToMemory :: "string \<Rightarrow> Entry \<Rightarrow> MemTable \<Rightarrow> MemTable" where
  "applyToMemory k entry m =
     (let mapKey = Key k (ent_seq entry);
          sz = (case map_of (mt_table m) mapKey of
                  None \<Rightarrow> mt_currentSizeBytes m
                | Some existing \<Rightarrow> mt_currentSizeBytes m - entrySize k existing)
      in m\<lparr>mt_currentSizeBytes := sz + entrySize k entry,
           mt_table := insert_or_assign mapKey entry (mt_table m),
           mt_currentSeq := max (ent_seq entry) (mt_currentSeq m)\<rparr>)"

definition MemTable_get :: "MemTable \<Rightarrow> string \<Rightarrow> u64 \<Rightarrow> string \<Rightarrow> Result \<times> string" where
  "MemTable_get m k readSeq value =
     (case map_lower_bound (Key k readSeq) (mt_table m) of
        [] \<Rightarrow> (Result_ABSENT, value)
      | (found, entry) # _ \<Rightarrow>
          if key_key found \<noteq> k then (Result_ABSENT, value)
          else if ent_type entry = Type_TOMBSTONE then (Result_TOMBSTONE, value)
          else (Result_VALUE, ent_value entry))"

definition MemTable_size :: "MemTable \<Rightarrow> nat" where
  "MemTable_size m = length (mt_table m)"

definition size_bytes :: "MemTable \<Rightarrow> u64" where
  "size_bytes m = mt_currentSizeBytes m"

definition getMaxWALSeq :: "MemTable \<Rightarrow> u64" where
  "getMaxWALSeq m = mt_currentSeq m"

section \<open>The log file\<close>

definition WALFileWriter_new :: "path \<Rightarrow> WALFileWriter io" where
  "WALFileWriter_new p =
     (let parent = (if butlast p = [] then [''.''] else butlast p);
          writer = (\<lambda>fd. \<lparr>wal_path = p, wal_fd = fd, wal_poisoned = False\<rparr>)
      in
      io_bind
        (if butlast p = [] then io_ret ()
         else io_bind (io_act (fs_create_directories parent)) (\<lambda>err.
           if err \<noteq> 0 then io_throw (runtime_error ''Failed to create directory'') else io_ret ()))
        (\<lambda>_. io_bind (io_act (sys_open_write True False p)) (\<lambda>r.
           case r of
             Inl err \<Rightarrow>
               if err \<noteq> EEXIST then io_throw (system_error err ''open failed'')
               else io_bind (io_act (sys_open_write False False p)) (\<lambda>r.
                 case r of
                   Inl err \<Rightarrow> io_throw (system_error err ''open existing WAL failed'')
                 | Inr fd \<Rightarrow> io_ret (writer fd))
           | Inr fd \<Rightarrow>
               io_bind
                 (io_try
                   (io_bind (writeAll fd kWalMagic) (\<lambda>_.
                    io_bind (writeAll fd (put_u8 kWalVersion)) (\<lambda>_.
                    io_bind (io_act (fault_fsync fd)) (\<lambda>err.
                    if err \<noteq> 0 then io_throw (system_error err ''fsync WAL head failed'') else
                    io_bind (io_act (sys_open_dir parent)) (\<lambda>r.
                    case r of
                      Inl err \<Rightarrow> io_throw (system_error err ''open WAL directory failed'')
                    | Inr directoryDescriptor \<Rightarrow>
                        io_local directoryDescriptor
                          (io_bind (io_outer (io_act (fault_fsync directoryDescriptor))) (\<lambda>err.
                           if err \<noteq> 0 then io_throw (system_error err ''fsync WAL directory failed'')
                           else io_ret ()))
                          FdGuard_dtor)))))
                   (\<lambda>e. io_bind (io_act (sys_close fd)) (\<lambda>_. io_throw e)))
                 (\<lambda>_. io_ret (writer fd)))))"

definition WALFileWriter_dtor :: "WALFileWriter \<Rightarrow> world \<Rightarrow> world" where
  "WALFileWriter_dtor ww w = (if wal_fd ww \<ge> 0 then snd (sys_close (wal_fd ww) w) else w)"

text \<open>
  A short write throws with the errno that some earlier call left behind; the caller only prints
  it, and the model gives it as zero.
\<close>

definition WALFileWriter_write :: "string \<Rightarrow> (world \<times> WALFileWriter, unit) prog" where
  "WALFileWriter_write record =
     io_bind (io_get snd) (\<lambda>ww.
     if wal_poisoned ww then io_throw (runtime_error ''File is poisoned'') else
     let poison = io_upd (\<lambda>(w, ww). (w, ww\<lparr>wal_poisoned := True\<rparr>)) in
     io_bind (io_outer (io_act (fault_write (wal_fd ww) record))) (\<lambda>r.
     case r of
       Inl err \<Rightarrow> io_bind poison (\<lambda>_. io_throw (system_error err ''write failed''))
     | Inr bytesWritten \<Rightarrow>
         if bytesWritten \<noteq> length record
         then io_bind poison (\<lambda>_. io_throw (system_error 0 ''write failed''))
         else
           io_bind (io_outer (io_act (fault_fsync (wal_fd ww)))) (\<lambda>err.
           if err \<noteq> 0 then io_bind poison (\<lambda>_. io_throw (system_error err ''fsync failed''))
           else io_ret ())))"

definition WALFileWriter_truncate :: "WALFileWriter \<Rightarrow> nat \<Rightarrow> world \<Rightarrow> int \<times> world" where
  "WALFileWriter_truncate ww offset = sys_ftruncate (wal_fd ww) offset"

section \<open>Writes and recovery\<close>

text \<open>An operation of the log writer, as a member of the MemTable.\<close>

definition on_walWriter :: "(world \<times> WALFileWriter, 'a) prog \<Rightarrow> 'a mt" where
  "on_walWriter f = (\<lambda>(w, m).
     case f (w, mt_walWriter m) of
       None \<Rightarrow> None
     | Some (r, (w', ww')) \<Rightarrow> Some (r, (w', m\<lparr>mt_walWriter := ww'\<rparr>)))"

text \<open>\<open>std::system_error\<close> and \<open>std::ios_base::failure\<close> derive from \<open>std::runtime_error\<close>.\<close>

definition is_runtime_error :: "exn \<Rightarrow> bool" where
  "is_runtime_error e =
     (case e of runtime_error _ \<Rightarrow> True | system_error _ _ \<Rightarrow> True | ios_failure _ \<Rightarrow> True | _ \<Rightarrow> False)"

lemma is_runtime_error_simps [simp]:
  "is_runtime_error (runtime_error m)" "is_runtime_error (system_error c m)"
  by (simp_all add: is_runtime_error_def)

definition record_entry :: "Record \<Rightarrow> Entry" where
  "record_entry r = \<lparr>ent_type = rec_type r, ent_seq = rec_seq r, ent_value = rec_value r\<rparr>"

definition applyBatch :: "Record list \<Rightarrow> bool mt" where
  "applyBatch ops =
     (if ops = [] then io_ret True
      else
        io_bind
          (io_try
            (io_bind (on_walWriter (WALFileWriter_write (encodeWALFrame (batch_payload ops))))
              (\<lambda>_. io_ret True))
            (\<lambda>e. if is_runtime_error e then io_ret False else io_throw e))
          (\<lambda>written.
            if \<not> written then io_ret False
            else
              io_bind (io_upd (\<lambda>(w, m). (w, fold (\<lambda>r. applyToMemory (rec_key r) (record_entry r)) ops m)))
                (\<lambda>_. io_ret True)))"

definition MemTable_put :: "string \<Rightarrow> u64 \<Rightarrow> string \<Rightarrow> bool mt" where
  "MemTable_put k seq value =
     applyBatch [\<lparr>rec_key = k, rec_seq = seq, rec_type = Type_VALUE, rec_value = value\<rparr>]"

definition MemTable_remove :: "string \<Rightarrow> u64 \<Rightarrow> bool mt" where
  "MemTable_remove k seq =
     applyBatch [\<lparr>rec_key = k, rec_seq = seq, rec_type = Type_TOMBSTONE, rec_value = []\<rparr>]"

definition restoreFromWAL :: "bool mt" where
  "restoreFromWAL =
     io_bind (io_get (\<lambda>(w, m). mt_logPath m)) (\<lambda>logPath.
     io_bind (io_outer (io_act (sys_open_read logPath))) (\<lambda>input.
     case input of
       None \<Rightarrow> io_ret False
     | Some content \<Rightarrow>
         if length content < kWalHeaderSize
         then io_throw (runtime_error ''Invalid WAL file format'')
         else if take (length kWalMagic) content \<noteq> kWalMagic
         then io_throw (runtime_error ''Invalid WAL file format'')
         else if of_char (content ! length kWalMagic) \<noteq> kWalVersion
         then io_throw (runtime_error ''Invalid WAL file format'')
         else
           io_bind (io_lift (parseWALRecords content)) (\<lambda>(records, lastGoodOffset).
           io_bind (io_upd (\<lambda>(w, m). (w, fold (\<lambda>(k, entry). applyToMemory k entry) records m))) (\<lambda>_.
           if lastGoodOffset = length content then io_ret True
           else
             io_bind (io_get (\<lambda>(w, m). mt_walWriter m)) (\<lambda>ww.
             io_bind (io_outer (io_act (WALFileWriter_truncate ww lastGoodOffset))) (\<lambda>err.
             if err \<noteq> 0 then io_ret False else io_ret True))))))"

definition MemTable_dtor :: "MemTable \<Rightarrow> world \<Rightarrow> world" where
  "MemTable_dtor m = WALFileWriter_dtor (mt_walWriter m)"

text \<open>When the body of the constructor throws, the members that exist are destroyed.\<close>

definition MemTable_new :: "path \<Rightarrow> MemTable io" where
  "MemTable_new p =
     io_bind (WALFileWriter_new p) (\<lambda>ww w.
       let m0 = \<lparr>mt_table = [], mt_logPath = p, mt_walWriter = ww, mt_currentSizeBytes = 0,
                 mt_currentSeq = 0\<rparr>
       in case io_bind restoreFromWAL (\<lambda>ok.
                 if \<not> ok then io_throw (runtime_error ''Failed to restore from wal'') else io_ret ()) (w, m0) of
            None \<Rightarrow> None
          | Some (Inl e, (w', m)) \<Rightarrow> Some (Inl e, MemTable_dtor m w')
          | Some (Inr _, (w', m)) \<Rightarrow> Some (Inr m, w'))"

section \<open>The iterator\<close>

text \<open>\<open>currentIterator_\<close> is the rest of the table; \<open>endIterator_\<close> is its end.\<close>

record MemTableIterator =
  mi_currentRecord :: "Record option"
  mi_currentIterator :: "(Key \<times> Entry) list"

definition entry_record :: "Key \<times> Entry \<Rightarrow> Record" where
  "entry_record = (\<lambda>(k, e).
     \<lparr>rec_key = key_key k, rec_seq = ent_seq e, rec_type = ent_type e, rec_value = ent_value e\<rparr>)"

definition MemTableIterator_refreshCurrentRecord :: "MemTableIterator \<Rightarrow> MemTableIterator" where
  "MemTableIterator_refreshCurrentRecord it =
     (case mi_currentIterator it of
        [] \<Rightarrow> it\<lparr>mi_currentRecord := None\<rparr>
      | e # _ \<Rightarrow> it\<lparr>mi_currentRecord := Some (entry_record e)\<rparr>)"

definition MemTableIterator_new :: "MemTable \<Rightarrow> MemTableIterator" where
  "MemTableIterator_new m =
     MemTableIterator_refreshCurrentRecord
       \<lparr>mi_currentRecord = None, mi_currentIterator = mt_table m\<rparr>"

definition MemTableIterator_valid :: "MemTableIterator \<Rightarrow> bool" where
  "MemTableIterator_valid it \<longleftrightarrow> mi_currentRecord it \<noteq> None"

definition MemTableIterator_current :: "MemTableIterator \<Rightarrow> Record" where
  "MemTableIterator_current it = the (mi_currentRecord it)"

definition MemTableIterator_advance :: "MemTableIterator \<Rightarrow> MemTableIterator" where
  "MemTableIterator_advance it =
     MemTableIterator_refreshCurrentRecord (it\<lparr>mi_currentIterator := tl (mi_currentIterator it)\<rparr>)"

section \<open>The table as a set of versions\<close>

definition mt_records :: "MemTable \<Rightarrow> Record list" where
  "mt_records m = map entry_record (mt_table m)"

definition sorted_entries :: "('k::linorder \<times> 'v) list \<Rightarrow> bool" where
  "sorted_entries xs \<longleftrightarrow> sorted_wrt (\<lambda>a b. fst a < fst b) xs"

text \<open>
  The invariant: entries in key order, each under its own sequence number; the size counter is
  the sum of the entry sizes and the sequence counter the largest sequence number.
\<close>

definition entry_ok :: "Key \<times> Entry \<Rightarrow> bool" where
  "entry_ok x \<longleftrightarrow> key_seq (fst x) = ent_seq (snd x)"

definition mem_inv :: "MemTable \<Rightarrow> bool" where
  "mem_inv m \<longleftrightarrow> sorted_entries (mt_table m)
     \<and> (\<forall>x \<in> set (mt_table m). entry_ok x)
     \<and> mt_currentSizeBytes m = (\<Sum>(k, e) \<leftarrow> mt_table m. entrySize (key_key k) e)
     \<and> mt_currentSeq m = fold max (map (\<lambda>(k, e). ent_seq e) (mt_table m)) 0"

lemma sorted_entries_simps [simp]:
  "sorted_entries []"
  "sorted_entries (x # xs) \<longleftrightarrow> (\<forall>y \<in> set xs. fst x < fst y) \<and> sorted_entries xs"
  by (simp_all add: sorted_entries_def)

lemma insert_or_assign_keys: "fst ` set (insert_or_assign k v xs) = insert k (fst ` set xs)"
  by (induction k v xs rule: insert_or_assign.induct) auto

lemma insert_or_assign_sorted [inv_intros]:
  "sorted_entries xs \<Longrightarrow> sorted_entries (insert_or_assign k v xs)"
proof (induction k v xs rule: insert_or_assign.induct)
  case (2 k v k' v' xs)
  then have above: "\<And>y. y \<in> fst ` set xs \<Longrightarrow> k' < y" and xs: "sorted_entries xs" by auto
  show ?case
  proof (cases k k' rule: linorder_cases)
    case less
    with above have "\<And>y. y \<in> fst ` set xs \<Longrightarrow> k < y" using order_less_trans by blast
    with less above xs show ?thesis by auto
  next
    case equal
    with above xs show ?thesis by auto
  next
    case greater
    have "k' < fst y" if "y \<in> set (insert_or_assign k v xs)" for y
      using above greater imageI [OF that, of fst] unfolding insert_or_assign_keys by blast
    with 2 greater less_not_sym [OF greater] xs show ?thesis by simp
  qed
qed simp

lemma insert_or_assign_set:
  "sorted_entries xs \<Longrightarrow> set (insert_or_assign k v xs) = insert (k, v) {x \<in> set xs. fst x \<noteq> k}"
proof (induction k v xs rule: insert_or_assign.induct)
  case (2 k v k' v' xs)
  then have "\<And>y. y \<in> set xs \<Longrightarrow> k' < fst y" by simp
  with 2 show ?case
    by (cases k k' rule: linorder_cases) (auto dest: order_less_trans)
qed simp

lemma insert_or_assign_sum:
  fixes f :: "'k::linorder \<times> 'v \<Rightarrow> 'a::ab_group_add"
  assumes "sorted_entries xs"
  shows "sum_list (map f (insert_or_assign k v xs)) =
    (case map_of xs k of None \<Rightarrow> sum_list (map f xs) | Some e \<Rightarrow> sum_list (map f xs) - f (k, e)) + f (k, v)"
  using assms
proof (induction k v xs rule: insert_or_assign.induct)
  case (2 k v k' v' xs)
  have "k < k' \<Longrightarrow> map_of xs k = None"
    using "2.prems" by (force simp: map_of_eq_None_iff)
  with 2 show ?case by (auto split: option.splits)
qed simp

lemma fold_max_eq: "fold max (map f xs) (a :: 'a::linorder) = Max (insert a (f ` set xs))"
proof -
  have "fold max ys b = Max (insert b (set ys))" for ys and b :: 'a
    by (simp flip: Max.set_eq_fold)
  then show ?thesis by simp
qed

lemma rkey_entry_record: "entry_ok x \<Longrightarrow> rkey (entry_record x) = fst x"
  by (cases x; cases "fst x") (auto simp: entry_ok_def rkey_def entry_record_def)

lemma entries_seqs:
  "\<forall>x \<in> set xs. entry_ok x \<Longrightarrow> (\<lambda>(k, e). ent_seq e) ` set xs = key_seq ` fst ` set xs"
  unfolding image_image by (rule image_cong) (auto simp: entry_ok_def)

lemma insert_or_assign_ok:
  "sorted_entries xs \<Longrightarrow> \<forall>x \<in> set xs. entry_ok x \<Longrightarrow> entry_ok (k, v) \<Longrightarrow>
   \<forall>x \<in> set (insert_or_assign k v xs). entry_ok x"
  by (simp add: insert_or_assign_set)

lemma max_seq_insert:
  assumes "sorted_entries xs" "\<forall>x \<in> set xs. entry_ok x" "entry_ok (k, v)"
  shows "fold max (map (\<lambda>(k, e). ent_seq e) (insert_or_assign k v xs)) 0
    = max (ent_seq v) (fold max (map (\<lambda>(k, e). ent_seq e) xs) 0)"
proof -
  have "(\<lambda>(k, e). ent_seq e) ` set (insert_or_assign k v xs)
      = insert (ent_seq v) ((\<lambda>(k, e). ent_seq e) ` set xs)"
    using assms entries_seqs [OF insert_or_assign_ok [OF assms]]
    by (simp add: entries_seqs insert_or_assign_keys entry_ok_def)
  moreover have "Max (insert (ent_seq v) (insert 0 S)) = max (ent_seq v) (Max (insert 0 S))"
    if "finite S" for S
    using that by (intro Max_insert) auto
  ultimately show ?thesis
    unfolding fold_max_eq by (simp only: insert_commute [of 0] finite_imageI List.finite_set)
qed

lemma applyToMemory_inv [inv_intros]: "mem_inv m \<Longrightarrow> mem_inv (applyToMemory k e m)"
proof -
  assume inv: "mem_inv m"
  let ?k = "Key k (ent_seq e)"
  have ok: "entry_ok (?k, e)" by (simp add: entry_ok_def)
  have "\<forall>x \<in> set (insert_or_assign ?k e (mt_table m)). entry_ok x"
    using inv ok by (intro insert_or_assign_ok) (simp_all add: mem_inv_def)
  moreover have "sorted_entries (insert_or_assign ?k e (mt_table m))"
    using inv by (simp add: insert_or_assign_sorted mem_inv_def)
  moreover have "(\<Sum>(k, e) \<leftarrow> insert_or_assign ?k e (mt_table m). entrySize (key_key k) e)
      = mt_currentSizeBytes (applyToMemory k e m)"
    using inv insert_or_assign_sum [of "mt_table m" "\<lambda>(k, e). entrySize (key_key k) e" ?k e]
    by (simp add: applyToMemory_def Let_def mem_inv_def split: option.splits)
  moreover have "fold max (map (\<lambda>(k, e). ent_seq e) (insert_or_assign ?k e (mt_table m))) 0
      = max (ent_seq e) (mt_currentSeq m)"
    using inv ok by (subst max_seq_insert) (simp_all add: mem_inv_def)
  ultimately show ?thesis
    by (simp add: mem_inv_def) (simp add: applyToMemory_def Let_def)
qed

lemma applyToMemory_fields [simp]:
  "mt_logPath (applyToMemory k e m) = mt_logPath m"
  "mt_walWriter (applyToMemory k e m) = mt_walWriter m"
  by (simp_all add: applyToMemory_def Let_def)

text \<open>Applying a batch to the table.\<close>

definition apply_records :: "Record list \<Rightarrow> MemTable \<Rightarrow> MemTable" where
  "apply_records rs = fold (\<lambda>r. applyToMemory (rec_key r) (record_entry r)) rs"

lemma apply_records_inv [inv_intros]: "mem_inv m \<Longrightarrow> mem_inv (apply_records rs m)"
  unfolding apply_records_def by (induction rs arbitrary: m) (auto intro: applyToMemory_inv)

lemma apply_records_fields [simp]:
  "mt_logPath (apply_records rs m) = mt_logPath m"
  "mt_walWriter (apply_records rs m) = mt_walWriter m"
  unfolding apply_records_def by (induction rs arbitrary: m) auto

lemma mt_records_sorted: "mem_inv m \<Longrightarrow> sorted_records (mt_records m)"
proof -
  have "sorted_entries xs \<Longrightarrow> \<forall>x \<in> set xs. entry_ok x \<Longrightarrow> sorted_records (map entry_record xs)" for xs
    by (induction xs) (auto simp: rkey_entry_record)
  then show "mem_inv m \<Longrightarrow> sorted_records (mt_records m)"
    by (simp add: mem_inv_def mt_records_def)
qed

lemma applyToMemory_records:
  assumes "mem_inv m"
  shows "set (mt_records (applyToMemory (rec_key r) (record_entry r) m))
    = insert r {x \<in> set (mt_records m). rkey x \<noteq> rkey r}"
proof -
  have r: "entry_record (Key (rec_key r) (rec_seq r), record_entry r) = r"
    by (simp add: entry_record_def record_entry_def)
  have "entry_record ` {x \<in> set (mt_table m). fst x \<noteq> rkey r}
      = {x \<in> entry_record ` set (mt_table m). rkey x \<noteq> rkey r}"
    using assms rkey_entry_record by (fastforce simp: mem_inv_def)
  then show ?thesis
    using assms r
    by (simp add: mt_records_def applyToMemory_def Let_def insert_or_assign_set mem_inv_def rkey_def
        record_entry_def)
qed

section \<open>Reads\<close>

lemma lower_bound_find:
  assumes "sorted_entries xs" "\<forall>x \<in> set xs. entry_ok x"
  shows "find (eligible k q) (map entry_record xs) =
    (case map_lower_bound (Key k q) xs of
       [] \<Rightarrow> None
     | (found, e) # _ \<Rightarrow> if key_key found \<noteq> k then None else Some (entry_record (found, e)))"
  using assms
proof (induction xs)
  case Nil
  then show ?case by (simp add: map_lower_bound_def)
next
  case (Cons x xs)
  obtain a s e where x: "x = (Key a s, e)" by (metis Key.exhaust prod.exhaust)
  have s: "ent_seq e = s" using Cons.prems x by (simp add: entry_ok_def)
  have el: "eligible k q (entry_record x) \<longleftrightarrow> a = k \<and> s \<le> q"
    by (simp add: x s eligible_def entry_record_def)
  show ?case
  proof (cases "Key a s < Key k q")
    case True
    with Cons el show ?thesis by (auto simp: x map_lower_bound_def)
  next
    case ge: False
    show ?thesis
    proof (cases "a = k")
      case True
      with ge have "s \<le> q" "\<not> q < s" by (simp_all add: not_less)
      with True el show ?thesis by (simp add: x map_lower_bound_def)
    next
      case False
      with ge have "k < a" by auto
      have "\<not> eligible k q (entry_record y)" if "y \<in> set xs" for y
      proof -
        have "Key a s < fst y" "key_key (fst y) = rec_key (entry_record y)"
          using that Cons.prems x by (auto simp: entry_record_def split: prod.splits)
        then have "k < rec_key (entry_record y)"
          using \<open>k < a\<close> by (cases "fst y") (auto intro: order_less_trans)
        then show ?thesis by (auto simp: eligible_def)
      qed
      then have "find (eligible k q) (map entry_record xs) = None"
        by (auto simp: find_None_iff)
      with ge el False show ?thesis by (simp add: x map_lower_bound_def)
    qed
  qed
qed

lemma MemTable_get_reads:
  assumes "mem_inv m"
  shows "MemTable_get m k q v = read_outcome (visible (mt_records m) k q) v"
proof -
  have "visible (mt_records m) k q = find (eligible k q) (map entry_record (mt_table m))"
    using mt_records_sorted [OF assms] by (simp add: visible_sorted mt_records_def)
  also have "\<dots> = (case map_lower_bound (Key k q) (mt_table m) of
       [] \<Rightarrow> None
     | (found, e) # _ \<Rightarrow> if key_key found \<noteq> k then None else Some (entry_record (found, e)))"
    using assms by (intro lower_bound_find) (simp_all add: mem_inv_def)
  finally show ?thesis
    by (auto simp: MemTable_get_def read_outcome_def entry_record_def split: list.splits)
qed

interpretation mem_source: version_source
  "\<lambda>m k q v. io_ret (MemTable_get m k q v)" "\<lambda>m s rs. mem_inv m \<and> mt_records m = rs"
  by unfold_locales (auto simp: MemTable_get_reads)

text \<open>
  C19: a lookup in the MemTable answers with the newest version of the key that is not newer than
  the read sequence: its value, a tombstone, or absent when there is none. The out-parameter is
  written only when a value is found.
\<close>

theorem MemTable_get_correct:
  "mem_inv m \<Longrightarrow> MemTable_get m k q v = read_outcome (visible (mt_records m) k q) v"
  by (rule MemTable_get_reads)

definition empty_memtable :: "path \<Rightarrow> WALFileWriter \<Rightarrow> MemTable" where
  "empty_memtable p ww =
     \<lparr>mt_table = [], mt_logPath = p, mt_walWriter = ww, mt_currentSizeBytes = 0, mt_currentSeq = 0\<rparr>"

lemma empty_memtable_inv [inv_intros, simp]: "mem_inv (empty_memtable p ww)"
  by (simp add: mem_inv_def empty_memtable_def)

definition memtable_example :: MemTable where
  "memtable_example = apply_records batch_example
     (empty_memtable [''wal''] \<lparr>wal_path = [''wal''], wal_fd = 3, wal_poisoned = False\<rparr>)"

lemma memtable_example_inv: "mem_inv memtable_example"
  by (simp add: memtable_example_def apply_records_inv)

theorem MemTable_get_correct_witness:
  "(Result_VALUE, ''x'') = read_outcome (visible (mt_records memtable_example) ''a'' 5) []"
  using MemTable_get_correct [OF memtable_example_inv, of "''a''" 5 "[]"]
  by (simp add: memtable_example_def apply_records_def batch_example_def applyToMemory_def
      record_entry_def empty_memtable_def MemTable_get_def map_lower_bound_def Let_def)

text \<open>
  C20: every insertion keeps the invariant: the entries stay in order under their own sequence
  numbers, the size counter stays the sum of the sizes of the entries also when a version is
  overwritten, and the sequence counter stays the largest sequence number in the table.
\<close>

theorem applyToMemory_keeps_invariant:
  "mem_inv m \<Longrightarrow> mem_inv (applyToMemory k e m)
    \<and> set (mt_records (applyToMemory k e m)) =
        insert (entry_record (Key k (ent_seq e), e))
          {x \<in> set (mt_records m). rkey x \<noteq> Key k (ent_seq e)}"
proof -
  assume m: "mem_inv m"
  let ?r = "entry_record (Key k (ent_seq e), e)"
  have "rec_key ?r = k" "record_entry ?r = e" "rkey ?r = Key k (ent_seq e)"
    by (simp_all add: entry_record_def record_entry_def rkey_def)
  with applyToMemory_records [OF m, of ?r] applyToMemory_inv [OF m] show ?thesis by simp
qed

theorem applyToMemory_keeps_invariant_witness:
  "mem_inv (applyToMemory ''k'' \<lparr>ent_type = Type_VALUE, ent_seq = 7, ent_value = ''v''\<rparr>
      (empty_memtable [] \<lparr>wal_path = [], wal_fd = 3, wal_poisoned = False\<rparr>))"
  using applyToMemory_keeps_invariant
    [of "empty_memtable [] \<lparr>wal_path = [], wal_fd = 3, wal_poisoned = False\<rparr>" "''k''"
      "\<lparr>ent_type = Type_VALUE, ent_seq = 7, ent_value = ''v''\<rparr>"]
  by simp

section \<open>Appending to the log\<close>

text \<open>\<open>log_open w m c\<close>: the MemTable's descriptor is open on its log file, which holds \<open>c\<close>.\<close>

definition log_open :: "world \<Rightarrow> MemTable \<Rightarrow> string \<Rightarrow> bool" where
  "log_open w m c \<longleftrightarrow> open_on w (wal_fd (mt_walWriter m)) (mt_logPath m) c"

definition poison :: "MemTable \<Rightarrow> MemTable" where
  "poison m = m\<lparr>mt_walWriter := (mt_walWriter m)\<lparr>wal_poisoned := True\<rparr>\<rparr>"

abbreviation poisoned :: "MemTable \<Rightarrow> bool" where
  "poisoned m \<equiv> wal_poisoned (mt_walWriter m)"

lemma poison_fields [simp]:
  "mt_table (poison m) = mt_table m" "mt_logPath (poison m) = mt_logPath m"
  "wal_fd (mt_walWriter (poison m)) = wal_fd (mt_walWriter m)" "poisoned (poison m)"
  "mem_inv (poison m) = mem_inv m" "poisoned m \<Longrightarrow> poison m = m"
  by (simp_all add: poison_def mem_inv_def)

text \<open>The call of the log writer, on every fault.\<close>

lemma wal_write_outcome:
  assumes "log_open w m c"
  obtains (ok) w' where "on_walWriter (WALFileWriter_write f) (w, m) = Some (Inr (), (w', m))"
      "\<not> poisoned m" "w_files w' = w_files (set_file (mt_logPath m) (c @ f) w)"
      "w_dirs w' = w_dirs w" "w_fds w' = w_fds w"
  | (failed) e n w' where "on_walWriter (WALFileWriter_write f) (w, m) = Some (Inl e, (w', poison m))"
      "is_runtime_error e" "w_files w' = w_files (set_file (mt_logPath m) (c @ take n f) w)"
      "w_dirs w' = w_dirs w" "w_fds w' = w_fds w" "poisoned m \<longrightarrow> n = 0"
proof (cases "poisoned m")
  case True
  have "w_files w = w_files (set_file (mt_logPath m) (c @ take 0 f) w)"
    using assms by (simp add: log_open_def open_on_def set_file_same)
  with True show thesis
    by (intro failed [where n = 0 and w' = w and e = "runtime_error ''File is poisoned''"]) (simp_all add: on_walWriter_def WALFileWriter_write_def)
next
  case np: False
  let ?fd = "wal_fd (mt_walWriter m)" and ?p = "mt_logPath m"
  note unf = on_walWriter_def WALFileWriter_write_def io_bind_def io_outer_def io_act_def Let_def
    poison_def
  obtain r w1 where fw: "fault_write ?fd f w = (r, w1)" by fastforce
  from fw assms [unfolded log_open_def] show thesis
  proof (cases rule: fault_write_cases)
    case (failed err)
    have "w_files w = w_files (set_file ?p (c @ take 0 f) w)"
      using assms by (simp add: log_open_def open_on_def set_file_same)
    with failed np fw show thesis
      by (intro that(2) [where n = 0 and w' = w1 and e = "system_error err ''write failed''"])
        (simp_all add: unf)
  next
    case (wrote n)
    show thesis
    proof (cases "n = length f")
      case False
      with wrote np fw show thesis
        by (intro that(2) [where n = n and w' = w1 and e = "system_error 0 ''write failed''"])
          (simp_all add: unf)
    next
      case True
      obtain err w2 where fs: "fault_fsync ?fd w1 = (err, w2)" by fastforce
      note fr = fault_fsync_frame [OF fs]
      show thesis
      proof (cases "err = 0")
        case err: True
        with True wrote np fw fs fr show thesis
          by (intro that(1) [where w' = w2]) (simp_all add: unf)
      next
        case err: False
        with True wrote np fw fs fr show thesis
          by (intro that(2) [where n = n and w' = w2 and e = "system_error err ''fsync failed''"])
            (simp_all add: unf)
      qed
    qed
  qed
qed

lemma applyBatch_outcome:
  assumes "log_open w m c" "ops \<noteq> []"
  defines "f \<equiv> encodeWALFrame (batch_payload ops)"
  obtains (ok) w' where "applyBatch ops (w, m) = Some (Inr True, (w', apply_records ops m))"
      "\<not> poisoned m" "w_files w' = w_files (set_file (mt_logPath m) (c @ f) w)"
      "w_dirs w' = w_dirs w" "w_fds w' = w_fds w"
  | (failed) n w' where "applyBatch ops (w, m) = Some (Inr False, (w', poison m))"
      "w_files w' = w_files (set_file (mt_logPath m) (c @ take n f) w)"
      "w_dirs w' = w_dirs w" "w_fds w' = w_fds w" "poisoned m \<longrightarrow> n = 0"
proof (cases rule: wal_write_outcome [OF assms(1), of f])
  case (1 w')
  with assms(2) show thesis
    by (intro that(1) [where w' = w'])
      (simp_all add: applyBatch_def io_bind_def io_try_def f_def apply_records_def)
next
  case (2 e n w')
  with assms(2) show thesis
    by (intro that(2) [where n = n and w' = w'])
      (simp_all add: applyBatch_def io_bind_def io_try_def f_def)
qed

text \<open>
  C18: whatever faults occur, \<open>applyBatch\<close> returns and never throws. If it answers true, the
  log has grown by exactly the frame of the batch and the table has all its records; if it answers
  false, the table is unchanged, the log has grown by a prefix of the frame, and the log is
  poisoned: a poisoned log never grows again. No other file changes.
\<close>

theorem applyBatch_atomic:
  assumes "log_open w m c" "ops \<noteq> []"
  shows "\<exists>ok w' m' d. applyBatch ops (w, m) = Some (Inr ok, (w', m'))
    \<and> content_of w' = (content_of w)(mt_logPath m \<mapsto> c @ d)
    \<and> (ok \<longrightarrow> d = encodeWALFrame (batch_payload ops) \<and> m' = apply_records ops m \<and> \<not> poisoned m')
    \<and> (\<not> ok \<longrightarrow> prefix d (encodeWALFrame (batch_payload ops)) \<and> m' = poison m \<and> poisoned m')
    \<and> (poisoned m \<longrightarrow> \<not> ok \<and> d = [])"
  using assms
proof (cases rule: applyBatch_outcome)
  case (ok w')
  then show ?thesis
    by (intro exI [of _ True] exI [of _ w'] exI [of _ "apply_records ops m"]
        exI [of _ "encodeWALFrame (batch_payload ops)"] conjI) (simp_all add: fun_eq_iff)
next
  case (failed n w')
  let ?d = "take n (encodeWALFrame (batch_payload ops))"
  show ?thesis
    using failed
    by (intro exI [of _ False] exI [of _ w'] exI [of _ "poison m"] exI [of _ ?d] conjI)
      (simp_all add: take_is_prefix fun_eq_iff)
qed

definition wal_world :: "world" where
  "wal_world = \<lparr>w_files = [([''wal''], wal_header)], w_dirs = [], w_fds = [(3, [''wal''])],
     w_policy = Some (failNth Op_Fsync 1 EIO), w_os = sconst OsOk\<rparr>"

theorem applyBatch_atomic_witness:
  "\<exists>ok w' m' d. applyBatch batch_example (wal_world, memtable_example) = Some (Inr ok, (w', m'))
    \<and> content_of w' = (content_of wal_world)(mt_logPath memtable_example \<mapsto> wal_header @ d)
    \<and> (ok \<longrightarrow> d = encodeWALFrame (batch_payload batch_example)
        \<and> m' = apply_records batch_example memtable_example \<and> \<not> poisoned m')
    \<and> (\<not> ok \<longrightarrow> prefix d (encodeWALFrame (batch_payload batch_example)) \<and> m' = poison memtable_example
        \<and> poisoned m')
    \<and> (poisoned memtable_example \<longrightarrow> \<not> ok \<and> d = [])"
  by (rule applyBatch_atomic)
    (simp_all add: log_open_def open_on_def wal_world_def memtable_example_def empty_memtable_def
      batch_example_def)

section \<open>Opening a log\<close>

text \<open>\<open>creatable w p\<close>: nothing is in the way of a regular file \<open>p\<close> and its directory.\<close>

definition creatable :: "world \<Rightarrow> path \<Rightarrow> bool" where
  "creatable w p \<longleftrightarrow> p \<noteq> [] \<and> butlast p \<noteq> [] \<and> p \<notin> set (w_dirs w)
     \<and> (\<forall>q \<in> set (prefixes (butlast p)). content_of w q = None)"

text \<open>The world with a new descriptor open on \<open>p\<close>.\<close>

definition attach :: "path \<Rightarrow> world \<Rightarrow> world" where
  "attach p w = (mkdirs (butlast p) w)\<lparr>w_fds := (fresh_fd (w_fds w), p) # w_fds w\<rparr>"

definition writer_at :: "path \<Rightarrow> world \<Rightarrow> WALFileWriter" where
  "writer_at p w = \<lparr>wal_path = p, wal_fd = fresh_fd (w_fds w), wal_poisoned = False\<rparr>"

lemma attach_fields [simp]:
  "w_files (attach p w) = w_files w" "nominal (attach p w) = nominal w"
  "w_fds (attach p w) = (fresh_fd (w_fds w), p) # w_fds w"
  by (simp_all add: attach_def)

lemma creatable_mkdirs:
  assumes "creatable w p"
  shows "p \<notin> set (w_dirs (mkdirs (butlast p) w))" "butlast p \<in> set (w_dirs (mkdirs (butlast p) w))"
  using assms not_prefix_butlast [of p] by (simp_all add: creatable_def)

lemma nominal_open_existing:
  assumes "nominal w" "creatable w p" "content_of w p = Some c"
  shows "WALFileWriter_new p w = Some (Inr (writer_at p w), attach p w)"
proof -
  let ?w = "mkdirs (butlast p) w"
  have mk: "fs_create_directories (butlast p) w = (0, ?w)"
    using assms by (intro nominal_create_directories) (auto simp: creatable_def)
  have o1: "sys_open_write True False p ?w = (Inl EEXIST, ?w)"
    using assms creatable_mkdirs [OF assms(2)] by (simp add: sys_open_write_def)
  have o2: "sys_open_write False False p ?w = (Inr (fresh_fd (w_fds w)), attach p w)"
    using assms creatable_mkdirs [OF assms(2)]
    by (simp add: sys_open_write_def alloc_fd_def attach_def Let_def)
  show ?thesis
    using assms(2) mk o1 o2
    by (simp add: WALFileWriter_new_def creatable_def io_bind_def io_act_def writer_at_def Let_def)
qed

lemma nominal_open_fresh:
  assumes "nominal w" "creatable w p" "content_of w p = None"
  shows "WALFileWriter_new p w = Some (Inr (writer_at p w), set_file p wal_header (attach p w))"
proof -
  let ?w = "mkdirs (butlast p) w" and ?fd = "fresh_fd (w_fds w)"
  let ?w1 = "set_file p [] (attach p w)"
  let ?w2 = "set_file p kWalMagic (attach p w)" and ?w3 = "set_file p wal_header (attach p w)"
  define d where "d = fresh_fd (w_fds ?w3)"
  let ?w4 = "?w3\<lparr>w_fds := (d, butlast p) # w_fds ?w3\<rparr>"
  have mk: "fs_create_directories (butlast p) w = (0, ?w)"
    using assms by (intro nominal_create_directories) (auto simp: creatable_def)
  have o1: "sys_open_write True False p ?w = (Inr ?fd, ?w1)"
    using assms creatable_mkdirs [OF assms(2)]
    by (simp add: sys_open_write_def alloc_fd_def attach_def Let_def set_file_def)
  have n: "nominal ?w1" "open_on ?w1 ?fd p []" "nominal ?w2" "open_on ?w2 ?fd p kWalMagic"
    "nominal ?w3" "open_on ?w3 ?fd p wal_header"
    using assms by (simp_all add: open_on_def)
  have wr: "writeAll ?fd kWalMagic ?w1 = Some (Inr (), ?w2)"
    "writeAll ?fd (put_u8 kWalVersion) ?w2 = Some (Inr (), ?w3)"
    using nominal_writeAll [OF n(1,2), of kWalMagic] nominal_writeAll [OF n(3,4), of "put_u8 kWalVersion"]
    by (simp_all add: wal_header_def)
  have fs: "fault_fsync ?fd ?w3 = (0, ?w3)"
    using n by (intro nominal_fault_fsync) (simp_all add: open_on_def)
  have op: "sys_open_dir (butlast p) ?w3 = (Inr d, ?w4)"
    using n(5) creatable_mkdirs [OF assms(2)]
    by (simp add: sys_open_dir_def alloc_fd_def d_def attach_def)
  have n4: "nominal ?w4" "map_of (w_fds ?w4) d \<noteq> None"
    using n(5) by simp_all
  have "AList.delete d ((d, butlast p) # w_fds ?w3) = w_fds ?w3"
    unfolding d_def by (rule delete_fresh [OF fresh_fd_fresh])
  then have "sys_close d ?w4 = (0, ?w3)"
    using nominal_sys_close [OF n4] by simp
  then have cl: "FdGuard_dtor d ?w4 = ?w3"
    using fresh_fd_ge [of "w_fds ?w3"] by (simp add: FdGuard_dtor_def d_def)
  show ?thesis
    using assms(2) mk o1 wr fs op cl nominal_fault_fsync [OF n4]
    by (simp add: WALFileWriter_new_def creatable_def io_bind_def io_act_def io_try_def io_local_def
        io_outer_def writer_at_def Let_def)
qed

lemma fold_wal_entries:
  "fold (\<lambda>(k, e). applyToMemory k e) (wal_entries bs) m = apply_records (concat bs) m"
proof -
  have "wal_entries bs = map log_entry (concat bs)" by (simp add: wal_entries_def map_concat)
  moreover have "log_entry r = (rec_key r, record_entry r)" for r
    by (simp add: log_entry_def record_entry_def)
  ultimately show ?thesis by (simp add: apply_records_def fold_map comp_def)
qed

lemma wal_header_check [simp]:
  "take (length kWalMagic) (wal_header @ s) = kWalMagic"
  "of_char ((wal_header @ s) ! length kWalMagic) = kWalVersion"
  "kWalHeaderSize \<le> length (wal_header @ s)"
proof -
  show "take (length kWalMagic) (wal_header @ s) = kWalMagic" by (simp add: wal_header_def)
  show "kWalHeaderSize \<le> length (wal_header @ s)" by simp
  have "of_char ((put_u8 kWalVersion) ! 0) = kWalVersion"
    by code_simp
  then show "of_char ((wal_header @ s) ! length kWalMagic) = kWalVersion"
    by (simp add: wal_header_def nth_append)
qed

lemma restore_run:
  assumes "sys_open_read p w = (Some c, w)" "c = wal_header @ s"
    and "parseWALRecords c = Inr (wal_entries bs, good)" "mt_logPath m0 = p"
    and "WALFileWriter_truncate (mt_walWriter m0) good w = (0, w2)"
  shows "restoreFromWAL (w, m0) =
    Some (Inr True, (if good = length c then w else w2, apply_records (concat bs) m0))"
proof -
  have "take (length kWalMagic) c = kWalMagic" "of_char (c ! length kWalMagic) = kWalVersion"
    "\<not> length c < kWalHeaderSize"
    using assms(2) wal_header_check [of s] by simp_all
  with assms show ?thesis
    by (simp add: restoreFromWAL_def io_bind_def io_outer_def io_act_def fold_wal_entries)
qed

lemma MemTable_reopen_gen:
  assumes w: "nominal w" "creatable w p" "content_of w p = Some c"
    and c: "c = wal_header @ s" "parseWALRecords c = Inr (wal_entries bs, good)"
  shows "MemTable_new p w =
    Some (Inr (apply_records (concat bs) (empty_memtable p (writer_at p w))),
      if good = length c then attach p w
      else set_file p (take good c @ replicate (good - length c) (char_of (0::nat))) (attach p w))"
proof -
  let ?m0 = "empty_memtable p (writer_at p w)" and ?w = "attach p w"
  have rd: "sys_open_read p ?w = (Some c, ?w)"
    using w by (simp add: sys_open_read_def)
  have tr: "WALFileWriter_truncate (mt_walWriter ?m0) good ?w =
      (0, set_file p (take good c @ replicate (good - length c) (char_of (0::nat))) ?w)"
    using w by (simp add: WALFileWriter_truncate_def sys_ftruncate_def writer_at_def empty_memtable_def)
  have "mt_logPath ?m0 = p" by (simp add: empty_memtable_def)
  from restore_run [OF rd c this tr] show ?thesis
    using nominal_open_existing [OF w]
    by (simp add: MemTable_new_def io_bind_def empty_memtable_def Let_def)
qed

lemma MemTable_reopen:
  assumes "nominal w" "creatable w p" "batches_ok bs"
    and "content_of w p = Some (wal_header @ wal_frames bs @ t)"
    and "incomplete t" "\<not> looks_committed t"
  shows "\<exists>w'. MemTable_new p w =
      Some (Inr (apply_records (concat bs) (empty_memtable p (writer_at p w))), w')
    \<and> content_of w' = (content_of w)(p \<mapsto> wal_header @ wal_frames bs) \<and> nominal w'
    \<and> w_fds w' = (fresh_fd (w_fds w), p) # w_fds w"
proof -
  let ?c = "wal_header @ wal_frames bs @ t"
  have p: "parseWALRecords ?c = Inr (wal_entries bs, length (wal_header @ wal_frames bs))"
    using parse_incomplete_tail [OF assms(3,5)] assms(6) by simp
  show ?thesis
  proof (cases "t = []")
    case True
    with MemTable_reopen_gen [OF assms(1,2,4) refl p] assms show ?thesis
      by (simp add: fun_upd_idem)
  next
    case False
    then have "length (wal_header @ wal_frames bs) \<noteq> length ?c" by simp
    with MemTable_reopen_gen [OF assms(1,2,4) refl p] assms(1) show ?thesis
      by (simp add: fun_eq_iff)
  qed
qed

lemma incomplete_Nil [simp]: "incomplete []" "\<not> looks_committed []"
  by (simp_all add: incomplete_def short_not_committed)

text \<open>A log with a short header, and one that the parser refuses, make the constructor throw.\<close>

lemma MemTable_rejects:
  assumes w: "nominal w" "creatable w p" "content_of w p = Some c"
    and bad: "length c < kWalHeaderSize \<and> message = ''Invalid WAL file format''
      \<or> (\<exists>s. c = wal_header @ s \<and> parseWALRecords c = Inl (runtime_error message))"
  shows "\<exists>w'. MemTable_new p w = Some (Inl (runtime_error message), w')"
proof -
  let ?m = "empty_memtable p (writer_at p w)" and ?w = "attach p w"
  have new: "WALFileWriter_new p w = Some (Inr (writer_at p w), ?w)" by (rule nominal_open_existing [OF w])
  have rd: "sys_open_read p ?w = (Some c, ?w)" using w by (simp add: sys_open_read_def)
  have lp: "mt_logPath ?m = p" by (simp add: empty_memtable_def)
  from bad have "restoreFromWAL (?w, ?m) = Some (Inl (runtime_error message), (?w, ?m))"
  proof
    assume "length c < kWalHeaderSize \<and> message = ''Invalid WAL file format''"
    then show ?thesis using rd lp by (simp add: restoreFromWAL_def io_bind_def io_outer_def io_act_def)
  next
    assume "\<exists>s. c = wal_header @ s \<and> parseWALRecords c = Inl (runtime_error message)"
    then obtain s where "c = wal_header @ s" "parseWALRecords c = Inl (runtime_error message)" by blast
    moreover from this have "take (length kWalMagic) c = kWalMagic" "of_char (c ! length kWalMagic) = kWalVersion" "\<not> length c < kWalHeaderSize"
      using wal_header_check [of s] by simp_all
    ultimately show ?thesis using rd lp by (simp add: restoreFromWAL_def io_bind_def io_outer_def io_act_def)
  qed
  with new show ?thesis by (simp add: MemTable_new_def io_bind_def Let_def empty_memtable_def)
qed

section \<open>Durability\<close>

text \<open>
  The life of an open MemTable: calls of \<open>applyBatch\<close> with their answers, while fault policies
  come and go. \<open>mt_run s bs refused s'\<close> collects in \<open>bs\<close> the batches that were acknowledged, and in
  \<open>refused\<close> those that were not.
\<close>

inductive mt_run ::
  "world \<times> MemTable \<Rightarrow> Record list list \<Rightarrow> Record list list \<Rightarrow> world \<times> MemTable \<Rightarrow> bool" where
  mt_start: "mt_run s [] [] s"
| mt_ack: "mt_run s bs refused s' \<Longrightarrow> ops \<noteq> [] \<Longrightarrow> batches_ok [ops] \<Longrightarrow>
     applyBatch ops s' = Some (Inr True, s'') \<Longrightarrow> mt_run s (bs @ [ops]) refused s''"
| mt_fail: "mt_run s bs refused s' \<Longrightarrow> ops \<noteq> [] \<Longrightarrow> batches_ok [ops] \<Longrightarrow>
     applyBatch ops s' = Some (Inr False, s'') \<Longrightarrow> mt_run s bs (refused @ [ops]) s''"
| mt_env: "mt_run s bs refused (w, m) \<Longrightarrow> mt_run s bs refused (w\<lparr>w_policy := pol, w_os := os\<rparr>, m)"

text \<open>
  The log of a running MemTable: the frames of the acknowledged batches and then, if a write has
  failed, a prefix of the frame of a batch that was refused.
\<close>

definition log_tracks ::
  "world \<Rightarrow> MemTable \<Rightarrow> MemTable \<Rightarrow> Record list list \<Rightarrow> Record list list \<Rightarrow> string \<Rightarrow> bool" where
  "log_tracks w m m0 bs refused t \<longleftrightarrow>
     log_open w m (wal_header @ wal_frames bs @ t) \<and> batches_ok bs
     \<and> mt_logPath m = mt_logPath m0 \<and> mt_table m = mt_table (apply_records (concat bs) m0)
     \<and> (\<not> poisoned m \<longrightarrow> t = [])
     \<and> (t = [] \<or> (\<exists>ops \<in> set refused. batches_ok [ops] \<and> prefix t (encodeWALFrame (batch_payload ops))))"

lemma batches_ok_append [simp]: "batches_ok (as @ bs) \<longleftrightarrow> batches_ok as \<and> batches_ok bs"
  by (auto simp: batches_ok_def)

lemma wal_frames_snoc: "wal_frames (bs @ [ops]) = wal_frames bs @ encodeWALFrame (batch_payload ops)"
  by (simp add: wal_frames_def)

lemma applyToMemory_table:
  "mt_table a = mt_table b \<Longrightarrow> mt_table (applyToMemory k e a) = mt_table (applyToMemory k e b)"
  by (simp add: applyToMemory_def Let_def)

lemma apply_records_table:
  "mt_table a = mt_table b \<Longrightarrow> mt_table (apply_records rs a) = mt_table (apply_records rs b)"
  unfolding apply_records_def
proof (induction rs arbitrary: a b)
  case (Cons r rs)
  show ?case using Cons.IH [OF applyToMemory_table [OF Cons.prems]] by simp
qed simp

lemma apply_records_append: "apply_records (as @ bs) m = apply_records bs (apply_records as m)"
  by (simp add: apply_records_def)

lemma log_tracks_ack:
  assumes "log_tracks w m m0 bs refused t" "ops \<noteq> []" "batches_ok [ops]"
    and run: "applyBatch ops (w, m) = Some (Inr True, (w', m'))"
  shows "log_tracks w' m' m0 (bs @ [ops]) refused []"
proof -
  from assms(1) have o: "log_open w m (wal_header @ wal_frames bs @ t)" by (simp add: log_tracks_def)
  from o assms(2) show ?thesis
  proof (cases rule: applyBatch_outcome)
    case (ok w1)
    with run assms show ?thesis
      by (auto simp: log_tracks_def log_open_def open_on_def wal_frames_snoc apply_records_append
          intro: apply_records_table)
  qed (use run in simp)
qed

lemma log_tracks_fail:
  assumes "log_tracks w m m0 bs refused t" "ops \<noteq> []" "batches_ok [ops]"
    and run: "applyBatch ops (w, m) = Some (Inr False, (w', m'))"
  shows "\<exists>t'. log_tracks w' m' m0 bs (refused @ [ops]) t'"
proof -
  from assms(1) have o: "log_open w m (wal_header @ wal_frames bs @ t)" by (simp add: log_tracks_def)
  from o assms(2) show ?thesis
  proof (cases rule: applyBatch_outcome)
    case (failed n w1)
    show ?thesis
    proof (cases "poisoned m")
      case True
      with failed run assms(1) show ?thesis
        by (intro exI [of _ t]) (auto simp: log_tracks_def log_open_def open_on_def)
    next
      case False
      with failed run assms(1,3) show ?thesis
        by (intro exI [of _ "take n (encodeWALFrame (batch_payload ops))"])
          (auto simp: log_tracks_def log_open_def open_on_def take_is_prefix)
    qed
  qed (use run in simp)
qed

lemma mt_run_tracks:
  assumes "mt_run s bs refused s'" "s = (w0, m0)" "log_tracks w0 m0 m0 [] [] []"
  shows "\<exists>t. log_tracks (fst s') (snd s') m0 bs refused t"
  using assms
proof (induction rule: mt_run.induct)
  case (mt_start s)
  then show ?case by auto
next
  case (mt_ack s bs refused s' ops s'')
  then show ?case by (cases s'; cases s'') (auto intro: log_tracks_ack)
next
  case (mt_fail s bs refused s' ops s'')
  then show ?case by (cases s'; cases s'') (auto intro: log_tracks_fail)
next
  case (mt_env s bs refused w m pol os)
  then show ?case by (auto simp: log_tracks_def log_open_def open_on_def)
qed

text \<open>
  C17: durability of acknowledged writes. After any sequence of batches and faults, the log file
  holds the frames of the acknowledged batches, in order, and then the first \<open>k\<close> bytes of the frame
  of one refused batch, which are none unless a write has failed. What opening it again in a new
  process does depends on these bytes. If they are no complete frame, it gives the table that was in
  memory, except that bytes which happen to look committed make it throw the error for a damaged
  frame. If the refused frame reached the file completely, the batch is recovered on top of the table.
\<close>

theorem acknowledged_writes_survive:
  assumes run: "mt_run (w0, m0) bs refused (w, m)"
    and m0: "m0 = empty_memtable p ww" "log_open w0 m0 wal_header"
    and w1: "nominal w1" "creatable w1 p" "content_of w1 p = content_of w p"
  defines "reopens \<equiv> \<lambda>table. \<exists>m' w'. MemTable_new p w1 = Some (Inr m', w') \<and> mt_table m' = table"
  shows "content_of w p = Some (wal_header @ wal_frames bs) \<and> reopens (mt_table m)
    \<or> poisoned m \<and> (\<exists>ops k. ops \<in> set refused
      \<and> content_of w p = Some (wal_header @ wal_frames bs @ take k (encodeWALFrame (batch_payload ops)))
      \<and> (if length (encodeWALFrame (batch_payload ops)) \<le> k then reopens (mt_table (apply_records ops m))
         else if looks_committed (take k (encodeWALFrame (batch_payload ops)))
         then \<exists>w'. MemTable_new p w1 = Some (Inl (runtime_error ''Corrupt WAL frame before a committed batch''), w')
         else reopens (mt_table m)))"
proof -
  have "log_tracks w0 m0 m0 [] [] []"
    using m0 by (simp add: log_tracks_def batches_ok_def wal_frames_def apply_records_def)
  from mt_run_tracks [OF run refl this] obtain t where t: "log_tracks w m m0 bs refused t" by auto
  have c: "content_of w p = Some (wal_header @ wal_frames bs @ t)" and np: "\<not> poisoned m \<longrightarrow> t = []"
    and bs: "batches_ok bs" and tab: "mt_table m = mt_table (apply_records (concat bs) m0)"
    using t m0 by (auto simp: log_tracks_def log_open_def open_on_def empty_memtable_def)
  have eq: "mt_table (apply_records rs (empty_memtable p ww')) = mt_table (apply_records rs m0)" for rs ww'
    using m0 by (intro apply_records_table) (simp add: empty_memtable_def)
  have restored: "reopens (mt_table m)" if "content_of w p = Some (wal_header @ wal_frames bs @ t)" "incomplete t" "\<not> looks_committed t" for t
    using MemTable_reopen [OF w1(1,2) bs _ that(2,3)] that(1) w1(3) eq tab by (auto simp: reopens_def)
  show ?thesis
  proof (cases "t = []")
    case True
    with c restored [of "[]"] show ?thesis by simp
  next
    case False
    with t obtain ops where ops: "ops \<in> set refused" "batches_ok [ops]" "prefix t (encodeWALFrame (batch_payload ops))"
      by (auto simp: log_tracks_def)
    let ?f = "encodeWALFrame (batch_payload ops)"
    from ops(3) obtain k where k: "t = take k ?f" by (metis append_eq_conv_conj prefixE)
    have len: "length (batch_payload ops) < 2 ^ 64" using ops(2) by (simp add: batches_ok_def)
    have "if length ?f \<le> k then reopens (mt_table (apply_records ops m))
         else if looks_committed (take k ?f)
         then \<exists>w'. MemTable_new p w1 = Some (Inl (runtime_error ''Corrupt WAL frame before a committed batch''), w')
         else reopens (mt_table m)"
    proof (cases "length ?f \<le> k")
      case True
      have "batches_ok (bs @ [ops])" using bs ops(2) by simp
      moreover have "content_of w1 p = Some (wal_header @ wal_frames (bs @ [ops]) @ [])"
        using c w1(3) k True by (simp add: wal_frames_snoc)
      ultimately have "\<exists>w'. MemTable_new p w1 =
          Some (Inr (apply_records (concat (bs @ [ops])) (empty_memtable p (writer_at p w1))), w')"
        using MemTable_reopen [OF w1(1,2)] by fastforce
      moreover have "mt_table (apply_records (concat (bs @ [ops])) (empty_memtable p (writer_at p w1)))
          = mt_table (apply_records ops m)"
        using eq [of "concat bs" "writer_at p w1"] tab
        by (simp add: apply_records_append) (rule apply_records_table, simp)
      ultimately show ?thesis using True by (auto simp: reopens_def)
    next
      case cut: False
      then have inc: "incomplete t" using len unfolding k by (intro cut_frame_incomplete) simp_all
      have "\<exists>w'. MemTable_new p w1 = Some (Inl (runtime_error ''Corrupt WAL frame before a committed batch''), w')"
        if "looks_committed t"
        using parse_incomplete_tail [OF bs inc] that c w1(3)
        by (intro MemTable_rejects [OF w1(1,2), of "wal_header @ wal_frames bs @ t"]) simp_all
      with restored [OF c inc] cut k show ?thesis by simp
    qed
    with c k ops(1) np False show ?thesis by blast
  qed
qed

text \<open>Without faults a batch is always acknowledged.\<close>

lemma nominal_applyBatch:
  assumes "nominal w" "log_open w m c" "\<not> poisoned m" "ops \<noteq> []"
  shows "applyBatch ops (w, m) =
    Some (Inr True, (set_file (mt_logPath m) (c @ encodeWALFrame (batch_payload ops)) w, apply_records ops m))"
proof -
  let ?f = "encodeWALFrame (batch_payload ops)"
  let ?fd = "wal_fd (mt_walWriter m)"
  have o: "open_on w ?fd (mt_logPath m) c" using assms(2) by (simp add: log_open_def)
  have wr: "fault_write ?fd ?f w = (Inr (length ?f), set_file (mt_logPath m) (c @ ?f) w)"
    using assms(1) o by (rule nominal_fault_write)
  have fs: "fault_fsync ?fd (set_file (mt_logPath m) (c @ ?f) w) = (0, set_file (mt_logPath m) (c @ ?f) w)"
    using assms(1) o by (intro nominal_fault_fsync) (simp_all add: open_on_def)
  have "on_walWriter (WALFileWriter_write ?f) (w, m)
      = Some (Inr (), (set_file (mt_logPath m) (c @ ?f) w, m))"
    using assms(3) wr fs
    by (simp add: on_walWriter_def WALFileWriter_write_def io_bind_def io_outer_def io_act_def Let_def)
  with assms(4) show ?thesis
    by (simp add: applyBatch_def io_bind_def io_try_def apply_records_def)
qed

definition log_example_path :: path where
  "log_example_path = [''d'', ''wal_0.wal'']"

definition log_example_world :: world where
  "log_example_world = \<lparr>w_files = [(log_example_path, wal_header)], w_dirs = [[], [''d'']],
     w_fds = [(3, log_example_path)], w_policy = None, w_os = sconst OsOk\<rparr>"

definition log_example_table :: MemTable where
  "log_example_table =
     empty_memtable log_example_path \<lparr>wal_path = log_example_path, wal_fd = 3, wal_poisoned = False\<rparr>"

lemma log_example_open: "log_open log_example_world log_example_table wal_header"
  by (simp add: log_open_def open_on_def log_example_world_def log_example_table_def empty_memtable_def)

theorem acknowledged_writes_survive_witness:
  "\<exists>w1 m' w'. MemTable_new log_example_path w1 = Some (Inr m', w')
     \<and> mt_table m' = mt_table (apply_records batch_example log_example_table)"
proof -
  let ?p = log_example_path and ?w0 = log_example_world and ?m0 = log_example_table
  define w where "w = set_file (mt_logPath ?m0) (wal_header @ encodeWALFrame (batch_payload batch_example)) ?w0"
  define m where "m = apply_records batch_example ?m0"
  have np: "\<not> poisoned m" "mt_logPath ?m0 = ?p"
    by (simp_all add: m_def log_example_table_def empty_memtable_def)
  have n: "nominal ?w0" by (simp add: nominal_def log_example_world_def)
  have "applyBatch batch_example (?w0, ?m0) = Some (Inr True, (w, m))"
    unfolding w_def m_def
    by (rule nominal_applyBatch [OF n log_example_open])
      (simp_all add: log_example_table_def empty_memtable_def batch_example_def)
  then have run: "mt_run (?w0, ?m0) ([] @ [batch_example]) [] (w, m)"
    by (intro mt_ack [OF mt_start _ batch_example_ok]) (simp_all add: batch_example_def)
  have c: "creatable w ?p"
    by (simp add: creatable_def w_def np log_example_path_def log_example_world_def)
  have "nominal w" using n by (simp add: w_def)
  from acknowledged_writes_survive [OF run _ log_example_open this c refl] np(1)
  have "\<exists>m' w'. MemTable_new ?p w = Some (Inr m', w') \<and> mt_table m' = mt_table m"
    using log_example_table_def by auto
  then show ?thesis unfolding m_def by blast
qed

end
