(* ===== verification/BloomFilter.thy ===== *)
theory BloomFilter
  imports Utils
begin

unbundle bit_operations_syntax

text \<open>
  \<open>inc/BloomFilter.h\<close> and \<open>src/BloomFilter.cpp\<close>: the filter an SSTable consults before it reads a
  block. A filter that has seen a key never rejects it, and it survives serialisation.

  A remainder by zero and an index outside the array are undefined in C++; an operation that runs
  into one of them has the result \<open>None\<close>, and well-formed filters never do.

  The size of a filter is computed in floating point. The arithmetic of the host (the rounding of
  every operation and the value of \<open>std::log\<close>) is the parameter \<open>fp\<close>; what the code relies on is
  stated where it is used (\<open>fp_ok\<close>).
\<close>

section \<open>Definitions\<close>

definition kBitsPerWord :: nat where "kBitsPerWord = 64"
definition kSerializedHeaderSize :: nat where "kSerializedHeaderSize = 2 * 8"
definition kFnvOffsetBasis :: u64 where "kFnvOffsetBasis = 0xcbf29ce484222325"
definition kFnvPrime :: u64 where "kFnvPrime = 0x100000001b3"

definition wordCountFor :: "u64 \<Rightarrow> u64" where
  "wordCountFor bitCount = (bitCount + of_nat kBitsPerWord - 1) div of_nat kBitsPerWord"

definition getFNV1a :: "string \<Rightarrow> u64" where
  "getFNV1a k = foldl (\<lambda>hash character. (hash XOR of_char character) * kFnvPrime) kFnvOffsetBasis k"

record BloomFilter =
  bf_words :: "u64 list"
  bf_bitCount :: u64
  bf_hashCount :: u64

text \<open>The private constructor, which \<open>fromParameters\<close> calls.\<close>

definition BloomFilter_new :: "u64 \<Rightarrow> u64 \<Rightarrow> BloomFilter" where
  "BloomFilter_new bitCount hashCount =
     \<lparr>bf_words = replicate (unat (wordCountFor bitCount)) 0, bf_bitCount = bitCount,
      bf_hashCount = hashCount\<rparr>"

definition fromParameters :: "u64 \<Rightarrow> u64 \<Rightarrow> BloomFilter" where
  "fromParameters bitCount hashCount = BloomFilter_new bitCount hashCount"

definition Serialize :: "BloomFilter \<Rightarrow> string" where
  "Serialize bf = put_u64 (bf_bitCount bf) @ put_u64 (bf_hashCount bf) @ concat (map put_u64 (bf_words bf))"

text \<open>The loop that copies the words out of the buffer.\<close>

fun read_words :: "nat \<Rightarrow> string \<Rightarrow> u64 list" where
  "read_words 0 s = []"
| "read_words (Suc n) s = get_u64 (take 8 s) # read_words n (drop 8 s)"

definition fromBytes :: "string \<Rightarrow> BloomFilter result" where
  "fromBytes data =
     (if length data < kSerializedHeaderSize \<or> length data mod 8 \<noteq> 0
      then Inl (length_error ''BloomFilter::fromBytes: data size is not a multiple of uint64_t'')
      else
        let bitCount = get_u64 (substr data 0 8) in
        if of_nat (length data) \<noteq> of_nat kSerializedHeaderSize + wordCountFor bitCount * 8
        then Inl (length_error ''BloomFilter::fromBytes: data size error!'')
        else
          let hashCount = get_u64 (substr data 8 8);
              bf = BloomFilter_new bitCount hashCount
          in Inr (bf\<lparr>bf_words := read_words (length (bf_words bf)) (drop kSerializedHeaderSize data)\<rparr>))"

text \<open>
  The floating-point arithmetic of the host: \<open>fp_rnd\<close> rounds the exact result of an operation to
  a double, \<open>fp_log\<close> is \<open>std::log\<close>. \<open>std::ceil\<close>, \<open>std::round\<close> and the conversions to integers
  are exact; a conversion is only defined for values that fit 64 bits, which the bounds below ensure
  for the bit counts of tables.
\<close>

record fp =
  fp_rnd :: "real \<Rightarrow> real"
  fp_log :: "real \<Rightarrow> real"

definition forEntries_bitCount :: "fp \<Rightarrow> nat \<Rightarrow> real \<Rightarrow> real" where
  "forEntries_bitCount fp expectedEntries falsePositiveProbability =
     fp_rnd fp (fp_rnd fp (- fp_rnd fp (real expectedEntries) * fp_log fp falsePositiveProbability)
       / fp_rnd fp (fp_log fp 2 * fp_log fp 2))"

definition forEntries :: "fp \<Rightarrow> nat \<Rightarrow> real \<Rightarrow> BloomFilter" where
  "forEntries fp expectedEntries falsePositiveProbability =
     (let calculatedBitCount = forEntries_bitCount fp expectedEntries falsePositiveProbability;
          bitCount = of_int \<lceil>calculatedBitCount\<rceil>;
          hashCount = of_int (round (fp_rnd fp (fp_rnd fp (calculatedBitCount
            / fp_rnd fp (real expectedEntries)) * fp_log fp 2)))
      in BloomFilter_new bitCount hashCount)"

text \<open>
  \<open>firstHash\<close> and \<open>secondHash\<close> are 32 bit halves, promoted to 64 bits for the sum. The remainder
  by a zero bit count is undefined in C++: \<open>None\<close>.
\<close>

definition getBitPosition :: "BloomFilter \<Rightarrow> string \<Rightarrow> u64 \<Rightarrow> u64 option" where
  "getBitPosition bf k hashIndex =
     (let hashValue = getFNV1a k;
          firstHash = (ucast (drop_bit 32 hashValue) :: u32);
          secondHash0 = (ucast (hashValue AND 0xFFFFFFFF) :: u32);
          secondHash = (if secondHash0 = 0 then 1 else secondHash0)
      in if bf_bitCount bf = 0 then None
         else Some ((ucast firstHash + hashIndex * ucast secondHash) mod bf_bitCount bf))"

definition bit_mask :: "u64 \<Rightarrow> u64" where
  "bit_mask bitPosition = push_bit (unat (bitPosition mod of_nat kBitsPerWord)) 1"

text \<open>
  \<open>words_[bitPosition / kBitsPerWord]\<close>: \<open>operator[]\<close> checks nothing, and an index behind the last
  word is undefined: \<open>None\<close>.
\<close>

definition word_at :: "BloomFilter \<Rightarrow> u64 \<Rightarrow> u64 option" where
  "word_at bf bitPosition =
     (let i = unat (bitPosition div of_nat kBitsPerWord)
      in if i < length (bf_words bf) then Some (bf_words bf ! i) else None)"

definition set_bit_at :: "BloomFilter \<Rightarrow> u64 \<Rightarrow> BloomFilter option" where
  "set_bit_at bf bitPosition =
     (case word_at bf bitPosition of
        None \<Rightarrow> None
      | Some word \<Rightarrow> Some (bf\<lparr>bf_words := (bf_words bf)
          [unat (bitPosition div of_nat kBitsPerWord) := word OR bit_mask bitPosition]\<rparr>))"

text \<open>The loops over \<open>hashIndex < hashCount_\<close>. A loop that runs into undefined behaviour is \<open>None\<close>.\<close>

fun add_bits :: "BloomFilter \<Rightarrow> string \<Rightarrow> nat list \<Rightarrow> BloomFilter option" where
  "add_bits bf k [] = Some bf"
| "add_bits bf k (hashIndex # hashIndices) =
     (case getBitPosition bf k (of_nat hashIndex) of
        None \<Rightarrow> None
      | Some bitPosition \<Rightarrow>
          (case set_bit_at bf bitPosition of
             None \<Rightarrow> None
           | Some bf \<Rightarrow> add_bits bf k hashIndices))"

definition BloomFilter_add :: "BloomFilter \<Rightarrow> string \<Rightarrow> BloomFilter option" where
  "BloomFilter_add bf k = add_bits bf k [0..<unat (bf_hashCount bf)]"

fun test_bits :: "BloomFilter \<Rightarrow> string \<Rightarrow> nat list \<Rightarrow> bool option" where
  "test_bits bf k [] = Some True"
| "test_bits bf k (hashIndex # hashIndices) =
     (case getBitPosition bf k (of_nat hashIndex) of
        None \<Rightarrow> None
      | Some bitPosition \<Rightarrow>
          (case word_at bf bitPosition of
             None \<Rightarrow> None
           | Some word \<Rightarrow>
               if word AND bit_mask bitPosition = 0 then Some False else test_bits bf k hashIndices))"

definition mightContain :: "BloomFilter \<Rightarrow> string \<Rightarrow> bool option" where
  "mightContain bf k = test_bits bf k [0..<unat (bf_hashCount bf)]"

section \<open>Well-formed filters\<close>

text \<open>
  A filter is well formed when it has a bit and exactly the words for its bits; then every bit
  position is inside the word array.
\<close>

definition bloom_wf :: "BloomFilter \<Rightarrow> bool" where
  "bloom_wf bf \<longleftrightarrow> bf_bitCount bf \<noteq> 0 \<and> length (bf_words bf) = unat (wordCountFor (bf_bitCount bf))
     \<and> unat (bf_bitCount bf) + 63 < 2 ^ 64"

text \<open>A filter covers another when it has all of its bits.\<close>

definition covers :: "BloomFilter \<Rightarrow> BloomFilter \<Rightarrow> bool" where
  "covers big small \<longleftrightarrow> bf_bitCount big = bf_bitCount small \<and> bf_hashCount big = bf_hashCount small
     \<and> list_all2 (\<lambda>b s. s AND b = s) (bf_words big) (bf_words small)"

lemma wordCountFor_nat:
  "unat b + 63 < 2 ^ 64 \<Longrightarrow> unat (wordCountFor b) = (unat b + 63) div 64"
  by (simp add: wordCountFor_def kBitsPerWord_def unat_div unat_word_ariths)

text \<open>In a well-formed filter every bit position is defined and inside the word array.\<close>

lemma wf_position:
  assumes "bloom_wf bf"
  obtains pos where "getBitPosition bf k i = Some pos"
    "unat (pos div of_nat kBitsPerWord) < length (bf_words bf)"
    "word_at bf pos = Some (bf_words bf ! unat (pos div of_nat kBitsPerWord))"
proof -
  have b: "bf_bitCount bf \<noteq> 0" using assms by (simp add: bloom_wf_def)
  then obtain pos where pos: "getBitPosition bf k i = Some pos" "pos < bf_bitCount bf"
    by (simp add: getBitPosition_def Let_def word_gt_0 word_mod_less_divisor)
  then have "unat pos < unat (bf_bitCount bf)" by (simp add: word_less_nat_alt)
  moreover have "length (bf_words bf) = (unat (bf_bitCount bf) + 63) div 64"
    using assms by (simp add: bloom_wf_def wordCountFor_nat)
  ultimately have "unat pos div 64 < length (bf_words bf)" by linarith
  then have "unat (pos div of_nat kBitsPerWord) < length (bf_words bf)" by (simp add: kBitsPerWord_def unat_div)
  with pos(1) show thesis by (intro that [of pos]) (simp_all add: word_at_def)
qed

section \<open>No false negatives\<close>

lemma bit_mask_test: "x AND bit_mask pos = 0 \<longleftrightarrow> \<not> bit x (unat (pos mod 64))"
proof -
  have "unat (pos mod 64) < 64" by (simp add: unat_mod)
  then show ?thesis
    by (simp add: bit_mask_def kBitsPerWord_def and_exp_eq_0_iff_not_bit push_bit_eq_mult)
qed

lemma covers_refl [simp]: "covers bf bf"
  by (simp add: covers_def list_all2_refl)

lemma covers_trans [trans]: "covers c b \<Longrightarrow> covers b a \<Longrightarrow> covers c a"
proof -
  assume cb: "covers c b" and ba: "covers b a"
  have "x AND z = x" if "x AND y = x" "y AND z = y" for x y z :: u64
    using that by (metis and.assoc)
  then have "list_all2 (\<lambda>b s. s AND b = s) (bf_words c) (bf_words a)"
    using cb ba unfolding covers_def list_all2_conv_all_nth by metis
  with cb ba show ?thesis by (simp add: covers_def)
qed

lemma covers_set_bit_at:
  assumes "set_bit_at bf pos = Some bf'"
  shows "covers bf' bf"
proof -
  have "x AND (x OR y) = x" for x y :: u64 by (rule bit_eqI) (auto simp: bit_simps)
  then have "xs ! j AND xs[i := xs ! i OR m] ! j = xs ! j" if "j < length xs" for xs i j and m :: u64
    using that by (metis and.idem nth_list_update_eq nth_list_update_neq)
  with assms show ?thesis
    by (auto simp: covers_def set_bit_at_def word_at_def Let_def list_all2_conv_all_nth split: option.splits if_splits)
qed

lemma covers_wf: "covers big small \<Longrightarrow> bloom_wf big = bloom_wf small"
  by (auto simp: covers_def bloom_wf_def dest: list_all2_lengthD)

lemma covers_position: "covers big small \<Longrightarrow> getBitPosition big k i = getBitPosition small k i"
  by (simp add: covers_def getBitPosition_def Let_def)

text \<open>The bit at a position of a filter.\<close>

definition bit_at :: "BloomFilter \<Rightarrow> u64 option \<Rightarrow> bool" where
  "bit_at bf pos \<longleftrightarrow> (\<exists>p. pos = Some p \<and> unat (p div of_nat kBitsPerWord) < length (bf_words bf)
     \<and> bit (bf_words bf ! unat (p div of_nat kBitsPerWord)) (unat (p mod 64)))"

lemma test_bits_wf:
  assumes "bloom_wf bf"
  shows "test_bits bf k hashIndices = Some (\<forall>i \<in> set hashIndices. bit_at bf (getBitPosition bf k (of_nat i)))"
proof (induction hashIndices)
  case (Cons i hashIndices)
  from assms obtain pos where "getBitPosition bf k (of_nat i) = Some pos"
    "unat (pos div of_nat kBitsPerWord) < length (bf_words bf)"
    "word_at bf pos = Some (bf_words bf ! unat (pos div of_nat kBitsPerWord))"
    by (rule wf_position)
  with Cons show ?case by (simp add: bit_mask_test bit_at_def)
qed simp

lemma mightContain_bits:
  "bloom_wf bf \<Longrightarrow> mightContain bf k
    = Some (\<forall>i < unat (bf_hashCount bf). bit_at bf (getBitPosition bf k (of_nat i)))"
  by (auto simp: mightContain_def test_bits_wf)

lemma mightContain_wf: "bloom_wf bf \<Longrightarrow> \<exists>b. mightContain bf k = Some b"
  by (simp add: mightContain_bits)

lemma bit_at_covers: "covers big small \<Longrightarrow> bit_at small pos \<Longrightarrow> bit_at big pos"
proof -
  assume c: "covers big small" and "bit_at small pos"
  then obtain p where p: "pos = Some p" "unat (p div of_nat kBitsPerWord) < length (bf_words small)"
    "bit (bf_words small ! unat (p div of_nat kBitsPerWord)) (unat (p mod 64))"
    by (auto simp: bit_at_def)
  let ?i = "unat (p div of_nat kBitsPerWord)"
  from c p(2) have "?i < length (bf_words big)" "bf_words small ! ?i AND bf_words big ! ?i = bf_words small ! ?i"
    by (auto simp: covers_def list_all2_conv_all_nth)
  with p show ?thesis unfolding bit_at_def by (metis bit_and_iff)
qed

lemma bit_at_set_bit_at: "set_bit_at bf pos = Some bf' \<Longrightarrow> bit_at bf' (Some pos)"
proof -
  assume "set_bit_at bf pos = Some bf'"
  moreover have "unat (pos mod 64) < 64" by (simp add: unat_mod)
  ultimately show ?thesis
    by (auto simp: bit_at_def set_bit_at_def word_at_def Let_def bit_mask_def kBitsPerWord_def bit_simps
        split: if_splits)
qed

lemma mightContain_covers:
  assumes "covers big small" "bloom_wf small" "mightContain small k = Some True"
  shows "mightContain big k = Some True"
  using assms bit_at_covers [OF assms(1)] covers_position [OF assms(1), of k] covers_wf [OF assms(1)]
  by (simp add: mightContain_bits covers_def)

lemma add_bits_wf:
  "bloom_wf bf \<Longrightarrow> \<exists>bf'. add_bits bf k hashIndices = Some bf' \<and> covers bf' bf
    \<and> (\<forall>i \<in> set hashIndices. bit_at bf' (getBitPosition bf k (of_nat i)))"
proof (induction hashIndices arbitrary: bf)
  case (Cons i hashIndices)
  from Cons.prems obtain pos where pos: "getBitPosition bf k (of_nat i) = Some pos"
    "word_at bf pos = Some (bf_words bf ! unat (pos div of_nat kBitsPerWord))"
    by (rule wf_position)
  then obtain b where b: "set_bit_at bf pos = Some b" by (simp add: set_bit_at_def)
  note cov = covers_set_bit_at [OF b]
  from Cons.IH [of b] Cons.prems covers_wf [OF cov] obtain bf' where bf': "add_bits b k hashIndices = Some bf'"
    "covers bf' b" "\<forall>i \<in> set hashIndices. bit_at bf' (getBitPosition b k (of_nat i))" by blast
  have "bit_at bf' (Some pos)" using bit_at_covers [OF bf'(2) bit_at_set_bit_at [OF b]] .
  with bf' pos b show ?case using covers_trans [OF bf'(2) cov] covers_position [OF cov, of k] by simp
qed simp

lemma add_defined:
  assumes "bloom_wf bf"
  obtains bf' where "BloomFilter_add bf k = Some bf'" "covers bf' bf" "bloom_wf bf'" "mightContain bf' k = Some True"
proof -
  from add_bits_wf [OF assms] obtain bf' where bf': "BloomFilter_add bf k = Some bf'" "covers bf' bf"
    "\<forall>i < unat (bf_hashCount bf). bit_at bf' (getBitPosition bf k (of_nat i))"
    unfolding BloomFilter_add_def by force
  moreover from this(2) have "bloom_wf bf'" using assms covers_wf by blast
  ultimately show thesis
    using covers_position [OF bf'(2), of k] that by (simp add: mightContain_bits covers_def)
qed

text \<open>The loop that adds the keys of a table.\<close>

fun add_keys :: "BloomFilter \<Rightarrow> string list \<Rightarrow> BloomFilter option" where
  "add_keys bf [] = Some bf"
| "add_keys bf (k # ks) = (case BloomFilter_add bf k of None \<Rightarrow> None | Some bf \<Rightarrow> add_keys bf ks)"

lemma add_keys_defined:
  "bloom_wf bf \<Longrightarrow> \<exists>bf'. add_keys bf ks = Some bf' \<and> covers bf' bf
    \<and> (\<forall>k \<in> set ks. mightContain bf' k = Some True)"
proof (induction ks arbitrary: bf)
  case (Cons k ks)
  from Cons.prems obtain b where b: "BloomFilter_add bf k = Some b" "covers b bf" "bloom_wf b"
    "mightContain b k = Some True" by (rule add_defined)
  from Cons.IH [OF b(3)] obtain bf' where bf': "add_keys b ks = Some bf'" "covers bf' b"
    "\<forall>k \<in> set ks. mightContain bf' k = Some True" by blast
  with b show ?case using mightContain_covers [OF bf'(2) b(3,4)] covers_trans [OF bf'(2) b(2)] by simp
qed simp

text \<open>
  C38: adding keys to a well-formed filter is defined, and the filter that results never rejects
  one of them.
\<close>

theorem bloom_no_false_negatives:
  "bloom_wf bf \<Longrightarrow> k \<in> set ks \<Longrightarrow> \<exists>bf'. add_keys bf ks = Some bf' \<and> mightContain bf' k = Some True"
  using add_keys_defined [of bf ks] by blast

lemma new_wf [inv_intros]:
  "b \<noteq> 0 \<Longrightarrow> unat b + 63 < 2 ^ 64 \<Longrightarrow> bloom_wf (BloomFilter_new b h)"
  by (simp add: bloom_wf_def BloomFilter_new_def)

theorem bloom_no_false_negatives_witness:
  "\<exists>bf'. add_keys (fromParameters 128 7) [''apple'', ''pear''] = Some bf' \<and> mightContain bf' ''pear'' = Some True"
  by (rule bloom_no_false_negatives) (simp_all add: fromParameters_def new_wf)

section \<open>Serialisation\<close>

lemma length_concat_put_u64 [simp]: "length (concat (map put_u64 ws)) = 8 * length ws"
  by (induction ws) simp_all

lemma length_Serialize [codec_simps]: "length (Serialize bf) = 16 + 8 * length (bf_words bf)"
  by (simp add: Serialize_def)

lemma read_words_put [simp]: "read_words (length ws) (concat (map put_u64 ws)) = ws"
  by (induction ws) simp_all

lemma fromBytes_Serialize [codec_simps]:
  assumes "length (bf_words bf) = unat (wordCountFor (bf_bitCount bf))"
  shows "fromBytes (Serialize bf) = Inr bf"
proof -
  have hdr: "substr (Serialize bf) 0 8 = put_u64 (bf_bitCount bf)"
    "substr (Serialize bf) 8 8 = put_u64 (bf_hashCount bf)"
    "drop 16 (Serialize bf) = concat (map put_u64 (bf_words bf))"
    by (simp_all add: Serialize_def substr_def)
  have "of_nat (length (Serialize bf)) = of_nat kSerializedHeaderSize + wordCountFor (bf_bitCount bf) * 8"
    by (simp add: length_Serialize kSerializedHeaderSize_def assms mult.commute)
  moreover have "(16 + 8 * length (bf_words bf)) mod 8 = 0"
    by presburger
  moreover have "length (bf_words (BloomFilter_new (bf_bitCount bf) h)) = length (bf_words bf)" for h
    by (simp add: BloomFilter_new_def assms)
  ultimately show ?thesis
    unfolding fromBytes_def Let_def hdr kSerializedHeaderSize_def
    by (simp add: hdr length_Serialize kSerializedHeaderSize_def BloomFilter_new_def)
qed

text \<open>
  The filter that a table's keys were added to is read back unchanged from its serialised
  form.
\<close>

theorem bloom_roundtrip:
  "bloom_wf bf \<Longrightarrow> \<exists>bf'. add_keys bf ks = Some bf' \<and> fromBytes (Serialize bf') = Inr bf'"
  using add_keys_defined [of bf ks] covers_wf fromBytes_Serialize by (metis bloom_wf_def)

theorem bloom_roundtrip_witness:
  "\<exists>bf'. add_keys (fromParameters 64 2) [''k'', ''l''] = Some bf' \<and> fromBytes (Serialize bf') = Inr bf'"
  by (rule bloom_roundtrip) (simp add: fromParameters_def new_wf)

section \<open>Filters that cannot be used\<close>

lemma wordCountFor_zero: "wordCountFor b = 0 \<longleftrightarrow> b = 0 \<or> 2 ^ 64 \<le> unat b + 63"
proof (cases "unat b + 63 < 2 ^ 64")
  case True
  then have "wordCountFor b = 0 \<longleftrightarrow> (unat b + 63) div 64 = 0"
    using wordCountFor_nat [OF True] by (metis unat_0 unat_eq_zero)
  also have "\<dots> \<longleftrightarrow> b = 0" by (simp add: div_eq_0_iff unat_eq_zero flip: unat_eq_0)
  finally show ?thesis using True by simp
next
  case False
  have lt: "unat b < 2 ^ 64" using unsigned_less [of b] by simp
  have "unat (b + 63) = (unat b + 63) mod 2 ^ 64" by (simp add: unat_word_ariths)
  also have "\<dots> = unat b + 63 - 2 ^ 64" using False lt by (subst le_mod_geq) simp_all
  finally have "unat (b + 63) div 64 = 0" using lt by simp
  then have "unat ((b + 63) div 64) = 0" by (simp add: unat_div)
  then have "(b + 63) div 64 = 0" by (simp add: unat_eq_zero)
  moreover have "b + of_nat kBitsPerWord - 1 = b + 63" by (simp add: kBitsPerWord_def)
  ultimately have "wordCountFor b = 0" by (simp only: wordCountFor_def) (simp add: kBitsPerWord_def add.commute)
  then show ?thesis using False by simp
qed

lemma read_words_length [simp]: "length (read_words n s) = n"
  by (induction n arbitrary: s) simp_all

lemma fromBytes_fields:
  assumes "fromBytes data = Inr bf"
  shows "length (bf_words bf) = unat (wordCountFor (bf_bitCount bf))" "bf_bitCount bf = get_u64 (substr data 0 8)"
    "bf_hashCount bf = get_u64 (substr data 8 8)"
  using assms by (auto simp: fromBytes_def Let_def BloomFilter_new_def split: if_splits)

text \<open>A filter that was read from bytes is well formed or has no word at all.\<close>

lemma fromBytes_wf:
  assumes "fromBytes data = Inr bf"
  shows "bloom_wf bf \<longleftrightarrow> bf_words bf \<noteq> []"
  using fromBytes_fields(1) [OF assms] wordCountFor_zero [of "bf_bitCount bf"]
  by (auto simp: bloom_wf_def unat_eq_zero not_less simp flip: length_0_conv)

lemma no_words_lookup:
  assumes "bf_words bf = []" "bf_hashCount bf \<noteq> 0"
  shows "mightContain bf k = None"
proof -
  have "[0..<unat (bf_hashCount bf)] = 0 # [Suc 0..<unat (bf_hashCount bf)]"
    using assms(2) by (intro upt_conv_Cons) (simp add: unat_gt_0)
  with assms(1) show ?thesis by (simp add: mightContain_def word_at_def split: option.split)
qed

text \<open>
  C40: exactly which buffers become a filter that no lookup can use: those that consist of a header
  alone whose bit count is zero or so large that the word count overflows. \<open>fromBytes\<close> accepts each
  of them, and then every lookup is undefined, because it divides by a zero bit count or reads a
  word behind the end of an empty array; whatever else \<open>fromBytes\<close> accepts answers every lookup.
\<close>

theorem fromBytes_accepts_unusable:
  assumes "h \<noteq> 0" "length s + 16 < 2 ^ 64"
  shows "(\<exists>bf. fromBytes (put_u64 b @ put_u64 h @ s) = Inr bf \<and> mightContain bf k = None)
    \<longleftrightarrow> s = [] \<and> (b = 0 \<or> 2 ^ 64 \<le> unat b + 63)" (is "?l \<longleftrightarrow> ?r")
proof
  have hdr: "get_u64 (substr (put_u64 b @ put_u64 h @ s) 0 8) = b" "get_u64 (substr (put_u64 b @ put_u64 h @ s) 8 8) = h"
    by (simp_all add: substr_def)
  {
    assume ?l
    then obtain bf where bf: "fromBytes (put_u64 b @ put_u64 h @ s) = Inr bf" "mightContain bf k = None" by blast
    note f = fromBytes_fields [OF bf(1), unfolded hdr]
    have "\<not> bloom_wf bf" using mightContain_wf [of bf k] bf(2) by auto
    then have "bf_words bf = []" using fromBytes_wf [OF bf(1)] by simp
    with f have w: "wordCountFor b = 0" by (simp add: unat_eq_zero)
    have "of_nat (length s + 16) = (16 :: u64)"
      using bf(1) w by (simp add: fromBytes_def hdr [simplified] kSerializedHeaderSize_def Let_def split: if_splits)
    then have "unat (of_nat (length s + 16) :: u64) = 16" by simp
    then have "length s + 16 = 16" using assms(2) by (simp only: unat_of_nat64)
    with w show ?r using wordCountFor_zero by simp
  next
    assume r: ?r
    then have "wordCountFor b = 0" using wordCountFor_zero by blast
    with r have "fromBytes (put_u64 b @ put_u64 h @ s) = Inr \<lparr>bf_words = [], bf_bitCount = b, bf_hashCount = h\<rparr>"
      using fromBytes_Serialize [of "\<lparr>bf_words = [], bf_bitCount = b, bf_hashCount = h\<rparr>"] by (simp add: Serialize_def)
    with assms show ?l using no_words_lookup [of "\<lparr>bf_words = [], bf_bitCount = b, bf_hashCount = h\<rparr>"] by auto
  }
qed

theorem fromBytes_accepts_unusable_witness:
  "(\<exists>bf. fromBytes (put_u64 0 @ put_u64 7 @ []) = Inr bf \<and> mightContain bf ''k'' = None)
   \<and> (\<exists>bf. fromBytes (put_u64 0xFFFFFFFFFFFFFFFF @ put_u64 7 @ []) = Inr bf \<and> mightContain bf ''k'' = None)"
  using fromBytes_accepts_unusable [of 7 "[]" 0 "''k''"] fromBytes_accepts_unusable [of 7 "[]" "0xFFFFFFFFFFFFFFFF" "''k''"] by simp

section \<open>The size of a filter\<close>

text \<open>
  What the size computation needs of the host: rounding is monotone and exact on the powers of two
  that bound the quantities involved, and the two logarithms are roughly right (\<open>ln 2\<close> is
  \<open>0.69\<dots>\<close>, \<open>ln 0.01\<close> is \<open>-4.6\<dots>\<close>).
\<close>

definition fp_ok :: "fp \<Rightarrow> bool" where
  "fp_ok fp \<longleftrightarrow> mono (fp_rnd fp) \<and> fp_rnd fp (1 / 4) = 1 / 4 \<and> (\<forall>k \<le> 63. fp_rnd fp (2 ^ k) = 2 ^ k)
     \<and> 1 / 2 \<le> fp_log fp 2 \<and> fp_log fp 2 \<le> 1
     \<and> - 8 \<le> fp_log fp (fp_rnd fp (1 / 100)) \<and> fp_log fp (fp_rnd fp (1 / 100)) \<le> - 1"

lemma rnd_ge_1: "fp_ok fp \<Longrightarrow> 1 \<le> x \<Longrightarrow> 1 \<le> fp_rnd fp x"
  unfolding fp_ok_def by (metis le0 monoD power_0)

lemma rnd_ge_quarter: "fp_ok fp \<Longrightarrow> 1 / 4 \<le> x \<Longrightarrow> 1 / 4 \<le> fp_rnd fp x"
  unfolding fp_ok_def by (metis monoD)

lemma rnd_le_power: "fp_ok fp \<Longrightarrow> k \<le> 63 \<Longrightarrow> x \<le> 2 ^ k \<Longrightarrow> fp_rnd fp x \<le> 2 ^ k"
  unfolding fp_ok_def by (metis monoD)

lemma forEntries_bitCount_bounds:
  assumes ok: "fp_ok fp" and n: "1 \<le> n" "n \<le> 2 ^ j" and j: "j \<le> 40"
  shows "1 \<le> forEntries_bitCount fp n (fp_rnd fp (1 / 100))"
    and "forEntries_bitCount fp n (fp_rnd fp (1 / 100)) \<le> 2 ^ (j + 5)"
proof -
  let ?l = "fp_log fp (fp_rnd fp (1 / 100))" and ?rn = "fp_rnd fp (real n)"
  define num where "num = fp_rnd fp (- ?rn * ?l)"
  define den where "den = fp_rnd fp (fp_log fp 2 * fp_log fp 2)"
  have l: "1 \<le> - ?l" "- ?l \<le> 8" and l2: "1 / 2 \<le> fp_log fp 2" "fp_log fp 2 \<le> 1"
    using ok by (auto simp: fp_ok_def)
  have "real n \<le> 2 ^ j" using n(2) by (metis of_nat_le_iff of_nat_numeral of_nat_power)
  then have rn: "1 \<le> ?rn" "?rn \<le> 2 ^ j"
    using rnd_ge_1 [OF ok] rnd_le_power [OF ok, of j] n(1) j by auto
  have "1 * 1 \<le> ?rn * - ?l" "?rn * - ?l \<le> 2 ^ j * 8"
    using rn l by (intro mult_mono; simp)+
  then have num: "1 \<le> num" "num \<le> 2 ^ (j + 3)"
    using rnd_ge_1 [OF ok, of "?rn * - ?l"] rnd_le_power [OF ok, of "j + 3" "?rn * - ?l"] j
    by (simp_all add: num_def power_add)
  have "1 / 2 * (1 / 2) \<le> fp_log fp 2 * fp_log fp 2" "fp_log fp 2 * fp_log fp 2 \<le> 1 * 1"
    using l2 by (intro mult_mono; simp)+
  then have den: "1 / 4 \<le> den" "den \<le> 1"
    using rnd_le_power [OF ok, of 0] rnd_ge_quarter [OF ok] unfolding den_def by auto
  have "1 \<le> num / den" using num den by (simp add: le_divide_eq)
  moreover have "num / den \<le> 2 ^ (j + 3) / (1 / 4)" using num den by (intro frac_le) simp_all
  ultimately show "1 \<le> forEntries_bitCount fp n (fp_rnd fp (1 / 100))"
    "forEntries_bitCount fp n (fp_rnd fp (1 / 100)) \<le> 2 ^ (j + 5)"
    using rnd_ge_1 [OF ok, of "num / den"] rnd_le_power [OF ok, of "j + 5" "num / den"] j
    unfolding forEntries_bitCount_def num_def [symmetric] den_def [symmetric] by (simp_all add: power_add)
qed

text \<open>The bit count is between one and 64 bits for every entry.\<close>

lemma power_above: "1 \<le> n \<Longrightarrow> n \<le> 2 ^ 40 \<Longrightarrow> \<exists>j \<le> 40. n \<le> 2 ^ j \<and> 2 ^ j \<le> 2 * (n :: nat)"
proof -
  assume n: "1 \<le> n" "n \<le> 2 ^ 40"
  let ?P = "\<lambda>j. n \<le> 2 ^ j"
  define j where "j = (LEAST j. ?P j)"
  have P: "?P j" unfolding j_def using n(2) by (rule LeastI)
  have "j \<le> 40" unfolding j_def using n(2) by (rule Least_le)
  moreover have "2 ^ j \<le> 2 * n"
  proof (cases j)
    case (Suc i)
    then have "\<not> ?P i" unfolding j_def using not_less_Least [of i ?P] by simp
    then show ?thesis by (simp add: Suc)
  qed (use n in simp)
  ultimately show ?thesis using P by blast
qed

lemma forEntries_bitCount_range:
  assumes "fp_ok fp" "1 \<le> n" "n \<le> 2 ^ 40"
  shows "1 \<le> unat (bf_bitCount (forEntries fp n (fp_rnd fp (1 / 100))))
    \<and> unat (bf_bitCount (forEntries fp n (fp_rnd fp (1 / 100)))) \<le> 64 * n"
proof -
  define c where "c = \<lceil>forEntries_bitCount fp n (fp_rnd fp (1 / 100))\<rceil>"
  from power_above [OF assms(2,3)] obtain j where j: "j \<le> 40" "n \<le> 2 ^ j" "2 ^ j \<le> 2 * n" by blast
  note b = forEntries_bitCount_bounds [OF assms(1,2) j(2,1)]
  have c1: "1 \<le> c" unfolding c_def one_le_ceiling using b(1) by linarith
  have c2: "c \<le> 2 ^ (j + 5)" unfolding c_def by (rule ceiling_le) (use b(2) in simp)
  have "(2 :: int) ^ (j + 5) \<le> 2 ^ 45" by (rule power_increasing) (use j in simp_all)
  with c1 c2 have "c mod 2 ^ 64 = c" by (intro mod_pos_pos_trivial) simp_all
  then have u: "unat (of_int c :: u64) = nat c"
    unfolding unat_eq_nat_uint by (simp only: uint_word_of_int len_num1 len_bit0 len_bit1) simp
  have "nat c \<le> 2 ^ (j + 5)" using c2 by (simp add: nat_le_iff)
  also have "\<dots> \<le> 64 * n" using j(3) by (simp add: power_add)
  finally have "nat c \<le> 64 * n" .
  moreover have "1 \<le> nat c" using c1 by simp
  moreover have "bf_bitCount (forEntries fp n (fp_rnd fp (1 / 100))) = of_int c"
    by (simp add: forEntries_def BloomFilter_new_def Let_def c_def)
  ultimately show ?thesis using u by simp
qed

lemma forEntries_wf [inv_intros]:
  assumes "fp_ok fp" "1 \<le> n" "n \<le> 2 ^ 40"
  shows "bloom_wf (forEntries fp n (fp_rnd fp (1 / 100)))"
proof -
  define c where "c = (of_int \<lceil>forEntries_bitCount fp n (fp_rnd fp (1 / 100))\<rceil> :: u64)"
  have c: "1 \<le> unat c" "unat c \<le> 64 * n"
    using forEntries_bitCount_range [OF assms] by (simp_all add: c_def forEntries_def BloomFilter_new_def Let_def)
  then have "c \<noteq> 0" by auto
  moreover have "unat c + 63 < 2 ^ 64" using c(2) assms(3) by simp
  ultimately show ?thesis
    unfolding forEntries_def Let_def c_def [symmetric] by (rule new_wf)
qed

text \<open>
  C39: on a host whose arithmetic is as assumed, the filter of a table with between one and
  \<open>2 ^ 40\<close> records is well formed; in particular its bit count is not zero.
\<close>

theorem forEntries_usable:
  "fp_ok fp \<Longrightarrow> 1 \<le> n \<Longrightarrow> n \<le> 2 ^ 40 \<Longrightarrow> bloom_wf (forEntries fp n (fp_rnd fp (1 / 100)))"
  by (rule forEntries_wf)

definition fp_example :: fp where
  "fp_example = \<lparr>fp_rnd = (\<lambda>x. x), fp_log = (\<lambda>x. if x = 2 then 7 / 10 else - 5)\<rparr>"

lemma fp_example_ok: "fp_ok fp_example"
  by (simp add: fp_ok_def fp_example_def mono_def)

theorem forEntries_usable_witness: "bloom_wf (forEntries fp_example 3 (fp_rnd fp_example (1 / 100)))"
  by (rule forEntries_usable [OF fp_example_ok]) simp_all

end
