(* ===== verification/SSTable.thy ===== *)
theory SSTable
  imports MemTable BloomFilter
begin

text \<open>
  The sorted table files of \<open>src/SSTable.cpp\<close>: how a table is written, opened, searched and
  iterated. An \<open>std::ifstream\<close> is the bytes of the file it was opened on and the read position;
  files of this program are never changed while they are read.
\<close>

section \<open>Input streams\<close>

type_synonym ifstream = "string \<times> nat"

text \<open>\<open>input.read(buffer, n)\<close>: the bytes, or failure when fewer are left.\<close>

definition stream_read :: "nat \<Rightarrow> ifstream \<Rightarrow> (string \<times> ifstream) option" where
  "stream_read n input =
     (case input of (content, pos) \<Rightarrow>
        if pos + n \<le> length content then Some (substr content pos n, (content, pos + n)) else None)"

definition read_or :: "nat \<Rightarrow> string \<Rightarrow> ifstream \<Rightarrow> (string \<times> ifstream) result" where
  "read_or n message input =
     (case stream_read n input of None \<Rightarrow> Inl (runtime_error message) | Some x \<Rightarrow> Inr x)"

definition seekg :: "nat \<Rightarrow> ifstream \<Rightarrow> ifstream" where
  "seekg pos input = (fst input, pos)"

text \<open>The text of a path in an error message.\<close>

fun path_string :: "path \<Rightarrow> string" where
  "path_string [] = []"
| "path_string [c] = c"
| "path_string (c # cs) = c @ ''/'' @ path_string cs"

section \<open>The format\<close>

definition kIndexMetadataSize :: u64 where "kIndexMetadataSize = 4 + 8"
definition kFooterSize :: nat where "kFooterSize = 3 * 8"
definition kBlockSize :: u64 where "kBlockSize = 4 * 1024"

text \<open>The decimal literal \<open>0.01\<close> as a double.\<close>

definition kBloomFalsePositiveProbability :: "fp \<Rightarrow> real" where
  "kBloomFalsePositiveProbability fp = fp_rnd fp (1 / 100)"

record Footer =
  ft_recordsSize :: u64
  ft_bloomSize :: u64
  ft_indexSize :: u64

definition readFooter :: "ifstream \<Rightarrow> (Footer \<times> ifstream) result" where
  "readFooter input =
     (if length (fst input) < kFooterSize then Inl (runtime_error ''Corrupt SSTable footer'')
      else
        rbind (read_or kFooterSize ''Corrupt SSTable footer'' (seekg (length (fst input) - kFooterSize) input))
          (\<lambda>(buffer, input).
            Inr (\<lparr>ft_recordsSize = get_u64 (substr buffer 0 8), ft_bloomSize = get_u64 (substr buffer 8 8),
                  ft_indexSize = get_u64 (substr buffer 16 8)\<rparr>, input)))"

definition validateFooter :: "Footer \<Rightarrow> u64 \<Rightarrow> unit result" where
  "validateFooter footer fileSize =
     (if fileSize < of_nat kFooterSize then Inl (runtime_error ''Corrupt SSTable size'')
      else
        let remaining = fileSize - of_nat kFooterSize in
        if ft_recordsSize footer = 0 \<or> ft_recordsSize footer > remaining
        then Inl (runtime_error ''Corrupt SSTable records size'')
        else
          let remaining = remaining - ft_recordsSize footer in
          if ft_bloomSize footer > remaining then Inl (runtime_error ''Corrupt SSTable Bloom filter size'')
          else
            let remaining = remaining - ft_bloomSize footer in
            if ft_indexSize footer \<noteq> remaining then Inl (runtime_error ''Corrupt SSTable index size'')
            else Inr ())"

definition readRecord :: "ifstream \<Rightarrow> u64 \<Rightarrow> (Record \<times> ifstream) result" where
  "readRecord input availableBytes =
     (if availableBytes < of_nat kEncodedRecordHeaderSize + of_nat kEncodedRecordChecksumSize
      then Inl (runtime_error ''Corrupt SSTable record header'')
      else
        rbind (read_or kEncodedRecordHeaderSize ''Corrupt SSTable record header'' input) (\<lambda>(header, input).
        let type = get_u8 (substr header 0 1);
            sequence = get_u64 (substr header 1 8);
            keySize = get_u32 (substr header 9 4);
            valueSize = get_u32 (substr header 13 4)
        in if type > type_code Type_TOMBSTONE then Inl (runtime_error ''Corrupt SSTable record type'')
        else
        let payloadBytes = availableBytes - of_nat kEncodedRecordHeaderSize - of_nat kEncodedRecordChecksumSize
        in if ucast keySize > payloadBytes \<or> ucast valueSize > payloadBytes - ucast keySize
        then Inl (runtime_error ''Corrupt SSTable record length'')
        else
        rbind (read_or (unat keySize) ''Corrupt SSTable record key'' input) (\<lambda>(k, input).
        rbind (read_or (unat valueSize) ''Corrupt SSTable record value'' input) (\<lambda>(value, input).
        rbind (read_or 4 ''Corrupt SSTable record checksum'' input) (\<lambda>(storedChecksum, input).
        if crc32 (header @ k @ value) \<noteq> get_u32 storedChecksum
        then Inl (runtime_error ''Corrupt SSTable record checksum'')
        else Inr (\<lparr>rec_key = k, rec_seq = sequence, rec_type = type_of_code type, rec_value = value\<rparr>, input))))))"

definition readIndex :: "ifstream \<Rightarrow> u64 \<Rightarrow> (Index \<times> ifstream) result" where
  "readIndex input availableBytes =
     (if availableBytes < kIndexMetadataSize then Inl (runtime_error ''Corrupt SSTable index header'')
      else
        rbind (read_or 4 ''Corrupt SSTable index key size'' input) (\<lambda>(bytes, input).
        let keySize = get_u32 bytes in
        if ucast keySize > availableBytes - kIndexMetadataSize
        then Inl (runtime_error ''Corrupt SSTable index length'')
        else
        rbind (read_or (unat keySize) ''Corrupt SSTable index key'' input) (\<lambda>(k, input).
        rbind (read_or 8 ''Corrupt SSTable index offset'' input) (\<lambda>(bytes, input).
        Inr (\<lparr>idx_keySize = keySize, idx_key = k, idx_offset = get_u64 bytes\<rparr>, input)))))"

definition serializedIndexSize :: "Index \<Rightarrow> u64" where
  "serializedIndexSize index = kIndexMetadataSize + of_nat (length (idx_key index))"

definition writeIndex :: "Index \<Rightarrow> u64 fw" where
  "writeIndex index =
     io_bind (fw_write (put_u32 (idx_keySize index))) (\<lambda>_.
     io_bind (fw_write (idx_key index)) (\<lambda>_.
     io_bind (fw_write (put_u64 (idx_offset index))) (\<lambda>_.
     io_ret (serializedIndexSize index))))"

definition writeFooter :: "u64 \<Rightarrow> u64 \<Rightarrow> u64 \<Rightarrow> unit fw" where
  "writeFooter recordsSize bloomSize indexSize =
     io_bind (fw_write (put_u64 recordsSize)) (\<lambda>_.
     io_bind (fw_write (put_u64 bloomSize)) (\<lambda>_.
     fw_write (put_u64 indexSize)))"

section \<open>Writing a table\<close>

text \<open>The variables of the loop in \<open>addRecordToFile\<close>.\<close>

record table_builder =
  tb_bloomFilter :: BloomFilter
  tb_indices :: "Index list"
  tb_recordsSize :: u64
  tb_currentBlockSize :: u64
  tb_fileSize :: u64

text \<open>The start of a block: the first record and every record after a full block gets an index.\<close>

definition start_block :: "table_builder \<Rightarrow> Record \<Rightarrow> table_builder" where
  "start_block tb record =
     (if tb_recordsSize tb = 0 \<or> tb_currentBlockSize tb > kBlockSize
      then tb\<lparr>tb_currentBlockSize := 0,
              tb_indices := tb_indices tb @
                [\<lparr>idx_keySize = of_nat (length (rec_key record)), idx_key = rec_key record,
                  idx_offset = tb_recordsSize tb\<rparr>]\<rparr>
      else tb)"

definition add_bytes :: "table_builder \<Rightarrow> Record \<Rightarrow> u64 \<Rightarrow> table_builder option" where
  "add_bytes tb record bytesWritten =
     (case BloomFilter_add (tb_bloomFilter tb) (rec_key record) of
        None \<Rightarrow> None
      | Some bloomFilter \<Rightarrow>
          Some (tb\<lparr>tb_recordsSize := tb_recordsSize tb + bytesWritten,
                   tb_currentBlockSize := tb_currentBlockSize tb + bytesWritten,
                   tb_bloomFilter := bloomFilter,
                   tb_fileSize := tb_fileSize tb + bytesWritten\<rparr>))"

definition write_record :: "table_builder \<Rightarrow> Record \<Rightarrow> table_builder fw" where
  "write_record tb record =
     (let tb = start_block tb record in
      io_bind (FileWriter_add record) (\<lambda>bytesWritten. io_defined (add_bytes tb record bytesWritten)))"

definition write_table :: "fp \<Rightarrow> Record list \<Rightarrow> u64 fw" where
  "write_table fp records =
     io_bind
       (io_fold write_record
         \<lparr>tb_bloomFilter = forEntries fp (length records) (kBloomFalsePositiveProbability fp),
          tb_indices = [], tb_recordsSize = 0, tb_currentBlockSize = 0, tb_fileSize = 0\<rparr>
         records)
     (\<lambda>tb. let bloomBytes = Serialize (tb_bloomFilter tb) in
     io_bind (fw_write bloomBytes) (\<lambda>_.
     let fileSize = tb_fileSize tb + of_nat (length bloomBytes) in
     io_bind (io_fold (\<lambda>indexSize index. io_bind (writeIndex index) (\<lambda>n. io_ret (indexSize + n)))
                0 (tb_indices tb)) (\<lambda>indexSize.
     let fileSize = fileSize + indexSize in
     io_bind (writeFooter (tb_recordsSize tb) (of_nat (length bloomBytes)) indexSize) (\<lambda>_.
     io_ret (fileSize + of_nat kFooterSize)))))"

definition addRecordToFile :: "fp \<Rightarrow> Record list \<Rightarrow> path \<Rightarrow> u64 io" where
  "addRecordToFile fp records p =
     (if records = [] then io_throw (runtime_error ''Records cannot be empty'')
      else
        with_FileWriter p
          (io_bind (write_table fp records) (\<lambda>fileSize.
           io_bind FileWriter_finish (\<lambda>_. io_ret fileSize))))"

definition build :: "fp \<Rightarrow> MemTable \<Rightarrow> path \<Rightarrow> (string \<times> string) io" where
  "build fp memTable p =
     io_bind (fs_throwing (path_exists p)) (\<lambda>found.
     if found then io_throw (runtime_error ''SSTable file already exists!'')
     else
       let records = map (\<lambda>(k, entry). \<lparr>rec_key = key_key k, rec_seq = key_seq k,
             rec_type = ent_type entry, rec_value = ent_value entry\<rparr>) (mt_table memTable)
       in io_bind (addRecordToFile fp records p) (\<lambda>_.
          io_ret (rec_key (hd records), rec_key (last records))))"

section \<open>Opening and searching a table\<close>

record SSTable =
  st_path :: path
  st_recordsSize :: u64
  st_bloomSize :: u64
  st_indexSize :: u64
  st_bloomFilter :: BloomFilter
  st_indices :: "Index list"

lemma stream_readD:
  "stream_read n input = Some (s, input') \<Longrightarrow>
   input' = (fst input, snd input + n) \<and> snd input + n \<le> length (fst input) \<and> s = substr (fst input) (snd input) n"
  by (auto simp: stream_read_def split: prod.splits if_splits)

lemma read_or_Inr:
  "read_or n message input = Inr (s, input') \<Longrightarrow>
   input' = (fst input, snd input + n) \<and> snd input + n \<le> length (fst input) \<and> s = substr (fst input) (snd input) n"
  by (auto simp: read_or_def split: option.splits dest: stream_readD)

lemma readRecord_advances:
  "readRecord input n = Inr (r, input') \<Longrightarrow>
   fst input' = fst input \<and> snd input < snd input' \<and> snd input' \<le> length (fst input)"
  by (auto simp: readRecord_def Let_def kEncodedRecordHeaderSize_def split: if_splits dest!: read_or_Inr)

lemma readIndex_advances:
  "readIndex input n = Inr (ix, input') \<Longrightarrow>
   fst input' = fst input \<and> snd input < snd input' \<and> snd input' \<le> length (fst input)"
  by (auto simp: readIndex_def Let_def split: if_splits dest!: read_or_Inr)

text \<open>The loop of \<open>readSparseIndex\<close>.\<close>

function readSparseIndex_loop ::
  "u64 \<Rightarrow> u64 \<Rightarrow> ifstream \<Rightarrow> Index list \<Rightarrow> u64 \<Rightarrow> Index list result" where
  "readSparseIndex_loop recordsSize indexSize input indices bytesRead =
     (if \<not> bytesRead < indexSize then Inr indices
      else
        rbind (readIndex input (indexSize - bytesRead)) (\<lambda>(index, input).
        if idx_offset index \<ge> recordsSize then Inl (runtime_error ''Corrupt SSTable index offset'')
        else if indices \<noteq> [] \<and> (idx_offset index \<le> idx_offset (last indices) \<or> idx_key index < idx_key (last indices))
        then Inl (runtime_error ''Corrupt SSTable index order'')
        else readSparseIndex_loop recordsSize indexSize input (indices @ [index])
               (bytesRead + serializedIndexSize index)))"
  by pat_completeness auto
termination
  by (relation "measure (\<lambda>(_, _, input, _, _). length (fst input) - snd input)")
    (auto dest: readIndex_advances)

declare readSparseIndex_loop.simps [simp del]

definition readSparseIndex :: "path \<Rightarrow> u64 \<Rightarrow> u64 \<Rightarrow> u64 \<Rightarrow> Index list io" where
  "readSparseIndex p recordsSize bloomSize indexSize =
     io_bind (io_act (sys_open_read p)) (\<lambda>input.
     case input of
       None \<Rightarrow> io_throw (runtime_error (''Could not open file: '' @ path_string p))
     | Some content \<Rightarrow>
         io_bind (io_lift (readSparseIndex_loop recordsSize indexSize
           (content, unat (recordsSize + bloomSize)) [] 0)) (\<lambda>indices.
         if indices \<noteq> [] \<and> idx_offset (hd indices) \<noteq> 0
         then io_throw (runtime_error ''Corrupt SSTable first index offset'')
         else io_ret indices))"

definition is_regular_file :: "path \<Rightarrow> world \<Rightarrow> bool" where
  "is_regular_file p w \<longleftrightarrow> content_of w p \<noteq> None"

definition file_size :: "path \<Rightarrow> world \<Rightarrow> u64" where
  "file_size p w = of_nat (case content_of w p of None \<Rightarrow> 0 | Some c \<Rightarrow> length c)"

text \<open>\<open>!exists(path) || !is_regular_file(path)\<close>\<close>

definition check_regular :: "path \<Rightarrow> string \<Rightarrow> unit io" where
  "check_regular p message =
     io_bind (fs_throwing (path_exists p)) (\<lambda>found.
     if \<not> found then io_throw (runtime_error message)
     else io_bind (fs_throwing (is_regular_file p)) (\<lambda>regular.
       if \<not> regular then io_throw (runtime_error message) else io_ret ()))"

text \<open>
  A position inside the validated file is always reached, so the check of the stream after
  \<open>seekg(recordsSize_)\<close> has no branch of its own.
\<close>

definition SSTable_new :: "path \<Rightarrow> SSTable io" where
  "SSTable_new p =
     io_bind (check_regular p (''SSTable file is not a regular file: '' @ path_string p)) (\<lambda>_.
     io_bind (io_act (sys_open_read p)) (\<lambda>input.
     case input of
       None \<Rightarrow> io_throw (runtime_error (''Could not open file: '' @ path_string p))
     | Some content \<Rightarrow>
         io_bind (io_lift (readFooter (content, 0))) (\<lambda>(footer, input).
         io_bind (fs_throwing (file_size p)) (\<lambda>fileSize.
         io_bind (io_lift (validateFooter footer fileSize)) (\<lambda>_.
         let input = seekg (unat (ft_recordsSize footer)) input in
         io_bind (io_lift (read_or (unat (ft_bloomSize footer)) ''Corrupt SSTable Bloom filter'' input))
           (\<lambda>(bloomBytes, input).
         io_bind (io_lift (fromBytes bloomBytes)) (\<lambda>bloomFilter.
         io_bind (readSparseIndex p (ft_recordsSize footer) (ft_bloomSize footer) (ft_indexSize footer)) (\<lambda>indices.
         if indices = [] then io_throw (runtime_error ''Corrupt SSTable sparse index'')
         else
           io_ret \<lparr>st_path = p, st_recordsSize = ft_recordsSize footer, st_bloomSize = ft_bloomSize footer,
                   st_indexSize = ft_indexSize footer, st_bloomFilter = bloomFilter, st_indices = indices\<rparr>))))))))"

text \<open>
  \<open>std::lower_bound\<close> on the sparse index, the step back to the block that may hold the key's newest
  version, and the search for the first block that starts behind the key.
\<close>

definition getBlock :: "SSTable \<Rightarrow> string \<Rightarrow> (Index \<times> u64) option" where
  "getBlock st k =
     (let indices = st_indices st in
      if indices = [] then None
      else
        let position = partition_point (\<lambda>index. idx_key index < k) indices in
        if position = 0 \<and> idx_key (indices ! position) > k then None
        else
          let position = (if position = length indices \<or> position \<noteq> 0 \<and> idx_key (indices ! position) \<ge> k
                          then position - 1 else position);
              nextBlock = position + length (takeWhile (\<lambda>index. idx_key index \<le> k) (drop position indices));
              blockEnd = (if nextBlock = length indices then st_recordsSize st
                          else idx_offset (indices ! nextBlock))
          in Some (indices ! position, blockEnd))"

function search_block ::
  "ifstream \<Rightarrow> u64 \<Rightarrow> u64 \<Rightarrow> string \<Rightarrow> u64 \<Rightarrow> string \<Rightarrow> (Result \<times> string) result" where
  "search_block input currentOffset blockEnd k readSeq value =
     (if \<not> currentOffset < blockEnd then Inr (Result_ABSENT, value)
      else
        rbind (readRecord input (blockEnd - currentOffset)) (\<lambda>(record, input).
        let currentOffset = currentOffset + encodedRecordSize record in
        if rec_key record > k then Inr (Result_ABSENT, value)
        else if rec_key record < k \<or> rec_seq record > readSeq
        then search_block input currentOffset blockEnd k readSeq value
        else if rec_type record \<noteq> Type_VALUE then Inr (Result_TOMBSTONE, value)
        else Inr (Result_VALUE, rec_value record)))"
  by pat_completeness auto
termination
  by (relation "measure (\<lambda>(input, _, _, _, _, _). length (fst input) - snd input)")
    (auto dest: readRecord_advances)

declare search_block.simps [simp del]

definition SSTable_get :: "SSTable \<Rightarrow> string \<Rightarrow> u64 \<Rightarrow> string \<Rightarrow> (Result \<times> string) io" where
  "SSTable_get st k readSeq value =
     io_bind (fs_throwing (path_exists (st_path st))) (\<lambda>found.
     if \<not> found then io_throw (runtime_error (''SSTable file disappeared: '' @ path_string (st_path st)))
     else
       io_bind (io_defined (mightContain (st_bloomFilter st) k)) (\<lambda>possible.
       if \<not> possible then io_ret (Result_ABSENT, value)
       else
         io_bind (io_act (sys_open_read (st_path st))) (\<lambda>input.
         case input of
           None \<Rightarrow> io_throw (runtime_error (''Could not open file: '' @ path_string (st_path st)))
         | Some content \<Rightarrow>
             (case getBlock st k of
                None \<Rightarrow> io_ret (Result_ABSENT, value)
              | Some (firstIndex, blockEnd) \<Rightarrow>
                  io_lift (search_block (content, unat (idx_offset firstIndex)) (idx_offset firstIndex)
                    blockEnd k readSeq value)))))"

section \<open>The iterator\<close>

record SSTableIterator =
  si_currentRecord :: "Record option"
  si_input :: ifstream
  si_recordsSize :: u64
  si_currentPosition :: u64

definition loadNextRecord :: "SSTableIterator \<Rightarrow> SSTableIterator result" where
  "loadNextRecord it =
     (if si_currentPosition it \<ge> si_recordsSize it then Inr (it\<lparr>si_currentRecord := None\<rparr>)
      else
        rbind (readRecord (si_input it) (si_recordsSize it - si_currentPosition it)) (\<lambda>(record, input).
        Inr (it\<lparr>si_currentRecord := Some record, si_input := input,
                si_currentPosition := si_currentPosition it + encodedRecordSize record\<rparr>)))"

definition SSTableIterator_new :: "path \<Rightarrow> SSTableIterator io" where
  "SSTableIterator_new p =
     io_bind (check_regular p ''Invalid path'') (\<lambda>_.
     io_bind (io_act (sys_open_read p)) (\<lambda>input.
     case input of
       None \<Rightarrow> io_throw (runtime_error ''Failed to open SSTable file!'')
     | Some content \<Rightarrow>
         io_bind (io_lift (readFooter (content, 0))) (\<lambda>(footer, input).
         io_bind (fs_throwing (file_size p)) (\<lambda>fileSize.
         io_bind (io_lift (validateFooter footer fileSize)) (\<lambda>_.
         io_lift (loadNextRecord \<lparr>si_currentRecord = None, si_input = seekg 0 input,
           si_recordsSize = ft_recordsSize footer, si_currentPosition = 0\<rparr>))))))"

definition SSTableIterator_valid :: "SSTableIterator \<Rightarrow> bool" where
  "SSTableIterator_valid it \<longleftrightarrow> si_currentRecord it \<noteq> None"

definition SSTableIterator_current :: "SSTableIterator \<Rightarrow> Record" where
  "SSTableIterator_current it = the (si_currentRecord it)"

definition SSTableIterator_advance :: "SSTableIterator \<Rightarrow> SSTableIterator result" where
  "SSTableIterator_advance it = loadNextRecord it"

section \<open>Leftover temporary files\<close>

text \<open>\<open>path.extension()\<close> of a file name: from its last dot, unless that is its first character.\<close>

definition extension :: "string \<Rightarrow> string" where
  "extension filename =
     (let stem = takeWhile (\<lambda>c. c \<noteq> CHR ''.'') (rev filename)
      in if length stem + 1 \<ge> length filename \<or> filename = ''..'' then []
         else CHR ''.'' # rev stem)"

text \<open>\<open>std::filesystem::remove\<close>: a file that is not there is no error.\<close>

definition fs_remove :: "path \<Rightarrow> world \<Rightarrow> int \<times> world" where
  "fs_remove p w = (case sys_remove p w of (e, w') \<Rightarrow> (if e = ENOENT then 0 else e, w'))"

text \<open>
  The loop over the directory entries. An error of \<open>is_regular_file\<close> ends it at the next entry.
  The text of an error code is given by its number.
\<close>

fun cleanupOrphanedTemps_loop :: "path list \<Rightarrow> unit io" where
  "cleanupOrphanedTemps_loop [] = io_ret ()"
| "cleanupOrphanedTemps_loop (p # ps) =
     io_bind (io_act (fs_query (is_regular_file p))) (\<lambda>regular.
     case regular of
       Inl _ \<Rightarrow> io_ret ()
     | Inr False \<Rightarrow> cleanupOrphanedTemps_loop ps
     | Inr True \<Rightarrow>
         if extension (last p) \<noteq> ''.tmp'' then cleanupOrphanedTemps_loop ps
         else
           io_bind (io_act (fs_remove p)) (\<lambda>err.
           if err \<noteq> 0
           then io_throw (runtime_error (''remove failed: '' @ path_string p @ '', reason: '' @ to_string (nat err)))
           else cleanupOrphanedTemps_loop ps))"

definition cleanupOrphanedTemps :: "path \<Rightarrow> unit io" where
  "cleanupOrphanedTemps directory =
     io_bind (io_act (fs_query (path_exists directory))) (\<lambda>found.
     if found \<noteq> Inr True then io_ret ()
     else
       io_bind (io_act (fs_query (is_dir directory))) (\<lambda>isDirectory.
       if isDirectory \<noteq> Inr True then io_ret ()
       else
         io_bind (io_act (fs_query (dir_entries directory))) (\<lambda>entries.
         case entries of
           Inl _ \<Rightarrow> io_ret ()
         | Inr ps \<Rightarrow> cleanupOrphanedTemps_loop ps)))"

section \<open>The bytes of a table\<close>

definition encodable :: "Record \<Rightarrow> bool" where
  "encodable r \<longleftrightarrow> length (rec_key r) \<le> 0xFFFFFFFF \<and> length (rec_value r) \<le> 0xFFFFFFFF"

definition records_bytes :: "Record list \<Rightarrow> string" where
  "records_bytes rs = concat (map record_bytes rs)"

definition index_bytes :: "Index \<Rightarrow> string" where
  "index_bytes ix = put_u32 (idx_keySize ix) @ idx_key ix @ put_u64 (idx_offset ix)"

definition empty_builder :: "fp \<Rightarrow> nat \<Rightarrow> table_builder" where
  "empty_builder fp n =
     \<lparr>tb_bloomFilter = forEntries fp n (kBloomFalsePositiveProbability fp),
      tb_indices = [], tb_recordsSize = 0, tb_currentBlockSize = 0, tb_fileSize = 0\<rparr>"

text \<open>What a record adds to the builder; its filter is well formed, so the addition is defined.\<close>

definition add_record :: "table_builder \<Rightarrow> Record \<Rightarrow> table_builder" where
  "add_record tb r = the (add_bytes (start_block tb r) r (encodedRecordSize r))"

definition bloom_add :: "BloomFilter \<Rightarrow> string \<Rightarrow> BloomFilter" where
  "bloom_add bf k = the (BloomFilter_add bf k)"

lemma bloom_add:
  assumes "bloom_wf bf"
  shows "BloomFilter_add bf k = Some (bloom_add bf k)" "bloom_wf (bloom_add bf k)"
  by (rule add_defined [OF assms, of k], simp add: bloom_add_def)+

lemma add_keys_fold: "bloom_wf bf \<Longrightarrow> add_keys bf ks = Some (foldl bloom_add bf ks)"
  by (induction ks arbitrary: bf) (simp_all add: bloom_add)

lemma add_record:
  assumes "bloom_wf (tb_bloomFilter tb)"
  shows "add_bytes (start_block tb r) r (encodedRecordSize r) = Some (add_record tb r)"
    and "tb_bloomFilter (add_record tb r) = bloom_add (tb_bloomFilter tb) (rec_key r)"
    and "bloom_wf (tb_bloomFilter (add_record tb r))"
    and "tb_recordsSize (add_record tb r) = tb_recordsSize tb + encodedRecordSize r"
    and "tb_fileSize (add_record tb r) = tb_fileSize tb + encodedRecordSize r"
    and "tb_indices (add_record tb r) = tb_indices (start_block tb r)"
proof -
  have "tb_bloomFilter (start_block tb r) = tb_bloomFilter tb" "tb_recordsSize (start_block tb r) = tb_recordsSize tb"
    "tb_fileSize (start_block tb r) = tb_fileSize tb" by (simp_all add: start_block_def)
  then show "add_bytes (start_block tb r) r (encodedRecordSize r) = Some (add_record tb r)"
    "tb_bloomFilter (add_record tb r) = bloom_add (tb_bloomFilter tb) (rec_key r)"
    "bloom_wf (tb_bloomFilter (add_record tb r))"
    "tb_recordsSize (add_record tb r) = tb_recordsSize tb + encodedRecordSize r"
    "tb_fileSize (add_record tb r) = tb_fileSize tb + encodedRecordSize r"
    "tb_indices (add_record tb r) = tb_indices (start_block tb r)"
    using bloom_add [OF assms, of "rec_key r"] by (simp_all add: add_record_def add_bytes_def)
qed

abbreviation filter_fits :: "fp \<Rightarrow> nat \<Rightarrow> bool" where
  "filter_fits fp n \<equiv> bloom_wf (forEntries fp n (kBloomFalsePositiveProbability fp))"

definition built :: "fp \<Rightarrow> Record list \<Rightarrow> table_builder" where
  "built fp rs = foldl add_record (empty_builder fp (length rs)) rs"

definition sst_bloom :: "fp \<Rightarrow> Record list \<Rightarrow> BloomFilter" where
  "sst_bloom fp rs = tb_bloomFilter (built fp rs)"

definition sst_indices :: "fp \<Rightarrow> Record list \<Rightarrow> Index list" where
  "sst_indices fp rs = tb_indices (built fp rs)"

definition sst_footer :: "fp \<Rightarrow> Record list \<Rightarrow> Footer" where
  "sst_footer fp rs =
     \<lparr>ft_recordsSize = of_nat (length (records_bytes rs)),
      ft_bloomSize = of_nat (length (Serialize (sst_bloom fp rs))),
      ft_indexSize = of_nat (length (concat (map index_bytes (sst_indices fp rs))))\<rparr>"

definition footer_bytes :: "Footer \<Rightarrow> string" where
  "footer_bytes ft = put_u64 (ft_recordsSize ft) @ put_u64 (ft_bloomSize ft) @ put_u64 (ft_indexSize ft)"

definition sst_image :: "fp \<Rightarrow> Record list \<Rightarrow> string" where
  "sst_image fp rs =
     records_bytes rs @ Serialize (sst_bloom fp rs) @ concat (map index_bytes (sst_indices fp rs))
     @ footer_bytes (sst_footer fp rs)"

lemma encode_ok:
  "encodable r \<Longrightarrow> \<exists>h. length h = 17 \<and> encodeSSTableRecord r = Inr (h @ rec_key r @ rec_value r)
     \<and> substr h 0 1 = put_u8 (type_code (rec_type r)) \<and> substr h 1 8 = put_u64 (rec_seq r)
     \<and> substr h 9 4 = put_u32 (of_nat (length (rec_key r)))
     \<and> substr h 13 4 = put_u32 (of_nat (length (rec_value r)))"
  by (rule exI [of _ "put_u8 (type_code (rec_type r)) @ put_u64 (rec_seq r)
      @ put_u32 (of_nat (length (rec_key r))) @ put_u32 (of_nat (length (rec_value r)))"])
    (simp add: encodable_def encodeSSTableRecord_def substr_def)

lemma length_record_bytes [codec_simps]:
  "encodable r \<Longrightarrow> length (record_bytes r) = 21 + length (rec_key r) + length (rec_value r)"
  using encode_ok [of r] by (auto simp: record_bytes_def)

lemma encodedRecordSize_bytes:
  "encodable r \<Longrightarrow> encodedRecordSize r = of_nat (length (record_bytes r))"
  by (simp add: encodedRecordSize_def length_record_bytes kEncodedRecordHeaderSize_def
      kEncodedRecordChecksumSize_def)

lemma records_bytes_simps [simp]:
  "records_bytes [] = []" "records_bytes (r # rs) = record_bytes r @ records_bytes rs"
  "records_bytes (as @ bs) = records_bytes as @ records_bytes bs"
  by (simp_all add: records_bytes_def)

lemma records_bytes_pos: "\<forall>r \<in> set rs. encodable r \<Longrightarrow> rs \<noteq> [] \<Longrightarrow> 21 \<le> length (records_bytes rs)"
  by (cases rs) (simp_all add: length_record_bytes)

section \<open>Reading records back\<close>

lemma read_or_at:
  "at_pos content pos (x @ s) \<Longrightarrow> length x = n \<Longrightarrow>
   read_or n message (content, pos) = Inr (x, (content, pos + n))"
  unfolding at_pos_iff by (auto simp: read_or_def stream_read_def substr_def)

text \<open>The bytes of a record with an arbitrary checksum field.\<close>

lemma readRecord_header:
  assumes h: "length h = 17" "substr h 0 1 = put_u8 (type_code t)" "substr h 1 8 = put_u64 q"
      "substr h 9 4 = put_u32 (of_nat (length k))" "substr h 13 4 = put_u32 (of_nat (length v))"
    and len: "length k \<le> 0xFFFFFFFF" "length v \<le> 0xFFFFFFFF" "length crc = 4"
    and a: "at_pos content pos (h @ k @ v @ crc @ s)"
    and n: "21 + length k + length v \<le> unat n"
  shows "readRecord (content, pos) n =
    (if crc32 (h @ k @ v) \<noteq> get_u32 crc then Inl (runtime_error ''Corrupt SSTable record checksum'')
     else Inr (\<lparr>rec_key = k, rec_seq = q, rec_type = t, rec_value = v\<rparr>,
               (content, pos + (21 + length k + length v))))"
proof -
  note a1 = at_pos_skip [OF a]
  note a2 = at_pos_skip [OF a1]
  note a3 = at_pos_skip [OF a2]
  have kv: "unat (of_nat (length k) :: u32) = length k" "unat (of_nat (length v) :: u32) = length v"
    using len by (simp_all add: unat_of_nat32)
  have n21: "\<not> n < 21" using n by (simp add: word_less_nat_alt)
  have pay: "unat (n - 17 - 4) = unat n - 21"
  proof -
    have "n - 17 - 4 = n - 21" by simp
    moreover have "unat (n - 21) = unat n - 21"
      using n by (subst unat_sub) (simp_all add: word_le_nat_alt)
    ultimately show ?thesis by simp
  qed
  have fit: "\<not> n - 17 - 4 < ucast (of_nat (length k) :: u32)"
    using n kv pay by (simp add: word_less_nat_alt)
  moreover have "\<not> n - 17 - 4 - ucast (of_nat (length k) :: u32) < ucast (of_nat (length v) :: u32)"
  proof -
    have "unat (n - 17 - 4 - ucast (of_nat (length k) :: u32)) = unat n - 21 - length k"
      using fit kv pay by (subst unat_sub) simp_all
    then show ?thesis using n kv by (simp add: word_less_nat_alt)
  qed
  ultimately show ?thesis
    using read_or_at [OF a h(1)] read_or_at [OF a1] read_or_at [OF a2] read_or_at [OF a3 len(3)] kv h n21
    by (simp add: readRecord_def kEncodedRecordHeaderSize_def kEncodedRecordChecksumSize_def Let_def
        not_less ac_simps)
qed

lemma readRecord_at:
  assumes "at_pos content pos (record_bytes r @ s)" "encodable r" "length (record_bytes r) \<le> unat n"
  shows "readRecord (content, pos) n = Inr (r, (content, pos + length (record_bytes r)))"
proof -
  obtain h where h: "length h = 17" "encodeSSTableRecord r = Inr (h @ rec_key r @ rec_value r)"
      "substr h 0 1 = put_u8 (type_code (rec_type r))" "substr h 1 8 = put_u64 (rec_seq r)"
      "substr h 9 4 = put_u32 (of_nat (length (rec_key r)))"
      "substr h 13 4 = put_u32 (of_nat (length (rec_value r)))"
    using encode_ok [OF assms(2)] by blast
  let ?crc = "put_u32 (crc32 (h @ rec_key r @ rec_value r))"
  have a: "at_pos content pos (h @ rec_key r @ rec_value r @ ?crc @ s)"
    using assms(1) h(2) by (simp add: record_bytes_def)
  show ?thesis
    using readRecord_header [OF h(1,3-6) _ _ _ a] assms(2,3) by (simp add: encodable_def length_record_bytes)
qed

lemma search_block_finds:
  assumes "at_pos content pos (records_bytes mid @ s)" "\<forall>r \<in> set mid. encodable r"
    and "pos + length (records_bytes mid) < 2 ^ 64" "sorted_records mid"
  shows "search_block (content, pos) (of_nat pos) (of_nat (pos + length (records_bytes mid))) k q v
    = Inr (read_outcome (find (eligible k q) mid) v)"
  using assms
proof (induction mid arbitrary: pos)
  case Nil
  then show ?case by (subst search_block.simps) (simp add: read_outcome_def)
next
  case (Cons r mid)
  let ?n = "length (record_bytes r)" and ?e = "pos + length (records_bytes (r # mid))"
  have r: "encodable r" and a: "at_pos content pos (record_bytes r @ records_bytes mid @ s)"
    using Cons.prems by simp_all
  have lt: "(of_nat pos :: u64) < of_nat ?e"
    using Cons.prems(3) length_record_bytes [OF r] by (intro of_nat_less64) simp_all
  have "unat (of_nat ?e - of_nat pos :: u64) = length (records_bytes (r # mid))"
    using Cons.prems(3) unat_of_nat64 [of "length (records_bytes (r # mid))"] by simp
  then have rd: "readRecord (content, pos) (of_nat ?e - of_nat pos) = Inr (r, (content, pos + ?n))"
    by (intro readRecord_at [OF a r]) simp
  have off: "of_nat pos + encodedRecordSize r = of_nat (pos + ?n)"
    by (simp add: encodedRecordSize_bytes [OF r])
  have IH: "search_block (content, pos + ?n) (of_nat (pos + ?n)) (of_nat ?e) k q v
      = Inr (read_outcome (find (eligible k q) mid) v)"
    using Cons.IH [OF at_pos_skip [OF a]] Cons.prems by (simp add: add.assoc)
  have step: "search_block (content, pos) (of_nat pos) (of_nat ?e) k q v =
     (if rec_key r > k then Inr (Result_ABSENT, v)
      else if rec_key r < k \<or> rec_seq r > q then Inr (read_outcome (find (eligible k q) mid) v)
      else if rec_type r \<noteq> Type_VALUE then Inr (Result_TOMBSTONE, v)
      else Inr (Result_VALUE, rec_value r))"
    using lt rd off IH by (subst search_block.simps) (simp add: Let_def)
  show ?case
  proof (cases "rec_key r > k")
    case True
    then have "\<forall>x \<in> set (r # mid). k < rec_key x"
      using Cons.prems(4) by (auto simp: rkey_less intro: order_less_trans)
    then have "find (eligible k q) (r # mid) = None"
      by (auto simp: find_None_iff eligible_def)
    with True show ?thesis unfolding step by (simp add: read_outcome_def)
  next
    case False
    then have "eligible k q r \<longleftrightarrow> \<not> (rec_key r < k \<or> rec_seq r > q)"
      by (auto simp: eligible_def not_less)
    with False show ?thesis unfolding step
      by (cases "rec_type r") (auto simp: read_outcome_def)
  qed
qed

section \<open>The sparse index\<close>

text \<open>The index entry that points to the record at position \<open>n\<close>.\<close>

definition index_at :: "Record list \<Rightarrow> nat \<Rightarrow> Index" where
  "index_at rs n =
     \<lparr>idx_keySize = of_nat (length (rec_key (rs ! n))), idx_key = rec_key (rs ! n),
      idx_offset = of_nat (length (records_bytes (take n rs)))\<rparr>"

text \<open>The index points to a strictly increasing sequence of records that starts with the first.\<close>

definition index_for :: "Record list \<Rightarrow> Index list \<Rightarrow> nat list \<Rightarrow> bool" where
  "index_for rs ixs ns \<longleftrightarrow>
     sorted_wrt (<) ns \<and> (\<forall>n \<in> set ns. n < length rs) \<and> (rs \<noteq> [] \<longrightarrow> ns \<noteq> [] \<and> hd ns = 0)
     \<and> ixs = map (index_at rs) ns"

lemma index_at_append: "n < length rs \<Longrightarrow> index_at (rs @ [r]) n = index_at rs n"
  by (simp add: index_at_def nth_append)

lemma built_fields:
  assumes "\<forall>r \<in> set rs. encodable r" "filter_fits fp n"
  shows "tb_recordsSize (foldl add_record (empty_builder fp n) rs) = of_nat (length (records_bytes rs))"
    and "tb_fileSize (foldl add_record (empty_builder fp n) rs) = of_nat (length (records_bytes rs))"
    and "tb_bloomFilter (foldl add_record (empty_builder fp n) rs)
      = foldl bloom_add (forEntries fp n (kBloomFalsePositiveProbability fp)) (map rec_key rs)"
    and "bloom_wf (tb_bloomFilter (foldl add_record (empty_builder fp n) rs))"
  using assms
  by (induction rs rule: rev_induct)
    (simp_all add: empty_builder_def add_record bloom_add encodedRecordSize_bytes)

lemma built_filter:
  assumes "\<forall>r \<in> set rs. encodable r" "filter_fits fp (length rs)"
  shows "add_keys (forEntries fp (length rs) (kBloomFalsePositiveProbability fp)) (map rec_key rs) = Some (sst_bloom fp rs)"
  using built_fields(3) [OF assms] add_keys_fold [OF assms(2)] by (simp add: sst_bloom_def built_def)

lemma built_indices:
  assumes "\<forall>r \<in> set rs. encodable r" "length (records_bytes rs) < 2 ^ 64" "filter_fits fp n"
  shows "\<exists>ns. index_for rs (tb_indices (foldl add_record (empty_builder fp n) rs)) ns"
  using assms
proof (induction rs rule: rev_induct)
  case Nil
  show ?case by (rule exI [of _ "[]"]) (simp add: index_for_def empty_builder_def)
next
  case (snoc r rs)
  define tb where "tb = foldl add_record (empty_builder fp n) rs"
  from snoc obtain ns where ns: "index_for rs (tb_indices tb) ns" by (auto simp: tb_def)
  have size: "tb_recordsSize tb = of_nat (length (records_bytes rs))"
    using snoc.prems by (simp add: tb_def built_fields)
  have old: "map (index_at (rs @ [r])) ns = tb_indices tb"
    using ns by (simp add: index_for_def index_at_append)
  have fin: "tb_indices (foldl add_record (empty_builder fp n) (rs @ [r])) = tb_indices (start_block tb r)"
    using add_record(6) [OF built_fields(4) [of rs fp n]] snoc.prems by (simp add: tb_def)
  show ?case
  proof (cases "tb_recordsSize tb = 0 \<or> tb_currentBlockSize tb > kBlockSize")
    case True
    have "tb_indices (start_block tb r) = map (index_at (rs @ [r])) (ns @ [length rs])"
      using True size old by (simp add: start_block_def index_at_def)
    moreover have "index_for (rs @ [r]) (map (index_at (rs @ [r])) (ns @ [length rs])) (ns @ [length rs])"
      using ns by (auto simp: index_for_def sorted_wrt_append hd_append less_SucI)
    ultimately show ?thesis using fin by metis
  next
    case False
    have "rs \<noteq> []" using False size by auto
    with ns old have "index_for (rs @ [r]) (tb_indices tb) ns"
      by (auto simp: index_for_def less_SucI)
    with False fin show ?thesis by (auto simp: start_block_def)
  qed
qed

lemma sorted_records_keys:
  "sorted_records rs \<Longrightarrow> i \<le> j \<Longrightarrow> j < length rs \<Longrightarrow> rec_key (rs ! i) \<le> rec_key (rs ! j)"
proof (cases "i = j")
  case False
  assume "sorted_records rs" "i \<le> j" "j < length rs"
  with False have "rkey (rs ! i) < rkey (rs ! j)"
    by (simp add: sorted_records_def sorted_wrt_iff_nth_less)
  then show ?thesis by (auto simp: rkey_less)
qed simp

text \<open>
  The block search delimits a range of records that holds every version of the key: what comes
  before has smaller keys, what comes after has larger ones.
\<close>

lemma block_end:
  fixes k :: string
  assumes ix: "index_for rs (st_indices st) ns" and "position < length ns"
    and rs: "sorted_records rs" "st_recordsSize st = of_nat (length (records_bytes rs))"
  defines "nextBlock \<equiv> position + length (takeWhile (\<lambda>index. idx_key index \<le> k) (drop position (st_indices st)))"
  shows "\<exists>b. ns ! position \<le> b \<and> b \<le> length rs
    \<and> (if nextBlock = length (st_indices st) then st_recordsSize st else idx_offset (st_indices st ! nextBlock))
        = of_nat (length (records_bytes (take b rs)))
    \<and> (\<forall>i. b \<le> i \<longrightarrow> i < length rs \<longrightarrow> k < rec_key (rs ! i))"
proof -
  let ?ixs = "st_indices st"
  have len: "length ?ixs = length ns" and lt: "\<And>n. n \<in> set ns \<Longrightarrow> n < length rs"
    and nth: "\<And>i. i < length ns \<Longrightarrow> ?ixs ! i = index_at rs (ns ! i)" and sorted: "sorted_wrt (<) ns"
    using ix by (auto simp: index_for_def)
  show ?thesis
  proof (cases "nextBlock = length ?ixs")
    case True
    with assms(2) lt rs(2) show ?thesis
      by (intro exI [of _ "length rs"]) (auto simp: less_imp_le)
  next
    case False
    then have nb: "nextBlock < length ns"
      using length_takeWhile_le [of "\<lambda>index. idx_key index \<le> k" "drop position ?ixs"] assms(2)
      by (simp add: nextBlock_def len)
    let ?m = "length (takeWhile (\<lambda>index. idx_key index \<le> k) (drop position ?ixs))"
    have "?m < length (drop position ?ixs)" using nb by (simp add: nextBlock_def len)
    from nth_length_takeWhile [OF this] have "k < idx_key (?ixs ! nextBlock)"
      using assms(2) by (simp add: nextBlock_def len not_le)
    then have key: "k < rec_key (rs ! (ns ! nextBlock))" using nb nth by (simp add: index_at_def)
    have "ns ! position \<le> ns ! nextBlock"
    proof (cases "position = nextBlock")
      case False
      then have "position < nextBlock" by (simp add: nextBlock_def)
      with sorted nb show ?thesis by (simp add: sorted_wrt_iff_nth_less less_imp_le)
    qed simp
    moreover have "k < rec_key (rs ! i)" if "ns ! nextBlock \<le> i" "i < length rs" for i
      using key sorted_records_keys [OF rs(1) that] by (rule order_less_le_trans)
    ultimately show ?thesis
      using False nb nth lt [OF nth_mem [OF nb]]
      by (intro exI [of _ "ns ! nextBlock"]) (simp add: index_at_def less_imp_le)
  qed
qed

text \<open>\<open>covers_key rs k block\<close>: the result of the block search delimits all versions of \<open>k\<close>.\<close>

definition covers_key :: "Record list \<Rightarrow> string \<Rightarrow> (Index \<times> u64) option \<Rightarrow> bool" where
  "covers_key rs k block =
     (case block of
        None \<Rightarrow> \<forall>r \<in> set rs. k < rec_key r
      | Some (index, blockEnd) \<Rightarrow> \<exists>a b. a \<le> b \<and> b \<le> length rs \<and> index = index_at rs a
          \<and> blockEnd = of_nat (length (records_bytes (take b rs)))
          \<and> (\<forall>i < a. rec_key (rs ! i) < k) \<and> (\<forall>i. b \<le> i \<longrightarrow> i < length rs \<longrightarrow> k < rec_key (rs ! i)))"

lemma covers_keyI:
  assumes ix: "index_for rs (st_indices st) ns" and p: "position < length ns"
    and rs: "sorted_records rs" "st_recordsSize st = of_nat (length (records_bytes rs))"
    and below: "\<And>i. i < ns ! position \<Longrightarrow> rec_key (rs ! i) < k"
  defines "nextBlock \<equiv> position + length (takeWhile (\<lambda>index. idx_key index \<le> k) (drop position (st_indices st)))"
  shows "covers_key rs k (Some (st_indices st ! position,
    if nextBlock = length (st_indices st) then st_recordsSize st else idx_offset (st_indices st ! nextBlock)))"
proof -
  obtain b where "ns ! position \<le> b" "b \<le> length rs"
    "(if nextBlock = length (st_indices st) then st_recordsSize st else idx_offset (st_indices st ! nextBlock))
      = of_nat (length (records_bytes (take b rs)))"
    "\<forall>i. b \<le> i \<longrightarrow> i < length rs \<longrightarrow> k < rec_key (rs ! i)"
    using block_end [OF ix p rs, of k] unfolding nextBlock_def by blast
  moreover have "st_indices st ! position = index_at rs (ns ! position)"
    using ix p by (simp add: index_for_def)
  ultimately show ?thesis using below unfolding covers_key_def
    by (simp only: option.case prod.case) blast
qed

lemma getBlock_covers:
  assumes ix: "index_for rs (st_indices st) ns" and rs: "rs \<noteq> []" "sorted_records rs"
    "st_recordsSize st = of_nat (length (records_bytes rs))"
  shows "covers_key rs k (getBlock st k)"
proof -
  let ?ixs = "st_indices st" and ?P = "\<lambda>index. idx_key index < k"
  define pos where "pos = partition_point ?P ?ixs"
  have ns: "ns \<noteq> []" "ns ! 0 = 0" and len: "length ?ixs = length ns"
    and nth: "\<And>i. i < length ns \<Longrightarrow> ?ixs ! i = index_at rs (ns ! i)" and lt: "\<And>n. n \<in> set ns \<Longrightarrow> n < length rs"
    using ix rs(1) by (auto simp: index_for_def hd_conv_nth)
  then have ne: "?ixs \<noteq> []" by auto
  note from_position = covers_keyI [OF ix _ rs(2,3), of _ k]
  show ?thesis
  proof (cases "pos = 0")
    case True
    have k0: "idx_key (?ixs ! 0) = rec_key (rs ! 0)" using nth ns by (simp add: index_at_def)
    show ?thesis
    proof (cases "rec_key (rs ! 0) > k")
      case gt: True
      have "k < rec_key r" if "r \<in> set rs" for r
      proof -
        from that obtain i where "i < length rs" "r = rs ! i" by (auto simp: in_set_conv_nth)
        with gt sorted_records_keys [OF rs(2), of 0 i] show ?thesis by (auto intro: order_less_le_trans)
      qed
      with gt True ne k0 show ?thesis
        by (simp add: covers_key_def getBlock_def Let_def pos_def [symmetric])
    next
      case False
      with True ne k0 show ?thesis
        using from_position [of 0] ns by (simp add: getBlock_def Let_def pos_def [symmetric])
    qed
  next
    case False
    have le: "pos \<le> length ns" using partition_point_le [of ?P ?ixs] by (simp add: pos_def len)
    define p where "p = pos - 1"
    have p: "p < length ns" "p < pos" using False le by (simp_all add: p_def)
    have stepBack: "pos = length ?ixs \<or> pos \<noteq> 0 \<and> k \<le> idx_key (?ixs ! pos)"
      using nth_partition_point [of ?P ?ixs] False le
      by (cases "pos = length ns") (auto simp: pos_def len not_less)
    have "idx_key (?ixs ! p) < k"
      using nth_before_partition_point [of p ?P ?ixs] p(2) by (simp add: pos_def)
    then have key: "rec_key (rs ! (ns ! p)) < k" using nth p by (simp add: index_at_def)
    have "rec_key (rs ! i) < k" if "i < ns ! p" for i
      using key sorted_records_keys [OF rs(2), of i "ns ! p"] that lt [OF nth_mem [OF p(1)]]
      by (auto intro: order_le_less_trans)
    moreover have "pos - Suc 0 = p" by (simp add: p_def)
    ultimately show ?thesis
      using from_position [OF p(1)] ne False stepBack
      by (simp add: getBlock_def Let_def pos_def [symmetric])
  qed
qed

section \<open>Opening a table\<close>

lemma length_index_bytes [simp]: "length (index_bytes ix) = 12 + length (idx_key ix)"
  by (simp add: index_bytes_def)

lemma serializedIndexSize_bytes: "serializedIndexSize ix = of_nat (length (index_bytes ix))"
  by (simp add: serializedIndexSize_def kIndexMetadataSize_def)

lemma readIndex_at:
  assumes a: "at_pos content pos (index_bytes ix @ s)"
    and ix: "idx_keySize ix = of_nat (length (idx_key ix))" "length (idx_key ix) \<le> 0xFFFFFFFF"
    and n: "length (index_bytes ix) \<le> unat n"
  shows "readIndex (content, pos) n = Inr (ix, (content, pos + length (index_bytes ix)))"
proof -
  note a0 = a [unfolded index_bytes_def append.assoc]
  note a1 = at_pos_skip [OF a0]
  note a2 = at_pos_skip [OF a1]
  have k: "unat (idx_keySize ix) = length (idx_key ix)" using ix by (simp add: unat_of_nat32)
  have n12: "\<not> n < 12" using n by (simp add: word_less_nat_alt)
  have "unat (n - 12) = unat n - 12"
    using n by (subst unat_sub) (simp_all add: word_le_nat_alt)
  then have "\<not> n - 12 < ucast (idx_keySize ix)"
    using n k by (simp add: word_less_nat_alt)
  then show ?thesis
    using read_or_at [OF a0] read_or_at [OF a1] read_or_at [OF a2] k n12
    by (simp add: readIndex_def kIndexMetadataSize_def Let_def not_less ac_simps)
qed

lemma records_bytes_take_less:
  assumes "\<forall>r \<in> set rs. encodable r" "m < n" "n \<le> length rs"
  shows "length (records_bytes (take m rs)) < length (records_bytes (take n rs))"
proof -
  have "take n rs = take m rs @ take (n - m) (drop m rs)"
    using assms(2) by (metis le_add_diff_inverse less_imp_le take_add)
  moreover have "take (n - m) (drop m rs) \<noteq> []" using assms(2,3) by simp
  moreover have "\<forall>r \<in> set (take (n - m) (drop m rs)). encodable r"
    using assms(1) by (meson in_set_dropD in_set_takeD)
  ultimately show ?thesis
    using records_bytes_pos [of "take (n - m) (drop m rs)"] by auto
qed

lemma readSparseIndex_loop_at:
  assumes "at_pos content pos (concat (map index_bytes todo) @ s)"
    and "index_for rs (seen @ todo) ns" "\<forall>r \<in> set rs. encodable r"
    and "length (records_bytes rs) < 2 ^ 64" "sorted_records rs"
    and "length (concat (map index_bytes (seen @ todo))) < 2 ^ 64"
  shows "readSparseIndex_loop (of_nat (length (records_bytes rs)))
      (of_nat (length (concat (map index_bytes (seen @ todo))))) (content, pos) seen
      (of_nat (length (concat (map index_bytes seen)))) = Inr (seen @ todo)"
  using assms
proof (induction todo arbitrary: pos seen)
  case Nil
  then show ?case by (subst readSparseIndex_loop.simps) simp
next
  case (Cons ix todo)
  let ?bytes = "\<lambda>ixs. length (concat (map index_bytes ixs))"
  have len: "length ns = length (seen @ ix # todo)" and lt: "\<forall>n \<in> set ns. n < length rs"
    and eq: "seen @ ix # todo = map (index_at rs) ns" and sorted: "sorted_wrt (<) ns"
    using Cons.prems(2) by (auto simp: index_for_def dest: arg_cong [where f = length])
  let ?n = "ns ! length seen"
  have n: "length seen < length ns" using len by simp
  have ix: "ix = index_at rs ?n"
    using arg_cong [OF eq, of "\<lambda>l. l ! length seen"] n by simp
  have nl: "?n < length rs" using lt n by simp
  have key: "idx_keySize ix = of_nat (length (idx_key ix))" "length (idx_key ix) \<le> 0xFFFFFFFF"
    using Cons.prems(3) nl by (simp_all add: ix index_at_def encodable_def)
  have a: "at_pos content pos (index_bytes ix @ concat (map index_bytes todo) @ s)"
    using Cons.prems(1) by simp
  have tot: "?bytes (seen @ ix # todo) < 2 ^ 64" using Cons.prems(6) .
  have "unat (of_nat (?bytes (seen @ ix # todo)) - of_nat (?bytes seen) :: u64)
      = ?bytes (seen @ ix # todo) - ?bytes seen"
    using tot by (intro unat_of_nat_diff64) simp_all
  then have rd: "readIndex (content, pos) (of_nat (?bytes (seen @ ix # todo)) - of_nat (?bytes seen))
      = Inr (ix, (content, pos + length (index_bytes ix)))"
    by (intro readIndex_at [OF a key]) simp
  have lt64: "(of_nat (?bytes seen) :: u64) < of_nat (?bytes (seen @ ix # todo))"
    using tot by (intro of_nat_less64) simp_all
  have offs: "idx_offset (index_at rs m) < idx_offset (index_at rs m')" if "m < m'" "m' < length rs" for m m'
    using records_bytes_take_less [OF Cons.prems(3) that(1)] that Cons.prems(4)
      records_bytes_take_less [OF Cons.prems(3) that(2) order_refl]
    by (simp add: index_at_def of_nat_less64)
  have in_range: "idx_offset ix < of_nat (length (records_bytes rs))"
    using records_bytes_take_less [OF Cons.prems(3) nl order_refl] Cons.prems(4)
    by (simp add: ix index_at_def of_nat_less64)
  have order: "idx_offset (last seen) < idx_offset ix \<and> idx_key (last seen) \<le> idx_key ix" if "seen \<noteq> []"
  proof -
    let ?m = "ns ! (length seen - 1)"
    have m: "?m < ?n" "last seen = index_at rs ?m"
    proof -
      show "?m < ?n" using sorted n that by (simp add: sorted_wrt_iff_nth_less)
      have "(seen @ ix # todo) ! (length seen - 1) = index_at rs ?m" unfolding eq using n by simp
      then show "last seen = index_at rs ?m" using that by (simp add: nth_append last_conv_nth)
    qed
    with offs nl sorted_records_keys [OF Cons.prems(5), of ?m ?n] show ?thesis
      by (simp add: ix index_at_def)
  qed
  have cont: "of_nat (?bytes seen) + serializedIndexSize ix = of_nat (?bytes (seen @ [ix]))"
    by (simp add: serializedIndexSize_bytes)
  have IH: "readSparseIndex_loop (of_nat (length (records_bytes rs)))
      (of_nat (?bytes ((seen @ [ix]) @ todo))) (content, pos + length (index_bytes ix)) (seen @ [ix])
      (of_nat (?bytes (seen @ [ix]))) = Inr ((seen @ [ix]) @ todo)"
    using Cons.prems at_pos_skip [OF a] by (intro Cons.IH) simp_all
  have app: "(seen @ [ix]) @ todo = seen @ ix # todo" by simp
  show ?case
    using lt64 rd in_range order cont IH unfolding app
    by (subst readSparseIndex_loop.simps) (auto simp: not_le not_less simp del: map_append concat_append)
qed

text \<open>
  The tables that can be written: at least one record, in order, every field within its 32 bit
  length, and a file whose size fits an unsigned 64 bit integer. The number of records is bounded
  by what the size computation of the Bloom filter was shown for.
\<close>

definition table_ok :: "fp \<Rightarrow> Record list \<Rightarrow> bool" where
  "table_ok fp rs \<longleftrightarrow> fp_ok fp \<and> rs \<noteq> [] \<and> sorted_records rs \<and> (\<forall>r \<in> set rs. encodable r)
     \<and> length rs \<le> 2 ^ 40 \<and> length (sst_image fp rs) < 2 ^ 64"

text \<open>The object that opening such a table gives.\<close>

definition sst_of :: "path \<Rightarrow> fp \<Rightarrow> Record list \<Rightarrow> SSTable" where
  "sst_of p fp rs =
     \<lparr>st_path = p, st_recordsSize = ft_recordsSize (sst_footer fp rs),
      st_bloomSize = ft_bloomSize (sst_footer fp rs), st_indexSize = ft_indexSize (sst_footer fp rs),
      st_bloomFilter = sst_bloom fp rs, st_indices = sst_indices fp rs\<rparr>"

lemma length_footer_bytes [simp]: "length (footer_bytes ft) = 24"
  by (simp add: footer_bytes_def)

lemma image_lengths:
  "length (sst_image fp rs) = length (records_bytes rs) + length (Serialize (sst_bloom fp rs))
     + length (concat (map index_bytes (sst_indices fp rs))) + 24"
  by (simp add: sst_image_def)

lemma table_ok_sizes:
  assumes "table_ok fp rs"
  shows "length (records_bytes rs) < 2 ^ 64" "length (Serialize (sst_bloom fp rs)) < 2 ^ 64"
    "length (concat (map index_bytes (sst_indices fp rs))) < 2 ^ 64" "0 < length (records_bytes rs)"
  using assms records_bytes_pos [of rs] by (auto simp: table_ok_def image_lengths)

lemma filter_fits: "fp_ok fp \<Longrightarrow> rs \<noteq> [] \<Longrightarrow> length rs \<le> 2 ^ 40 \<Longrightarrow> filter_fits fp (length rs)"
  unfolding kBloomFalsePositiveProbability_def by (intro forEntries_wf) (auto simp: Suc_le_eq)

lemma table_ok_bloom:
  assumes "table_ok fp rs"
  shows "filter_fits fp (length rs)" "bloom_wf (sst_bloom fp rs)"
    "r \<in> set rs \<Longrightarrow> mightContain (sst_bloom fp rs) (rec_key r) = Some True"
proof -
  show wf: "filter_fits fp (length rs)" using assms by (intro filter_fits) (auto simp: table_ok_def)
  have enc: "\<forall>r \<in> set rs. encodable r" using assms by (simp add: table_ok_def)
  show "bloom_wf (sst_bloom fp rs)"
    using built_fields(4) [OF enc wf] by (simp add: sst_bloom_def built_def)
  show "r \<in> set rs \<Longrightarrow> mightContain (sst_bloom fp rs) (rec_key r) = Some True"
    using add_keys_defined [OF wf, of "map rec_key rs"] built_filter [OF enc wf] by auto
qed

lemma readFooter_image:
  "readFooter (sst_image fp rs, 0) = Inr (sst_footer fp rs, (sst_image fp rs, length (sst_image fp rs)))"
proof -
  let ?c = "sst_image fp rs"
  have a: "at_pos ?c (length ?c - 24) (footer_bytes (sst_footer fp rs) @ [])"
    by (simp add: at_pos_def sst_image_def)
  have "substr (footer_bytes ft) 0 8 = put_u64 (ft_recordsSize ft)"
    "substr (footer_bytes ft) 8 8 = put_u64 (ft_bloomSize ft)"
    "substr (footer_bytes ft) 16 8 = put_u64 (ft_indexSize ft)" for ft
    by (simp_all add: footer_bytes_def substr_def)
  with read_or_at [OF a] show ?thesis
    by (simp add: readFooter_def kFooterSize_def seekg_def image_lengths)
qed

lemma validateFooter_image:
  assumes "table_ok fp rs"
  shows "validateFooter (sst_footer fp rs) (of_nat (length (sst_image fp rs))) = Inr ()"
proof -
  let ?r = "length (records_bytes rs)" and ?b = "length (Serialize (sst_bloom fp rs))"
  let ?i = "length (concat (map index_bytes (sst_indices fp rs)))"
  note sz = table_ok_sizes [OF assms]
  have tot: "?r + ?b + ?i + 24 < 2 ^ 64" using assms by (simp add: table_ok_def image_lengths)
  have d1: "of_nat (?r + ?b + ?i + 24) - of_nat kFooterSize = (of_nat (?r + ?b + ?i) :: u64)"
    by (simp add: kFooterSize_def)
  have d2: "of_nat (?r + ?b + ?i) - of_nat ?r = (of_nat (?b + ?i) :: u64)"
    "of_nat (?b + ?i) - of_nat ?b = (of_nat ?i :: u64)" by simp_all
  have "\<not> (of_nat (?r + ?b + ?i + 24) :: u64) < of_nat kFooterSize"
    "\<not> (of_nat (?r + ?b + ?i) :: u64) < of_nat ?r" "\<not> (of_nat (?b + ?i) :: u64) < of_nat ?b"
    "(of_nat ?r :: u64) \<noteq> 0"
    using tot sz(4) of_nat_eq64_iff [of ?r 0] of_nat_less64_iff [of "?r + ?b + ?i + 24" 24]
    by (simp_all add: of_nat_less64_iff kFooterSize_def del: of_nat_add)
  then show ?thesis
    by (simp only: validateFooter_def sst_footer_def Footer.simps image_lengths d1 d2 Let_def if_False
        de_Morgan_disj simp_thms)
qed

lemma nominal_fs_throwing: "nominal w \<Longrightarrow> fs_throwing f w = Some (Inr (f w), w)"
  by (simp add: fs_throwing_def fs_query_def io_bind_def io_act_def)

lemma nominal_check_regular:
  "nominal w \<Longrightarrow> content_of w p = Some c \<Longrightarrow> check_regular p m w = Some (Inr (), w)"
  by (simp add: check_regular_def io_bind_def nominal_fs_throwing path_exists_def is_regular_file_def)

lemma readSparseIndex_image:
  assumes "nominal w" "content_of w p = Some (sst_image fp rs)" "table_ok fp rs"
  defines "ft \<equiv> sst_footer fp rs"
  shows "readSparseIndex p (ft_recordsSize ft) (ft_bloomSize ft) (ft_indexSize ft) w
    = Some (Inr (sst_indices fp rs), w)"
    and "\<exists>ns. index_for rs (sst_indices fp rs) ns" and "sst_indices fp rs \<noteq> []"
proof -
  let ?c = "sst_image fp rs" and ?ixs = "sst_indices fp rs"
  let ?pos = "length (records_bytes rs) + length (Serialize (sst_bloom fp rs))"
  note sz = table_ok_sizes [OF assms(3)]
  have enc: "\<forall>r \<in> set rs. encodable r" "rs \<noteq> []" "sorted_records rs"
    using assms(3) by (simp_all add: table_ok_def)
  show ex: "\<exists>ns. index_for rs ?ixs ns"
    using built_indices [OF enc(1) sz(1) table_ok_bloom(1) [OF assms(3)]] by (simp add: sst_indices_def built_def)
  then obtain ns where ns: "index_for rs ([] @ ?ixs) ns" by auto
  then show ne: "?ixs \<noteq> []" using enc(2) by (auto simp: index_for_def)
  have a: "at_pos ?c ?pos (concat (map index_bytes ?ixs) @ footer_bytes ft)"
    by (simp add: at_pos_def sst_image_def ft_def)
  have "?pos < 2 ^ 64" using assms(3) by (simp add: table_ok_def image_lengths)
  then have pos: "unat (ft_recordsSize ft + ft_bloomSize ft) = ?pos"
    using unat_of_nat64 [of ?pos] by (simp add: ft_def sst_footer_def)
  have loop: "readSparseIndex_loop (ft_recordsSize ft) (ft_indexSize ft) (?c, ?pos) [] 0 = Inr ?ixs"
    using readSparseIndex_loop_at [OF a ns enc(1) sz(1) enc(3)] sz(3)
    by (simp add: ft_def sst_footer_def)
  have "idx_offset (hd ?ixs) = 0"
    using ns enc(2) ne by (auto simp: index_for_def hd_map index_at_def)
  then show "readSparseIndex p (ft_recordsSize ft) (ft_bloomSize ft) (ft_indexSize ft) w = Some (Inr ?ixs, w)"
    using assms(1,2) loop pos
    by (simp add: readSparseIndex_def io_bind_def io_act_def sys_open_read_def)
qed

lemma SSTable_open:
  assumes "nominal w" "content_of w p = Some (sst_image fp rs)" "table_ok fp rs"
  shows "SSTable_new p w = Some (Inr (sst_of p fp rs), w)"
proof -
  let ?c = "sst_image fp rs" and ?ft = "sst_footer fp rs"
  note sz = table_ok_sizes [OF assms(3)]
  have rd: "sys_open_read p w = (Some ?c, w)" using assms by (simp add: sys_open_read_def)
  have fsz: "file_size p w = of_nat (length ?c)" using assms(2) by (simp add: file_size_def)
  have a: "at_pos ?c (length (records_bytes rs)) (Serialize (sst_bloom fp rs)
      @ concat (map index_bytes (sst_indices fp rs)) @ footer_bytes ?ft)"
    by (simp add: at_pos_def sst_image_def)
  have bl: "read_or (unat (ft_bloomSize ?ft)) m (?c, unat (ft_recordsSize ?ft))
      = Inr (Serialize (sst_bloom fp rs), (?c, length (records_bytes rs) + length (Serialize (sst_bloom fp rs))))" for m
    using read_or_at [OF a] sz by (simp add: sst_footer_def unat_of_nat64)
  have "fromBytes (Serialize (sst_bloom fp rs)) = Inr (sst_bloom fp rs)"
    using table_ok_bloom(2) [OF assms(3)] by (intro fromBytes_Serialize) (simp add: bloom_wf_def)
  with rd fsz bl show ?thesis
    using readSparseIndex_image [OF assms] validateFooter_image [OF assms(3)] readFooter_image [of fp rs]
      nominal_check_regular [OF assms(1,2)] nominal_fs_throwing [OF assms(1), of "file_size p"]
    by (simp add: SSTable_new_def io_bind_def io_act_def seekg_def sst_of_def Let_def)
qed

section \<open>Searching a table\<close>

lemma find_drop_prefix: "\<forall>x \<in> set as. \<not> P x \<Longrightarrow> find P (as @ bs) = find P bs"
  by (induction as) auto

lemma find_drop_suffix: "\<forall>x \<in> set bs. \<not> P x \<Longrightarrow> find P (as @ bs) = find P as"
  by (induction as) (auto simp: find_None_iff)

text \<open>Searching only the block is searching the table.\<close>

lemma find_in_range:
  assumes "a \<le> b" "b \<le> length rs" "\<forall>i < a. rec_key (rs ! i) < k"
    and "\<forall>i. b \<le> i \<longrightarrow> i < length rs \<longrightarrow> k < rec_key (rs ! i)"
  shows "find (eligible k q) (take (b - a) (drop a rs)) = find (eligible k q) rs"
proof -
  have eq: "take a rs @ take (b - a) (drop a rs) @ drop b rs = rs"
    using assms(1) by (metis append.assoc append_take_drop_id le_add_diff_inverse take_add)
  have "\<forall>x \<in> set (take a rs). \<not> eligible k q x"
    using assms(3) by (fastforce simp: in_set_conv_nth eligible_def)
  moreover have "\<forall>x \<in> set (drop b rs). \<not> eligible k q x"
  proof
    fix x assume "x \<in> set (drop b rs)"
    then obtain i where "b + i < length rs" "x = rs ! (b + i)" by (metis add.commute in_set_conv_nth length_drop less_diff_conv nth_drop assms(2))
    with assms(4) have "k < rec_key x" by simp
    then show "\<not> eligible k q x" by (auto simp: eligible_def)
  qed
  ultimately have "find (eligible k q) (take a rs @ take (b - a) (drop a rs) @ drop b rs)
      = find (eligible k q) (take (b - a) (drop a rs))"
    by (simp only: find_drop_prefix find_drop_suffix)
  then show ?thesis by (simp only: eq)
qed

lemma search_block_image:
  assumes ok: "table_ok fp rs" and ab: "a \<le> b" "b \<le> length rs"
  shows "search_block (sst_image fp rs, unat (idx_offset (index_at rs a))) (idx_offset (index_at rs a))
      (of_nat (length (records_bytes (take b rs)))) k q v
    = Inr (read_outcome (find (eligible k q) (take (b - a) (drop a rs))) v)"
proof -
  let ?mid = "take (b - a) (drop a rs)" and ?pos = "length (records_bytes (take a rs))"
  note sz = table_ok_sizes [OF ok]
  have split: "take b rs = take a rs @ ?mid" using ab(1) by (metis le_add_diff_inverse take_add)
  have rs: "rs = take a rs @ ?mid @ drop b rs" using split by (metis append.assoc append_take_drop_id)
  have "records_bytes rs = records_bytes (take a rs) @ records_bytes ?mid @ records_bytes (drop b rs)"
    by (subst rs) (simp only: records_bytes_simps)
  then have a: "at_pos (sst_image fp rs) ?pos (records_bytes ?mid @ records_bytes (drop b rs)
      @ Serialize (sst_bloom fp rs) @ concat (map index_bytes (sst_indices fp rs)) @ footer_bytes (sst_footer fp rs))"
    and len: "?pos + length (records_bytes ?mid) < 2 ^ 64"
    using sz(1) by (simp_all add: at_pos_def sst_image_def)
  have "\<forall>r \<in> set ?mid. encodable r" using ok by (metis in_set_dropD in_set_takeD table_ok_def)
  moreover have "sorted_records ?mid"
    using ok rs by (metis sorted_records_append table_ok_def)
  ultimately have "search_block (sst_image fp rs, ?pos) (of_nat ?pos)
      (of_nat (?pos + length (records_bytes ?mid))) k q v = Inr (read_outcome (find (eligible k q) ?mid) v)"
    using a len by (intro search_block_finds)
  moreover have "unat (idx_offset (index_at rs a)) = ?pos" "idx_offset (index_at rs a) = of_nat ?pos"
    using len by (simp_all add: index_at_def unat_of_nat64)
  ultimately show ?thesis using split by simp
qed

lemma SSTable_get_reads:
  assumes "nominal w" "content_of w p = Some (sst_image fp rs)" "table_ok fp rs"
  shows "SSTable_get (sst_of p fp rs) k q v w = Some (Inr (read_outcome (visible rs k q) v), w)"
proof -
  let ?st = "sst_of p fp rs"
  have sorted: "sorted_records rs" "rs \<noteq> []" using assms(3) by (simp_all add: table_ok_def)
  have rd: "sys_open_read p w = (Some (sst_image fp rs), w)" using assms by (simp add: sys_open_read_def)
  have ex: "fs_throwing (path_exists p) w = Some (Inr True, w)"
    using nominal_fs_throwing [OF assms(1), of "path_exists p"] assms(2) by (simp add: path_exists_def)
  obtain ns where ns: "index_for rs (st_indices ?st) ns"
    using readSparseIndex_image(2) [OF assms] by (auto simp: sst_of_def)
  have block: "covers_key rs k (getBlock ?st k)"
    using ns sorted(2,1) by (rule getBlock_covers) (simp add: sst_of_def sst_footer_def)
  have st: "st_path ?st = p" "st_bloomFilter ?st = sst_bloom fp rs" by (simp_all add: sst_of_def)
  obtain possible where possible: "mightContain (sst_bloom fp rs) k = Some possible"
    using mightContain_wf [OF table_ok_bloom(2) [OF assms(3)]] by blast
  show ?thesis
  proof (cases possible)
    case False
    with possible have "visible rs k q = None"
      using table_ok_bloom(3) [OF assms(3)] by (intro visible_absent_key) auto
    with False possible ex st show ?thesis
      by (simp add: SSTable_get_def io_bind_def read_outcome_def)
  next
    case True
    show ?thesis
    proof (cases "getBlock ?st k")
      case None
      with block have "visible rs k q = None"
        by (intro visible_absent_key) (auto simp: covers_key_def)
      with None True possible ex rd st show ?thesis
        by (simp add: SSTable_get_def io_bind_def io_act_def read_outcome_def)
    next
      case (Some x)
      with block obtain a b where ab: "a \<le> b" "b \<le> length rs" "x = (index_at rs a,
          of_nat (length (records_bytes (take b rs))))"
        "\<forall>i < a. rec_key (rs ! i) < k" "\<forall>i. b \<le> i \<longrightarrow> i < length rs \<longrightarrow> k < rec_key (rs ! i)"
        by (cases x) (auto simp: covers_key_def)
      have "search_block (sst_image fp rs, unat (idx_offset (index_at rs a))) (idx_offset (index_at rs a))
          (of_nat (length (records_bytes (take b rs)))) k q v = Inr (read_outcome (visible rs k q) v)"
        using search_block_image [OF assms(3) ab(1,2)] find_in_range [OF ab(1,2,4,5)]
        by (simp add: visible_sorted [OF sorted(1)])
      with Some ab(3) True possible ex rd st show ?thesis
        by (simp add: SSTable_get_def io_bind_def io_act_def)
    qed
  qed
qed

text \<open>\<open>table_file fp w p rs\<close>: the file \<open>p\<close> holds the table with the records \<open>rs\<close>.\<close>

definition table_file :: "fp \<Rightarrow> world \<Rightarrow> path \<Rightarrow> Record list \<Rightarrow> bool" where
  "table_file fp w p rs \<longleftrightarrow> table_ok fp rs \<and> content_of w p = Some (sst_image fp rs)"

interpretation sst_source: version_source SSTable_get
  "\<lambda>st w rs. nominal w \<and> (\<exists>fp p. st = sst_of p fp rs \<and> table_file fp w p rs)"
  by unfold_locales (auto simp: table_file_def SSTable_get_reads)

text \<open>
  C21: a lookup in a table file answers with the newest version of the key that is not newer than
  the read sequence, exactly as a scan of all its records would: neither the Bloom filter nor the
  sparse index nor the end of the block hides a version, also when the versions of one key span
  several blocks.
\<close>

theorem SSTable_get_correct:
  "nominal w \<Longrightarrow> table_file fp w p rs \<Longrightarrow>
   SSTable_get (sst_of p fp rs) k q v w = Some (Inr (read_outcome (visible rs k q) v), w)"
  by (auto simp: table_file_def SSTable_get_reads)

section \<open>Writing a table\<close>

lemma produces_write_record:
  "encodable r \<Longrightarrow> bloom_wf (tb_bloomFilter tb) \<Longrightarrow> produces (write_record tb r) (add_record tb r) (record_bytes r)"
proof -
  assume r: "encodable r" and wf: "bloom_wf (tb_bloomFilter tb)"
  from r obtain e where e: "encodeSSTableRecord r = Inr e" using encode_ok by blast
  have "produces (io_defined (add_bytes (start_block tb r) r (encodedRecordSize r))) (add_record tb r) []"
    unfolding add_record(1) [OF wf] by (rule produces_defined)
  from produces_bind [where f = "\<lambda>n. io_defined (add_bytes (start_block tb r) r n)", OF produces_add [OF e] this]
  show ?thesis by (simp only: write_record_def Let_def append_Nil2)
qed

lemma produces_write_records:
  assumes "\<forall>r \<in> set rs. encodable r" "bloom_wf (tb_bloomFilter tb)"
  shows "produces (io_fold write_record tb rs) (foldl add_record tb rs) (records_bytes rs)"
  using assms
proof (induction rs arbitrary: tb)
  case Nil
  show ?case by (simp add: records_bytes_def produces_ret del: io_apply)
next
  case (Cons r rs)
  have "produces (io_bind (write_record tb r) (\<lambda>tb'. io_fold write_record tb' rs))
      (foldl add_record (add_record tb r) rs) (record_bytes r @ records_bytes rs)"
    using Cons.prems by (intro produces_bind [OF produces_write_record] Cons.IH) (simp_all add: add_record bloom_add)
  then show ?case by (simp add: records_bytes_def)
qed

lemma produces_writeIndex: "produces (writeIndex ix) (serializedIndexSize ix) (index_bytes ix)"
proof -
  have "produces (writeIndex ix) (serializedIndexSize ix)
      (put_u32 (idx_keySize ix) @ idx_key ix @ put_u64 (idx_offset ix) @ [])"
    unfolding writeIndex_def by (intro produces_bind [where x = "()"] produces_write produces_ret)
  then show ?thesis by (simp only: index_bytes_def append_Nil2)
qed

lemma produces_writeFooter:
  "produces (writeFooter a b c) () (put_u64 a @ put_u64 b @ put_u64 c)"
  unfolding writeFooter_def
  by (intro produces_bind [where x = "()"] produces_write)

lemma index_size_fold:
  "foldl (\<lambda>n ix. n + serializedIndexSize ix) a ixs = a + of_nat (length (concat (map index_bytes ixs)))"
  by (induction ixs arbitrary: a) (simp_all add: serializedIndexSize_bytes ac_simps)

lemma produces_write_table:
  assumes "\<forall>r \<in> set rs. encodable r" "filter_fits fp (length rs)"
  shows "produces (write_table fp rs) (of_nat (length (sst_image fp rs))) (sst_image fp rs)"
proof -
  let ?tb = "built fp rs" and ?ixs = "sst_indices fp rs" and ?bl = "Serialize (sst_bloom fp rs)"
  have f1: "produces (io_fold write_record (empty_builder fp (length rs)) rs) ?tb (records_bytes rs)"
    unfolding built_def using assms by (intro produces_write_records) (simp_all add: empty_builder_def)
  have step: "produces (io_bind (writeIndex ix) (\<lambda>n. io_ret (acc + n))) (acc + serializedIndexSize ix)
      (index_bytes ix @ [])" for acc ix
    by (rule produces_bind [OF produces_writeIndex produces_ret])
  have f2: "produces (io_fold (\<lambda>indexSize index. io_bind (writeIndex index) (\<lambda>n. io_ret (indexSize + n))) 0 ?ixs)
      (foldl (\<lambda>n ix. n + serializedIndexSize ix) 0 ?ixs) (concat (map index_bytes ?ixs))"
    using step by (intro produces_fold) simp
  have size: "tb_recordsSize ?tb = of_nat (length (records_bytes rs))"
    "tb_fileSize ?tb = of_nat (length (records_bytes rs))"
    using assms by (simp_all add: built_def built_fields)
  have foot: "put_u64 (tb_recordsSize ?tb) @ put_u64 (of_nat (length ?bl))
      @ put_u64 (of_nat (length (concat (map index_bytes ?ixs)))) = footer_bytes (sst_footer fp rs)"
    by (simp add: footer_bytes_def sst_footer_def size)
  have total: "tb_fileSize ?tb + of_nat (length ?bl) + of_nat (length (concat (map index_bytes ?ixs)))
      + of_nat kFooterSize = of_nat (length (sst_image fp rs))"
    by (simp add: image_lengths size kFooterSize_def)
  have "produces (write_table fp rs)
      (tb_fileSize ?tb + of_nat (length ?bl) + of_nat (length (concat (map index_bytes ?ixs))) + of_nat kFooterSize)
      (records_bytes rs @ ?bl @ concat (map index_bytes ?ixs) @
        (put_u64 (tb_recordsSize ?tb) @ put_u64 (of_nat (length ?bl))
         @ put_u64 (of_nat (length (concat (map index_bytes ?ixs))))) @ [])"
    unfolding write_table_def Let_def
  proof (rule produces_bind)
    show "produces (io_fold write_record \<lparr>tb_bloomFilter = forEntries fp (length rs) (kBloomFalsePositiveProbability fp),
        tb_indices = [], tb_recordsSize = 0, tb_currentBlockSize = 0, tb_fileSize = 0\<rparr> rs) ?tb (records_bytes rs)"
      using f1 by (simp only: empty_builder_def)
    show "produces (io_bind (fw_write (Serialize (tb_bloomFilter ?tb))) (\<lambda>_.
        io_bind (io_fold (\<lambda>indexSize index. io_bind (writeIndex index) (\<lambda>n. io_ret (indexSize + n))) 0 (tb_indices ?tb))
          (\<lambda>indexSize. io_bind (writeFooter (tb_recordsSize ?tb)
              (of_nat (length (Serialize (tb_bloomFilter ?tb)))) indexSize)
            (\<lambda>_. io_ret (tb_fileSize ?tb + of_nat (length (Serialize (tb_bloomFilter ?tb))) + indexSize
              + of_nat kFooterSize)))))
        (tb_fileSize ?tb + of_nat (length ?bl) + of_nat (length (concat (map index_bytes ?ixs))) + of_nat kFooterSize)
        (?bl @ concat (map index_bytes ?ixs) @
          (put_u64 (tb_recordsSize ?tb) @ put_u64 (of_nat (length ?bl))
           @ put_u64 (of_nat (length (concat (map index_bytes ?ixs))))) @ [])"
      unfolding sst_bloom_def [symmetric] sst_indices_def [symmetric]
      by (rule produces_bind [OF produces_write produces_bind [OF f2 [unfolded index_size_fold add_0]
            produces_bind [OF produces_writeFooter produces_ret]]])
  qed
  then show ?thesis unfolding total foot by (simp add: sst_image_def)
qed

lemma addRecordToFile_nominal:
  assumes "nominal w" "writable w p" "table_ok fp rs"
  shows "addRecordToFile fp rs p w
    = Some (Inr (of_nat (length (sst_image fp rs))), publish p (sst_image fp rs) w)"
proof -
  have "produces (write_table fp rs) (of_nat (length (sst_image fp rs))) (sst_image fp rs)"
    using assms(3) table_ok_bloom(1) by (intro produces_write_table) (simp_all add: table_ok_def)
  then have "appends (write_table fp rs) (of_nat (length (sst_image fp rs))) (sst_image fp rs)"
    by (simp add: produces_def)
  from nominal_with_FileWriter [OF assms(1,2) this] assms(3) show ?thesis
    by (simp add: addRecordToFile_def table_ok_def)
qed

lemma publish_fields [simp]:
  "p \<noteq> [] \<Longrightarrow> content_of (publish p c w) = (content_of w)(temporary_path p := None, p \<mapsto> c)"
  "nominal (publish p c w) = nominal w" "w_fds (publish p c w) = w_fds w"
  by (auto simp: publish_def fun_eq_iff)

text \<open>
  C22: writing a table and opening the file gives back a table that answers every read like the
  list of records that was written; the size returned is the size of the file.
\<close>

theorem sstable_write_open_read:
  assumes "nominal w" "writable w p" "table_ok fp rs"
  shows "\<exists>w' st. addRecordToFile fp rs p w = Some (Inr (file_size p w'), w')
    \<and> SSTable_new p w' = Some (Inr st, w')
    \<and> (\<forall>k q v. SSTable_get st k q v w' = Some (Inr (read_outcome (visible rs k q) v), w'))
    \<and> (\<forall>x. x \<noteq> p \<and> x \<noteq> temporary_path p \<longrightarrow> content_of w' x = content_of w x)"
proof -
  let ?w = "publish p (sst_image fp rs) w"
  have p: "p \<noteq> []" using assms(2) by (simp add: writable_def)
  then have c: "content_of ?w p = Some (sst_image fp rs)" by simp
  have n: "nominal ?w" using assms(1) by simp
  have "addRecordToFile fp rs p w = Some (Inr (file_size p ?w), ?w)"
    using addRecordToFile_nominal [OF assms] c by (simp add: file_size_def)
  moreover have "\<forall>x. x \<noteq> p \<and> x \<noteq> temporary_path p \<longrightarrow> content_of ?w x = content_of w x" using p by simp
  ultimately show ?thesis
    using SSTable_open [OF n c assms(3)] SSTable_get_reads [OF n c assms(3)] by blast
qed

text \<open>
  Under any faults, writing a table leaves every other file alone and the table's own name
  either as it was or with the complete table; it returns normally only when the complete table is
  in place.
\<close>

theorem sstable_write_atomic:
  assumes "addRecordToFile fp rs p w = Some (r, w')" "butlast p \<noteq> []" "\<forall>x \<in> set rs. encodable x"
    and "rs \<noteq> [] \<Longrightarrow> filter_fits fp (length rs)"
  shows "(\<forall>x. x \<noteq> p \<and> x \<noteq> temporary_path p \<longrightarrow> content_of w' x = content_of w x)
    \<and> (content_of w' p = content_of w p \<or> content_of w' p = Some (sst_image fp rs))
    \<and> (\<forall>n. r = Inr n \<longrightarrow> content_of w' p = Some (sst_image fp rs) \<and> n = of_nat (length (sst_image fp rs)))"
proof (cases "rs = []")
  case True
  with assms(1) show ?thesis by (auto simp: addRecordToFile_def)
next
  case False
  with assms(1) have "with_FileWriter p (io_bind (write_table fp rs)
      (\<lambda>fileSize. io_bind FileWriter_finish (\<lambda>_. io_ret fileSize))) w = Some (r, w')"
    by (simp add: addRecordToFile_def)
  from produced_file [OF this assms(2) produces_write_table [OF assms(3) assms(4) [OF False]]] show ?thesis by blast
qed

section \<open>Sizes\<close>

lemma index_bytes_bound:
  assumes "index_for rs ixs ns" "\<forall>r \<in> set rs. encodable r"
  shows "length (concat (map index_bytes ixs)) \<le> length (records_bytes rs)"
proof -
  let ?f = "\<lambda>n. 12 + length (rec_key (rs ! n))" and ?g = "\<lambda>n. length (record_bytes (rs ! n))"
  have ns: "distinct ns" "set ns \<subseteq> {..<length rs}" and ixs: "ixs = map (index_at rs) ns"
    using assms(1) by (auto simp: index_for_def strict_sorted_iff)
  have "length (concat (map index_bytes ixs)) = (\<Sum>n\<leftarrow>ns. ?f n)"
    by (simp add: ixs length_concat comp_def index_at_def)
  also have "\<dots> = (\<Sum>n \<in> set ns. ?f n)" using ns(1) by (simp add: sum_list_distinct_conv_sum_set)
  also have "\<dots> \<le> (\<Sum>n \<in> {..<length rs}. ?f n)" using ns(2) by (intro sum_mono2) auto
  also have "\<dots> \<le> (\<Sum>n \<in> {..<length rs}. ?g n)"
    using assms(2) by (intro sum_mono) (simp add: length_record_bytes)
  also have "\<dots> = length (records_bytes rs)"
    by (simp add: records_bytes_def length_concat comp_def sum_list_sum_nth atLeast0LessThan)
  finally show ?thesis .
qed

text \<open>
  The filter of a table takes at most eight bytes for every record and 24 more, the index at most
  as much as the records.
\<close>

lemma length_sst_bloom:
  assumes "fp_ok fp" "rs \<noteq> []" "length rs \<le> 2 ^ 40" "\<forall>r \<in> set rs. encodable r"
  shows "length (Serialize (sst_bloom fp rs)) \<le> 24 + 8 * length rs"
proof -
  let ?f = "forEntries fp (length rs) (fp_rnd fp (1 / 100))" and ?b = "sst_bloom fp rs"
  have n: "1 \<le> length rs" using assms(2) by (simp add: Suc_le_eq)
  note wf = filter_fits [OF assms(1-3)]
  have cov: "covers ?b ?f"
    using built_filter [OF assms(4) wf] add_keys_defined [OF wf, of "map rec_key rs"]
    by (simp add: kBloomFalsePositiveProbability_def)
  then have "bloom_wf ?b" using forEntries_wf [OF assms(1) n assms(3)] covers_wf by blast
  then have "length (bf_words ?b) = (unat (bf_bitCount ?b) + 63) div 64"
    using wordCountFor_nat [of "bf_bitCount ?b"] by (simp add: bloom_wf_def)
  moreover have "unat (bf_bitCount ?b) \<le> 64 * length rs"
    using forEntries_bitCount_range [OF assms(1) n assms(3)] cov by (simp add: covers_def)
  ultimately have "length (bf_words ?b) \<le> length rs + 1" by linarith
  then show ?thesis by (simp add: length_Serialize)
qed

lemma records_bytes_count: "\<forall>r \<in> set rs. encodable r \<Longrightarrow> 21 * length rs \<le> length (records_bytes rs)"
  by (induction rs) (simp_all add: records_bytes_def length_record_bytes)

lemma sst_image_size:
  assumes "fp_ok fp" "rs \<noteq> []" "length rs \<le> 2 ^ 40" "\<forall>r \<in> set rs. encodable r"
    and "length (records_bytes rs) < 2 ^ 62"
  shows "length (sst_image fp rs) \<le> 8 * length (records_bytes rs)"
proof -
  obtain ns where "index_for rs (sst_indices fp rs) ns"
    using built_indices [OF assms(4) _ filter_fits [OF assms(1-3)]] assms(5) by (auto simp: sst_indices_def built_def)
  from index_bytes_bound [OF this assms(4)] length_sst_bloom [OF assms(1-4)] records_bytes_count [OF assms(4)]
  show ?thesis using assms(2) by (cases rs) (simp_all add: image_lengths)
qed

text \<open>Every sorted list of records of less than \<open>2 ^ 61\<close> bytes makes a table.\<close>

lemma table_okI:
  assumes "fp_ok fp" "rs \<noteq> []" "sorted_records rs" "\<forall>r \<in> set rs. encodable r"
    and "length rs \<le> 2 ^ 40" "length (records_bytes rs) < 2 ^ 61"
  shows "table_ok fp rs"
  using assms sst_image_size [of fp rs] by (simp add: table_ok_def)

lemma table_example: "table_ok fp_example batch_example"
proof (rule table_okI)
  show enc: "\<forall>r \<in> set batch_example. encodable r" by (simp add: batch_example_def encodable_def)
  show "length (records_bytes batch_example) < 2 ^ 61"
    using enc by (simp add: batch_example_def length_record_bytes)
qed (simp_all add: fp_example_ok batch_example_def rkey_less)

definition table_world :: world where
  "table_world = \<lparr>w_files = [([''d'', ''t''], sst_image fp_example batch_example)], w_dirs = [[], [''d'']],
     w_fds = [], w_policy = None, w_os = sconst OsOk\<rparr>"

lemma table_world_nominal: "nominal table_world"
  by (simp add: nominal_def table_world_def)

theorem SSTable_get_correct_witness:
  "SSTable_get (sst_of [''d'', ''t''] fp_example batch_example) ''a'' 5 [] table_world
    = Some (Inr (Result_VALUE, ''x''), table_world)"
proof -
  have "table_file fp_example table_world [''d'', ''t''] batch_example"
    by (simp add: table_file_def table_example table_world_def)
  from SSTable_get_correct [OF table_world_nominal this, of "''a''" 5 "[]"] show ?thesis
    by (simp add: batch_example_def visible_def pick_def eligible_def read_outcome_def)
qed

definition empty_world :: world where
  "empty_world = \<lparr>w_files = [], w_dirs = [], w_fds = [], w_policy = None, w_os = sconst OsOk\<rparr>"

lemma empty_world_writable: "nominal empty_world" "writable empty_world [''d'', ''t'']"
  by (simp_all add: nominal_def writable_def empty_world_def temporary_path_def)

theorem sstable_write_open_read_witness:
  "\<exists>w' st. addRecordToFile fp_example batch_example [''d'', ''t''] empty_world
      = Some (Inr (file_size [''d'', ''t''] w'), w') \<and> SSTable_new [''d'', ''t''] w' = Some (Inr st, w')"
  using sstable_write_open_read [OF empty_world_writable table_example] by blast

theorem sstable_write_atomic_witness:
  "\<exists>w'. addRecordToFile fp_example batch_example [''d'', ''t''] empty_world
      = Some (Inr (of_nat (length (sst_image fp_example batch_example))), w')
    \<and> content_of w' [''d'', ''t''] = Some (sst_image fp_example batch_example)"
proof -
  note run = addRecordToFile_nominal [OF empty_world_writable table_example]
  have "\<forall>x \<in> set batch_example. encodable x" using table_example by (simp add: table_ok_def)
  from sstable_write_atomic [OF run _ this] run show ?thesis by auto
qed

text \<open>
  C35: the size of a table file is bounded by the records it holds: writing them reports exactly the
  size of the file, and that is at least the size of the encoded records and at most eight times as
  much, whatever the number of filter bits and index entries.
\<close>

theorem table_size_bounds:
  assumes "nominal w" "writable w p" "table_ok fp rs" "length (records_bytes rs) < 2 ^ 61"
  shows "\<exists>n w' bytes. addRecordToFile fp rs p w = Some (Inr n, w') \<and> content_of w' p = Some bytes
    \<and> unat n = length bytes \<and> length (records_bytes rs) \<le> unat n \<and> unat n \<le> 8 * length (records_bytes rs)"
proof -
  have "length (sst_image fp rs) \<le> 8 * length (records_bytes rs)"
    using assms(3,4) by (intro sst_image_size) (simp_all add: table_ok_def)
  moreover have "length (records_bytes rs) \<le> length (sst_image fp rs)" by (simp add: image_lengths)
  moreover have "length (sst_image fp rs) < 2 ^ 64" using assms(3) by (simp add: table_ok_def)
  moreover have "p \<noteq> []" using assms(2) by (auto simp: writable_def)
  ultimately show ?thesis
    using addRecordToFile_nominal [OF assms(1-3)] by (simp add: unat_of_nat64)
qed

theorem table_size_bounds_witness:
  "\<exists>n w'. addRecordToFile fp_example batch_example [''d'', ''t''] empty_world = Some (Inr n, w')
    \<and> unat n \<le> 8 * length (records_bytes batch_example)"
proof -
  have "\<forall>x \<in> set batch_example. encodable x" using table_example by (simp add: table_ok_def)
  then have "length (records_bytes batch_example) < 2 ^ 61" by (simp add: batch_example_def length_record_bytes)
  from table_size_bounds [OF empty_world_writable table_example this] show ?thesis by blast
qed

section \<open>Damaged files\<close>

text \<open>
  C31: a table record in which at most four consecutive bytes of its type, sequence number, key
  or value have changed is never returned: reading it reports a checksum error.
\<close>

theorem damaged_record_detected:
  assumes "length h = 17" "substr h 0 1 = put_u8 (type_code t)" "substr h 1 8 = put_u64 q"
      "substr h 9 4 = put_u32 (of_nat (length k))" "substr h 13 4 = put_u32 (of_nat (length v))"
    and "length k \<le> 0xFFFFFFFF" "length v \<le> 0xFFFFFFFF"
    and "h @ k @ v = x @ b' @ y" "length b' = length b" "length b \<le> 4" "b' \<noteq> b"
    and "21 + length k + length v \<le> unat n"
  shows "readRecord (pre @ (h @ k @ v) @ put_u32 (crc32 (x @ b @ y)) @ rest, length pre) n
    = Inl (runtime_error ''Corrupt SSTable record checksum'')"
proof -
  have "at_pos (pre @ (h @ k @ v) @ put_u32 (crc32 (x @ b @ y)) @ rest) (length pre)
      (h @ k @ v @ put_u32 (crc32 (x @ b @ y)) @ rest)"
    by (simp add: at_pos_def)
  from readRecord_header [OF assms(1-7) _ this assms(12)]
  show ?thesis using crc32_burst [of b' b x y] assms(8-11) by simp
qed

theorem damaged_record_detected_witness:
  "readRecord ([] @ (put_u8 0 @ put_u64 7 @ put_u32 1 @ put_u32 1) @ ''kX'' @
      put_u32 (crc32 (((put_u8 0 @ put_u64 7 @ put_u32 1 @ put_u32 1) @ ''k'') @ ''v'' @ [])) @ [], 0) 100
    = Inl (runtime_error ''Corrupt SSTable record checksum'')"
  using damaged_record_detected [of "put_u8 0 @ put_u64 7 @ put_u32 1 @ put_u32 1" Type_VALUE 7 "''k''" "''X''"
      "(put_u8 0 @ put_u64 7 @ put_u32 1 @ put_u32 1) @ ''k''" "''X''" "[]" "''v''" 100 "[]" "[]"]
  by (simp add: substr_def type_code_def)

text \<open>
  The footer is accepted exactly when the three section sizes and the footer add up to the
  file size in unbounded arithmetic and there is at least one record byte; no choice of 64 bit sizes
  wraps around the check, so every section lies inside the file.
\<close>

theorem validateFooter_exact:
  "validateFooter ft fileSize = Inr () \<longleftrightarrow>
   0 < unat (ft_recordsSize ft)
   \<and> unat (ft_recordsSize ft) + unat (ft_bloomSize ft) + unat (ft_indexSize ft) + 24 = unat fileSize"
proof -
  let ?r = "unat (ft_recordsSize ft)" and ?b = "unat (ft_bloomSize ft)" and ?i = "unat (ft_indexSize ft)"
  have d0: "unat (fileSize - 24) = unat fileSize - 24" if "24 \<le> unat fileSize"
    using that by (subst unat_sub) (simp_all add: word_le_nat_alt)
  have d: "unat (x - y) = unat x - unat y" if "unat y \<le> unat x" for x y :: u64
    using that by (simp add: unat_sub word_le_nat_alt)
  show ?thesis
  proof (cases "24 \<le> unat fileSize \<and> ?r \<le> unat fileSize - 24 \<and> ?b \<le> unat fileSize - 24 - ?r")
    case True
    then have "unat (fileSize - 24 - ft_recordsSize ft) = unat fileSize - 24 - ?r"
      "unat (fileSize - 24 - ft_recordsSize ft - ft_bloomSize ft) = unat fileSize - 24 - ?r - ?b"
      using d0 by (simp_all add: d)
    with True d0 show ?thesis
      by (auto simp: validateFooter_def kFooterSize_def Let_def word_less_nat_alt word_unat_eq_iff)
  next
    case False
    with d0 d show ?thesis
      by (auto simp: validateFooter_def kFooterSize_def Let_def word_less_nat_alt)
  qed
qed

end
