(* ===== verification/Merge.thy ===== *)
theory Merge
  imports SSTable
begin

text \<open>
  The iterators and the merge of \<open>src/utils.cpp\<close>: a merge of sorted sources through a priority
  queue, the reduction of the merged records to the visible ones for a scan, and to the ones that
  must be kept by a compaction.
\<close>

section \<open>Iterators\<close>

text \<open>
  The subclasses of \<open>Iterator\<close>. A \<open>SnapshotIterator\<close> wraps one of the two others and skips the
  records that are newer than its sequence number.
\<close>

datatype RawIterator = MemIterator MemTableIterator | SstIterator SSTableIterator

fun raw_valid :: "RawIterator \<Rightarrow> bool" where
  "raw_valid (MemIterator it) = MemTableIterator_valid it"
| "raw_valid (SstIterator it) = SSTableIterator_valid it"

fun raw_current :: "RawIterator \<Rightarrow> Record" where
  "raw_current (MemIterator it) = MemTableIterator_current it"
| "raw_current (SstIterator it) = SSTableIterator_current it"

fun raw_advance :: "RawIterator \<Rightarrow> RawIterator result" where
  "raw_advance (MemIterator it) = Inr (MemIterator (MemTableIterator_advance it))"
| "raw_advance (SstIterator it) = rbind (SSTableIterator_advance it) (\<lambda>it. Inr (SstIterator it))"

text \<open>A bound on the records an iterator can still deliver, whatever its state.\<close>

fun raw_left :: "RawIterator \<Rightarrow> nat" where
  "raw_left (MemIterator it) =
     2 * length (mi_currentIterator it) + (if mi_currentRecord it = None then 0 else 1)"
| "raw_left (SstIterator it) =
     2 * (length (fst (si_input it)) - snd (si_input it)) + (if si_currentRecord it = None then 0 else 1)"

lemma raw_advance_left:
  assumes "raw_advance it = Inr it'"
  shows "raw_left it' < raw_left it \<or> raw_left it' = raw_left it \<and> \<not> raw_valid it \<and> \<not> raw_valid it'"
proof (cases it)
  case (MemIterator m)
  with assms show ?thesis
    by (cases "mi_currentIterator m"; cases "tl (mi_currentIterator m)")
      (auto simp: MemTableIterator_advance_def MemTableIterator_refreshCurrentRecord_def
        MemTableIterator_valid_def)
next
  case (SstIterator s)
  with assms obtain s' where s': "loadNextRecord s = Inr s'" "it' = SstIterator s'"
    by (auto simp: SSTableIterator_advance_def)
  show ?thesis
  proof (cases "si_recordsSize s \<le> si_currentPosition s")
    case True
    with s' SstIterator show ?thesis
      by (auto simp: loadNextRecord_def SSTableIterator_valid_def)
  next
    case False
    with s' obtain r input where rd: "readRecord (si_input s) (si_recordsSize s - si_currentPosition s) = Inr (r, input)"
      and s'': "s' = s\<lparr>si_currentRecord := Some r, si_input := input,
                si_currentPosition := si_currentPosition s + encodedRecordSize r\<rparr>"
      by (auto simp: loadNextRecord_def)
    from readRecord_advances [OF rd] s'' s' SstIterator show ?thesis by auto
  qed
qed

text \<open>\<open>SnapshotIterator::skipInvisibleRecords\<close>\<close>

function skipInvisibleRecords :: "u64 \<Rightarrow> RawIterator \<Rightarrow> RawIterator result" where
  "skipInvisibleRecords readSeq it =
     (if raw_valid it \<and> rec_seq (raw_current it) > readSeq
      then rbind (raw_advance it) (\<lambda>it. skipInvisibleRecords readSeq it)
      else Inr it)"
  by pat_completeness auto
termination
  by (relation "measure (\<lambda>(_, it). raw_left it)") (auto dest: raw_advance_left)

declare skipInvisibleRecords.simps [simp del]

datatype Iterator = RawIt RawIterator | SnapshotIterator RawIterator u64

definition SnapshotIterator_new :: "RawIterator \<Rightarrow> u64 \<Rightarrow> Iterator result" where
  "SnapshotIterator_new iterator readSeq =
     rbind (skipInvisibleRecords readSeq iterator) (\<lambda>it. Inr (SnapshotIterator it readSeq))"

fun it_valid :: "Iterator \<Rightarrow> bool" where
  "it_valid (RawIt it) = raw_valid it"
| "it_valid (SnapshotIterator it _) = raw_valid it"

fun it_current :: "Iterator \<Rightarrow> Record" where
  "it_current (RawIt it) = raw_current it"
| "it_current (SnapshotIterator it _) = raw_current it"

fun it_advance :: "Iterator \<Rightarrow> Iterator result" where
  "it_advance (RawIt it) = rbind (raw_advance it) (\<lambda>it. Inr (RawIt it))"
| "it_advance (SnapshotIterator it readSeq) =
     rbind (raw_advance it) (\<lambda>it.
     rbind (skipInvisibleRecords readSeq it) (\<lambda>it. Inr (SnapshotIterator it readSeq)))"

fun it_left :: "Iterator \<Rightarrow> nat" where
  "it_left (RawIt it) = raw_left it"
| "it_left (SnapshotIterator it _) = raw_left it"

section \<open>The priority queue\<close>

record MergeItem =
  mg_key :: string
  mg_sourceIndex :: nat
  mg_seq :: u64

definition MergeItem_less :: "MergeItem \<Rightarrow> MergeItem \<Rightarrow> bool" where
  "MergeItem_less a b \<longleftrightarrow>
     (if mg_key a \<noteq> mg_key b then mg_key a > mg_key b else mg_seq a < mg_seq b)"

text \<open>
  \<open>std::priority_queue\<close>: \<open>top\<close> is an element that no other exceeds. Which of several equal ones is
  not specified; here it is the one that was pushed first.
\<close>

type_synonym merge_queue = "MergeItem list"

definition pq_push :: "MergeItem \<Rightarrow> merge_queue \<Rightarrow> merge_queue" where
  "pq_push x q = q @ [x]"

definition pq_top :: "merge_queue \<Rightarrow> MergeItem" where
  "pq_top q = foldl (\<lambda>m y. if MergeItem_less m y then y else m) (hd q) (tl q)"

definition pq_pop :: "merge_queue \<Rightarrow> merge_queue" where
  "pq_pop q = remove1 (pq_top q) q"

section \<open>The merge\<close>

definition enqueueCurrent :: "merge_queue \<Rightarrow> Iterator list \<Rightarrow> nat \<Rightarrow> merge_queue" where
  "enqueueCurrent queue sources index =
     (let source = sources ! index
      in if it_valid source
         then pq_push \<lparr>mg_key = rec_key (it_current source), mg_sourceIndex = index,
                        mg_seq = rec_seq (it_current source)\<rparr> queue
         else queue)"

lemma skip_left: "skipInvisibleRecords q it = Inr it' \<Longrightarrow> raw_left it' \<le> raw_left it \<and> (raw_valid it' \<longrightarrow> raw_valid it)"
proof (induction q it rule: skipInvisibleRecords.induct)
  case (1 q it)
  show ?case
  proof (cases "raw_valid it \<and> rec_seq (raw_current it) > q")
    case True
    with "1.prems" obtain it1 where a: "raw_advance it = Inr it1" "skipInvisibleRecords q it1 = Inr it'"
      by (subst (asm) skipInvisibleRecords.simps) auto
    from "1.IH" [OF True a] raw_advance_left [OF a(1)] True show ?thesis by auto
  next
    case False
    then have "skipInvisibleRecords q it = Inr it" by (subst skipInvisibleRecords.simps) auto
    with "1.prems" show ?thesis by simp
  qed
qed

lemma it_advance_left:
  assumes "it_advance it = Inr it'"
  shows "it_left it' < it_left it \<or> it_left it' = it_left it \<and> \<not> it_valid it'"
proof (cases it)
  case (RawIt x)
  with assms obtain y where y: "raw_advance x = Inr y" "it' = RawIt y" by auto
  from raw_advance_left [OF y(1)] y RawIt show ?thesis by auto
next
  case (SnapshotIterator x q)
  with assms obtain y z where "raw_advance x = Inr y" "skipInvisibleRecords q y = Inr z"
    "it' = SnapshotIterator z q" by auto
  with raw_advance_left [of x y] skip_left [of q y z] SnapshotIterator show ?thesis by auto
qed

lemma sum_list_update_less:
  "i < length xs \<Longrightarrow> f y < (f (xs ! i) :: nat) \<Longrightarrow> sum_list (map f (xs[i := y])) < sum_list (map f xs)"
proof (induction xs arbitrary: i)
  case (Cons x xs)
  then show ?case by (cases i) auto
qed simp

lemma sum_list_update_eq:
  "i < length xs \<Longrightarrow> f y = (f (xs ! i) :: nat) \<Longrightarrow> sum_list (map f (xs[i := y])) = sum_list (map f xs)"
proof (induction xs arbitrary: i)
  case (Cons x xs)
  then show ?case by (cases i) auto
qed simp

lemma pq_top_mem: "q \<noteq> [] \<Longrightarrow> pq_top q \<in> set q"
proof (cases q)
  case (Cons x xs)
  have "foldl (\<lambda>m y. if MergeItem_less m y then y else m) x xs \<in> insert x (set xs)" for x xs
    by (induction xs arbitrary: x) auto
  with Cons show ?thesis by (simp add: pq_top_def)
qed simp

text \<open>The loop of \<open>mergeAll\<close>. An index outside the sources does not occur (its access is undefined).\<close>

function mergeAll_loop :: "Iterator list \<Rightarrow> merge_queue \<Rightarrow> Record list \<Rightarrow> Record list result" where
  "mergeAll_loop sources queue output =
     (if queue = [] then Inr output
      else
        let winner = pq_top queue;
            queue = pq_pop queue;
            index = mg_sourceIndex winner
        in if index \<ge> length sources then Inl (out_of_range ''sources'')
           else
             let output = output @ [it_current (sources ! index)]
             in rbind (it_advance (sources ! index)) (\<lambda>source.
                let sources = sources[index := source]
                in mergeAll_loop sources (enqueueCurrent queue sources index) output))"
  by pat_completeness auto
termination
proof (relation "measures [\<lambda>(sources, _, _). sum_list (map it_left sources), \<lambda>(_, queue, _). length queue]",
    goal_cases)
  case 1
  show ?case by simp
next
  case (2 sources queue out winner queue' index out' source sources')
  then have i: "index < length sources" by simp
  have q: "length queue' < length queue"
    using 2 pq_top_mem [of queue] by (simp add: pq_pop_def length_remove1)
  from it_advance_left [OF \<open>it_advance (sources ! index) = Inr source\<close>] show ?case
  proof
    assume "it_left source < it_left (sources ! index)"
    with 2 i show ?thesis using sum_list_update_less [of index sources it_left source] by simp
  next
    assume a: "it_left source = it_left (sources ! index) \<and> \<not> it_valid source"
    with 2 i have "enqueueCurrent queue' sources' index = queue'" by (simp add: enqueueCurrent_def)
    with 2 i a q show ?thesis using sum_list_update_eq [of index sources it_left source] by simp
  qed
qed

declare mergeAll_loop.simps [simp del]

definition mergeAll :: "Iterator list \<Rightarrow> Record list result" where
  "mergeAll sources =
     (if sources = [] then Inr []
      else mergeAll_loop sources
             (foldl (\<lambda>queue index. enqueueCurrent queue sources index) [] [0..<length sources]) [])"

section \<open>Reductions of the merged records\<close>

text \<open>\<open>std::ranges::unique\<close> by key keeps the first record of every run with the same key.\<close>

fun unique_keys :: "Record list \<Rightarrow> Record list" where
  "unique_keys [] = []"
| "unique_keys [r] = [r]"
| "unique_keys (r # s # rs) =
     (if rec_key r = rec_key s then unique_keys (r # rs) else r # unique_keys (s # rs))"

definition latestVisiblePerKey :: "Record list \<Rightarrow> Record list" where
  "latestVisiblePerKey records =
     (if records = [] then []
      else filter (\<lambda>r. rec_type r \<noteq> Type_TOMBSTONE) (unique_keys records))"

fun retain_loop :: "u64 \<Rightarrow> string \<Rightarrow> bool \<Rightarrow> Record list \<Rightarrow> Record list" where
  "retain_loop oldest currentKey keptSnapshotBoundary [] = []"
| "retain_loop oldest currentKey keptSnapshotBoundary (record # rest) =
     (let kept = (if rec_key record \<noteq> currentKey then False else keptSnapshotBoundary);
          currentKey = (if rec_key record \<noteq> currentKey then rec_key record else currentKey)
      in if rec_seq record > oldest then record # retain_loop oldest currentKey kept rest
         else if \<not> kept then record # retain_loop oldest currentKey True rest
         else retain_loop oldest currentKey kept rest)"

definition retainForCompaction :: "Record list \<Rightarrow> u64 \<Rightarrow> Record list" where
  "retainForCompaction records oldestSnapshotSequence =
     (if records = [] then []
      else retain_loop oldestSnapshotSequence (rec_key (hd records)) False records)"

section \<open>What an iterator delivers\<close>

text \<open>
  The interface of \<open>Iterator\<close>: \<open>rep it rs\<close> says that the iterator stands before the records \<open>rs\<close>.
\<close>

locale record_iterator =
  fixes valid :: "'it \<Rightarrow> bool"
    and current :: "'it \<Rightarrow> Record"
    and advance :: "'it \<Rightarrow> 'it result"
    and rep :: "'it \<Rightarrow> Record list \<Rightarrow> bool"
  assumes rep_Nil: "rep it [] \<Longrightarrow> \<not> valid it"
    and rep_Cons: "rep it (r # rs) \<Longrightarrow>
      valid it \<and> current it = r \<and> (\<exists>it'. advance it = Inr it' \<and> rep it' rs)"
begin

lemma valid_iff: "rep it rs \<Longrightarrow> valid it \<longleftrightarrow> rs \<noteq> []"
  using rep_Nil rep_Cons by (cases rs) auto

lemma current_hd: "rep it rs \<Longrightarrow> rs \<noteq> [] \<Longrightarrow> current it = hd rs"
  using rep_Cons by (cases rs) auto

lemma advance_tl: "rep it rs \<Longrightarrow> rs \<noteq> [] \<Longrightarrow> \<exists>it'. advance it = Inr it' \<and> rep it' (tl rs)"
  using rep_Cons by (cases rs) auto

end

definition mem_rep :: "MemTableIterator \<Rightarrow> Record list \<Rightarrow> bool" where
  "mem_rep it rs \<longleftrightarrow> map entry_record (mi_currentIterator it) = rs
     \<and> mi_currentRecord it = (case rs of [] \<Rightarrow> None | r # _ \<Rightarrow> Some r)"

definition sst_pending :: "SSTableIterator \<Rightarrow> Record list \<Rightarrow> bool" where
  "sst_pending it rs \<longleftrightarrow>
     (\<exists>content pos s. si_input it = (content, pos) \<and> at_pos content pos (records_bytes rs @ s)
        \<and> (\<forall>r \<in> set rs. encodable r) \<and> si_currentPosition it = of_nat pos
        \<and> si_recordsSize it = of_nat (pos + length (records_bytes rs))
        \<and> pos + length (records_bytes rs) < 2 ^ 64)"

definition sst_rep :: "SSTableIterator \<Rightarrow> Record list \<Rightarrow> bool" where
  "sst_rep it rs \<longleftrightarrow>
     (case rs of [] \<Rightarrow> si_currentRecord it = None
      | r # rest \<Rightarrow> si_currentRecord it = Some r \<and> sst_pending it rest)"

fun raw_rep :: "RawIterator \<Rightarrow> Record list \<Rightarrow> bool" where
  "raw_rep (MemIterator it) rs = mem_rep it rs"
| "raw_rep (SstIterator it) rs = sst_rep it rs"

fun it_rep :: "Iterator \<Rightarrow> Record list \<Rightarrow> bool" where
  "it_rep (RawIt it) rs = raw_rep it rs"
| "it_rep (SnapshotIterator it q) rs =
     (\<exists>all. raw_rep it all \<and> rs = filter (\<lambda>r. rec_seq r \<le> q) all \<and> (all = [] \<or> rec_seq (hd all) \<le> q))"

lemma mem_refresh_rep:
  "mem_rep (MemTableIterator_refreshCurrentRecord it) (map entry_record (mi_currentIterator it))"
  by (cases "mi_currentIterator it")
    (auto simp: mem_rep_def MemTableIterator_refreshCurrentRecord_def)

interpretation mem_it: record_iterator MemTableIterator_valid MemTableIterator_current
  "\<lambda>it. Inr (MemTableIterator_advance it)" mem_rep
proof
  show "mem_rep it [] \<Longrightarrow> \<not> MemTableIterator_valid it" for it
    by (simp add: mem_rep_def MemTableIterator_valid_def)
  show "mem_rep it (r # rs) \<Longrightarrow> MemTableIterator_valid it \<and> MemTableIterator_current it = r \<and>
      (\<exists>it'. Inr (MemTableIterator_advance it) = (Inr it' :: MemTableIterator result) \<and> mem_rep it' rs)" for it r rs
    using mem_refresh_rep [of "it\<lparr>mi_currentIterator := tl (mi_currentIterator it)\<rparr>"]
    by (auto simp: mem_rep_def MemTableIterator_valid_def MemTableIterator_current_def
        MemTableIterator_advance_def map_tl)
qed

text \<open>A new iterator over a MemTable stands before all its records.\<close>

lemma MemTableIterator_new_rep: "mem_rep (MemTableIterator_new m) (mt_records m)"
  using mem_refresh_rep [of "\<lparr>mi_currentRecord = None, mi_currentIterator = mt_table m\<rparr>"]
  by (simp add: MemTableIterator_new_def mt_records_def)

lemma loadNextRecord_pending:
  assumes "sst_pending it rs"
  shows "\<exists>it'. loadNextRecord it = Inr it' \<and> sst_rep it' rs"
proof -
  from assms obtain content pos s where p: "si_input it = (content, pos)"
      "at_pos content pos (records_bytes rs @ s)" "\<forall>r \<in> set rs. encodable r"
      "si_currentPosition it = of_nat pos" "si_recordsSize it = of_nat (pos + length (records_bytes rs))"
      "pos + length (records_bytes rs) < 2 ^ 64"
    unfolding sst_pending_def by blast
  show ?thesis
  proof (cases rs)
    case Nil
    with p show ?thesis by (simp add: loadNextRecord_def sst_rep_def)
  next
    case (Cons r rest)
    let ?n = "length (record_bytes r)"
    have r: "encodable r" and a: "at_pos content pos (record_bytes r @ records_bytes rest @ s)"
      using p Cons by simp_all
    have lt: "(of_nat pos :: u64) < of_nat (pos + length (records_bytes rs))"
      using p(6) length_record_bytes [OF r] Cons by (intro of_nat_less64) simp_all
    have "unat (of_nat (pos + length (records_bytes rs)) - of_nat pos :: u64)
        = pos + length (records_bytes rs) - pos"
      using p(6) by (intro unat_of_nat_diff64) simp_all
    then have "readRecord (content, pos) (of_nat (pos + length (records_bytes rs)) - of_nat pos)
        = Inr (r, (content, pos + ?n))"
      by (intro readRecord_at [OF a r]) (simp add: Cons)
    then have "loadNextRecord it = Inr (it\<lparr>si_currentRecord := Some r, si_input := (content, pos + ?n),
        si_currentPosition := of_nat (pos + ?n)\<rparr>)"
      using p lt by (simp add: loadNextRecord_def encodedRecordSize_bytes [OF r] not_le del: of_nat_add)
        (simp add: not_le [symmetric])
    moreover have "sst_pending (it\<lparr>si_currentRecord := Some r, si_input := (content, pos + ?n),
        si_currentPosition := of_nat (pos + ?n)\<rparr>) rest"
      unfolding sst_pending_def using p Cons at_pos_skip [OF a]
      by (intro exI [of _ content] exI [of _ "pos + ?n"] exI [of _ s]) (simp add: add.assoc)
    ultimately show ?thesis by (simp add: sst_rep_def Cons)
  qed
qed

interpretation sst_it: record_iterator SSTableIterator_valid SSTableIterator_current
  SSTableIterator_advance sst_rep
  by unfold_locales
    (auto simp: sst_rep_def SSTableIterator_valid_def SSTableIterator_current_def
      SSTableIterator_advance_def dest: loadNextRecord_pending)

text \<open>A new iterator over a table file stands before all its records.\<close>

lemma SSTableIterator_new_rep:
  assumes "nominal w" "table_file fp w p rs"
  shows "\<exists>it. SSTableIterator_new p w = Some (Inr it, w) \<and> sst_rep it rs"
proof -
  let ?c = "sst_image fp rs" and ?ft = "sst_footer fp rs"
  have ok: "table_ok fp rs" and c: "content_of w p = Some ?c"
    using assms(2) by (simp_all add: table_file_def)
  note sz = table_ok_sizes [OF ok]
  define it0 where "it0 = \<lparr>si_currentRecord = None, si_input = (?c, 0),
    si_recordsSize = ft_recordsSize ?ft, si_currentPosition = 0\<rparr>"
  have "sst_pending it0 rs"
    unfolding sst_pending_def it0_def using ok sz(1)
    by (intro exI [of _ ?c] exI [of _ 0] exI [of _ "drop (length (records_bytes rs)) ?c"])
      (simp add: table_ok_def sst_footer_def at_pos_def sst_image_def)
  then obtain it where it: "loadNextRecord it0 = Inr it" "sst_rep it rs"
    using loadNextRecord_pending by blast
  have rd: "sys_open_read p w = (Some ?c, w)" using assms(1) c by (simp add: sys_open_read_def)
  have "file_size p w = of_nat (length ?c)" using c by (simp add: file_size_def)
  then have "SSTableIterator_new p w = Some (Inr it, w)"
    using rd it(1) readFooter_image [of fp rs] validateFooter_image [OF ok]
      nominal_check_regular [OF assms(1) c] nominal_fs_throwing [OF assms(1), of "file_size p"]
    by (simp add: SSTableIterator_new_def io_bind_def io_act_def seekg_def it0_def)
  with it(2) show ?thesis by blast
qed

interpretation raw_it: record_iterator raw_valid raw_current raw_advance raw_rep
proof
  fix it r rs
  show "raw_rep it [] \<Longrightarrow> \<not> raw_valid it"
    by (cases it) (simp_all add: mem_it.rep_Nil sst_it.rep_Nil)
  show "raw_rep it (r # rs) \<Longrightarrow>
      raw_valid it \<and> raw_current it = r \<and> (\<exists>it'. raw_advance it = Inr it' \<and> raw_rep it' rs)"
  proof (cases it)
    case (MemIterator m)
    then show "raw_rep it (r # rs) \<Longrightarrow> ?thesis" using mem_it.rep_Cons [of m r rs] by auto
  next
    case (SstIterator s)
    then show "raw_rep it (r # rs) \<Longrightarrow> ?thesis" using sst_it.rep_Cons [of s r rs] by auto
  qed
qed

lemma skip_rep:
  "raw_rep it all \<Longrightarrow> \<exists>it' rest. skipInvisibleRecords q it = Inr it' \<and> raw_rep it' rest
     \<and> filter (\<lambda>r. rec_seq r \<le> q) rest = filter (\<lambda>r. rec_seq r \<le> q) all
     \<and> (rest = [] \<or> rec_seq (hd rest) \<le> q)"
proof (induction all arbitrary: it)
  case Nil
  then have "skipInvisibleRecords q it = Inr it"
    by (subst skipInvisibleRecords.simps) (simp add: raw_it.rep_Nil)
  with Nil show ?case by auto
next
  case (Cons r rs)
  from raw_it.rep_Cons [OF Cons.prems] obtain it1 where v: "raw_valid it" "raw_current it = r"
    and a: "raw_advance it = Inr it1" "raw_rep it1 rs" by blast
  show ?case
  proof (cases "rec_seq r > q")
    case True
    then have "skipInvisibleRecords q it = skipInvisibleRecords q it1"
      using v a by (subst skipInvisibleRecords.simps) simp
    with Cons.IH [OF a(2)] True show ?thesis by (auto simp: not_le)
  next
    case False
    then have "skipInvisibleRecords q it = Inr it"
      using v by (subst skipInvisibleRecords.simps) simp
    with Cons.prems False show ?thesis by (intro exI [of _ it] exI [of _ "r # rs"]) (auto simp: not_less)
  qed
qed

lemma SnapshotIterator_new_rep:
  assumes "raw_rep it all"
  shows "\<exists>it'. SnapshotIterator_new it q = Inr it' \<and> it_rep it' (filter (\<lambda>r. rec_seq r \<le> q) all)"
proof -
  obtain it1 rest where s: "skipInvisibleRecords q it = Inr it1" and r: "raw_rep it1 rest"
     "filter (\<lambda>r. rec_seq r \<le> q) all = filter (\<lambda>r. rec_seq r \<le> q) rest"
     "rest = [] \<or> rec_seq (hd rest) \<le> q"
    using skip_rep [OF assms, of q] by metis
  have "SnapshotIterator_new it q = Inr (SnapshotIterator it1 q)"
    using s by (simp add: SnapshotIterator_new_def)
  moreover have "it_rep (SnapshotIterator it1 q) (filter (\<lambda>r. rec_seq r \<le> q) all)"
    unfolding it_rep.simps by (intro exI [of _ rest] conjI r)
  ultimately show ?thesis by blast
qed

interpretation any_it: record_iterator it_valid it_current it_advance it_rep
proof
  fix it r rs
  show "it_rep it [] \<Longrightarrow> \<not> it_valid it"
  proof (cases it)
    case (SnapshotIterator x q)
    assume "it_rep it []"
    with SnapshotIterator obtain all where "raw_rep x all" "filter (\<lambda>r. rec_seq r \<le> q) all = []"
      "all = [] \<or> rec_seq (hd all) \<le> q" by auto
    then have "raw_rep x []" by (cases all) auto
    with SnapshotIterator raw_it.rep_Nil show ?thesis by simp
  qed (auto dest: raw_it.rep_Nil)
  show "it_rep it (r # rs) \<Longrightarrow> it_valid it \<and> it_current it = r \<and> (\<exists>it'. it_advance it = Inr it' \<and> it_rep it' rs)"
  proof (cases it)
    case (RawIt x)
    then show "it_rep it (r # rs) \<Longrightarrow> ?thesis" using raw_it.rep_Cons [of x r rs] by auto
  next
    case (SnapshotIterator x q)
    assume "it_rep it (r # rs)"
    with SnapshotIterator obtain all where all: "raw_rep x all" "r # rs = filter (\<lambda>r. rec_seq r \<le> q) all"
      "all = [] \<or> rec_seq (hd all) \<le> q" by auto
    then obtain rest where rest: "all = r # rest" "rs = filter (\<lambda>r. rec_seq r \<le> q) rest"
      by (cases all) auto
    with all raw_it.rep_Cons [of x r rest] obtain y where y: "raw_valid x" "raw_current x = r"
      "raw_advance x = Inr y" "raw_rep y rest" by auto
    from SnapshotIterator_new_rep [OF y(4), of q] y rest SnapshotIterator show ?thesis
      by (auto simp: SnapshotIterator_new_def)
  qed
qed

section \<open>The merge is a sorted permutation\<close>

text \<open>The contract of \<open>std::priority_queue\<close>, with the multiset of its elements as abstraction.\<close>

locale priority_queue =
  fixes push :: "'a \<Rightarrow> 'q \<Rightarrow> 'q"
    and front :: "'q \<Rightarrow> 'a"
    and pop :: "'q \<Rightarrow> 'q"
    and elems :: "'q \<Rightarrow> 'a multiset"
    and lt :: "'a \<Rightarrow> 'a \<Rightarrow> bool"
  assumes elems_push: "elems (push x q) = add_mset x (elems q)"
    and elems_pop: "elems q \<noteq> {#} \<Longrightarrow> elems q = add_mset (front q) (elems (pop q))"
    and front_max: "x \<in># elems q \<Longrightarrow> \<not> lt (front q) x"
begin

text \<open>Popping an element and pushing another one replaces a greatest element.\<close>

lemma elems_replace:
  assumes "elems q = add_mset x M" "x = front q"
  shows "elems (pop q) = M" "elems (push y (pop q)) = add_mset y M"
  using assms elems_pop [of q] elems_push by auto

lemma front_mem: "elems q \<noteq> {#} \<Longrightarrow> front q \<in># elems q"
  using elems_pop by (metis union_single_eq_member)

end

definition item_key :: "MergeItem \<Rightarrow> Key" where
  "item_key x = Key (mg_key x) (mg_seq x)"

lemma MergeItem_less_key: "MergeItem_less a b \<longleftrightarrow> item_key b < item_key a"
  by (auto simp: MergeItem_less_def item_key_def)

lemma pq_top_least: "x \<in> set q \<Longrightarrow> item_key (pq_top q) \<le> item_key x"
proof -
  have *: "x \<in> insert a (set xs) \<Longrightarrow>
      item_key (foldl (\<lambda>m y. if MergeItem_less m y then y else m) a xs) \<le> item_key x" for a xs x
  proof (induction xs arbitrary: a x)
    case (Cons y xs)
    let ?m = "if MergeItem_less a y then y else a"
    have m: "item_key ?m \<le> item_key a" "item_key ?m \<le> item_key y"
      by (auto simp: MergeItem_less_key not_less)
    have "item_key (foldl (\<lambda>m y. if MergeItem_less m y then y else m) ?m xs) \<le> item_key ?m"
      using Cons.IH [of ?m ?m] by blast
    from order_trans [OF this m(1)] order_trans [OF this m(2)] Cons.IH [of x ?m] Cons.prems show ?case
      by auto
  qed simp
  assume "x \<in> set q"
  then show ?thesis using * [of x "hd q" "tl q"] by (cases q) (auto simp: pq_top_def)
qed

interpretation merge_pq: priority_queue pq_push pq_top pq_pop mset MergeItem_less
proof
  show "mset (pq_push x q) = add_mset x (mset q)" for x q by (simp add: pq_push_def)
  show "mset q \<noteq> {#} \<Longrightarrow> mset q = add_mset (pq_top q) (mset (pq_pop q))" for q
    using pq_top_mem [of q] by (simp add: pq_pop_def)
  show "x \<in># mset q \<Longrightarrow> \<not> MergeItem_less (pq_top q) x" for x q
    using pq_top_least [of x q] by (simp add: MergeItem_less_key not_less)
qed

text \<open>The queue holds the head of every source that has records left.\<close>

definition head_item :: "Record list list \<Rightarrow> nat \<Rightarrow> MergeItem" where
  "head_item pend i = \<lparr>mg_key = rec_key (hd (pend ! i)), mg_sourceIndex = i, mg_seq = rec_seq (hd (pend ! i))\<rparr>"

definition alive :: "Record list list \<Rightarrow> nat set" where
  "alive pend = {i. i < length pend \<and> pend ! i \<noteq> []}"

definition merge_state :: "Iterator list \<Rightarrow> merge_queue \<Rightarrow> Record list list \<Rightarrow> bool" where
  "merge_state sources queue pend \<longleftrightarrow> length sources = length pend
     \<and> (\<forall>i < length pend. it_rep (sources ! i) (pend ! i))
     \<and> mset queue = image_mset (head_item pend) (mset_set (alive pend))"

lemma alive_finite [simp]: "finite (alive pend)"
  by (simp add: alive_def)

lemma enqueue_mset:
  assumes "it_rep (sources ! i) (pend ! i)" "i < length pend"
  shows "mset (enqueueCurrent queue sources i) =
    (if pend ! i = [] then mset queue else add_mset (head_item pend i) (mset queue))"
  using any_it.valid_iff [OF assms(1)] any_it.current_hd [OF assms(1)]
  by (auto simp: enqueueCurrent_def head_item_def Let_def merge_pq.elems_push)

lemma merge_state_init:
  assumes "length sources = length pend" "\<forall>i < length pend. it_rep (sources ! i) (pend ! i)"
  shows "merge_state sources (foldl (\<lambda>queue i. enqueueCurrent queue sources i) [] [0..<length sources]) pend"
proof -
  have "n \<le> length pend \<Longrightarrow> mset (foldl (\<lambda>queue i. enqueueCurrent queue sources i) [] [0..<n])
      = image_mset (head_item pend) (mset_set (alive pend \<inter> {..<n}))" for n
  proof (induction n)
    case (Suc n)
    then have "mset (foldl (\<lambda>queue i. enqueueCurrent queue sources i) [] [0..<Suc n]) =
      (if pend ! n = [] then image_mset (head_item pend) (mset_set (alive pend \<inter> {..<n}))
       else add_mset (head_item pend n) (image_mset (head_item pend) (mset_set (alive pend \<inter> {..<n}))))"
      using assms(2) enqueue_mset [of sources n pend "foldl (\<lambda>queue i. enqueueCurrent queue sources i) [] [0..<n]"]
      by simp
    moreover have "alive pend \<inter> {..<Suc n} =
        (if pend ! n = [] then alive pend \<inter> {..<n} else insert n (alive pend \<inter> {..<n}))"
      using Suc.prems by (auto simp: alive_def less_Suc_eq)
    ultimately show ?case by simp
  qed simp
  from this [OF order_refl] assms show ?thesis
    by (simp add: merge_state_def) (metis (no_types, lifting) alive_def inf.absorb1 lessThan_iff mem_Collect_eq subsetI)
qed

lemma merge_state_step:
  assumes st: "merge_state sources queue pend" and q: "queue \<noteq> []"
  defines "i \<equiv> mg_sourceIndex (pq_top queue)"
  shows "i < length sources" "pend ! i \<noteq> []" "it_current (sources ! i) = hd (pend ! i)"
    and "\<forall>j \<in> alive pend. rkey (hd (pend ! i)) \<le> rkey (hd (pend ! j))"
    and "\<exists>source. it_advance (sources ! i) = Inr source \<and>
      merge_state (sources[i := source]) (enqueueCurrent (pq_pop queue) (sources[i := source]) i)
        (pend[i := tl (pend ! i)])"
proof -
  have len: "length sources = length pend" and rep: "\<And>i. i < length pend \<Longrightarrow> it_rep (sources ! i) (pend ! i)"
    and ms: "mset queue = image_mset (head_item pend) (mset_set (alive pend))"
    using st by (simp_all add: merge_state_def)
  have "pq_top queue \<in># mset queue" using merge_pq.front_mem q by simp
  then obtain j where j: "pq_top queue = head_item pend j" "j \<in> alive pend"
    unfolding ms by auto
  then have ij: "i = j" by (simp add: i_def head_item_def)
  have i: "i < length pend" "pend ! i \<noteq> []" using j ij by (simp_all add: alive_def)
  then show "i < length sources" "pend ! i \<noteq> []" using len by simp_all
  show "it_current (sources ! i) = hd (pend ! i)" using rep i any_it.current_hd by simp
  show "\<forall>j \<in> alive pend. rkey (hd (pend ! i)) \<le> rkey (hd (pend ! j))"
  proof
    fix x assume "x \<in> alive pend"
    then have "head_item pend x \<in> set queue"
      unfolding set_mset_mset [symmetric] ms by simp
    from pq_top_least [OF this] j ij show "rkey (hd (pend ! i)) \<le> rkey (hd (pend ! x))"
      by (simp add: item_key_def head_item_def rkey_def)
  qed
  from any_it.advance_tl [OF rep [OF i(1)] i(2)] obtain source where
    a: "it_advance (sources ! i) = Inr source" "it_rep source (tl (pend ! i))" by blast
  let ?pend = "pend[i := tl (pend ! i)]" and ?rest = "alive pend - {i}"
  have "mset queue = add_mset (head_item pend i) (image_mset (head_item pend) (mset_set ?rest))"
    using ms j ij mset_set.remove [of "alive pend" i] by simp
  from merge_pq.elems_replace(1) [OF this] j ij
  have pop: "mset (pq_pop queue) = image_mset (head_item pend) (mset_set ?rest)" by simp
  have same: "image_mset (head_item ?pend) (mset_set ?rest) = image_mset (head_item pend) (mset_set ?rest)"
    by (rule image_mset_cong) (simp add: head_item_def)
  have alive': "alive ?pend = (if tl (pend ! i) = [] then ?rest else insert i ?rest)"
    using i by (auto simp: alive_def nth_list_update)
  have enq: "mset (enqueueCurrent (pq_pop queue) (sources[i := source]) i)
      = (if tl (pend ! i) = [] then mset (pq_pop queue) else add_mset (head_item ?pend i) (mset (pq_pop queue)))"
    using enqueue_mset [of "sources[i := source]" i ?pend "pq_pop queue"] a(2) i len by simp
  have "mset_set (insert i ?rest) = add_mset i (mset_set ?rest)"
    by (rule mset_set.insert) simp_all
  then have "mset (enqueueCurrent (pq_pop queue) (sources[i := source]) i)
      = image_mset (head_item ?pend) (mset_set (alive ?pend))"
    unfolding enq pop alive' same [symmetric]
    by (cases "tl (pend ! i) = []") (simp_all only: if_True if_False image_mset_add_mset simp_thms)
  then have "merge_state (sources[i := source]) (enqueueCurrent (pq_pop queue) (sources[i := source]) i) ?pend"
    using len rep a(2) i by (auto simp: merge_state_def nth_list_update)
  with a(1) show "\<exists>source. it_advance (sources ! i) = Inr source \<and>
      merge_state (sources[i := source]) (enqueueCurrent (pq_pop queue) (sources[i := source]) i) ?pend"
    by blast
qed

lemma concat_update_mset:
  "i < length pend \<Longrightarrow> pend ! i = r # rest \<Longrightarrow>
   mset (concat pend) = add_mset r (mset (concat (pend[i := rest])))"
proof (induction pend arbitrary: i)
  case (Cons p pend)
  then show ?case by (cases i) auto
qed simp

lemma mergeAll_loop_correct:
  assumes "merge_state sources queue pend" "\<forall>rs \<in> set pend. sorted_wrt (\<lambda>a b. rkey a \<le> rkey b) rs"
  shows "\<exists>out. mergeAll_loop sources queue acc = Inr (acc @ out) \<and> mset out = mset (concat pend)
    \<and> sorted_wrt (\<lambda>a b. rkey a \<le> rkey b) out"
  using assms
proof (induction "length (concat pend)" arbitrary: sources queue pend acc)
  case 0
  then have "alive pend = {}" by (auto simp: alive_def)
  with "0.prems" have "queue = []" by (simp add: merge_state_def)
  with 0 show ?case by (subst mergeAll_loop.simps) simp
next
  case (Suc n)
  have "queue \<noteq> []"
  proof
    assume "queue = []"
    with Suc.prems(1) have "alive pend = {}" by (simp add: merge_state_def mset_set_empty_iff)
    then have "\<forall>p \<in> set pend. p = []" by (auto simp: alive_def in_set_conv_nth)
    with Suc.hyps(2) show False by (metis concat_eq_Nil_conv list.size(3) nat.distinct(1))
  qed
  note step = merge_state_step [OF Suc.prems(1) this]
  define i where "i = mg_sourceIndex (pq_top queue)"
  define r rest where "r = hd (pend ! i)" and "rest = tl (pend ! i)"
  have i: "i < length pend" "pend ! i = r # rest"
    using step(1,2) Suc.prems(1) by (simp_all add: i_def r_def rest_def merge_state_def)
  obtain source where a: "it_advance (sources ! i) = Inr source"
    and st: "merge_state (sources[i := source]) (enqueueCurrent (pq_pop queue) (sources[i := source]) i) (pend[i := rest])"
    using step(5) by (auto simp: i_def rest_def)
  have ms: "mset (concat pend) = add_mset r (mset (concat (pend[i := rest])))"
    by (rule concat_update_mset [OF i])
  have ri: "sorted_wrt (\<lambda>a b. rkey a \<le> rkey b) (r # rest)" using Suc.prems(2) i by (metis nth_mem)
  have sorted': "\<forall>rs \<in> set (pend[i := rest]). sorted_wrt (\<lambda>a b. rkey a \<le> rkey b) rs"
    using Suc.prems(2) ri set_update_subset_insert [of pend i rest] by auto
  have "n = length (concat (pend[i := rest]))"
    using Suc.hyps(2) arg_cong [OF ms, of size] by (simp del: length_concat)
  from Suc.hyps(1) [OF this st sorted', of "acc @ [r]"] obtain out where
    out: "mergeAll_loop (sources[i := source]) (enqueueCurrent (pq_pop queue) (sources[i := source]) i) (acc @ [r])
        = Inr ((acc @ [r]) @ out)" "mset out = mset (concat (pend[i := rest]))"
      "sorted_wrt (\<lambda>a b. rkey a \<le> rkey b) out" by blast
  have least: "rkey r \<le> rkey x" if "x \<in> set (concat pend)" for x
  proof -
    from that obtain j where j: "j < length pend" "x \<in> set (pend ! j)"
      by (metis UN_E in_set_conv_nth set_concat)
    then obtain y ys where y: "pend ! j = y # ys" by (cases "pend ! j") auto
    have "rkey r \<le> rkey y" using step(4) j y by (force simp: alive_def i_def r_def)
    moreover have "rkey y \<le> rkey x" using Suc.prems(2) j y by (metis nth_mem order_refl set_ConsD sorted_wrt.simps(2))
    ultimately show ?thesis by (rule order_trans)
  qed
  have "mergeAll_loop sources queue acc = Inr (acc @ r # out)"
    using \<open>queue \<noteq> []\<close> step(1,3) a out(1)
    by (subst mergeAll_loop.simps) (simp add: Let_def i_def [symmetric] r_def not_le)
  moreover have "rkey r \<le> rkey x" if "x \<in> set out" for x
    using that least ms out(2) by (metis insert_iff set_mset_add_mset_insert set_mset_mset)
  ultimately show ?case using out(2,3) ms by (intro exI [of _ "r # out"]) simp
qed

lemma sorted_records_le: "sorted_records rs \<Longrightarrow> sorted_wrt (\<lambda>a b. rkey a \<le> rkey b) rs"
  by (induction rs) (auto intro: less_imp_le)

lemma mergeAll_correct:
  assumes "list_all2 it_rep sources pend" "\<forall>rs \<in> set pend. sorted_records rs"
  shows "\<exists>out. mergeAll sources = Inr out \<and> mset out = mset (concat pend)
    \<and> sorted_wrt (\<lambda>a b. rkey a \<le> rkey b) out"
proof (cases "sources = []")
  case True
  with assms show ?thesis by (simp add: mergeAll_def)
next
  case False
  have "merge_state sources (foldl (\<lambda>queue i. enqueueCurrent queue sources i) [] [0..<length sources]) pend"
    using assms(1) by (intro merge_state_init) (simp_all add: list_all2_conv_all_nth)
  moreover have "\<forall>rs \<in> set pend. sorted_wrt (\<lambda>a b. rkey a \<le> rkey b) rs"
    using assms(2) sorted_records_le by blast
  ultimately show ?thesis
    using mergeAll_loop_correct [of sources _ pend "[]"] False by (simp add: mergeAll_def)
qed

text \<open>With versions that are unique across the sources the result is strictly sorted.\<close>

lemma sorted_le_unique:
  assumes "sorted_wrt (\<lambda>a b. rkey a \<le> rkey b) rs" "unique_versions rs" "distinct rs"
  shows "sorted_records rs"
  using assms
proof (induction rs)
  case (Cons r rs)
  have "rkey r < rkey x" if "x \<in> set rs" for x
  proof -
    have "rkey r \<le> rkey x" "r \<noteq> x" using that Cons.prems by auto
    moreover have "rkey r \<noteq> rkey x"
      using Cons.prems(2) that \<open>r \<noteq> x\<close> by (auto simp: unique_versions_def inj_on_def)
    ultimately show ?thesis by simp
  qed
  moreover have "sorted_records rs" using Cons by (simp add: unique_versions_def)
  ultimately show ?case by simp
qed simp

section \<open>What the reductions keep\<close>

lemma unique_keys_subset: "set (unique_keys rs) \<subseteq> set rs"
  by (induction rs rule: unique_keys.induct) auto

lemma unique_keys_Nil [simp]: "unique_keys rs = [] \<longleftrightarrow> rs = []"
  by (induction rs rule: unique_keys.induct) auto

lemma unique_keys_sorted: "sorted_records rs \<Longrightarrow> sorted_wrt (\<lambda>a b. rec_key a < rec_key b) (unique_keys rs)"
proof (induction rs rule: unique_keys.induct)
  case (3 r s rs)
  show ?case
  proof (cases "rec_key r = rec_key s")
    case False
    with "3.prems" have rs: "rec_key r < rec_key s" by (auto simp: rkey_less)
    have "rec_key s \<le> rec_key x" if "x \<in> set (s # rs)" for x
      using that "3.prems" by (auto simp: rkey_less)
    with rs unique_keys_subset [of "s # rs"] False "3.IH"(2) "3.prems" show ?thesis
      by (auto intro: order_less_le_trans)
  qed (use 3 in simp)
qed simp_all

text \<open>The first record of every key is the newest.\<close>

lemma unique_keys_set:
  "sorted_records rs \<Longrightarrow>
   r \<in> set (unique_keys rs) \<longleftrightarrow> r \<in> set rs \<and> (\<forall>x \<in> set rs. rec_key x = rec_key r \<longrightarrow> rec_seq x \<le> rec_seq r)"
proof (induction rs rule: unique_keys.induct)
  case (3 a b rs)
  have ab: "rkey a < rkey b" and srt: "sorted_records (a # rs)" "sorted_records (b # rs)"
    and later: "\<And>x. x \<in> set (b # rs) \<Longrightarrow> rkey a < rkey x"
    using "3.prems" by auto
  show ?case
  proof (cases "rec_key a = rec_key b")
    case True
    with ab have "rec_seq b < rec_seq a" by (simp add: rkey_less)
    with True "3.IH"(1) [OF True srt(1)] show ?thesis
      by (auto dest: less_imp_le intro: order_trans)
  next
    case False
    have key: "rec_key a < rec_key x" if "x \<in> set (b # rs)" for x
    proof -
      have "rec_key a < rec_key b" using ab False by (auto simp: rkey_less)
      also have "rec_key b \<le> rec_key x" using that "3.prems" by (auto simp: rkey_less)
      finally show ?thesis .
    qed
    have ne: "rec_key x \<noteq> rec_key a" if "x \<in> set (b # rs)" for x using key [OF that] by auto
    show ?thesis
    proof (cases "r = a")
      case True
      with False ne show ?thesis by auto
    next
      case ra: False
      then show ?thesis using False "3.IH"(2) [OF False srt(2)] ne by (auto dest: sym)
    qed
  qed
qed auto

lemma latestVisible_spec:
  assumes "sorted_records rs" "\<forall>r \<in> set rs. rec_seq r \<le> q"
  shows "r \<in> set (latestVisiblePerKey rs) \<longleftrightarrow>
    visible rs (rec_key r) q = Some r \<and> rec_type r \<noteq> Type_TOMBSTONE"
proof -
  have "r \<in> set (unique_keys rs) \<longleftrightarrow> visible rs (rec_key r) q = Some r"
  proof
    assume "r \<in> set (unique_keys rs)"
    then have "r \<in> set rs" "\<forall>x \<in> set rs. rec_key x = rec_key r \<longrightarrow> rec_seq x \<le> rec_seq r"
      by (simp_all add: unique_keys_set [OF assms(1)])
    then show "visible rs (rec_key r) q = Some r"
      using assms by (intro visible_eqI sorted_records_unique) (auto simp: eligible_def)
  next
    assume "visible rs (rec_key r) q = Some r"
    from visible_SomeD [OF this] assms(2) show "r \<in> set (unique_keys rs)"
      by (auto simp: unique_keys_set [OF assms(1)] eligible_def)
  qed
  moreover have "unique_keys rs = [] \<longleftrightarrow> rs = []" by simp
  ultimately show ?thesis by (auto simp: latestVisiblePerKey_def)
qed

text \<open>The versions a compaction must keep for readers at or after \<open>oldest\<close>.\<close>

definition needed :: "Record list \<Rightarrow> u64 \<Rightarrow> Record \<Rightarrow> bool" where
  "needed rs oldest r \<longleftrightarrow> rec_seq r > oldest
     \<or> (\<forall>x \<in> set rs. rec_key x = rec_key r \<and> rec_seq x \<le> oldest \<longrightarrow> rec_seq x \<le> rec_seq r)"

lemma retain_loop_set:
  assumes "sorted_records rs" "\<forall>x \<in> set rs. k0 \<le> rec_key x"
  shows "r \<in> set (retain_loop oldest k0 kept rs) \<longleftrightarrow>
    r \<in> set rs \<and> needed rs oldest r \<and> (kept \<and> rec_key r = k0 \<longrightarrow> rec_seq r > oldest)"
  using assms
proof (induction rs arbitrary: k0 kept)
  case (Cons a rs)
  define kept' where "kept' \<longleftrightarrow> rec_key a = k0 \<and> kept"
  have srt: "sorted_records rs" and later: "\<And>x. x \<in> set rs \<Longrightarrow> rkey a < rkey x"
    and key: "\<forall>x \<in> set rs. rec_key a \<le> rec_key x" and seq: "\<And>x. x \<in> set rs \<Longrightarrow> rec_key x = rec_key a \<Longrightarrow> rec_seq x < rec_seq a"
    and na: "a \<notin> set rs"
    using Cons.prems by (auto simp: rkey_less)
  note IH = Cons.IH [OF srt key]
  have keptk: "kept \<and> rec_key x = k0 \<longleftrightarrow> kept' \<and> rec_key x = rec_key a" if "x \<in> set (a # rs)" for x
    using that Cons.prems(2) key by (force simp: kept'_def dest: order_antisym)
  have step: "retain_loop oldest k0 kept (a # rs) =
     (if rec_seq a > oldest then a # retain_loop oldest (rec_key a) kept' rs
      else if \<not> kept' then a # retain_loop oldest (rec_key a) True rs
      else retain_loop oldest (rec_key a) kept' rs)"
    by (auto simp: Let_def kept'_def)
  have need_a: "needed (a # rs) oldest a"
    using seq by (auto simp: needed_def intro: less_imp_le)
  have need: "needed (a # rs) oldest x \<longleftrightarrow> needed rs oldest x \<and> (rec_seq a \<le> oldest \<and> rec_key x = rec_key a \<longrightarrow> rec_seq x > oldest)"
    if "x \<in> set rs" for x
    using seq [OF that] by (auto simp: needed_def not_less not_le)
  show ?case
  proof (cases "r = a")
    case True
    then show ?thesis
      using IH keptk [of a] need_a na unfolding step by auto
  next
    case False
    then show ?thesis
      using IH [of kept'] IH [of True] keptk [of r] need [of r] na unfolding step by (auto simp: not_less)
  qed
qed simp

lemma retain_loop_sorted: "sorted_records rs \<Longrightarrow> sorted_records (retain_loop oldest k0 kept rs)"
proof (induction rs arbitrary: k0 kept)
  case (Cons a rs)
  have "set (retain_loop oldest k kp rs) \<subseteq> set rs" for k kp
    by (induction rs arbitrary: k kp) (auto simp: Let_def)
  then have "rkey a < rkey x" if "x \<in> set (retain_loop oldest k kp rs)" for x k kp
    using that Cons.prems by fastforce
  with Cons show ?case by (simp add: Let_def)
qed simp

lemma retain_set:
  assumes "sorted_records rs"
  shows "r \<in> set (retainForCompaction rs oldest) \<longleftrightarrow> r \<in> set rs \<and> needed rs oldest r"
proof (cases rs)
  case (Cons a rest)
  have "\<forall>x \<in> set rs. rec_key a \<le> rec_key x" using assms Cons by (auto simp: rkey_less)
  from retain_loop_set [OF assms this, of r oldest False] Cons show ?thesis
    by (simp add: retainForCompaction_def del: retain_loop.simps)
qed (simp add: retainForCompaction_def)

lemma retain_sorted: "sorted_records rs \<Longrightarrow> sorted_records (retainForCompaction rs oldest)"
  by (simp add: retainForCompaction_def retain_loop_sorted)

lemma retain_visible:
  assumes "sorted_records rs" "oldest \<le> q"
  shows "visible (retainForCompaction rs oldest) k q = visible rs k q"
proof (cases "visible rs k q")
  case None
  then have "visible (retainForCompaction rs oldest) k q = None"
    using retain_set [OF assms(1)] by (simp add: visible_None)
  with None show ?thesis by simp
next
  case (Some r)
  from visible_SomeD [OF Some] have r: "r \<in> set rs" "eligible k q r"
    "\<And>x. x \<in> set rs \<Longrightarrow> eligible k q x \<Longrightarrow> rec_seq x \<le> rec_seq r" by auto
  have "needed rs oldest r"
    using r assms(2) by (auto simp: needed_def eligible_def intro: order_trans)
  then have "visible (retainForCompaction rs oldest) k q = Some r"
    using r by (intro visible_eqI sorted_records_unique retain_sorted [OF assms(1)])
      (auto simp: retain_set [OF assms(1)])
  with Some show ?thesis by simp
qed

lemma retain_nonempty: "sorted_records rs \<Longrightarrow> rs \<noteq> [] \<Longrightarrow> retainForCompaction rs oldest \<noteq> []"
  by (cases rs) (auto simp: retainForCompaction_def Let_def)

text \<open>
  C26: merging iterators over sorted sources returns (the loop ends, without an error) all their
  records, each exactly once, in the order of the tables: by key and, within a key, newest first.
\<close>

theorem mergeAll_sorted_permutation:
  "list_all2 it_rep sources pend \<Longrightarrow> \<forall>rs \<in> set pend. sorted_records rs \<Longrightarrow>
   \<exists>out. mergeAll sources = Inr out \<and> mset out = mset (concat pend)
     \<and> sorted_wrt (\<lambda>a b. rkey a \<le> rkey b) out"
  by (rule mergeAll_correct)

lemma memtable_example_source:
  "it_rep (RawIt (MemIterator (MemTableIterator_new memtable_example))) (mt_records memtable_example)"
  by (simp add: MemTableIterator_new_rep)

theorem mergeAll_sorted_permutation_witness:
  "\<exists>out. mergeAll [RawIt (MemIterator (MemTableIterator_new memtable_example)),
       RawIt (MemIterator (MemTableIterator_new memtable_example))] = Inr out
     \<and> mset out = mset (concat [mt_records memtable_example, mt_records memtable_example])
     \<and> sorted_wrt (\<lambda>a b. rkey a \<le> rkey b) out"
  by (rule mergeAll_sorted_permutation)
    (simp_all add: memtable_example_source mt_records_sorted memtable_example_inv del: it_rep.simps)

text \<open>
  C27: what a compaction keeps of a sorted run answers every read at or after the oldest
  snapshot exactly as the run did, stays sorted, and holds at most one version of a key that is not
  newer than the oldest snapshot.
\<close>

theorem retainForCompaction_preserves_reads:
  assumes "sorted_records rs"
  shows "(\<forall>k q. oldest \<le> q \<longrightarrow> visible (retainForCompaction rs oldest) k q = visible rs k q)
    \<and> sorted_records (retainForCompaction rs oldest)
    \<and> set (retainForCompaction rs oldest) \<subseteq> set rs
    \<and> (\<forall>a \<in> set (retainForCompaction rs oldest). \<forall>b \<in> set (retainForCompaction rs oldest).
         rec_key a = rec_key b \<and> rec_seq a \<le> oldest \<and> rec_seq b \<le> oldest \<longrightarrow> a = b)"
proof (intro conjI)
  show "\<forall>k q. oldest \<le> q \<longrightarrow> visible (retainForCompaction rs oldest) k q = visible rs k q"
    using retain_visible [OF assms] by blast
  show "sorted_records (retainForCompaction rs oldest)" by (rule retain_sorted [OF assms])
  show "set (retainForCompaction rs oldest) \<subseteq> set rs" using retain_set [OF assms] by blast
  show "\<forall>a \<in> set (retainForCompaction rs oldest). \<forall>b \<in> set (retainForCompaction rs oldest).
      rec_key a = rec_key b \<and> rec_seq a \<le> oldest \<and> rec_seq b \<le> oldest \<longrightarrow> a = b"
  proof (intro ballI impI)
    fix a b
    assume "a \<in> set (retainForCompaction rs oldest)" "b \<in> set (retainForCompaction rs oldest)"
      and ab: "rec_key a = rec_key b \<and> rec_seq a \<le> oldest \<and> rec_seq b \<le> oldest"
    then have in_rs: "a \<in> set rs" "b \<in> set rs" and n: "needed rs oldest a" "needed rs oldest b"
      by (simp_all add: retain_set [OF assms])
    with ab have "rec_seq a = rec_seq b"
      by (auto simp: needed_def not_less leD intro: order_antisym)
    with in_rs ab sorted_records_unique [OF assms] show "a = b" by (auto intro: unique_versionsD)
  qed
qed

definition versions_example :: "Record list" where
  "versions_example =
     [\<lparr>rec_key = ''k'', rec_seq = 9, rec_type = Type_VALUE, rec_value = ''c''\<rparr>,
      \<lparr>rec_key = ''k'', rec_seq = 5, rec_type = Type_TOMBSTONE, rec_value = []\<rparr>,
      \<lparr>rec_key = ''k'', rec_seq = 2, rec_type = Type_VALUE, rec_value = ''a''\<rparr>]"

theorem retainForCompaction_preserves_reads_witness:
  "visible (retainForCompaction versions_example 6) ''k'' 7 = visible versions_example ''k'' 7
   \<and> length (retainForCompaction versions_example 6) = 2"
proof -
  have "sorted_records versions_example" by (simp add: versions_example_def rkey_less)
  from retainForCompaction_preserves_reads [OF this, of 6]
  have "visible (retainForCompaction versions_example 6) ''k'' 7 = visible versions_example ''k'' 7"
    by auto
  moreover have "length (retainForCompaction versions_example 6) = 2"
    by (simp add: versions_example_def retainForCompaction_def Let_def)
  ultimately show ?thesis by blast
qed

text \<open>
  The reduction for a scan: of the sorted records visible at a sequence number it keeps
  exactly the answer of a read for every key whose answer is a value, in strictly ascending key
  order.
\<close>

theorem latestVisiblePerKey_correct:
  assumes "sorted_records rs" "\<forall>r \<in> set rs. rec_seq r \<le> q"
  shows "(\<forall>r. r \<in> set (latestVisiblePerKey rs) \<longleftrightarrow>
      visible rs (rec_key r) q = Some r \<and> rec_type r \<noteq> Type_TOMBSTONE)
    \<and> sorted_wrt (\<lambda>a b. rec_key a < rec_key b) (latestVisiblePerKey rs)"
  using latestVisible_spec [OF assms] unique_keys_sorted [OF assms(1)]
  by (auto simp: latestVisiblePerKey_def sorted_wrt_filter)

theorem latestVisiblePerKey_correct_witness:
  "\<forall>r. r \<in> set (latestVisiblePerKey versions_example) \<longleftrightarrow>
      visible versions_example (rec_key r) 9 = Some r \<and> rec_type r \<noteq> Type_TOMBSTONE"
proof -
  have "sorted_records versions_example" "\<forall>r \<in> set versions_example. rec_seq r \<le> 9"
    by (simp_all add: versions_example_def rkey_less)
  from latestVisiblePerKey_correct [OF this] show ?thesis by blast
qed

end
