(* ===== verification/Manifest.thy ===== *)
theory Manifest
  imports SSTable
begin

text \<open>
  The catalogue of \<open>src/Manifest.cpp\<close>: which table file is on which level, the counters of the
  database, and the file they are saved in. Level 0 is ordered by descending file number and its
  key ranges may overlap; every deeper level is a sorted sequence of disjoint key ranges.
\<close>

section \<open>State\<close>

record Manifest =
  mf_path :: path
  mf_levels :: "TableMeta list list"
  mf_nextTableNumber :: u64
  mf_logNumber :: u64
  mf_lastSeq :: u64

definition kManifestFormatVersion :: u8 where "kManifestFormatVersion = 4"

section \<open>Reading and writing the file\<close>

text \<open>
  \<open>readValue\<close>: the bytes of a value of \<open>n\<close> bytes. Host memory is not bounded here: a length in a
  damaged file that no host can allocate ends in \<open>std::bad_alloc\<close>, here in the exception of the
  read that follows it.
\<close>

definition mf_readValue :: "nat \<Rightarrow> string \<Rightarrow> ifstream \<Rightarrow> (string \<times> ifstream) result" where
  "mf_readValue n errorMessage input =
     (case stream_read n input of None \<Rightarrow> Inl (ios_failure errorMessage) | Some x \<Rightarrow> Inr x)"

definition readKey :: "ifstream \<Rightarrow> string \<Rightarrow> string \<Rightarrow> (string \<times> ifstream) result" where
  "readKey input sizeErrorMessage keyErrorMessage =
     rbind (mf_readValue 4 sizeErrorMessage input) (\<lambda>(keySize, input).
     case stream_read (unat (get_u32 keySize)) input of
       None \<Rightarrow> Inl (ios_failure keyErrorMessage)
     | Some (k, input) \<Rightarrow> Inr (k, input))"

definition readTable :: "ifstream \<Rightarrow> (TableMeta \<times> ifstream) result" where
  "readTable input =
     rbind (mf_readValue 8 ''failed to read table's number'' input) (\<lambda>(tableNumber, input).
     rbind (mf_readValue 8 ''failed to read table's size'' input) (\<lambda>(tableSize, input).
     rbind (readKey input ''failed to read minKey size'' ''failed to read minKey'') (\<lambda>(minKey, input).
     rbind (readKey input ''failed to read maxKey size'' ''failed to read maxKey'') (\<lambda>(maxKey, input).
     Inr (\<lparr>tm_number = get_u64 tableNumber, tm_size = get_u64 tableSize,
           tm_minKey = minKey, tm_maxKey = maxKey\<rparr>, input)))))"

text \<open>The two nested loops of the constructor.\<close>

fun readTables :: "nat \<Rightarrow> ifstream \<Rightarrow> (TableMeta list \<times> ifstream) result" where
  "readTables 0 input = Inr ([], input)"
| "readTables (Suc n) input =
     rbind (readTable input) (\<lambda>(table, input).
     rbind (readTables n input) (\<lambda>(tables, input). Inr (table # tables, input)))"

fun readLevels :: "nat \<Rightarrow> ifstream \<Rightarrow> (TableMeta list list \<times> ifstream) result" where
  "readLevels 0 input = Inr ([], input)"
| "readLevels (Suc n) input =
     rbind (mf_readValue 8 ''failed to read table number'' input) (\<lambda>(tableCount, input).
     rbind (readTables (unat (get_u64 tableCount)) input) (\<lambda>(level, input).
     rbind (readLevels n input) (\<lambda>(levels, input). Inr (level # levels, input))))"

definition readManifest :: "path \<Rightarrow> ifstream \<Rightarrow> Manifest result" where
  "readManifest p input =
     rbind (mf_readValue 8 ''failed to read level number'' input) (\<lambda>(levelCount, input).
     rbind (mf_readValue 8 ''failed to read log number'' input) (\<lambda>(logNumber, input).
     rbind (mf_readValue 1 ''failed to read version'' input) (\<lambda>(formatVersion, input).
     if get_u8 formatVersion \<noteq> kManifestFormatVersion
     then Inl (runtime_error ''Unsupported manifest version!'')
     else
     rbind (mf_readValue 8 ''failed to read next'' input) (\<lambda>(nextTableNumber, input).
     rbind (mf_readValue 8 ''failed to read last seq'' input) (\<lambda>(lastSeq, input).
     rbind (readLevels (unat (get_u64 levelCount)) input) (\<lambda>(levels, input).
     Inr \<lparr>mf_path = p, mf_levels = levels, mf_nextTableNumber = get_u64 nextTableNumber,
          mf_logNumber = get_u64 logNumber, mf_lastSeq = get_u64 lastSeq\<rparr>))))))"

definition Manifest_new :: "path \<Rightarrow> Manifest io" where
  "Manifest_new p =
     io_bind (io_act (fs_query (path_exists p))) (\<lambda>found.
     case found of
       Inl ec \<Rightarrow> io_throw (system_error ec ''failed to inspect MANIFEST'')
     | Inr False \<Rightarrow>
         io_ret \<lparr>mf_path = p, mf_levels = [], mf_nextTableNumber = 0, mf_logNumber = 0, mf_lastSeq = 0\<rparr>
     | Inr True \<Rightarrow>
         io_bind (io_act (sys_open_read p)) (\<lambda>input.
         case input of
           None \<Rightarrow> io_throw (ios_failure ''MANIFEST exists but cannot be opened!'')
         | Some content \<Rightarrow> io_lift (readManifest p (content, 0))))"

definition writeKey :: "string \<Rightarrow> unit fw" where
  "writeKey k =
     io_bind (fw_write (put_u32 (of_nat (length k)))) (\<lambda>_. fw_write k)"

definition writeTable :: "TableMeta \<Rightarrow> unit fw" where
  "writeTable table =
     io_bind (fw_write (put_u64 (tm_number table))) (\<lambda>_.
     io_bind (fw_write (put_u64 (tm_size table))) (\<lambda>_.
     io_bind (writeKey (tm_minKey table)) (\<lambda>_.
     writeKey (tm_maxKey table))))"

definition writeLevel :: "TableMeta list \<Rightarrow> unit fw" where
  "writeLevel level =
     io_bind (fw_write (put_u64 (of_nat (length level)))) (\<lambda>_. io_for level writeTable)"

definition writeManifest :: "Manifest \<Rightarrow> unit fw" where
  "writeManifest m =
     io_bind (fw_write (put_u64 (of_nat (length (mf_levels m))))) (\<lambda>_.
     io_bind (fw_write (put_u64 (mf_logNumber m))) (\<lambda>_.
     io_bind (fw_write (put_u8 kManifestFormatVersion)) (\<lambda>_.
     io_bind (fw_write (put_u64 (mf_nextTableNumber m))) (\<lambda>_.
     io_bind (fw_write (put_u64 (mf_lastSeq m))) (\<lambda>_.
     io_for (mf_levels m) writeLevel)))))"

definition Manifest_save :: "Manifest \<Rightarrow> unit io" where
  "Manifest_save m = with_FileWriter (mf_path m) (io_bind (writeManifest m) (\<lambda>_. FileWriter_finish))"

section \<open>Counters\<close>

definition nextNumber :: "Manifest \<Rightarrow> u64" where
  "nextNumber m = mf_nextTableNumber m"

definition allocateNumber :: "Manifest \<Rightarrow> u64 \<times> Manifest" where
  "allocateNumber m = (mf_nextTableNumber m, m\<lparr>mf_nextTableNumber := mf_nextTableNumber m + 1\<rparr>)"

definition Manifest_lastSeq :: "Manifest \<Rightarrow> u64" where
  "Manifest_lastSeq m = mf_lastSeq m"

definition setLastSeq :: "u64 \<Rightarrow> Manifest \<Rightarrow> Manifest" where
  "setLastSeq lastSeq m = m\<lparr>mf_lastSeq := lastSeq\<rparr>"

definition Manifest_logNumber :: "Manifest \<Rightarrow> u64" where
  "Manifest_logNumber m = mf_logNumber m"

definition setLogNumber :: "u64 \<Rightarrow> Manifest \<Rightarrow> Manifest" where
  "setLogNumber logNumber m = m\<lparr>mf_logNumber := logNumber\<rparr>"

section \<open>Levels\<close>

text \<open>\<open>std::vector::resize\<close> and \<open>std::vector::insert\<close>.\<close>

definition vec_resize :: "nat \<Rightarrow> 'a \<Rightarrow> 'a list \<Rightarrow> 'a list" where
  "vec_resize n x xs = take n xs @ replicate (n - length xs) x"

definition vec_insert :: "nat \<Rightarrow> 'a \<Rightarrow> 'a list \<Rightarrow> 'a list" where
  "vec_insert pos x xs = take pos xs @ x # drop pos xs"

text \<open>
  The level array grows before the overlap checks, so it stays longer when they throw. The 32 bit
  sum \<open>targetLevel + 1\<close> wraps for the last level number, where the code's array access is undefined.
\<close>

definition addTable :: "u64 \<Rightarrow> u64 \<Rightarrow> string \<Rightarrow> string \<Rightarrow> u32 \<Rightarrow> Manifest \<Rightarrow> unit result \<times> Manifest" where
  "addTable number tableSize minKey maxKey targetLevel m0 =
     (let table = \<lparr>tm_number = number, tm_size = tableSize, tm_minKey = minKey, tm_maxKey = maxKey\<rparr>;
          m = (if unat targetLevel \<ge> length (mf_levels m0)
               then m0\<lparr>mf_levels := vec_resize (unat (targetLevel + 1)) [] (mf_levels m0)\<rparr> else m0);
          level = mf_levels m ! unat targetLevel
      in if targetLevel = 0
      then
        let position = partition_point (\<lambda>candidate. tm_number candidate > number) level
        in (Inr (), m\<lparr>mf_levels := (mf_levels m)[unat targetLevel := vec_insert position table level]\<rparr>)
      else
        let position = partition_point (\<lambda>candidate. tm_minKey candidate < minKey) level
        in if position \<noteq> 0 \<and> rangesOverlap (level ! (position - 1)) minKey maxKey
           then (Inl (invalid_argument ''overlapping key range''), m)
           else if position \<noteq> length level \<and> rangesOverlap (level ! position) minKey maxKey
           then (Inl (invalid_argument ''overlapping key range''), m)
           else (Inr (), m\<lparr>mf_levels := (mf_levels m)[unat targetLevel := vec_insert position table level]\<rparr>))"

fun addTables :: "TableMeta list \<Rightarrow> u32 \<Rightarrow> Manifest \<Rightarrow> unit result \<times> Manifest" where
  "addTables [] targetLevel m = (Inr (), m)"
| "addTables (t # added) targetLevel m =
     (case addTable (tm_number t) (tm_size t) (tm_minKey t) (tm_maxKey t) targetLevel m of
        (Inl e, m') \<Rightarrow> (Inl e, m')
      | (Inr _, m') \<Rightarrow> addTables added targetLevel m')"

definition replaceTables :: "u64 list \<Rightarrow> TableMeta list \<Rightarrow> u32 \<Rightarrow> Manifest \<Rightarrow> unit result \<times> Manifest" where
  "replaceTables removed added targetLevel m =
     addTables added targetLevel
       (m\<lparr>mf_levels := map (filter (\<lambda>table. tm_number table \<notin> set removed)) (mf_levels m)\<rparr>)"

definition Manifest_level :: "nat \<Rightarrow> Manifest \<Rightarrow> TableMeta list" where
  "Manifest_level number m = (if number \<ge> length (mf_levels m) then [] else mf_levels m ! number)"

definition levelCount :: "Manifest \<Rightarrow> nat" where
  "levelCount m = length (mf_levels m)"

text \<open>A \<open>std::set\<close> with \<open>std::greater\<close>: its elements from the greatest on.\<close>

definition allTableNumbers :: "Manifest \<Rightarrow> u64 list" where
  "allTableNumbers m = rev (sorted_list_of_set (set (map tm_number (concat (mf_levels m)))))"

definition getTableMeta :: "u64 \<Rightarrow> string \<Rightarrow> Manifest \<Rightarrow> TableMeta option result" where
  "getTableMeta levelNumber k m =
     (if levelNumber = 0 then Inl (invalid_argument ''Cannot get ZERO level'')
      else if unat levelNumber \<ge> length (mf_levels m) then Inr None
      else
        let level = mf_levels m ! unat levelNumber;
            position = partition_point (\<lambda>table. \<not> tm_minKey table > k) level
        in if position = 0 then Inr None
           else
             let table = level ! (position - 1)
             in if k \<ge> tm_minKey table \<and> k \<le> tm_maxKey table then Inr (Some table) else Inr None)"

section \<open>The order of the levels\<close>

definition table_range :: "TableMeta \<Rightarrow> bool" where
  "table_range t \<longleftrightarrow> tm_minKey t \<le> tm_maxKey t"

definition level_inv :: "nat \<Rightarrow> TableMeta list \<Rightarrow> bool" where
  "level_inv i level \<longleftrightarrow> (\<forall>t \<in> set level. table_range t) \<and>
     (if i = 0 then sorted_wrt (\<lambda>a b. tm_number a > tm_number b) level
      else sorted_wrt (\<lambda>a b. tm_maxKey a < tm_minKey b) level)"

definition levels_inv :: "Manifest \<Rightarrow> bool" where
  "levels_inv m \<longleftrightarrow> (\<forall>i. level_inv i (Manifest_level i m))"

lemma level_inv_Nil [simp]: "level_inv i []"
  by (simp add: level_inv_def)

lemma level_inv_filter: "level_inv i level \<Longrightarrow> level_inv i (filter P level)"
  by (auto simp: level_inv_def sorted_wrt_filter)

lemma sorted_wrt_vec_insert:
  "sorted_wrt R xs \<Longrightarrow> (\<And>y. y \<in> set (take pos xs) \<Longrightarrow> R y x) \<Longrightarrow>
   (\<And>y. y \<in> set (drop pos xs) \<Longrightarrow> R x y) \<Longrightarrow> sorted_wrt R (vec_insert pos x xs)"
proof -
  assume s: "sorted_wrt R xs" and "\<And>y. y \<in> set (take pos xs) \<Longrightarrow> R y x"
    "\<And>y. y \<in> set (drop pos xs) \<Longrightarrow> R x y"
  moreover have "sorted_wrt R (take pos xs @ drop pos xs)" using s by simp
  ultimately show ?thesis unfolding vec_insert_def sorted_wrt_append by auto
qed

lemma mset_vec_insert [simp]: "mset (vec_insert pos x xs) = add_mset x (mset xs)"
  by (metis (no_types) append_take_drop_id mset.simps(2) mset_append union_mset_add_mset_right vec_insert_def)

lemma set_vec_insert [simp]: "set (vec_insert pos x xs) = insert x (set xs)"
  by (metis mset_vec_insert set_mset_add_mset_insert set_mset_mset)

text \<open>
  In a sorted level the two neighbours of the insertion point decide whether any table of the
  level overlaps.
\<close>

lemma neighbours_decide:
  assumes inv: "level_inv (Suc i) level" and k: "minKey \<le> maxKey"
  defines "pos \<equiv> partition_point (\<lambda>t. tm_minKey t < minKey) level"
  shows "(\<exists>t \<in> set level. rangesOverlap t minKey maxKey) \<longleftrightarrow>
      pos \<noteq> 0 \<and> rangesOverlap (level ! (pos - 1)) minKey maxKey
      \<or> pos \<noteq> length level \<and> rangesOverlap (level ! pos) minKey maxKey"
    (is "?any \<longleftrightarrow> ?near")
proof
  assume ?near
  moreover have "pos \<le> length level" unfolding pos_def by simp
  ultimately consider "pos - 1 < length level" "rangesOverlap (level ! (pos - 1)) minKey maxKey"
    | "pos < length level" "rangesOverlap (level ! pos) minKey maxKey"
    by fastforce
  then show ?any by cases (blast intro: nth_mem)+
next
  have s: "tm_maxKey (level ! a) < tm_minKey (level ! b)" if "a < b" "b < length level" for a b
    using inv that by (simp add: level_inv_def sorted_wrt_iff_nth_less)
  have r: "tm_minKey (level ! a) \<le> tm_maxKey (level ! a)" if "a < length level" for a
    using inv that by (simp add: level_inv_def table_range_def)
  assume ?any
  then obtain j where j: "j < length level" "minKey \<le> tm_maxKey (level ! j)" "tm_minKey (level ! j) \<le> maxKey"
    by (auto simp: rangesOverlap_def in_set_conv_nth)
  show ?near
  proof (cases "j < pos")
    case True
    have before: "tm_minKey (level ! (pos - 1)) < minKey"
      using True nth_before_partition_point [of "pos - 1" "\<lambda>t. tm_minKey t < minKey" level]
      by (simp add: pos_def)
    have pl: "pos \<le> length level" unfolding pos_def by simp
    have "minKey \<le> tm_maxKey (level ! (pos - 1))"
    proof (cases "j = pos - 1")
      case False
      with True have "j < pos - 1" "pos - 1 < length level" using pl by auto
      from s [OF this] r [OF this(2)] j(2) show ?thesis by order
    qed (use j in simp)
    with before k True show ?thesis by (auto simp: rangesOverlap_def)
  next
    case False
    have at: "\<not> tm_minKey (level ! pos) < minKey"
      using False j(1) nth_partition_point [of "\<lambda>t. tm_minKey t < minKey" level] by (simp add: pos_def)
    have "tm_minKey (level ! pos) \<le> maxKey \<and> minKey \<le> tm_maxKey (level ! pos)"
    proof (cases "j = pos")
      case False
      with \<open>\<not> j < pos\<close> have "pos < j" by simp
      from s [OF this j(1)] r [of pos] this j have "tm_minKey (level ! pos) \<le> maxKey" by auto
      with at r [of pos] \<open>pos < j\<close> j(1) show ?thesis by auto
    qed (use j in simp)
    with False j(1) show ?thesis by (auto simp: rangesOverlap_def)
  qed
qed

section \<open>Adding and replacing tables\<close>

definition meta :: "u64 \<Rightarrow> u64 \<Rightarrow> string \<Rightarrow> string \<Rightarrow> TableMeta" where
  "meta n s a b = \<lparr>tm_number = n, tm_size = s, tm_minKey = a, tm_maxKey = b\<rparr>"

lemma meta_fields [simp]:
  "tm_number (meta n s a b) = n" "tm_size (meta n s a b) = s"
  "tm_minKey (meta n s a b) = a" "tm_maxKey (meta n s a b) = b"
  "meta (tm_number t) (tm_size t) (tm_minKey t) (tm_maxKey t) = t"
  by (simp_all add: meta_def)

lemma insert_level_zero:
  assumes "level_inv 0 level" "a \<le> b" "\<forall>t \<in> set level. tm_number t \<noteq> n"
  shows "level_inv 0 (vec_insert (partition_point (\<lambda>c. tm_number c > n) level) (meta n s a b) level)"
proof -
  let ?pos = "partition_point (\<lambda>c. tm_number c > n) level"
  have srt: "sorted_wrt (\<lambda>a b. tm_number a > tm_number b) level"
    using assms(1) by (simp add: level_inv_def)
  have below: "tm_number t < n" if "t \<in> set (drop ?pos level)" for t
  proof -
    from that obtain j where j: "?pos + j < length level" "t = level ! (?pos + j)"
      by (rule in_drop_nth)
    have "tm_number t \<le> tm_number (level ! ?pos)"
      using srt j by (cases "j = 0") (auto simp: sorted_wrt_iff_nth_less intro: less_imp_le)
    moreover have "\<not> n < tm_number (level ! ?pos)"
      using nth_partition_point [of "\<lambda>c. tm_number c > n" level] j by simp
    moreover have "tm_number t \<noteq> n" using assms(3) j by simp
    ultimately show ?thesis by (meson leI le_less_trans order_less_le)
  qed
  have above: "n < tm_number t" if "t \<in> set (take ?pos level)" for t
    using that by (auto simp: take_partition_point dest: set_takeWhileD)
  have "sorted_wrt (\<lambda>a b. tm_number a > tm_number b) (vec_insert ?pos (meta n s a b) level)"
    by (rule sorted_wrt_vec_insert [OF srt], unfold meta_fields) (erule above, erule below)
  with assms show ?thesis by (auto simp: level_inv_def table_range_def)
qed

lemma insert_sorted_level:
  assumes inv: "level_inv (Suc i) level" and k: "a \<le> b"
    and free: "\<forall>t \<in> set level. \<not> rangesOverlap t a b"
  shows "level_inv (Suc i) (vec_insert (partition_point (\<lambda>c. tm_minKey c < a) level) (meta n s a b) level)"
proof -
  let ?pos = "partition_point (\<lambda>c. tm_minKey c < a) level"
  have srt: "sorted_wrt (\<lambda>a b. tm_maxKey a < tm_minKey b) level"
    and rng: "\<forall>t \<in> set level. tm_minKey t \<le> tm_maxKey t"
    using inv by (simp_all add: level_inv_def table_range_def)
  have mono: "tm_minKey (level ! ?pos) \<le> tm_minKey (level ! j)" if "?pos \<le> j" "j < length level" for j
  proof (cases "j = ?pos")
    case False
    with that srt have "tm_maxKey (level ! ?pos) < tm_minKey (level ! j)"
      by (simp add: sorted_wrt_iff_nth_less)
    moreover have "tm_minKey (level ! ?pos) \<le> tm_maxKey (level ! ?pos)" using rng that by simp
    ultimately show ?thesis by order
  qed simp
  have right: "b < tm_minKey t" if "t \<in> set (drop ?pos level)" for t
  proof -
    from that obtain j where j: "?pos + j < length level" "t = level ! (?pos + j)"
      by (rule in_drop_nth)
    have "\<not> tm_minKey (level ! ?pos) < a"
      using nth_partition_point [of "\<lambda>c. tm_minKey c < a" level] j by simp
    with mono [of "?pos + j"] j have "a \<le> tm_minKey t" by simp
    moreover have t: "t \<in> set level" using j by simp
    ultimately have "a \<le> tm_maxKey t" using rng by force
    with free t show ?thesis by (auto simp: rangesOverlap_def)
  qed
  have left: "tm_maxKey t < a" if "t \<in> set (take ?pos level)" for t
  proof -
    have t: "t \<in> set level" "tm_minKey t < a"
      using that unfolding take_partition_point by (auto dest: set_takeWhileD)
    with k have "tm_minKey t \<le> b" by order
    with free t show ?thesis by (auto simp: rangesOverlap_def)
  qed
  have "sorted_wrt (\<lambda>a b. tm_maxKey a < tm_minKey b) (vec_insert ?pos (meta n s a b) level)"
    by (rule sorted_wrt_vec_insert [OF srt], unfold meta_fields) (erule left, erule right)
  with inv k show ?thesis by (auto simp: level_inv_def table_range_def)
qed

lemma level_resize:
  "n \<le> length xs \<or> length xs \<le> n \<and> k < n \<Longrightarrow> k < n \<Longrightarrow>
   vec_resize n [] xs ! k = (if k < length xs then xs ! k else [])"
  by (auto simp: vec_resize_def nth_append)

text \<open>The level array before the insertion: the same tables on every level, and the target exists.\<close>

definition grown :: "u32 \<Rightarrow> Manifest \<Rightarrow> Manifest" where
  "grown l m = (if unat l \<ge> length (mf_levels m)
     then m\<lparr>mf_levels := vec_resize (unat (l + 1)) [] (mf_levels m)\<rparr> else m)"

lemma unat_Suc_level: "l \<noteq> -1 \<Longrightarrow> unat (l + 1 :: u32) = Suc (unat l)"
  using unatSuc [of l] by (simp add: add.commute add_eq_0_iff)

lemma grown_props:
  assumes "l \<noteq> -1"
  shows "unat l < length (mf_levels (grown l m))" "Manifest_level i (grown l m) = Manifest_level i m"
    "mf_path (grown l m) = mf_path m" "mf_nextTableNumber (grown l m) = mf_nextTableNumber m"
    "mf_logNumber (grown l m) = mf_logNumber m" "mf_lastSeq (grown l m) = mf_lastSeq m"
    "length (mf_levels (grown l m)) = max (length (mf_levels m)) (Suc (unat l))"
  using assms
  by (auto simp: grown_def Manifest_level_def unat_Suc_level vec_resize_def nth_append max_def)

lemma levels_inv_grown: "l \<noteq> -1 \<Longrightarrow> levels_inv (grown l m) = levels_inv m"
  by (simp add: levels_inv_def grown_props)

text \<open>What \<open>addTable\<close> does to a level array that already has the target level.\<close>

definition insert_position :: "u32 \<Rightarrow> TableMeta \<Rightarrow> TableMeta list \<Rightarrow> nat" where
  "insert_position l t level =
     (if l = 0 then partition_point (\<lambda>c. tm_number c > tm_number t) level
      else partition_point (\<lambda>c. tm_minKey c < tm_minKey t) level)"

definition with_table :: "u32 \<Rightarrow> TableMeta \<Rightarrow> Manifest \<Rightarrow> Manifest" where
  "with_table l t m =
     (let level = mf_levels m ! unat l
      in m\<lparr>mf_levels := (mf_levels m)[unat l := vec_insert (insert_position l t level) t level]\<rparr>)"

lemmas addTable_grown = addTable_def [folded grown_def meta_def]

lemma addTable_result:
  assumes "levels_inv m" "l \<noteq> -1" "a \<le> b"
  shows "addTable n s a b l m =
    (if l \<noteq> 0 \<and> (\<exists>t \<in> set (Manifest_level (unat l) m). rangesOverlap t a b)
     then (Inl (invalid_argument ''overlapping key range''), grown l m)
     else (Inr (), with_table l (meta n s a b) (grown l m)))"
proof -
  let ?m = "grown l m" and ?level = "mf_levels (grown l m) ! unat l"
  have lv: "Manifest_level (unat l) m = ?level"
    using grown_props(2) [OF assms(2), of "unat l" m] grown_props(1) [OF assms(2), of m]
    by (simp add: Manifest_level_def)
  show ?thesis
  proof (cases "l = 0")
    case True
    then show ?thesis
      unfolding addTable_grown with_table_def insert_position_def by (simp add: Let_def)
  next
    case False
    then obtain i where i: "unat l = Suc i" by (metis not0_implies_Suc unat_eq_zero)
    with assms(1) lv have "level_inv (Suc i) ?level" by (auto simp: levels_inv_def dest: spec [of _ "Suc i"])
    from neighbours_decide [OF this assms(3)] False show ?thesis
      unfolding lv addTable_grown with_table_def insert_position_def by (simp add: Let_def)
  qed
qed

lemma with_table_props:
  assumes "unat l < length (mf_levels m)"
  shows "Manifest_level i (with_table l t m) =
      (if i = unat l then vec_insert (insert_position l t (Manifest_level i m)) t (Manifest_level i m)
       else Manifest_level i m)"
    "mf_path (with_table l t m) = mf_path m" "mf_nextTableNumber (with_table l t m) = mf_nextTableNumber m"
    "mf_logNumber (with_table l t m) = mf_logNumber m" "mf_lastSeq (with_table l t m) = mf_lastSeq m"
    "length (mf_levels (with_table l t m)) = length (mf_levels m)"
  using assms by (auto simp: with_table_def Let_def Manifest_level_def)

lemma levels_inv_with_table:
  assumes inv: "levels_inv m" and l: "unat l < length (mf_levels m)" and t: "table_range t"
    and free: "if l = 0 then \<forall>x \<in> set (Manifest_level 0 m). tm_number x \<noteq> tm_number t
      else \<forall>x \<in> set (Manifest_level (unat l) m). \<not> rangesOverlap x (tm_minKey t) (tm_maxKey t)"
  shows "levels_inv (with_table l t m)"
  unfolding levels_inv_def
proof
  fix i
  have i: "level_inv i (Manifest_level i m)" using inv by (simp add: levels_inv_def)
  show "level_inv i (Manifest_level i (with_table l t m))"
  proof (cases "i = unat l")
    case False
    with i l show ?thesis by (simp add: with_table_props)
  next
    case True
    show ?thesis
    proof (cases "l = 0")
      case zero: True
      with True have "i = 0" by simp
      with i l t free zero insert_level_zero [of "Manifest_level 0 m" "tm_minKey t" "tm_maxKey t" "tm_number t" "tm_size t"]
      show ?thesis by (simp add: with_table_props insert_position_def table_range_def)
    next
      case pos: False
      then obtain j where "i = Suc j" using True by (metis not0_implies_Suc unat_eq_zero)
      with i l t free pos True
        insert_sorted_level [of j "Manifest_level i m" "tm_minKey t" "tm_maxKey t" "tm_number t" "tm_size t"]
      show ?thesis by (simp add: with_table_props insert_position_def table_range_def)
    qed
  qed
qed

lemma addTable_cases:
  assumes inv: "levels_inv m" and l: "l \<noteq> -1" and k: "a \<le> b"
    and fresh: "\<forall>t \<in> set (Manifest_level 0 m). tm_number t \<noteq> n"
    and run: "addTable n s a b l m = (r, m')"
  shows "levels_inv m'"
    "r = Inr () \<longleftrightarrow> l = 0 \<or> (\<forall>t \<in> set (Manifest_level (unat l) m). \<not> rangesOverlap t a b)"
    "r = Inr () \<or> r = Inl (invalid_argument ''overlapping key range'')"
    "mset (Manifest_level i m') = mset (Manifest_level i m)
      + (if r = Inr () \<and> i = unat l then {#meta n s a b#} else {#})"
    "mf_path m' = mf_path m" "mf_nextTableNumber m' = mf_nextTableNumber m"
    "mf_logNumber m' = mf_logNumber m" "mf_lastSeq m' = mf_lastSeq m"
    "length (mf_levels m') = max (length (mf_levels m)) (Suc (unat l))"
proof -
  note res = run [unfolded addTable_result [OF inv l k]]
  note g = grown_props [OF l, where m = m]
  have free: "levels_inv (with_table l (meta n s a b) (grown l m))"
    if "l = 0 \<or> (\<forall>t \<in> set (Manifest_level (unat l) m). \<not> rangesOverlap t a b)"
    using that fresh inv k
    by (intro levels_inv_with_table) (auto simp: levels_inv_grown [OF l] g grown_props(2) [of 0] table_range_def)
  show "levels_inv m'" using res free inv by (auto simp: levels_inv_grown [OF l] split: if_splits)
  show "r = Inr () \<longleftrightarrow> l = 0 \<or> (\<forall>t \<in> set (Manifest_level (unat l) m). \<not> rangesOverlap t a b)"
    "r = Inr () \<or> r = Inl (invalid_argument ''overlapping key range'')"
    using res by (auto split: if_splits)
  show "mset (Manifest_level i m') = mset (Manifest_level i m)
      + (if r = Inr () \<and> i = unat l then {#meta n s a b#} else {#})"
    using res with_table_props(1) [OF g(1), of i "meta n s a b"]
    by (auto simp: g grown_props(2) [OF l] split: if_splits)
  show "mf_path m' = mf_path m" "mf_nextTableNumber m' = mf_nextTableNumber m"
    "mf_logNumber m' = mf_logNumber m" "mf_lastSeq m' = mf_lastSeq m"
    "length (mf_levels m') = max (length (mf_levels m)) (Suc (unat l))"
    using res with_table_props(2-6) [OF g(1), of "meta n s a b"] g by (auto split: if_splits)
qed

text \<open>
  C23: adding a table keeps every level in order. Below level 0 it fails exactly when the key range
  overlaps some table of the level, although only the two neighbours of the insertion point are
  compared, and then no level has changed; otherwise the table is on its level and nothing else
  has moved.
\<close>

theorem addTable_keeps_levels:
  assumes "levels_inv m" "targetLevel \<noteq> -1" "minKey \<le> maxKey"
    and "\<forall>t \<in> set (Manifest_level 0 m). tm_number t \<noteq> number"
    and "addTable number tableSize minKey maxKey targetLevel m = (r, m')"
  shows "levels_inv m'
    \<and> (r = Inr () \<longleftrightarrow> targetLevel = 0 \<or>
        (\<forall>t \<in> set (Manifest_level (unat targetLevel) m). \<not> rangesOverlap t minKey maxKey))
    \<and> (r \<noteq> Inr () \<longrightarrow> r = Inl (invalid_argument ''overlapping key range'')
        \<and> (\<forall>i. mset (Manifest_level i m') = mset (Manifest_level i m)))
    \<and> (r = Inr () \<longrightarrow> (\<forall>i. mset (Manifest_level i m') = mset (Manifest_level i m)
        + (if i = unat targetLevel then {#meta number tableSize minKey maxKey#} else {#})))"
proof (intro conjI impI allI)
  note c = addTable_cases [OF assms]
  show "levels_inv m'"
    "r = Inr () \<longleftrightarrow> targetLevel = 0 \<or>
        (\<forall>t \<in> set (Manifest_level (unat targetLevel) m). \<not> rangesOverlap t minKey maxKey)"
    by (rule c)+
  show "r = Inl (invalid_argument ''overlapping key range'')" if "r \<noteq> Inr ()" using c(3) that by blast
  show "mset (Manifest_level i m') = mset (Manifest_level i m)" if "r \<noteq> Inr ()" for i
    using c(4) [of i] that by simp
  show "mset (Manifest_level i m') = mset (Manifest_level i m)
        + (if i = unat targetLevel then {#meta number tableSize minKey maxKey#} else {#})" if "r = Inr ()" for i
    using c(4) [of i] that by simp
qed

definition manifest_example :: Manifest where
  "manifest_example = \<lparr>mf_path = [''d'', ''MANIFEST''],
     mf_levels = [[meta 7 90 ''b'' ''p'', meta 5 80 ''a'' ''d''], [meta 2 70 ''a'' ''c'', meta 3 60 ''f'' ''k'']],
     mf_nextTableNumber = 9, mf_logNumber = 8, mf_lastSeq = 41\<rparr>"

lemma manifest_example_inv: "levels_inv manifest_example"
proof -
  have "level_inv i (Manifest_level i manifest_example)" for i
    by (cases i; cases "i - 1")
      (simp_all add: manifest_example_def Manifest_level_def level_inv_def table_range_def)
  then show ?thesis by (simp add: levels_inv_def)
qed

theorem addTable_keeps_levels_witness:
  "levels_inv (snd (addTable 9 50 ''d'' ''e'' 1 manifest_example))
   \<and> fst (addTable 9 50 ''d'' ''g'' 1 manifest_example) = Inl (invalid_argument ''overlapping key range'')"
proof -
  have fresh: "\<forall>t \<in> set (Manifest_level 0 manifest_example). tm_number t \<noteq> 9"
    by (simp add: manifest_example_def Manifest_level_def)
  have *: "unat (1::u32) = 1" "(1::u32) \<noteq> -1" "(1::u32) \<noteq> 0" by simp_all
  have "levels_inv (snd (addTable 9 50 ''d'' ''e'' 1 manifest_example))"
    using addTable_keeps_levels [OF manifest_example_inv *(2) _ fresh, of "''d''" "''e''" 50
        "fst (addTable 9 50 ''d'' ''e'' 1 manifest_example)" "snd (addTable 9 50 ''d'' ''e'' 1 manifest_example)"]
    by simp
  moreover have "\<not> (\<forall>t \<in> set (Manifest_level 1 manifest_example). \<not> rangesOverlap t ''d'' ''g'')"
    by (simp add: manifest_example_def Manifest_level_def rangesOverlap_def)
  then have "fst (addTable 9 50 ''d'' ''g'' 1 manifest_example) = Inl (invalid_argument ''overlapping key range'')"
    using addTable_keeps_levels [OF manifest_example_inv *(2) _ fresh, of "''d''" "''g''" 50
        "fst (addTable 9 50 ''d'' ''g'' 1 manifest_example)" "snd (addTable 9 50 ''d'' ''g'' 1 manifest_example)"]
      *(1,3) by auto
  ultimately show ?thesis by blast
qed

text \<open>
  Replacing tables succeeds when the added ranges overlap neither each other nor a table that
  stays on the target level.
\<close>

definition disjoint_ranges :: "TableMeta list \<Rightarrow> bool" where
  "disjoint_ranges ts \<longleftrightarrow>
     sorted_wrt (\<lambda>a b. \<not> rangesOverlap a (tm_minKey b) (tm_maxKey b)) ts"

lemma addTables_ok:
  assumes "levels_inv m" "l \<noteq> -1" "l \<noteq> 0"
    and "\<forall>t \<in> set ts. table_range t" "disjoint_ranges ts"
    and "\<forall>t \<in> set ts. \<forall>x \<in> set (Manifest_level (unat l) m). \<not> rangesOverlap x (tm_minKey t) (tm_maxKey t)"
    and "\<forall>t \<in> set ts. \<forall>x \<in> set (Manifest_level 0 m). tm_number x \<noteq> tm_number t"
  obtains m' where "addTables ts l m = (Inr (), m')" "levels_inv m'"
    "\<And>i. mset (Manifest_level i m') = mset (Manifest_level i m) + (if i = unat l then mset ts else {#})"
    "mf_path m' = mf_path m" "mf_nextTableNumber m' = mf_nextTableNumber m"
    "mf_logNumber m' = mf_logNumber m" "mf_lastSeq m' = mf_lastSeq m"
    "length (mf_levels m') \<le> max (length (mf_levels m)) (Suc (unat l))"
  using assms
proof (induction ts arbitrary: m thesis)
  case Nil
  from Nil.prems(1) [of m] Nil.prems(2) show ?case by simp
next
  case (Cons t ts)
  obtain r m1 where run: "addTable (tm_number t) (tm_size t) (tm_minKey t) (tm_maxKey t) l m = (r, m1)"
    by fastforce
  have rng: "tm_minKey t \<le> tm_maxKey t" and fresh: "\<forall>x \<in> set (Manifest_level 0 m). tm_number x \<noteq> tm_number t"
    using Cons.prems by (simp_all add: table_range_def)
  note c = addTable_cases [OF Cons.prems(2,3) rng fresh run]
  have r: "r = Inr ()" using c(2) Cons.prems by simp
  have l0: "unat l \<noteq> 0" using Cons.prems(4) by (simp add: unat_eq_zero)
  have lev: "set (Manifest_level (unat l) m1) = insert t (set (Manifest_level (unat l) m))"
    "set (Manifest_level 0 m1) = set (Manifest_level 0 m)"
    using arg_cong [OF c(4) [of "unat l"], of set_mset] arg_cong [OF c(4) [of 0], of set_mset] r l0
    by simp_all
  have dis: "disjoint_ranges ts"
    and d: "\<forall>x \<in> set ts. \<not> rangesOverlap t (tm_minKey x) (tm_maxKey x)"
    using Cons.prems(6) by (simp_all add: disjoint_ranges_def)
  have free1: "\<forall>x \<in> set ts. \<forall>y \<in> set (Manifest_level (unat l) m1). \<not> rangesOverlap y (tm_minKey x) (tm_maxKey x)"
    using Cons.prems(7) d by (simp add: lev)
  have fresh1: "\<forall>x \<in> set ts. \<forall>y \<in> set (Manifest_level 0 m1). tm_number y \<noteq> tm_number x"
    using Cons.prems(8) by (simp add: lev)
  have rng1: "\<forall>x \<in> set ts. table_range x" using Cons.prems(5) by simp
  obtain m' where m': "addTables ts l m1 = (Inr (), m')" "levels_inv m'"
    "\<And>i. mset (Manifest_level i m') = mset (Manifest_level i m1) + (if i = unat l then mset ts else {#})"
    "mf_path m' = mf_path m1" "mf_nextTableNumber m' = mf_nextTableNumber m1"
    "mf_logNumber m' = mf_logNumber m1" "mf_lastSeq m' = mf_lastSeq m1"
    "length (mf_levels m') \<le> max (length (mf_levels m1)) (Suc (unat l))"
    by (rule Cons.IH [OF _ c(1) Cons.prems(3,4) rng1 dis free1 fresh1]) blast
  show ?case
  proof (rule Cons.prems(1) [of m'])
    show "mset (Manifest_level i m') = mset (Manifest_level i m) + (if i = unat l then mset (t # ts) else {#})" for i
      using m'(3) [of i] c(4) [of i] r by simp
  qed (use run r m' c in simp_all)
qed

section \<open>Looking up a key\<close>

definition covers :: "string \<Rightarrow> TableMeta \<Rightarrow> bool" where
  "covers k t \<longleftrightarrow> tm_minKey t \<le> k \<and> k \<le> tm_maxKey t"

lemma covers_apart: "tm_maxKey t < tm_minKey u \<Longrightarrow> \<not> (covers k t \<and> covers k u)"
  unfolding covers_def by (metis leD order_trans)

lemma level_covers_unique:
  assumes "level_inv (Suc i) level" "t \<in> set level" "u \<in> set level" "covers k t" "covers k u"
  shows "t = u"
proof -
  have apart: "\<not> (covers k (level ! a) \<and> covers k (level ! b))" if "a < b" "b < length level" for a b
    using assms(1) that by (intro covers_apart) (simp add: level_inv_def sorted_wrt_iff_nth_less)
  from assms(2) obtain a where a: "a < length level" "t = level ! a" by (metis in_set_conv_nth)
  from assms(3) obtain b where b: "b < length level" "u = level ! b" by (metis in_set_conv_nth)
  have "\<not> a < b" "\<not> b < a" using apart [of a b] apart [of b a] a b assms(4,5) by blast+
  with a b show ?thesis by simp
qed

lemma find_unique:
  assumes "x \<in> set xs" "P x" "\<And>y. y \<in> set xs \<Longrightarrow> P y \<Longrightarrow> y = x"
  shows "find P xs = Some x"
proof (cases "find P xs")
  case None
  with assms(1,2) show ?thesis by (simp add: find_None_iff)
next
  case (Some y)
  then have "y \<in> set xs" "P y" by (auto simp: find_Some_iff)
  with Some assms(3) show ?thesis by blast
qed

lemma level_search:
  fixes k :: string
  assumes inv: "level_inv (Suc i) level"
  defines "pos \<equiv> partition_point (\<lambda>t. \<not> tm_minKey t > k) level"
  shows "(if pos = 0 then None else if covers k (level ! (pos - 1)) then Some (level ! (pos - 1)) else None)
    = find (covers k) level"
proof -
  have srt: "tm_maxKey (level ! a) < tm_minKey (level ! b)" if "a < b" "b < length level" for a b
    using inv that by (simp add: level_inv_def sorted_wrt_iff_nth_less)
  have only: "j = pos - 1 \<and> pos \<noteq> 0" if j: "j < length level" "covers k (level ! j)" for j
  proof -
    have "j < pos"
    proof (rule ccontr)
      assume "\<not> j < pos"
      then have p: "pos < length level" using j by simp
      then have at: "k < tm_minKey (level ! pos)"
        using nth_partition_point [of "\<lambda>t. \<not> tm_minKey t > k" level] by (simp add: pos_def)
      then show False
      proof (cases "j = pos")
        case False
        with \<open>\<not> j < pos\<close> have "tm_maxKey (level ! pos) < tm_minKey (level ! j)" using j by (intro srt) auto
        moreover have "tm_minKey (level ! pos) \<le> tm_maxKey (level ! pos)"
          using inv p by (simp add: level_inv_def table_range_def)
        ultimately have "k < tm_minKey (level ! j)" using at by order
        with j(2) show ?thesis unfolding covers_def by (simp add: leD)
      next
        case True
        with at j(2) show ?thesis unfolding covers_def by (simp add: leD)
      qed
    qed
    moreover have "\<not> j < pos - 1"
    proof
      assume lt: "j < pos - 1"
      have "pos \<le> length level" by (simp add: pos_def)
      with lt have "tm_maxKey (level ! j) < tm_minKey (level ! (pos - 1))" by (intro srt) auto
      moreover have "\<not> tm_minKey (level ! (pos - 1)) > k"
        using lt nth_before_partition_point [of "pos - 1" "\<lambda>t. \<not> tm_minKey t > k" level] by (simp add: pos_def)
      ultimately have "tm_maxKey (level ! j) < k" by order
      with j(2) show False unfolding covers_def by (simp add: leD)
    qed
    ultimately show ?thesis by simp
  qed
  show ?thesis
  proof (cases "pos \<noteq> 0 \<and> covers k (level ! (pos - 1))")
    case True
    have "pos \<le> length level" by (simp add: pos_def)
    with True have "pos - 1 < length level" by linarith
    then have "level ! (pos - 1) \<in> set level" by (rule nth_mem)
    then have "find (covers k) level = Some (level ! (pos - 1))"
      using True level_covers_unique [OF inv] by (intro find_unique) auto
    with True show ?thesis by simp
  next
    case False
    with only have "\<forall>t \<in> set level. \<not> covers k t" by (metis in_set_conv_nth)
    then have "find (covers k) level = None" by (simp add: find_None_iff)
    with False show ?thesis by auto
  qed
qed

lemma table_search:
  assumes "levels_inv m"
  shows "getTableMeta l k m =
      (if l = 0 then Inl (invalid_argument ''Cannot get ZERO level'')
       else Inr (find (covers k) (Manifest_level (unat l) m)))"
proof (cases "l = 0 \<or> unat l \<ge> length (mf_levels m)")
  case True
  then show ?thesis by (auto simp: getTableMeta_def Manifest_level_def)
next
  case False
  then obtain i where i: "unat l = Suc i" by (metis not0_implies_Suc unat_eq_zero)
  with assms False have "level_inv (Suc i) (mf_levels m ! unat l)"
    by (auto simp: levels_inv_def Manifest_level_def dest: spec [of _ "Suc i"])
  from level_search [OF this, of k, symmetric] False show ?thesis
    by (simp add: getTableMeta_def Manifest_level_def Let_def covers_def)
qed

text \<open>
  C24: in an ordered catalogue the binary search for the table of a key on a sorted level finds what
  a linear search of the level finds, and no other table of the level can hold the key. Level 0 is
  refused and a level that does not exist has no table.
\<close>

theorem getTableMeta_correct:
  assumes "levels_inv m"
  shows "getTableMeta levelNumber k m =
      (if levelNumber = 0 then Inl (invalid_argument ''Cannot get ZERO level'')
       else Inr (find (covers k) (Manifest_level (unat levelNumber) m)))
    \<and> (levelNumber \<noteq> 0 \<longrightarrow> (\<forall>t \<in> set (Manifest_level (unat levelNumber) m).
        \<forall>u \<in> set (Manifest_level (unat levelNumber) m). covers k t \<and> covers k u \<longrightarrow> t = u))"
proof (intro conjI impI ballI)
  fix t u
  assume "levelNumber \<noteq> 0" and tu: "t \<in> set (Manifest_level (unat levelNumber) m)"
    "u \<in> set (Manifest_level (unat levelNumber) m)" "covers k t \<and> covers k u"
  then obtain i where "unat levelNumber = Suc i" by (metis not0_implies_Suc unat_eq_zero)
  with assms have "level_inv (Suc i) (Manifest_level (unat levelNumber) m)" by (simp add: levels_inv_def)
  from level_covers_unique [OF this] tu show "t = u" by blast
qed (rule table_search [OF assms])

theorem getTableMeta_correct_witness:
  "getTableMeta 1 ''g'' manifest_example = Inr (Some (meta 3 60 ''f'' ''k''))
   \<and> getTableMeta 1 ''d'' manifest_example = Inr None"
proof -
  have "find (covers ''g'') (Manifest_level 1 manifest_example) = Some (meta 3 60 ''f'' ''k'')"
    "find (covers ''d'') (Manifest_level 1 manifest_example) = None"
    by (simp_all add: covers_def manifest_example_def Manifest_level_def)
  then show ?thesis
    using getTableMeta_correct [OF manifest_example_inv, of 1 "''g''", THEN conjunct1]
      getTableMeta_correct [OF manifest_example_inv, of 1 "''d''", THEN conjunct1]
    by simp
qed

section \<open>Replacing tables\<close>

definition without :: "u64 list \<Rightarrow> Manifest \<Rightarrow> Manifest" where
  "without removed m =
     m\<lparr>mf_levels := map (filter (\<lambda>table. tm_number table \<notin> set removed)) (mf_levels m)\<rparr>"

lemma without_props [simp]:
  "Manifest_level i (without removed m) = filter (\<lambda>t. tm_number t \<notin> set removed) (Manifest_level i m)"
  "mf_path (without removed m) = mf_path m" "mf_nextTableNumber (without removed m) = mf_nextTableNumber m"
  "mf_logNumber (without removed m) = mf_logNumber m" "mf_lastSeq (without removed m) = mf_lastSeq m"
  "length (mf_levels (without removed m)) = length (mf_levels m)"
  by (simp_all add: without_def Manifest_level_def)

lemma replaceTables_ok:
  assumes "levels_inv m" "l \<noteq> -1" "l \<noteq> 0"
    and "\<forall>t \<in> set added. table_range t" "disjoint_ranges added"
    and "\<forall>t \<in> set added. \<forall>x \<in> set (Manifest_level (unat l) m). tm_number x \<notin> set removed \<longrightarrow>
        \<not> rangesOverlap x (tm_minKey t) (tm_maxKey t)"
    and "\<forall>t \<in> set added. \<forall>x \<in> set (Manifest_level 0 m). tm_number x \<noteq> tm_number t"
  obtains m' where "replaceTables removed added l m = (Inr (), m')" "levels_inv m'"
    "\<And>i. mset (Manifest_level i m') =
        filter_mset (\<lambda>t. tm_number t \<notin> set removed) (mset (Manifest_level i m))
        + (if i = unat l then mset added else {#})"
    "mf_path m' = mf_path m" "mf_nextTableNumber m' = mf_nextTableNumber m"
    "mf_logNumber m' = mf_logNumber m" "mf_lastSeq m' = mf_lastSeq m"
    "length (mf_levels m') \<le> max (length (mf_levels m)) (Suc (unat l))"
proof -
  have "levels_inv (without removed m)"
    using assms(1) by (simp add: levels_inv_def level_inv_filter)
  moreover have "\<forall>t \<in> set added. \<forall>x \<in> set (Manifest_level (unat l) (without removed m)).
      \<not> rangesOverlap x (tm_minKey t) (tm_maxKey t)"
    using assms(6) by simp
  moreover have "\<forall>t \<in> set added. \<forall>x \<in> set (Manifest_level 0 (without removed m)). tm_number x \<noteq> tm_number t"
    using assms(7) by simp
  ultimately show ?thesis
    using addTables_ok [of "without removed m" l added thesis] assms(2-5) that
    by (simp add: replaceTables_def without_def [symmetric])
qed

section \<open>Saving and loading\<close>

definition key_bytes :: "string \<Rightarrow> string" where
  "key_bytes k = put_u32 (of_nat (length k)) @ k"

definition table_bytes :: "TableMeta \<Rightarrow> string" where
  "table_bytes t = put_u64 (tm_number t) @ put_u64 (tm_size t) @ key_bytes (tm_minKey t) @ key_bytes (tm_maxKey t)"

definition level_bytes :: "TableMeta list \<Rightarrow> string" where
  "level_bytes level = put_u64 (of_nat (length level)) @ concat (map table_bytes level)"

definition manifest_bytes :: "Manifest \<Rightarrow> string" where
  "manifest_bytes m = put_u64 (of_nat (length (mf_levels m))) @ put_u64 (mf_logNumber m)
     @ put_u8 kManifestFormatVersion @ put_u64 (mf_nextTableNumber m) @ put_u64 (mf_lastSeq m)
     @ concat (map level_bytes (mf_levels m))"

text \<open>Lengths and counts that fit their fields.\<close>

definition meta_fits :: "TableMeta \<Rightarrow> bool" where
  "meta_fits t \<longleftrightarrow> length (tm_minKey t) < 2 ^ 32 \<and> length (tm_maxKey t) < 2 ^ 32"

definition manifest_fits :: "Manifest \<Rightarrow> bool" where
  "manifest_fits m \<longleftrightarrow> length (mf_levels m) < 2 ^ 64
     \<and> (\<forall>level \<in> set (mf_levels m). length level < 2 ^ 64 \<and> (\<forall>t \<in> set level. meta_fits t))"

lemma produces_for:
  assumes "\<And>x. x \<in> set xs \<Longrightarrow> produces (f x) () (h x)"
  shows "produces (io_for xs f) () (concat (map h xs))"
  using assms
proof (induction xs)
  case Nil
  show ?case using produces_ret [of "()"] by (simp only: io_for.simps list.map concat.simps)
next
  case (Cons x xs)
  have "produces (io_bind (f x) (\<lambda>_. io_for xs f)) () (h x @ concat (map h xs))"
    by (rule produces_bind [OF Cons.prems Cons.IH]) (use Cons.prems in auto)
  then show ?case by simp
qed

lemma produces_writeKey: "produces (writeKey k) () (key_bytes k)"
  unfolding writeKey_def key_bytes_def by (intro produces_bind [where x = "()"] produces_write)

lemma produces_writeTable: "produces (writeTable t) () (table_bytes t)"
  unfolding writeTable_def table_bytes_def
  by (intro produces_bind [where x = "()"] produces_write produces_writeKey)

lemma produces_writeLevel: "produces (writeLevel level) () (level_bytes level)"
  unfolding writeLevel_def level_bytes_def
  by (intro produces_bind [where x = "()"] produces_write produces_for produces_writeTable)

lemma produces_writeManifest: "produces (writeManifest m) () (manifest_bytes m)"
  unfolding writeManifest_def manifest_bytes_def
  by (intro produces_bind [where x = "()"] produces_write produces_for produces_writeLevel)

lemma Manifest_save_alt:
  "Manifest_save m = with_FileWriter (mf_path m)
     (io_bind (writeManifest m) (\<lambda>x. io_bind FileWriter_finish (\<lambda>_. io_ret x)))"
proof -
  have "io_bind FileWriter_finish (\<lambda>_. io_ret x) = FileWriter_finish" for x :: unit
    by (rule ext) (simp add: io_bind_def split: option.splits sum.splits)
  then show ?thesis by (simp add: Manifest_save_def)
qed

lemma Manifest_save_nominal:
  "nominal w \<Longrightarrow> writable w (mf_path m) \<Longrightarrow>
   Manifest_save m w = Some (Inr (), publish (mf_path m) (manifest_bytes m) w)"
  using produces_writeManifest [of m] nominal_with_FileWriter [of w "mf_path m" "writeManifest m" "()"]
  by (simp add: Manifest_save_alt produces_def)

lemma mf_readValue_at:
  "at_pos content pos (x @ s) \<Longrightarrow> length x = n \<Longrightarrow> mf_readValue n msg (content, pos) = Inr (x, (content, pos + n))"
  unfolding at_pos_iff by (auto simp: mf_readValue_def stream_read_def substr_def)

lemma readKey_at:
  assumes "at_pos content pos (key_bytes k @ s)" "length k < 2 ^ 32"
  shows "readKey (content, pos) a b = Inr (k, (content, pos + length (key_bytes k)))"
proof -
  have p: "at_pos content pos (put_u32 (of_nat (length k)) @ k @ s)"
    using assms(1) by (simp add: key_bytes_def)
  have q: "at_pos content (pos + 4) (k @ s)" using at_pos_skip [OF p] by simp
  have "stream_read (length k) (content, pos + 4) = Some (k, (content, pos + 4 + length k))"
    using q unfolding at_pos_iff by (auto simp: stream_read_def substr_def)
  with mf_readValue_at [OF p, of 4] assms(2) show ?thesis
    by (simp add: readKey_def key_bytes_def unat_of_nat32)
qed

lemma readTable_at:
  assumes a: "at_pos content pos (table_bytes t @ s)" and f: "meta_fits t"
  shows "readTable (content, pos) = Inr (t, (content, pos + length (table_bytes t)))"
proof -
  let ?a = "key_bytes (tm_minKey t)" and ?b = "key_bytes (tm_maxKey t)"
  have p0: "at_pos content pos (put_u64 (tm_number t) @ put_u64 (tm_size t) @ ?a @ ?b @ s)"
    using a by (simp add: table_bytes_def)
  have p1: "at_pos content (pos + 8) (put_u64 (tm_size t) @ ?a @ ?b @ s)" using at_pos_skip [OF p0] by simp
  have p2: "at_pos content (pos + 16) (?a @ ?b @ s)" using at_pos_skip [OF p1] by (simp add: add.commute)
  have p3: "at_pos content (pos + 16 + length ?a) (?b @ s)" using at_pos_skip [OF p2] .
  show ?thesis
    using mf_readValue_at [OF p0, of 8] mf_readValue_at [OF p1, of 8] readKey_at [OF p2] readKey_at [OF p3] f
    by (simp add: readTable_def table_bytes_def meta_fits_def add.assoc)
qed

lemma readTables_at:
  assumes "at_pos content pos (concat (map table_bytes ts) @ s)" "\<forall>t \<in> set ts. meta_fits t"
  shows "readTables (length ts) (content, pos) = Inr (ts, (content, pos + length (concat (map table_bytes ts))))"
  using assms
proof (induction ts arbitrary: pos)
  case (Cons t ts)
  have a: "at_pos content pos (table_bytes t @ concat (map table_bytes ts) @ s)" using Cons.prems(1) by simp
  from Cons.IH [OF at_pos_skip [OF a]] Cons.prems(2) readTable_at [OF a] show ?case
    by (simp add: add.assoc)
qed simp

lemma readLevels_at:
  assumes "at_pos content pos (concat (map level_bytes ls) @ s)"
    "\<forall>level \<in> set ls. length level < 2 ^ 64 \<and> (\<forall>t \<in> set level. meta_fits t)"
  shows "readLevels (length ls) (content, pos) = Inr (ls, (content, pos + length (concat (map level_bytes ls))))"
  using assms
proof (induction ls arbitrary: pos)
  case (Cons l ls)
  have a0: "at_pos content pos (put_u64 (of_nat (length l)) @ concat (map table_bytes l) @ concat (map level_bytes ls) @ s)"
    using Cons.prems(1) by (simp add: level_bytes_def [of l])
  have a1: "at_pos content (pos + 8) (concat (map table_bytes l) @ concat (map level_bytes ls) @ s)"
    using at_pos_skip [OF a0] by simp
  have l: "length l < 2 ^ 64" "\<forall>t \<in> set l. meta_fits t" using Cons.prems(2) by simp_all
  from mf_readValue_at [OF a0, of 8] readTables_at [OF a1 l(2)] unat_of_nat64 [OF l(1)]
    Cons.IH [OF at_pos_skip [OF a1]] Cons.prems(2) show ?case
    by (simp add: add.assoc level_bytes_def)
qed simp

lemma readManifest_bytes:
  assumes "manifest_fits m"
  shows "readManifest (mf_path m) (manifest_bytes m, 0) = Inr m"
proof -
  let ?c = "manifest_bytes m" and ?ls = "concat (map level_bytes (mf_levels m))"
  have a0: "at_pos ?c 0 (put_u64 (of_nat (length (mf_levels m))) @ put_u64 (mf_logNumber m)
     @ put_u8 kManifestFormatVersion @ put_u64 (mf_nextTableNumber m) @ put_u64 (mf_lastSeq m) @ ?ls)"
    by (simp add: at_pos_def manifest_bytes_def)
  have a1: "at_pos ?c 8 (put_u64 (mf_logNumber m)
     @ put_u8 kManifestFormatVersion @ put_u64 (mf_nextTableNumber m) @ put_u64 (mf_lastSeq m) @ ?ls)"
    using at_pos_skip [OF a0] by simp
  have a2: "at_pos ?c 16 (put_u8 kManifestFormatVersion @ put_u64 (mf_nextTableNumber m)
     @ put_u64 (mf_lastSeq m) @ ?ls)"
    using at_pos_skip [OF a1] by simp
  have a3: "at_pos ?c 17 (put_u64 (mf_nextTableNumber m) @ put_u64 (mf_lastSeq m) @ ?ls)"
    using at_pos_skip [OF a2] by simp
  have a4: "at_pos ?c 25 (put_u64 (mf_lastSeq m) @ ?ls)" using at_pos_skip [OF a3] by simp
  have a5: "at_pos ?c 33 (?ls @ [])" using at_pos_skip [OF a4] by simp
  have "readLevels (unat (of_nat (length (mf_levels m)) :: u64)) (?c, 33) = Inr (mf_levels m, (?c, 33 + length ?ls))"
    using readLevels_at [OF a5] assms by (simp add: manifest_fits_def unat_of_nat64)
  with mf_readValue_at [OF a0, of 8] mf_readValue_at [OF a1, of 8] mf_readValue_at [OF a2, of 1]
    mf_readValue_at [OF a3, of 8] mf_readValue_at [OF a4, of 8]
  show ?thesis by (simp add: readManifest_def)
qed

lemma Manifest_load:
  "nominal w \<Longrightarrow> content_of w (mf_path m) = Some (manifest_bytes m) \<Longrightarrow> manifest_fits m \<Longrightarrow>
   Manifest_new (mf_path m) w = Some (Inr m, w)"
  by (simp add: Manifest_new_def io_bind_def io_act_def fs_query_def path_exists_def sys_open_read_def
      readManifest_bytes)

text \<open>C25: loading the file that \<open>save\<close> wrote gives back the same catalogue.\<close>

theorem manifest_roundtrip:
  assumes "nominal w" "writable w (mf_path m)" "manifest_fits m"
  shows "\<exists>w'. Manifest_save m w = Some (Inr (), w') \<and> Manifest_new (mf_path m) w' = Some (Inr m, w')"
proof -
  let ?w = "publish (mf_path m) (manifest_bytes m) w"
  have "mf_path m \<noteq> []" using assms(2) by (simp add: writable_def)
  then have "content_of ?w (mf_path m) = Some (manifest_bytes m)" by simp
  with Manifest_save_nominal [OF assms(1,2)] Manifest_load [of ?w m] assms show ?thesis by auto
qed

lemma manifest_example_fits: "manifest_fits manifest_example"
  by (simp add: manifest_fits_def manifest_example_def meta_fits_def)

theorem manifest_roundtrip_witness:
  "\<exists>w'. Manifest_save manifest_example empty_world = Some (Inr (), w')
     \<and> Manifest_new (mf_path manifest_example) w' = Some (Inr manifest_example, w')"
proof (rule manifest_roundtrip [OF empty_world_writable(1) _ manifest_example_fits])
  show "writable empty_world (mf_path manifest_example)"
    by (simp add: manifest_example_def writable_def empty_world_def temporary_path_def)
qed

text \<open>
  Under any faults, saving the catalogue leaves every other file alone, and its file either as
  it was or readable as the new catalogue; it returns normally only in the second case. A crash or
  an error in the middle never leaves an unreadable or mixed catalogue.
\<close>

theorem manifest_save_atomic:
  assumes "Manifest_save m w = Some (r, w')" "butlast (mf_path m) \<noteq> []" "manifest_fits m"
  shows "(\<forall>x. x \<noteq> mf_path m \<and> x \<noteq> temporary_path (mf_path m) \<longrightarrow> content_of w' x = content_of w x)
    \<and> (content_of w' (mf_path m) = content_of w (mf_path m)
       \<or> (\<exists>c. content_of w' (mf_path m) = Some c \<and> readManifest (mf_path m) (c, 0) = Inr m))
    \<and> (r = Inr () \<longrightarrow>
       (\<exists>c. content_of w' (mf_path m) = Some c \<and> readManifest (mf_path m) (c, 0) = Inr m))"
  using produced_file [OF assms(1) [unfolded Manifest_save_alt] assms(2) produces_writeManifest]
    readManifest_bytes [OF assms(3)] by blast

theorem manifest_save_atomic_witness:
  "\<exists>w'. Manifest_save manifest_example empty_world = Some (Inr (), w')
     \<and> (\<exists>c. content_of w' (mf_path manifest_example) = Some c
          \<and> readManifest (mf_path manifest_example) (c, 0) = Inr manifest_example)"
proof -
  have "writable empty_world (mf_path manifest_example)"
    by (simp add: manifest_example_def writable_def empty_world_def temporary_path_def)
  note run = Manifest_save_nominal [OF empty_world_writable(1) this]
  have "butlast (mf_path manifest_example) \<noteq> []" by (simp add: manifest_example_def)
  from manifest_save_atomic [OF run this manifest_example_fits] run show ?thesis by blast
qed

end
