(* ===== verification/WriteBatch.thy ===== *)
theory WriteBatch
  imports Versions
begin

text \<open>
  The write batches of \<open>src/WriteBatch.cpp\<close>: operations collected in order, without sequence
  numbers.
\<close>

record BatchRecord =
  br_key :: string
  br_type :: Type
  br_value :: string

record WriteBatch =
  wb_records :: "BatchRecord list"

definition WriteBatch_new :: WriteBatch where
  "WriteBatch_new = \<lparr>wb_records = []\<rparr>"

definition WriteBatch_put :: "string \<Rightarrow> string \<Rightarrow> WriteBatch \<Rightarrow> WriteBatch" where
  "WriteBatch_put k value b =
     b\<lparr>wb_records := wb_records b @ [\<lparr>br_key = k, br_type = Type_VALUE, br_value = value\<rparr>]\<rparr>"

definition WriteBatch_remove :: "string \<Rightarrow> WriteBatch \<Rightarrow> WriteBatch" where
  "WriteBatch_remove k b =
     b\<lparr>wb_records := wb_records b @ [\<lparr>br_key = k, br_type = Type_TOMBSTONE, br_value = []\<rparr>]\<rparr>"

definition WriteBatch_clear :: "WriteBatch \<Rightarrow> WriteBatch" where
  "WriteBatch_clear b = b\<lparr>wb_records := []\<rparr>"

text \<open>The loop of \<open>DB::write\<close> that gives every operation its own sequence number.\<close>

fun number_records :: "u64 \<Rightarrow> BatchRecord list \<Rightarrow> Record list" where
  "number_records seq [] = []"
| "number_records seq (r # rs) =
     \<lparr>rec_key = br_key r, rec_seq = seq, rec_type = br_type r, rec_value = br_value r\<rparr>
     # number_records (seq + 1) rs"

lemma length_number_records [simp]: "length (number_records seq rs) = length rs"
  by (induction rs arbitrary: seq) simp_all

lemma number_records_nth:
  "i < length rs \<Longrightarrow> number_records seq rs ! i =
   \<lparr>rec_key = br_key (rs ! i), rec_seq = seq + of_nat i, rec_type = br_type (rs ! i), rec_value = br_value (rs ! i)\<rparr>"
proof (induction rs arbitrary: seq i)
  case (Cons r rs)
  then show ?case by (cases i) (simp_all add: ac_simps)
qed simp

lemma number_records_Nil [simp]: "number_records seq rs = [] \<longleftrightarrow> rs = []"
  by (cases rs) simp_all

lemma number_records_seqs:
  assumes "unat seq + length rs \<le> 2 ^ 64"
  shows "r \<in> set (number_records seq rs) \<Longrightarrow>
    unat seq \<le> unat (rec_seq r) \<and> unat (rec_seq r) < unat seq + length rs"
proof -
  assume "r \<in> set (number_records seq rs)"
  then obtain i where i: "i < length rs" "rec_seq r = seq + of_nat i"
    by (auto simp: in_set_conv_nth number_records_nth)
  have "unat (seq + of_nat i) = unat seq + i"
    using i assms by (simp add: unat_word_ariths unat_of_nat)
  with i show ?thesis by simp
qed

text \<open>The sequence numbers of a batch are strictly ascending as long as the counter does not wrap.\<close>

lemma number_records_ascending:
  assumes "unat seq + length rs \<le> 2 ^ 64"
  shows "sorted_wrt (\<lambda>a b. rec_seq a < rec_seq b) (number_records seq rs)"
  unfolding sorted_wrt_iff_nth_less
proof (intro allI impI)
  fix i j
  assume "i < j" "j < length (number_records seq rs)"
  moreover from this have "unat (seq + of_nat i) = unat seq + i" "unat (seq + of_nat j) = unat seq + j"
    using assms by (simp_all add: unat_word_ariths unat_of_nat)
  ultimately show "rec_seq (number_records seq rs ! i) < rec_seq (number_records seq rs ! j)"
    by (simp add: number_records_nth word_less_nat_alt)
qed

end
