(* ===== verification/DB.thy ===== *)
theory DB
  imports Merge Manifest WriteBatch
begin

text \<open>
  The database of \<open>src/DB.cpp\<close>: opening a directory, writing batches, flushing the MemTable into a
  level 0 table, compaction, reads, scans and snapshots. A program of the database works on the
  world and the object together.
\<close>

section \<open>State\<close>

text \<open>
  The two \<open>std::unordered_map\<close> members are association lists, of which only lookups and updates
  are used. The set of active snapshot sequences, shared with the snapshots, is a multiset.
\<close>

record DB =
  db_activeMemTable :: MemTable
  db_dataDirectory :: path
  db_walFilePath :: path
  db_flushThresholdBytes :: u64
  db_manifest :: Manifest
  db_level0CompactionThreshold :: u64
  db_compactionSliceBytes :: u64
  db_compactionBaseThresholdBytes :: u64
  db_compactionCursors :: "(u64 \<times> string) list"
  db_tableCache :: "(u64 \<times> SSTable) list"
  db_nextSeq :: u64
  db_activeSnapshotSequences :: "u64 multiset"
  db_writeFailed :: bool

type_synonym 'a db = "(world \<times> DB, 'a) prog"

text \<open>Operations of the members.\<close>

definition on_memTable :: "'a mt \<Rightarrow> 'a db" where
  "on_memTable f = (\<lambda>(w, db).
     case f (w, db_activeMemTable db) of
       None \<Rightarrow> None
     | Some (r, (w', m')) \<Rightarrow> Some (r, (w', db\<lparr>db_activeMemTable := m'\<rparr>)))"

definition on_manifest :: "(world \<times> Manifest, 'a) prog \<Rightarrow> 'a db" where
  "on_manifest f = (\<lambda>(w, db).
     case f (w, db_manifest db) of
       None \<Rightarrow> None
     | Some (r, (w', m')) \<Rightarrow> Some (r, (w', db\<lparr>db_manifest := m'\<rparr>)))"

text \<open>A member function of the manifest that does no I/O, and one that may throw.\<close>

definition manifest_act :: "(Manifest \<Rightarrow> 'a \<times> Manifest) \<Rightarrow> (world \<times> Manifest, 'a) prog" where
  "manifest_act f = (\<lambda>(w, m). case f m of (x, m') \<Rightarrow> Some (Inr x, (w, m')))"

definition manifest_try :: "(Manifest \<Rightarrow> 'a result \<times> Manifest) \<Rightarrow> (world \<times> Manifest, 'a) prog" where
  "manifest_try f = (\<lambda>(w, m). case f m of (r, m') \<Rightarrow> Some (r, (w, m')))"

definition db_get :: "(DB \<Rightarrow> 'a) \<Rightarrow> 'a db" where
  "db_get f = io_get (\<lambda>(w, db). f db)"

definition db_upd :: "(DB \<Rightarrow> DB) \<Rightarrow> unit db" where
  "db_upd f = io_upd (\<lambda>(w, db). (w, f db))"

section \<open>Directories\<close>

definition create_directories :: "path \<Rightarrow> unit io" where
  "create_directories p =
     io_bind (io_act (fs_create_directories p)) (\<lambda>err.
     if err \<noteq> 0 then io_throw (system_error err ''filesystem error'') else io_ret ())"

definition ensureDataDirectory :: "path \<Rightarrow> unit io" where
  "ensureDataDirectory directory =
     io_bind (fs_throwing (path_exists directory)) (\<lambda>found.
     if \<not> found then create_directories directory
     else
       io_bind (fs_throwing (is_dir directory)) (\<lambda>isDirectory.
       if \<not> isDirectory then io_throw (invalid_argument ''Data directory is not a directory!'')
       else io_ret ()))"

fun cleanupOldWALFiles_loop :: "u64 \<Rightarrow> path list \<Rightarrow> unit io" where
  "cleanupOldWALFiles_loop currentFileNumber [] = io_ret ()"
| "cleanupOldWALFiles_loop currentFileNumber (p # ps) =
     io_bind (io_act (fs_query (is_regular_file p))) (\<lambda>regular.
     if regular \<noteq> Inr True then cleanupOldWALFiles_loop currentFileNumber ps
     else
       io_bind
         (case parseNumberedFile (last p) kWalPrefix kWalSuffix of
            Some number \<Rightarrow>
              if number < currentFileNumber then removeFile p ''remove wal file failed'' else io_ret ()
          | None \<Rightarrow> io_ret ())
         (\<lambda>_. cleanupOldWALFiles_loop currentFileNumber ps))"

text \<open>\<open>exists(directory) && is_directory(directory)\<close>, then the loop over its entries.\<close>

definition for_directory :: "path \<Rightarrow> (path list \<Rightarrow> unit io) \<Rightarrow> unit io" where
  "for_directory directory body =
     io_bind (fs_throwing (path_exists directory)) (\<lambda>found.
     if \<not> found then io_ret ()
     else
       io_bind (fs_throwing (is_dir directory)) (\<lambda>isDirectory.
       if \<not> isDirectory then io_ret ()
       else
         io_bind (io_act (fs_query (dir_entries directory))) (\<lambda>entries.
         case entries of Inl _ \<Rightarrow> io_ret () | Inr ps \<Rightarrow> body ps)))"

definition cleanupOldWALFiles :: "path \<Rightarrow> u64 \<Rightarrow> unit io" where
  "cleanupOldWALFiles directory currentFileNumber =
     for_directory directory (cleanupOldWALFiles_loop currentFileNumber)"

fun cleanupUntrackedSSTables_loop :: "u64 list \<Rightarrow> path list \<Rightarrow> unit io" where
  "cleanupUntrackedSSTables_loop activeTables [] = io_ret ()"
| "cleanupUntrackedSSTables_loop activeTables (p # ps) =
     io_bind (io_act (fs_query (is_regular_file p))) (\<lambda>regular.
     case regular of
       Inl _ \<Rightarrow> io_ret ()
     | Inr False \<Rightarrow> cleanupUntrackedSSTables_loop activeTables ps
     | Inr True \<Rightarrow>
         if extension (last p) \<noteq> ''.sst'' then cleanupUntrackedSSTables_loop activeTables ps
         else
           (case parseNumberedFile (last p) kSSTablePrefix kSSTableSuffix of
              None \<Rightarrow> cleanupUntrackedSSTables_loop activeTables ps
            | Some number \<Rightarrow>
                if number \<in> set activeTables then cleanupUntrackedSSTables_loop activeTables ps
                else
                  io_bind (removeFile p ''remove sst file failed'') (\<lambda>_.
                  cleanupUntrackedSSTables_loop activeTables ps)))"

definition cleanupUntrackedSSTables :: "path \<Rightarrow> u64 list \<Rightarrow> unit io" where
  "cleanupUntrackedSSTables directory activeTables =
     for_directory directory (cleanupUntrackedSSTables_loop activeTables)"

section \<open>Helpers of compaction and scans\<close>

text \<open>\<open>TableNumbers\<close>: a \<open>std::set\<close> with \<open>std::greater\<close>, as the list of its elements.\<close>

definition TableNumbers :: "u64 list \<Rightarrow> u64 list" where
  "TableNumbers ns = rev (sorted_list_of_set (set ns))"

definition selectLevelZeroCompactionTables :: "Manifest \<Rightarrow> u64 list" where
  "selectLevelZeroCompactionTables manifest =
     (let levelZero = Manifest_level 0 manifest;
          levelZeroMin = fold (\<lambda>t m. min m (tm_minKey t)) levelZero (tm_minKey (hd levelZero));
          levelZeroMax = fold (\<lambda>t m. max m (tm_maxKey t)) levelZero (tm_maxKey (hd levelZero))
      in TableNumbers (map tm_number levelZero @
           map tm_number (filter (\<lambda>t. \<not> (tm_minKey t > levelZeroMax \<or> tm_maxKey t < levelZeroMin))
             (Manifest_level 1 manifest))))"

definition tablePaths :: "path \<Rightarrow> u64 list \<Rightarrow> path list" where
  "tablePaths dataDirectory tableNumbers = map (sstablePath dataDirectory) tableNumbers"

fun openTableIterators :: "path list \<Rightarrow> RawIterator list io" where
  "openTableIterators [] = io_ret []"
| "openTableIterators (p # paths) =
     io_bind (SSTableIterator_new p) (\<lambda>it.
     io_bind (openTableIterators paths) (\<lambda>its. io_ret (SstIterator it # its)))"

definition writeCompactionSlice :: "fp \<Rightarrow> path \<Rightarrow> Record list \<Rightarrow> (world \<times> Manifest, TableMeta) prog" where
  "writeCompactionSlice fp dataDirectory records =
     io_bind (manifest_act allocateNumber) (\<lambda>outputNumber.
     io_bind (io_outer (addRecordToFile fp records (sstablePath dataDirectory outputNumber))) (\<lambda>fileSize.
     io_ret \<lparr>tm_number = outputNumber, tm_size = fileSize, tm_minKey = rec_key (hd records),
             tm_maxKey = rec_key (last records)\<rparr>))"

text \<open>One pass of the loop over \<open>recordIndex\<close>; the variables are the outputs, the bytes and the
  beginning of the current slice.\<close>

definition compaction_step ::
  "fp \<Rightarrow> path \<Rightarrow> Record list \<Rightarrow> u64 \<Rightarrow> TableMeta list \<times> u64 \<times> nat \<Rightarrow> nat
   \<Rightarrow> (world \<times> Manifest, TableMeta list \<times> u64 \<times> nat) prog" where
  "compaction_step fp dataDirectory records sliceThreshold state recordIndex =
     (case state of (outputTables, currentSliceBytes, sliceBegin) \<Rightarrow>
        let currentSliceBytes = currentSliceBytes + encodedRecordSize (records ! recordIndex)
        in if currentSliceBytes \<le> sliceThreshold then io_ret (outputTables, currentSliceBytes, sliceBegin)
        else if recordIndex + 1 < length records
            \<and> rec_key (records ! recordIndex) = rec_key (records ! (recordIndex + 1))
        then io_ret (outputTables, currentSliceBytes, sliceBegin)
        else
          io_bind (writeCompactionSlice fp dataDirectory
              (take (recordIndex - sliceBegin + 1) (drop sliceBegin records))) (\<lambda>table.
          io_ret (outputTables @ [table], 0, recordIndex + 1)))"

definition writeCompactionOutput ::
  "fp \<Rightarrow> path \<Rightarrow> Record list \<Rightarrow> u64 \<Rightarrow> (world \<times> Manifest, TableMeta list) prog" where
  "writeCompactionOutput fp dataDirectory records sliceThreshold =
     io_bind (io_fold (compaction_step fp dataDirectory records sliceThreshold) ([], 0, 0) [0..<length records])
       (\<lambda>(outputTables, currentSliceBytes, sliceBegin).
     if currentSliceBytes \<noteq> 0
     then io_bind (writeCompactionSlice fp dataDirectory (drop sliceBegin records)) (\<lambda>table.
          io_ret (outputTables @ [table]))
     else io_ret outputTables)"

definition overlapsScanRange :: "TableMeta \<Rightarrow> string \<Rightarrow> string \<Rightarrow> bool" where
  "overlapsScanRange table start end' \<longleftrightarrow> tm_maxKey table \<ge> start \<and> tm_minKey table < end'"

definition selectScanTables :: "Manifest \<Rightarrow> path \<Rightarrow> string \<Rightarrow> string \<Rightarrow> path list" where
  "selectScanTables manifest dataDirectory start end' =
     concat (map (\<lambda>levelNumber.
         map (\<lambda>table. sstablePath dataDirectory (tm_number table))
           (filter (\<lambda>table. overlapsScanRange table start end') (Manifest_level levelNumber manifest)))
       [0..<levelCount manifest])"

section \<open>Opening\<close>

definition DB_new :: "path \<Rightarrow> u64 \<Rightarrow> u64 \<Rightarrow> u64 \<Rightarrow> u64 \<Rightarrow> DB io" where
  "DB_new dataDirectory flushThreshold compactThreshold sliceThreshold compactBaseThresholdBytes =
     io_bind (ensureDataDirectory dataDirectory) (\<lambda>_.
     io_bind (Manifest_new (dataDirectory @ [''MANIFEST''])) (\<lambda>manifest.
     let sstableDirectory = dataDirectory @ [''sstable''];
         walDirectory = dataDirectory @ [''wal'']
     in
     io_bind (cleanupOrphanedTemps sstableDirectory) (\<lambda>_.
     io_bind (cleanupUntrackedSSTables sstableDirectory (allTableNumbers manifest)) (\<lambda>_.
     let walFilePath = walPath dataDirectory (Manifest_logNumber manifest) in
     io_bind (cleanupOldWALFiles walDirectory (Manifest_logNumber manifest)) (\<lambda>_.
     io_bind (MemTable_new walFilePath) (\<lambda>activeMemTable.
     io_ret
       \<lparr>db_activeMemTable = activeMemTable, db_dataDirectory = dataDirectory, db_walFilePath = walFilePath,
        db_flushThresholdBytes = flushThreshold, db_manifest = manifest,
        db_level0CompactionThreshold = compactThreshold, db_compactionSliceBytes = sliceThreshold,
        db_compactionBaseThresholdBytes = compactBaseThresholdBytes, db_compactionCursors = [],
        db_tableCache = [],
        db_nextSeq = max (Manifest_lastSeq manifest) (getMaxWALSeq activeMemTable) + 1,
        db_activeSnapshotSequences = {#}, db_writeFailed = False\<rparr>))))))"

section \<open>Reads\<close>

definition searchTable :: "u64 \<Rightarrow> string \<Rightarrow> u64 \<Rightarrow> string \<Rightarrow> (Result \<times> string) db" where
  "searchTable tableNumber k readSeq value =
     io_bind (db_get (\<lambda>db. map_of (db_tableCache db) tableNumber)) (\<lambda>cachedTable.
     case cachedTable of
       Some table \<Rightarrow> io_outer (SSTable_get table k readSeq value)
     | None \<Rightarrow>
         io_bind (db_get db_dataDirectory) (\<lambda>dataDirectory.
         io_bind (io_outer (SSTable_new (sstablePath dataDirectory tableNumber))) (\<lambda>table.
         io_bind (io_outer (SSTable_get table k readSeq value)) (\<lambda>result.
         io_bind (db_upd (\<lambda>db. db\<lparr>db_tableCache := (tableNumber, table) # db_tableCache db\<rparr>)) (\<lambda>_.
         io_ret result)))))"

text \<open>
  The two loops of \<open>searchSSTables\<close>. A result other than \<open>ABSENT\<close> ends the search.
\<close>

fun search_level0 :: "TableMeta list \<Rightarrow> string \<Rightarrow> u64 \<Rightarrow> string \<Rightarrow> (Result \<times> string) db" where
  "search_level0 [] k readSeq value = io_ret (Result_ABSENT, value)"
| "search_level0 (table # tables) k readSeq value =
     (if k < tm_minKey table \<or> k > tm_maxKey table then search_level0 tables k readSeq value
      else
        io_bind (searchTable (tm_number table) k readSeq value) (\<lambda>(result, value).
        if result \<noteq> Result_ABSENT then io_ret (result, value)
        else search_level0 tables k readSeq value))"

fun search_levels :: "nat list \<Rightarrow> string \<Rightarrow> u64 \<Rightarrow> string \<Rightarrow> (Result \<times> string) db" where
  "search_levels [] k readSeq value = io_ret (Result_ABSENT, value)"
| "search_levels (levelNumber # levelNumbers) k readSeq value =
     io_bind (db_get (\<lambda>db. getTableMeta (of_nat levelNumber) k (db_manifest db))) (\<lambda>found.
     io_bind (io_lift found) (\<lambda>table.
     case table of
       None \<Rightarrow> search_levels levelNumbers k readSeq value
     | Some table \<Rightarrow>
         io_bind (searchTable (tm_number table) k readSeq value) (\<lambda>(result, value).
         if result \<noteq> Result_ABSENT then io_ret (result, value)
         else search_levels levelNumbers k readSeq value)))"

definition searchSSTables :: "string \<Rightarrow> u64 \<Rightarrow> string \<Rightarrow> (bool \<times> string) db" where
  "searchSSTables k readSeq value =
     io_bind (db_get (\<lambda>db. Manifest_level 0 (db_manifest db))) (\<lambda>levelZero.
     io_bind (search_level0 levelZero k readSeq value) (\<lambda>(result, value).
     if result \<noteq> Result_ABSENT then io_ret (result = Result_VALUE, value)
     else
       io_bind (db_get (\<lambda>db. levelCount (db_manifest db))) (\<lambda>count.
       io_bind (search_levels [1..<count] k readSeq value) (\<lambda>(result, value).
       io_ret (result = Result_VALUE, value)))))"

definition DB_get_at :: "string \<Rightarrow> u64 \<Rightarrow> string \<Rightarrow> (bool \<times> string) db" where
  "DB_get_at k readSeq value =
     io_bind (db_get (\<lambda>db. MemTable_get (db_activeMemTable db) k readSeq value)) (\<lambda>(result, value).
     if result = Result_ABSENT then searchSSTables k readSeq value
     else io_ret (result = Result_VALUE, value))"

definition DB_get :: "string \<Rightarrow> string \<Rightarrow> (bool \<times> string) db" where
  "DB_get k value = io_bind (db_get db_nextSeq) (\<lambda>nextSeq. DB_get_at k (nextSeq - 1) value)"

text \<open>The wrapping of every iterator of a scan.\<close>

fun snapshot_iterators :: "u64 \<Rightarrow> RawIterator list \<Rightarrow> Iterator list result" where
  "snapshot_iterators readSeq [] = Inr []"
| "snapshot_iterators readSeq (it # its) =
     rbind (SnapshotIterator_new it readSeq) (\<lambda>sit.
     rbind (snapshot_iterators readSeq its) (\<lambda>sits. Inr (sit # sits)))"

definition DB_scan :: "string \<Rightarrow> string \<Rightarrow> u64 \<Rightarrow> Record list db" where
  "DB_scan start end' readSeq =
     io_bind (db_get id) (\<lambda>db.
     let memIterator = MemIterator (MemTableIterator_new (db_activeMemTable db));
         inputPaths = selectScanTables (db_manifest db) (db_dataDirectory db) start end'
     in
     io_bind (io_outer (openTableIterators inputPaths)) (\<lambda>tableIterators.
     let readSeq = (if readSeq = - 1 then db_nextSeq db - 1 else readSeq) in
     io_bind (io_lift (snapshot_iterators readSeq (memIterator # tableIterators))) (\<lambda>iterators.
     io_bind (io_lift (mergeAll iterators)) (\<lambda>result.
     io_ret (filter (\<lambda>record. rec_key record \<ge> start \<and> rec_key record < end' \<and> rec_type record = Type_VALUE)
       (latestVisiblePerKey result))))))"

section \<open>Snapshots\<close>

definition registerSnapshot :: "u64 db" where
  "registerSnapshot =
     io_bind (db_get (\<lambda>db. db_nextSeq db - 1)) (\<lambda>sequence.
     io_bind (db_upd (\<lambda>db. db\<lparr>db_activeSnapshotSequences := add_mset sequence (db_activeSnapshotSequences db)\<rparr>))
       (\<lambda>_. io_ret sequence))"

text \<open>
  A snapshot holds a \<open>std::weak_ptr\<close> to the multiset of the database, or an empty one after it was
  moved from or released. \<open>lock()\<close> gives the multiset while the database exists: the state of the
  operations below is \<open>None\<close> once it is destroyed.
\<close>

record Snapshot =
  sn_activeSequences :: bool
  sn_seq :: u64

definition Snapshot_new :: "u64 \<Rightarrow> Snapshot" where
  "Snapshot_new seq = \<lparr>sn_activeSequences = True, sn_seq = seq\<rparr>"

definition DB_snapshot :: "Snapshot db" where
  "DB_snapshot = io_bind registerSnapshot (\<lambda>seq. io_ret (Snapshot_new seq))"

definition activeSnapshotCount :: "DB \<Rightarrow> nat" where
  "activeSnapshotCount db = size (db_activeSnapshotSequences db)"

definition smallestActiveSnapshot :: "DB \<Rightarrow> u64" where
  "smallestActiveSnapshot db =
     (if db_activeSnapshotSequences db = {#} then db_nextSeq db - 1
      else Min_mset (db_activeSnapshotSequences db))"

definition Snapshot_release :: "Snapshot \<Rightarrow> u64 multiset option \<Rightarrow> Snapshot \<times> u64 multiset option" where
  "Snapshot_release s active =
     (s\<lparr>sn_activeSequences := False\<rparr>,
      case active of
        Some activeSequences \<Rightarrow>
          if sn_activeSequences s
          then Some (if sn_seq s \<in># activeSequences then activeSequences - {#sn_seq s#} else activeSequences)
          else Some activeSequences
      | None \<Rightarrow> None)"

text \<open>Moving leaves the source with an empty pointer and its sequence number.\<close>

definition Snapshot_move :: "Snapshot \<Rightarrow> Snapshot \<times> Snapshot" where
  "Snapshot_move other = (other, other\<lparr>sn_activeSequences := False\<rparr>)"

definition Snapshot_assign ::
  "bool \<Rightarrow> Snapshot \<Rightarrow> Snapshot \<Rightarrow> u64 multiset option \<Rightarrow> Snapshot \<times> Snapshot \<times> u64 multiset option" where
  "Snapshot_assign sameObject this other active =
     (if sameObject then (this, other, active)
      else case Snapshot_release this active of (_, active') \<Rightarrow>
        (case Snapshot_move other of (this', other') \<Rightarrow> (this', other', active')))"

definition Snapshot_seq :: "Snapshot \<Rightarrow> u64" where
  "Snapshot_seq s = sn_seq s"

definition Snapshot_dtor :: "Snapshot \<Rightarrow> u64 multiset option \<Rightarrow> u64 multiset option" where
  "Snapshot_dtor s active = snd (Snapshot_release s active)"

section \<open>Compaction\<close>

definition levelSizeBytes :: "DB \<Rightarrow> nat \<Rightarrow> u64" where
  "levelSizeBytes db levelNumber =
     foldl (\<lambda>totalBytes table. totalBytes + tm_size table) 0 (Manifest_level levelNumber (db_manifest db))"

definition levelCompactionBudget :: "DB \<Rightarrow> nat \<Rightarrow> u64" where
  "levelCompactionBudget db levelNumber =
     foldl (\<lambda>budget _. budget * 10) (db_compactionBaseThresholdBytes db) [2..<levelNumber + 1]"

definition firstOverBudgetLevel :: "DB \<Rightarrow> nat option" where
  "firstOverBudgetLevel db =
     find (\<lambda>levelNumber. levelCompactionBudget db levelNumber < levelSizeBytes db levelNumber)
       [1..<levelCount (db_manifest db)]"

definition appendOverlappingTables :: "DB \<Rightarrow> TableMeta list \<Rightarrow> nat \<Rightarrow> TableMeta list" where
  "appendOverlappingTables db tables nextLevel =
     (if nextLevel \<ge> levelCount (db_manifest db) then tables
      else
        let selectedTable = hd tables
        in tables @ filter (\<lambda>table. rangesOverlap table (tm_minKey selectedTable) (tm_maxKey selectedTable))
             (Manifest_level nextLevel (db_manifest db)))"

definition selectHigherLevelCompactionTables :: "nat \<Rightarrow> u64 list db" where
  "selectHigherLevelCompactionTables levelNumber =
     io_bind (db_get id) (\<lambda>db.
     let levelTables = Manifest_level levelNumber (db_manifest db) in
     if levelTables = [] then io_ret []
     else
       let selectedTable =
             (case map_of (db_compactionCursors db) (of_nat levelNumber) of
                None \<Rightarrow> hd levelTables
              | Some cursor \<Rightarrow>
                  let table = partition_point (\<lambda>t. \<not> cursor < tm_minKey t) levelTables
                  in levelTables ! (if table = length levelTables then 0 else table))
       in
       io_bind (db_upd (\<lambda>db. db\<lparr>db_compactionCursors :=
           AList.update (of_nat levelNumber) (tm_maxKey selectedTable) (db_compactionCursors db)\<rparr>)) (\<lambda>_.
       io_ret (map tm_number (appendOverlappingTables db [selectedTable] (levelNumber + 1)))))"

definition compactRange :: "fp \<Rightarrow> u64 list \<Rightarrow> u64 \<Rightarrow> unit db" where
  "compactRange fp removedTables targetLevel =
     io_bind (db_get id) (\<lambda>db.
     let inputPaths = tablePaths (db_dataDirectory db) removedTables in
     io_bind (io_outer (openTableIterators inputPaths)) (\<lambda>iterators.
     io_bind (io_lift (mergeAll (map RawIt iterators))) (\<lambda>records.
     let records = retainForCompaction records (smallestActiveSnapshot db) in
     io_bind (on_manifest (writeCompactionOutput fp (db_dataDirectory db) records (db_compactionSliceBytes db)))
       (\<lambda>outputTables.
     io_bind (on_manifest (manifest_try (replaceTables removedTables outputTables (ucast targetLevel)))) (\<lambda>_.
     io_bind (db_get db_manifest) (\<lambda>manifest.
     io_bind (io_outer (Manifest_save manifest)) (\<lambda>_.
     io_bind (io_outer (io_for inputPaths (\<lambda>p. removeFile p ''remove old sst file failed''))) (\<lambda>_.
     db_upd (\<lambda>db. db\<lparr>db_tableCache :=
       fold (\<lambda>tableNumber. AList.delete tableNumber) removedTables (db_tableCache db)\<rparr>)))))))))"

definition compactLevel :: "fp \<Rightarrow> nat \<Rightarrow> unit db" where
  "compactLevel fp levelNumber =
     (if levelNumber = 0
      then
        io_bind (db_get db_manifest) (\<lambda>manifest.
        if Manifest_level 0 manifest = [] then io_ret ()
        else compactRange fp (selectLevelZeroCompactionTables manifest) (of_nat levelNumber + 1))
      else
        io_bind (selectHigherLevelCompactionTables levelNumber) (\<lambda>removedTables.
        if removedTables = [] then io_ret () else compactRange fp removedTables (of_nat levelNumber + 1)))"

text \<open>The loop has no bound of its own, so it may run forever.\<close>

partial_function (option) maybeCompact :: "fp \<Rightarrow> unit db" where
  "maybeCompact fp s =
     (if unat (db_level0CompactionThreshold (snd s)) < length (Manifest_level 0 (db_manifest (snd s)))
      then
        (case compactLevel fp 0 s of
           None \<Rightarrow> None
         | Some (Inl e, s') \<Rightarrow> Some (Inl e, s')
         | Some (Inr _, s') \<Rightarrow> maybeCompact fp s')
      else
        case firstOverBudgetLevel (snd s) of
          None \<Rightarrow> Some (Inr (), s)
        | Some overBudgetLevel \<Rightarrow>
            (case compactLevel fp overBudgetLevel s of
               None \<Rightarrow> None
             | Some (Inl e, s') \<Rightarrow> Some (Inl e, s')
             | Some (Inr _, s') \<Rightarrow> maybeCompact fp s'))"

definition DB_compact :: "fp \<Rightarrow> unit db" where
  "DB_compact fp = compactLevel fp 0"

section \<open>Flushing and writing\<close>

text \<open>\<open>activeMemTable_ = std::make_unique<MemTable>(path)\<close>: the old table is destroyed last.\<close>

definition replace_memTable :: "path \<Rightarrow> unit db" where
  "replace_memTable p =
     io_bind (io_outer (MemTable_new p)) (\<lambda>m.
     io_upd (\<lambda>(w, db). (MemTable_dtor (db_activeMemTable db) w, db\<lparr>db_activeMemTable := m\<rparr>)))"

definition flush_body :: "fp \<Rightarrow> unit db" where
  "flush_body fp =
     io_bind (on_manifest (manifest_act allocateNumber)) (\<lambda>tableNumber.
     io_bind (db_get db_dataDirectory) (\<lambda>dataDirectory.
     let tablePath = sstablePath dataDirectory tableNumber in
     io_bind (io_outer (fs_throwing (path_exists (butlast tablePath)))) (\<lambda>found.
     io_bind (if \<not> found then io_outer (create_directories (butlast tablePath)) else io_ret ()) (\<lambda>_.
     io_bind (on_manifest (manifest_act allocateNumber)) (\<lambda>nextWALNumber.
     io_bind (on_manifest (manifest_act (\<lambda>m. ((), setLogNumber nextWALNumber m)))) (\<lambda>_.
     io_bind (db_get db_activeMemTable) (\<lambda>memTable.
     io_bind (io_outer (build fp memTable tablePath)) (\<lambda>(minKey, maxKey).
     io_bind (io_outer (fs_throwing (file_size tablePath))) (\<lambda>fileSize.
     io_bind (on_manifest (manifest_try (addTable tableNumber fileSize minKey maxKey 0))) (\<lambda>_.
     io_bind (db_get db_nextSeq) (\<lambda>nextSeq.
     io_bind (on_manifest (manifest_act (\<lambda>m. ((), setLastSeq (nextSeq - 1) m)))) (\<lambda>_.
     io_bind (db_get db_manifest) (\<lambda>manifest.
     io_bind (io_outer (Manifest_save manifest)) (\<lambda>_.
     io_bind (db_get db_walFilePath) (\<lambda>oldWALPath.
     let nextWALPath = walPath dataDirectory nextWALNumber in
     io_bind (replace_memTable nextWALPath) (\<lambda>_.
     io_bind (db_upd (\<lambda>db. db\<lparr>db_walFilePath := nextWALPath\<rparr>)) (\<lambda>_.
     io_bind (io_outer (removeFile oldWALPath ''remove wal file failed'')) (\<lambda>_.
     maybeCompact fp))))))))))))))))))"

definition flush :: "fp \<Rightarrow> unit db" where
  "flush fp =
     io_bind (db_get db_activeMemTable) (\<lambda>memTable.
     if MemTable_size memTable = 0 then io_ret ()
     else
       io_try (flush_body fp) (\<lambda>e.
         io_bind (db_upd (\<lambda>db. db\<lparr>db_writeFailed := True\<rparr>)) (\<lambda>_. io_throw e)))"

text \<open>Every exception of the engine is a \<open>std::exception\<close>, which \<open>write\<close> only prints.\<close>

definition DB_write :: "fp \<Rightarrow> WriteBatch \<Rightarrow> bool db" where
  "DB_write fp batch =
     io_bind (db_get id) (\<lambda>db.
     if db_writeFailed db then io_ret False
     else
       let seq = db_nextSeq db in
       io_bind (db_upd (\<lambda>db. db\<lparr>db_nextSeq := db_nextSeq db + of_nat (length (wb_records batch))\<rparr>)) (\<lambda>_.
       let records = number_records seq (wb_records batch) in
       io_bind (on_memTable (applyBatch records)) (\<lambda>applied.
       if \<not> applied then io_ret False
       else
         io_bind
           (io_try
             (io_bind (db_get id) (\<lambda>db.
              if size_bytes (db_activeMemTable db) > db_flushThresholdBytes db then flush fp else io_ret ()))
             (\<lambda>_. io_ret ()))
           (\<lambda>_. io_ret True))))"

definition DB_put :: "fp \<Rightarrow> string \<Rightarrow> string \<Rightarrow> bool db" where
  "DB_put fp k value = DB_write fp (WriteBatch_put k value WriteBatch_new)"

definition DB_remove :: "fp \<Rightarrow> string \<Rightarrow> bool db" where
  "DB_remove fp k = DB_write fp (WriteBatch_remove k WriteBatch_new)"

end
