(* ===== verification/DBReads.thy ===== *)
theory DBReads
  imports DB
begin

text \<open>
  The invariant of an open database and its reads. The abstraction of the database is the list of
  all its records: those of the MemTable and those of every table of the catalogue; \<open>get\<close> and \<open>scan\<close>
  are proved to read this list. A ghost function gives the records of every table file.
\<close>

section \<open>The invariant\<close>

type_synonym contents = "u64 \<Rightarrow> Record list"

definition tbl :: "contents \<Rightarrow> TableMeta \<Rightarrow> Record list" where
  "tbl T t = T (tm_number t)"

lemma tbl_numbers: "map T (map tm_number ts) = map (tbl T) ts"
  by (simp add: tbl_def)

definition table_at :: "fp \<Rightarrow> world \<Rightarrow> path \<Rightarrow> contents \<Rightarrow> TableMeta \<Rightarrow> bool" where
  "table_at fp w dir T t \<longleftrightarrow>
     table_file fp w (sstablePath dir (tm_number t)) (tbl T t)
     \<and> tm_minKey t = rec_key (hd (tbl T t)) \<and> tm_maxKey t = rec_key (last (tbl T t))
     \<and> tm_size t = of_nat (length (sst_image fp (tbl T t)))"

definition all_tables :: "Manifest \<Rightarrow> TableMeta list" where
  "all_tables m = concat (mf_levels m)"

text \<open>
  Of two tables of different levels the one on the higher level (with the smaller number) has the
  newer versions of every key they share; on level 0 it is the one with the greater number.
\<close>

definition layers_ok :: "contents \<Rightarrow> Manifest \<Rightarrow> bool" where
  "layers_ok T m \<longleftrightarrow>
     (\<forall>i j. \<forall>t \<in> set (Manifest_level i m). \<forall>u \<in> set (Manifest_level j m).
        i < j \<or> i = 0 \<and> j = 0 \<and> tm_number u < tm_number t \<longrightarrow> newer_than (tbl T t) (tbl T u))"

definition numbers_ok :: "Manifest \<Rightarrow> bool" where
  "numbers_ok m \<longleftrightarrow>
     (\<forall>i j. \<forall>t \<in> set (Manifest_level i m). \<forall>u \<in> set (Manifest_level j m).
        tm_number t = tm_number u \<longrightarrow> i = j \<and> t = u)
     \<and> (\<forall>i. \<forall>t \<in> set (Manifest_level i m). tm_number t < mf_nextTableNumber m)"

text \<open>
  There are never more than 21 levels (theory DBCompaction: with budgets that grow tenfold per level
  the next one would be filled only by more bytes than 64 bits can count).
\<close>

definition catalogue_ok :: "fp \<Rightarrow> contents \<Rightarrow> world \<Rightarrow> path \<Rightarrow> Manifest \<Rightarrow> bool" where
  "catalogue_ok fp T w dir m \<longleftrightarrow>
     levels_inv m \<and> length (mf_levels m) \<le> 21 \<and> layers_ok T m \<and> numbers_ok m \<and> (\<forall>t \<in> set (all_tables m). table_at fp w dir T t)"

definition cache_ok :: "fp \<Rightarrow> contents \<Rightarrow> DB \<Rightarrow> bool" where
  "cache_ok fp T db \<longleftrightarrow>
     (\<forall>n st. map_of (db_tableCache db) n = Some st \<longrightarrow>
        n < mf_nextTableNumber (db_manifest db)
        \<and> (n \<in> tm_number ` set (all_tables (db_manifest db)) \<longrightarrow>
             st = sst_of (sstablePath (db_dataDirectory db) n) fp (T n)))"

definition sources :: "contents \<Rightarrow> DB \<Rightarrow> Record list list" where
  "sources T db = mt_records (db_activeMemTable db) # map (tbl T) (all_tables (db_manifest db))"

definition db_records :: "contents \<Rightarrow> DB \<Rightarrow> Record list" where
  "db_records T db = concat (sources T db)"

definition db_inv :: "fp \<Rightarrow> contents \<Rightarrow> world \<Rightarrow> DB \<Rightarrow> bool" where
  "db_inv fp T w db \<longleftrightarrow>
     catalogue_ok fp T w (db_dataDirectory db) (db_manifest db) \<and> cache_ok fp T db
     \<and> mem_inv (db_activeMemTable db)
     \<and> (\<forall>t \<in> set (all_tables (db_manifest db)). newer_than (mt_records (db_activeMemTable db)) (tbl T t))
     \<and> (\<forall>r \<in> set (db_records T db). rec_seq r < db_nextSeq db)"

lemma in_all_tables: "t \<in> set (all_tables m) \<longleftrightarrow> (\<exists>i. t \<in> set (Manifest_level i m))"
proof
  assume "t \<in> set (all_tables m)"
  then obtain level where "level \<in> set (mf_levels m)" "t \<in> set level" by (auto simp: all_tables_def)
  then obtain i where "i < length (mf_levels m)" "t \<in> set (mf_levels m ! i)" by (metis in_set_conv_nth)
  then show "\<exists>i. t \<in> set (Manifest_level i m)" by (intro exI [of _ i]) (simp add: Manifest_level_def)
next
  assume "\<exists>i. t \<in> set (Manifest_level i m)"
  then obtain i where "t \<in> set (Manifest_level i m)" by blast
  then show "t \<in> set (all_tables m)"
    by (auto simp: all_tables_def Manifest_level_def split: if_splits intro: nth_mem)
qed

lemma all_tables_levels: "all_tables m = concat (map (\<lambda>i. Manifest_level i m) [0..<levelCount m])"
proof -
  have "mf_levels m = map (\<lambda>i. Manifest_level i m) [0..<levelCount m]"
    by (rule nth_equalityI) (simp_all add: levelCount_def Manifest_level_def)
  then show ?thesis by (simp add: all_tables_def)
qed

lemma table_at_sorted: "table_at fp w dir T t \<Longrightarrow> sorted_records (tbl T t) \<and> tbl T t \<noteq> []"
  by (simp add: table_at_def table_file_def table_ok_def)

text \<open>The key range of a table bounds the keys of its records.\<close>

lemma sorted_key_bounds:
  assumes "sorted_records rs" "r \<in> set rs"
  shows "rec_key (hd rs) \<le> rec_key r" "rec_key r \<le> rec_key (last rs)"
proof -
  from assms(2) obtain i where i: "i < length rs" "r = rs ! i" by (auto simp: in_set_conv_nth)
  have lt: "rkey (rs ! a) < rkey (rs ! b)" if "a < b" "b < length rs" for a b
    using assms(1) that by (simp add: sorted_records_def sorted_wrt_iff_nth_less)
  have le: "rec_key (rs ! a) \<le> rec_key (rs ! b)" if "a \<le> b" "b < length rs" for a b
  proof (cases "a = b")
    case False
    with that lt [of a b] show ?thesis by (auto simp: rkey_less)
  qed simp
  have "hd rs = rs ! 0" "last rs = rs ! (length rs - 1)"
    using assms(2) by (auto simp: hd_conv_nth last_conv_nth dest: length_pos_if_in_set)
  with le [of 0 i] le [of i "length rs - 1"] i show "rec_key (hd rs) \<le> rec_key r" "rec_key r \<le> rec_key (last rs)"
    by auto
qed

lemma table_at_keys:
  assumes "table_at fp w dir T t" "r \<in> set (tbl T t)"
  shows "covers (rec_key r) t"
  using assms sorted_key_bounds [of "tbl T t" r] table_at_sorted [OF assms(1)]
  by (simp add: covers_def table_at_def)

lemma newer_disjoint:
  assumes "table_at fp w dir T t" "table_at fp w dir T u" "tm_maxKey t < tm_minKey u"
  shows "newer_than (tbl T t) (tbl T u)"
  unfolding newer_than_def
proof (intro ballI impI)
  fix x y
  assume "x \<in> set (tbl T t)" "y \<in> set (tbl T u)" "rec_key x = rec_key y"
  then have "covers (rec_key x) t" "covers (rec_key x) u" using table_at_keys assms by metis+
  with covers_apart [OF assms(3)] show "rec_seq y < rec_seq x" by blast
qed

text \<open>The tables of an ordered catalogue, in the order in which they are searched, are layered.\<close>

lemma level_layered:
  assumes "catalogue_ok fp T w dir m"
  shows "layered (map (tbl T) (Manifest_level i m))"
proof -
  have inv: "level_inv i (Manifest_level i m)" and lay: "layers_ok T m"
    and at: "\<And>t. t \<in> set (Manifest_level i m) \<Longrightarrow> table_at fp w dir T t"
    using assms in_all_tables by (auto simp: catalogue_ok_def levels_inv_def)
  have "sorted_wrt (\<lambda>a b. newer_than (tbl T a) (tbl T b)) (Manifest_level i m)"
  proof (cases "i = 0")
    case True
    with inv have "sorted_wrt (\<lambda>a b. tm_number a > tm_number b) (Manifest_level i m)"
      by (simp add: level_inv_def)
    then show ?thesis
      by (rule sorted_wrt_mono_rel [rotated]) (use lay True in \<open>auto simp: layers_ok_def\<close>)
  next
    case False
    with inv have "sorted_wrt (\<lambda>a b. tm_maxKey a < tm_minKey b) (Manifest_level i m)"
      by (simp add: level_inv_def)
    then show ?thesis
      by (rule sorted_wrt_mono_rel [rotated]) (use at in \<open>auto intro: newer_disjoint\<close>)
  qed
  then show ?thesis by (simp add: layered_def sorted_wrt_map)
qed

lemma tables_layered:
  assumes "catalogue_ok fp T w dir m"
  shows "layered (map (tbl T) (all_tables m))"
proof -
  have lay: "layers_ok T m" using assms by (simp add: catalogue_ok_def)
  have "layered (map (tbl T) (concat (map (\<lambda>i. Manifest_level i m) [a..<a + n])))" for a n
  proof (induction n arbitrary: a)
    case (Suc n)
    have split: "[a..<a + Suc n] = a # [Suc a..<Suc a + n]" by (simp add: upt_rec)
    have "newer_than x y" if "x \<in> set (map (tbl T) (Manifest_level a m))"
      "y \<in> set (map (tbl T) (concat (map (\<lambda>i. Manifest_level i m) [Suc a..<Suc a + n])))" for x y
      using that lay by (auto simp: layers_ok_def)
    with level_layered [OF assms, of a] Suc [of "Suc a"] show ?case
      unfolding split by (simp add: layered_append)
  qed simp
  from this [of 0 "levelCount m"] show ?thesis by (simp add: all_tables_levels)
qed

lemma sources_layered: "db_inv fp T w db \<Longrightarrow> layered (sources T db)"
  using tables_layered [of fp T w "db_dataDirectory db" "db_manifest db"]
  by (auto simp: db_inv_def sources_def)

lemma sources_sorted: "db_inv fp T w db \<Longrightarrow> \<forall>rs \<in> set (sources T db). sorted_records rs"
  using table_at_sorted mt_records_sorted by (fastforce simp: db_inv_def sources_def catalogue_ok_def)

lemma db_records_unique: "db_inv fp T w db \<Longrightarrow> unique_versions (db_records T db)"
  unfolding db_records_def
  using sources_layered sources_sorted sorted_records_unique by (intro layered_unique) blast+

lemma filter_covers:
  assumes "level_inv i level" "0 < i"
  shows "filter (covers k) level = (case find (covers k) level of None \<Rightarrow> [] | Some t \<Rightarrow> [t])"
proof -
  obtain j where "i = Suc j" using assms(2) by (cases i) auto
  then have srt: "sorted_wrt (\<lambda>a b. tm_maxKey a < tm_minKey b) level"
    using assms(1) by (simp add: level_inv_def)
  then show ?thesis
  proof (induction level)
    case (Cons t level)
    show ?case
    proof (cases "covers k t")
      case True
      then have "\<not> covers k u" if "u \<in> set level" for u
        using Cons.prems that covers_apart [of t u k] by auto
      then have "filter (covers k) level = []" by (simp add: filter_empty_conv)
      with True show ?thesis by simp
    qed (use Cons in simp)
  qed simp
qed

section \<open>Searching one table\<close>

text \<open>\<open>searchable n (w, db) rs\<close>: table \<open>n\<close> of the database holds \<open>rs\<close>, in its file and in the cache.\<close>

definition searchable :: "u64 \<Rightarrow> world \<times> DB \<Rightarrow> Record list \<Rightarrow> bool" where
  "searchable n = (\<lambda>(w, db) rs.
     nominal w \<and> (\<exists>fp. table_file fp w (sstablePath (db_dataDirectory db) n) rs
       \<and> (\<forall>st. map_of (db_tableCache db) n = Some st \<longrightarrow>
            st = sst_of (sstablePath (db_dataDirectory db) n) fp rs)))"

lemma searchTable_run:
  assumes n: "nominal w" and f: "table_file fp w (sstablePath (db_dataDirectory db) n) rs"
    and c: "\<forall>st. map_of (db_tableCache db) n = Some st \<longrightarrow> st = sst_of (sstablePath (db_dataDirectory db) n) fp rs"
  shows "searchTable n k q v (w, db) =
    Some (Inr (read_outcome (visible rs k q) v),
      (w, if map_of (db_tableCache db) n = None
          then db\<lparr>db_tableCache := (n, sst_of (sstablePath (db_dataDirectory db) n) fp rs) # db_tableCache db\<rparr>
          else db))"
proof -
  let ?p = "sstablePath (db_dataDirectory db) n"
  have ok: "table_ok fp rs" "content_of w ?p = Some (sst_image fp rs)"
    using f by (simp_all add: table_file_def)
  note get = SSTable_get_reads [OF n ok(2,1), of k q v]
  note new = SSTable_open [OF n ok(2,1)]
  show ?thesis
    using get new c
    by (cases "map_of (db_tableCache db) n")
      (simp_all add: searchTable_def db_get_def db_upd_def io_bind_def io_outer_def)
qed

lemma searchable_after:
  assumes "searchable n s rs" "searchTable n k q v s = Some (r, s')" "searchable n' s rs'"
  shows "searchable n' s' rs'"
proof -
  obtain w db where s: "s = (w, db)" by fastforce
  let ?p = "sstablePath (db_dataDirectory db) n"
  from assms(1) s obtain fp where f: "nominal w" "table_file fp w ?p rs"
    "\<forall>st. map_of (db_tableCache db) n = Some st \<longrightarrow> st = sst_of ?p fp rs"
    by (auto simp: searchable_def)
  from assms(3) s obtain fp' where f': "table_file fp' w (sstablePath (db_dataDirectory db) n') rs'"
    "\<forall>st. map_of (db_tableCache db) n' = Some st \<longrightarrow> st = sst_of (sstablePath (db_dataDirectory db) n') fp' rs'"
    by (auto simp: searchable_def)
  have same: "sst_of ?p fp rs = sst_of ?p fp' rs'" if "n' = n"
    using f f' that SSTable_open [OF f(1), of ?p fp rs] SSTable_open [OF f(1), of ?p fp' rs']
    by (simp add: table_file_def)
  show ?thesis
    using searchTable_run [OF f, of k q v] assms(2) f(1) f' same s
    by (auto simp: searchable_def split: if_splits)
qed

interpretation table_source: version_source searchTable searchable
proof
  fix n s rs k q v
  assume h: "searchable n s rs"
  obtain w db where s: "s = (w, db)" by fastforce
  from h s obtain fp where "nominal w" "table_file fp w (sstablePath (db_dataDirectory db) n) rs"
    "\<forall>st. map_of (db_tableCache db) n = Some st \<longrightarrow> st = sst_of (sstablePath (db_dataDirectory db) n) fp rs"
    by (auto simp: searchable_def)
  from searchTable_run [OF this, of k q v] s obtain s' where
    run: "searchTable n k q v s = Some (Inr (read_outcome (visible rs k q) v), s')" by blast
  with searchable_after [OF h run]
  show "\<exists>s'. searchTable n k q v s = Some (Inr (read_outcome (visible rs k q) v), s')
      \<and> (\<forall>t' rs'. searchable t' s rs' \<longrightarrow> searchable t' s' rs')"
    by blast
qed

text \<open>A search of a table of the catalogue changes nothing but the cache and keeps the invariant.\<close>

definition read_state :: "fp \<Rightarrow> contents \<Rightarrow> world \<Rightarrow> DB \<Rightarrow> world \<times> DB \<Rightarrow> bool" where
  "read_state fp T w db s \<longleftrightarrow>
     (\<exists>c. s = (w, db\<lparr>db_tableCache := c\<rparr>) \<and> cache_ok fp T (db\<lparr>db_tableCache := c\<rparr>))"

lemma read_state_inv:
  "db_inv fp T w db \<Longrightarrow> read_state fp T w db (w', db') \<Longrightarrow>
   w' = w \<and> db_inv fp T w db' \<and> db_records T db' = db_records T db
   \<and> (\<exists>c. db' = db\<lparr>db_tableCache := c\<rparr>)"
  by (auto simp: read_state_def db_inv_def db_records_def sources_def)

lemma read_state_start: "db_inv fp T w db \<Longrightarrow> read_state fp T w db (w, db)"
  by (auto simp: read_state_def db_inv_def intro: exI [of _ "db_tableCache db"])

lemma db_inv_searchable:
  assumes "db_inv fp T w db" "nominal w" "t \<in> set (all_tables (db_manifest db))"
  shows "table_file fp w (sstablePath (db_dataDirectory db) (tm_number t)) (tbl T t)"
    "\<forall>st. map_of (db_tableCache db) (tm_number t) = Some st \<longrightarrow>
       st = sst_of (sstablePath (db_dataDirectory db) (tm_number t)) fp (tbl T t)"
    "searchable (tm_number t) (w, db) (tbl T t)"
proof -
  show f: "table_file fp w (sstablePath (db_dataDirectory db) (tm_number t)) (tbl T t)"
    using assms by (simp add: db_inv_def catalogue_ok_def table_at_def)
  show c: "\<forall>st. map_of (db_tableCache db) (tm_number t) = Some st \<longrightarrow>
       st = sst_of (sstablePath (db_dataDirectory db) (tm_number t)) fp (tbl T t)"
    using assms by (auto simp: db_inv_def cache_ok_def tbl_def)
  from f c assms(2) show "searchable (tm_number t) (w, db) (tbl T t)" by (auto simp: searchable_def)
qed

lemma number_bound:
  "catalogue_ok fp T w dir m \<Longrightarrow> t \<in> set (all_tables m) \<Longrightarrow> tm_number t < mf_nextTableNumber m"
  by (auto simp: catalogue_ok_def numbers_ok_def in_all_tables)

lemma cache_ok_add:
  assumes "cache_ok fp T db" "n < mf_nextTableNumber (db_manifest db)"
    "n \<in> tm_number ` set (all_tables (db_manifest db)) \<Longrightarrow> st = sst_of (sstablePath (db_dataDirectory db) n) fp (T n)"
  shows "cache_ok fp T (db\<lparr>db_tableCache := (n, st) # db_tableCache db\<rparr>)"
  using assms by (simp add: cache_ok_def)

lemma searchTable_keeps:
  assumes "db_inv fp T w db" "nominal w" "t \<in> set (all_tables (db_manifest db))"
  shows "triple (read_state fp T w db) (searchTable (tm_number t) k q v)
    (\<lambda>_. read_state fp T w db) (\<lambda>_. read_state fp T w db)"
proof -
  have "read_state fp T w db s'" if r: "read_state fp T w db s"
    and run: "searchTable (tm_number t) k q v s = Some (res, s')" for s res s'
  proof -
    from r obtain c where s: "s = (w, db\<lparr>db_tableCache := c\<rparr>)" and ok: "cache_ok fp T (db\<lparr>db_tableCache := c\<rparr>)"
      by (auto simp: read_state_def)
    let ?db = "db\<lparr>db_tableCache := c\<rparr>"
    have inv: "db_inv fp T w ?db" using read_state_inv [OF assms(1)] r s by blast
    have t: "t \<in> set (all_tables (db_manifest ?db))" using assms(3) by simp
    note f = db_inv_searchable [OF inv assms(2) t]
    have "tm_number t < mf_nextTableNumber (db_manifest ?db)"
      using inv t number_bound by (auto simp: db_inv_def)
    from cache_ok_add [OF ok this, of "sst_of (sstablePath (db_dataDirectory ?db) (tm_number t)) fp (tbl T t)"]
      searchTable_run [OF assms(2) f(1,2), of k q v] run s ok
    show ?thesis by (auto simp: read_state_def tbl_def split: if_splits)
  qed
  then show ?thesis by (intro tripleI) blast+
qed

lemma triple_search_all:
  assumes "\<And>t v. t \<in> set ts \<Longrightarrow> triple P (probe t v) (\<lambda>_. P) (\<lambda>_. P)"
  shows "triple P (search_all probe ts v) (\<lambda>_. P) (\<lambda>_. P)"
  using assms
proof (induction ts arbitrary: v)
  case Nil
  show ?case unfolding search_all.simps by (rule triple_ret [where Q = "\<lambda>_. P"])
next
  case (Cons t ts)
  show ?case unfolding search_all.simps
  proof (rule triple_bind [where R = "\<lambda>_. P"])
    show "triple P (probe t v) (\<lambda>_. P) (\<lambda>_. P)" using Cons.prems by simp
    have "triple P (if a = Result_ABSENT then search_all probe ts b else io_ret (a, b)) (\<lambda>_. P) (\<lambda>_. P)" for a b
      using Cons triple_ret [where Q = "\<lambda>_. P"] by auto
    then show "triple P (case x of (r, v') \<Rightarrow>
        if r = Result_ABSENT then search_all probe ts v' else io_ret (r, v')) (\<lambda>_. P) (\<lambda>_. P)" for x
      by (cases x) simp
  qed
qed

section \<open>Searching all tables\<close>

lemma search_level0_all:
  "search_level0 ts k q v s =
   search_all (\<lambda>n v. searchTable n k q v) (map tm_number (filter (covers k) ts)) v s"
proof (induction ts arbitrary: v s)
  case (Cons t ts)
  have "covers k t \<longleftrightarrow> \<not> (k < tm_minKey t \<or> k > tm_maxKey t)"
    by (simp add: covers_def not_less)
  with Cons show ?case
    by (auto simp: io_bind_def split: option.splits sum.splits)
qed simp

lemma search_levels_all:
  assumes inv: "levels_inv (db_manifest db)" and ls: "\<forall>l \<in> set ls. 0 < l \<and> l < 2 ^ 64"
    and keep: "\<And>n v s r s'. P s \<Longrightarrow> searchTable n k q v s = Some (r, s') \<Longrightarrow> P s'"
    and P: "\<And>s. P s \<Longrightarrow> db_manifest (snd s) = db_manifest db" "P s"
  shows "search_levels ls k q v s =
    search_all (\<lambda>n v. searchTable n k q v)
      (map tm_number (concat (map (\<lambda>l. filter (covers k) (Manifest_level l (db_manifest db))) ls))) v s"
  using ls P(2)
proof (induction ls arbitrary: v s)
  case (Cons l ls)
  let ?level = "Manifest_level l (db_manifest db)"
  have l: "(of_nat l :: u64) \<noteq> 0" "unat (of_nat l :: u64) = l"
    using Cons.prems unat_of_nat64 [of l] by (auto simp: unat_eq_zero [symmetric])
  have get: "getTableMeta (of_nat l) k (db_manifest (snd s)) = Inr (find (covers k) ?level)"
    using table_search [OF inv, of "of_nat l" k] l P(1) [OF Cons.prems(2)] by simp
  show ?case
  proof (cases "find (covers k) ?level")
    case None
    then have "filter (covers k) ?level = []" by (simp add: find_None_iff filter_empty_conv)
    with None get Cons show ?thesis by (cases s) (simp add: db_get_def io_bind_def)
  next
    case (Some t)
    have lev: "level_inv l ?level" using inv by (simp add: levels_inv_def)
    from filter_covers [OF lev] Cons.prems(1) Some have f: "filter (covers k) ?level = [t]" by simp
    have IH: "search_levels ls k q v' s' = search_all (\<lambda>n v. searchTable n k q v)
      (map tm_number (concat (map (\<lambda>l. filter (covers k) (Manifest_level l (db_manifest db))) ls))) v' s'"
      if "searchTable (tm_number t) k q v s = Some (r, s')" for r v' s'
      using Cons keep [OF Cons.prems(2) that] by simp
    from Some get f IH show ?thesis
      by (cases s) (auto simp: db_get_def io_bind_def split: option.splits sum.splits)
  qed
qed simp

lemma search_all_append:
  "search_all probe (xs @ ys) v s =
   io_bind (search_all probe xs v) (\<lambda>(r, v').
     if r = Result_ABSENT then search_all probe ys v' else io_ret (r, v')) s"
  by (induction xs arbitrary: v s) (auto simp: io_bind_def split: option.splits sum.splits)

lemma filter_all_tables:
  "filter P (all_tables m) =
   filter P (Manifest_level 0 m) @ concat (map (\<lambda>l. filter P (Manifest_level l m)) [1..<levelCount m])"
proof (cases "levelCount m = 0")
  case True
  then show ?thesis by (simp add: all_tables_levels Manifest_level_def levelCount_def)
next
  case False
  then have "[0..<levelCount m] = 0 # [1..<levelCount m]" by (simp add: upt_rec)
  then show ?thesis by (simp add: all_tables_levels filter_concat comp_def)
qed

lemma searchTable_same_manifest:
  "searchTable n k q v s = Some (r, s') \<Longrightarrow> db_manifest (snd s') = db_manifest (snd s)"
  by (cases s)
    (auto simp: searchTable_def db_get_def db_upd_def io_bind_def io_outer_def split: option.splits sum.splits)

lemma searchSSTables_all:
  assumes "catalogue_ok fp T w dir (db_manifest db)"
  shows "searchSSTables k q v (w, db) =
    io_bind (search_all (\<lambda>n v. searchTable n k q v)
        (map tm_number (filter (covers k) (all_tables (db_manifest db)))) v)
      (\<lambda>(result, value). io_ret (result = Result_VALUE, value)) (w, db)"
proof -
  let ?m = "db_manifest db"
  let ?probe = "\<lambda>n v. searchTable n k q v"
  let ?xs = "map tm_number (filter (covers k) (Manifest_level 0 ?m))"
  let ?ys = "map tm_number (concat (map (\<lambda>l. filter (covers k) (Manifest_level l ?m)) [1..<levelCount ?m]))"
  have inv: "levels_inv ?m" and n: "\<forall>l \<in> set [1..<levelCount ?m]. 0 < l \<and> l < 2 ^ 64"
    using assms by (auto simp: catalogue_ok_def levelCount_def)
  have lv: "search_levels [1..<levelCount ?m] k q v' s = search_all ?probe ?ys v' s"
    if "db_manifest (snd s) = ?m" for v' s
    by (rule search_levels_all [OF inv n, where P = "\<lambda>s. db_manifest (snd s) = ?m"])
      (use that searchTable_same_manifest in auto)
  have m: "db_manifest (snd s') = ?m" if "search_all ?probe ?xs v (w, db) = Some (r, s')" for r s'
  proof -
    have "triple (\<lambda>s. db_manifest (snd s) = ?m) (search_all ?probe ?xs v)
        (\<lambda>_ s. db_manifest (snd s) = ?m) (\<lambda>_ s. db_manifest (snd s) = ?m)"
      by (rule triple_search_all, rule tripleI) (drule searchTable_same_manifest, simp)+
    from triple_any [OF this _ that] show ?thesis by simp
  qed
  have all: "map tm_number (filter (covers k) (all_tables ?m)) = ?xs @ ?ys"
    by (simp add: filter_all_tables)
  show ?thesis
    unfolding all searchSSTables_def
    using m lv
    by (auto simp: search_all_append search_level0_all db_get_def io_bind_def levelCount_def
        split: option.splits sum.splits)
qed

section \<open>Reads\<close>

text \<open>Tables whose range does not cover a key hold no version of it.\<close>

lemma visible_covering:
  assumes "\<forall>t \<in> set ts. table_at fp w dir T t"
  shows "visible (concat (map (tbl T) (filter (covers k) ts))) k q = visible (concat (map (tbl T) ts)) k q"
proof -
  have "filter (eligible k q) (tbl T t) = []" if "t \<in> set ts" "\<not> covers k t" for t
    using that assms table_at_keys by (fastforce simp: filter_empty_conv eligible_def)
  then have "filter (eligible k q) (concat (map (tbl T) (filter (covers k) ts)))
      = filter (eligible k q) (concat (map (tbl T) ts))"
    by (induction ts) auto
  then show ?thesis by (simp add: visible_def)
qed

definition get_outcome :: "Record option \<Rightarrow> string \<Rightarrow> bool \<times> string" where
  "get_outcome found value = (fst (read_outcome found value) = Result_VALUE, snd (read_outcome found value))"

lemma get_outcome_read:
  "get_outcome (visible rs k q) v =
   (case read_value rs k q of None \<Rightarrow> (False, v) | Some x \<Rightarrow> (True, x))"
  by (auto simp: get_outcome_def read_outcome_def read_value_def split: option.splits)

lemma searchSSTables_reads:
  assumes inv: "db_inv fp T w db" and n: "nominal w"
  shows "\<exists>db'. searchSSTables k q v (w, db) =
      Some (Inr (get_outcome (visible (concat (map (tbl T) (all_tables (db_manifest db)))) k q) v), (w, db'))
    \<and> read_state fp T w db (w, db')"
proof -
  let ?ts = "filter (covers k) (all_tables (db_manifest db))"
  have cat: "catalogue_ok fp T w (db_dataDirectory db) (db_manifest db)" using inv by (simp add: db_inv_def)
  have lay: "layered (map T (map tm_number ?ts))"
    using tables_layered [OF cat] by (simp add: layered_def sorted_wrt_map sorted_wrt_filter tbl_def)
  have hold: "\<forall>n \<in> set (map tm_number ?ts). searchable n (w, db) (T n)"
    using db_inv_searchable(3) [OF inv n] by (auto simp: tbl_def)
  from table_source.search_all_reads [OF lay hold, of k q v] obtain s' where
    run: "search_all (\<lambda>n v. searchTable n k q v) (map tm_number ?ts) v (w, db)
      = Some (Inr (read_outcome (visible (concat (map T (map tm_number ?ts))) k q) v), s')"
    by blast
  have tr: "triple (read_state fp T w db) (search_all (\<lambda>n v. searchTable n k q v) (map tm_number ?ts) v)
      (\<lambda>_. read_state fp T w db) (\<lambda>_. read_state fp T w db)"
    by (rule triple_search_all) (use searchTable_keeps [OF inv n] in auto)
  have s': "read_state fp T w db s'" by (rule triple_ok [OF tr read_state_start [OF inv] run])
  then obtain db' where "s' = (w, db')" by (auto simp: read_state_def)
  moreover have "visible (concat (map T (map tm_number ?ts))) k q
      = visible (concat (map (tbl T) (all_tables (db_manifest db)))) k q"
    using visible_covering [of "all_tables (db_manifest db)" fp w "db_dataDirectory db" T k q] cat
    by (simp add: catalogue_ok_def tbl_numbers del: map_map)
  ultimately show ?thesis
    using run s' by (auto simp: searchSSTables_all [OF cat] io_bind_def get_outcome_def split: prod.splits)
qed

lemma DB_get_at_reads:
  assumes inv: "db_inv fp T w db" and n: "nominal w"
  shows "\<exists>db'. DB_get_at k q v (w, db) = Some (Inr (get_outcome (visible (db_records T db) k q) v), (w, db'))
    \<and> read_state fp T w db (w, db')"
proof -
  let ?mem = "mt_records (db_activeMemTable db)" and ?ts = "map (tbl T) (all_tables (db_manifest db))"
  have m: "mem_inv (db_activeMemTable db)" using inv by (simp add: db_inv_def)
  have vis: "visible (db_records T db) k q =
      (case visible ?mem k q of None \<Rightarrow> visible (concat ?ts) k q | Some r \<Rightarrow> Some r)"
    using visible_layered [of ?mem ?ts k q] sources_layered [OF inv] by (simp add: db_records_def sources_def)
  show ?thesis
  proof (cases "visible ?mem k q")
    case None
    then show ?thesis
      using searchSSTables_reads [OF assms, of k q v] vis
      by (auto simp: DB_get_at_def db_get_def io_bind_def MemTable_get_reads [OF m] read_outcome_def)
  next
    case (Some r)
    then have "DB_get_at k q v (w, db) = Some (Inr (get_outcome (visible (db_records T db) k q) v), (w, db))"
      using vis by (auto simp: DB_get_at_def db_get_def io_bind_def MemTable_get_reads [OF m] get_outcome_def
          read_outcome_def)
    with read_state_start [OF inv] show ?thesis by blast
  qed
qed

text \<open>
  C11: a read of the database at a sequence number answers with the newest version, not newer than
  that number, among all records of the MemTable and of every table; the search order, the key
  ranges of the tables, the Bloom filters and the table cache never hide or invent a version. The
  call changes nothing but the cache, and the invariant still holds.
\<close>

theorem DB_get_at_correct:
  assumes "db_inv fp T w db" "nominal w"
  shows "\<exists>db'. DB_get_at k q v (w, db) =
        Some (Inr (case read_value (db_records T db) k q of None \<Rightarrow> (False, v) | Some x \<Rightarrow> (True, x)), (w, db'))
    \<and> db_inv fp T w db' \<and> db_records T db' = db_records T db"
  using DB_get_at_reads [OF assms, of k q v] read_state_inv [OF assms(1)] unfolding get_outcome_read by blast

section \<open>Scans\<close>

lemma openTableIterators_rep:
  assumes n: "nominal w" and "\<forall>t \<in> set ts. table_at fp w dir T t"
  shows "\<exists>its. openTableIterators (map (\<lambda>t. sstablePath dir (tm_number t)) ts) w = Some (Inr its, w)
    \<and> list_all2 raw_rep its (map (tbl T) ts)"
  using assms(2)
proof (induction ts)
  case (Cons t ts)
  from Cons.prems have "table_file fp w (sstablePath dir (tm_number t)) (tbl T t)" by (simp add: table_at_def)
  from SSTableIterator_new_rep [OF n this] Cons show ?case by (fastforce simp: io_bind_def)
qed simp

lemma snapshot_iterators_rep:
  assumes "list_all2 raw_rep its rss"
  shows "\<exists>sits. snapshot_iterators q its = Inr sits
    \<and> list_all2 it_rep sits (map (filter (\<lambda>r. rec_seq r \<le> q)) rss)"
  using assms
proof (induction its rss rule: list_all2_induct)
  case (Cons it its rs rss)
  from SnapshotIterator_new_rep [OF Cons.hyps(1), of q] Cons.IH show ?case by auto
qed simp

lemma layered_distinct:
  "layered ls \<Longrightarrow> \<forall>l \<in> set ls. sorted_records l \<Longrightarrow> distinct (concat ls)"
proof (induction ls)
  case (Cons l ls)
  have "distinct l"
    using Cons.prems(2) by (simp add: sorted_records_def sorted_wrt_iff_nth_less distinct_conv_nth)
      (metis linorder_neqE_nat order_less_irrefl)
  moreover have "set l \<inter> set (concat ls) = {}"
    using Cons.prems(1) by (auto simp: newer_than_def)
  ultimately show ?case using Cons by simp
qed simp

lemma layered_filter: "layered ls \<Longrightarrow> layered (map (filter P) ls)"
  unfolding layered_def sorted_wrt_map
  by (erule sorted_wrt_mono_rel [rotated]) (auto intro: newer_than_subset)

text \<open>The merge of sources without a common version is the sorted list of their records.\<close>

lemma merge_unique:
  assumes "list_all2 it_rep its rss" "\<forall>rs \<in> set rss. sorted_records rs"
    and "unique_versions (concat rss)" "distinct (concat rss)"
  shows "\<exists>out. mergeAll its = Inr out \<and> sorted_records out \<and> mset out = mset (concat rss)"
proof -
  from mergeAll_correct [OF assms(1,2)] obtain out where
    out: "mergeAll its = Inr out" "mset out = mset (concat rss)" "sorted_wrt (\<lambda>a b. rkey a \<le> rkey b) out"
    by blast
  have set: "set out = set (concat rss)" using out(2) by (rule mset_eq_setD)
  have "unique_versions out" using assms(3) by (simp add: unique_versions_def set)
  moreover have "distinct out" using assms(4) out(2) mset_eq_imp_distinct_iff by blast
  ultimately show ?thesis using out sorted_le_unique by blast
qed

lemma merge_layers:
  assumes "list_all2 it_rep its rss" "\<forall>rs \<in> set rss. sorted_records rs" "layered rss"
  shows "\<exists>out. mergeAll its = Inr out \<and> sorted_records out \<and> mset out = mset (concat rss)"
  using assms layered_distinct sorted_records_unique by (intro merge_unique layered_unique) blast+

lemma sorted_records_filter: "sorted_records rs \<Longrightarrow> sorted_records (filter P rs)"
  by (simp add: sorted_records_def sorted_wrt_filter)

lemma selectScanTables_all:
  "selectScanTables m dir a b =
   map (\<lambda>t. sstablePath dir (tm_number t)) (filter (\<lambda>t. overlapsScanRange t a b) (all_tables m))"
  by (simp add: selectScanTables_def all_tables_levels filter_concat map_concat comp_def)

lemma not_overlapping_covers:
  "\<not> overlapsScanRange t a b \<Longrightarrow> a \<le> k \<Longrightarrow> k < b \<Longrightarrow> \<not> covers k t"
  unfolding overlapsScanRange_def covers_def by (metis order.strict_trans1 order_trans)

lemma visible_scan_sources:
  assumes at: "\<forall>t \<in> set ts. table_at fp w dir T t" and k: "a \<le> k" "k < b"
  shows "visible (concat (map (filter (\<lambda>r. rec_seq r \<le> q)) (ms # map (tbl T) (filter (\<lambda>t. overlapsScanRange t a b) ts)))) k q
    = visible (concat (ms # map (tbl T) ts)) k q"
proof -
  have el: "filter (\<lambda>r. rec_seq r \<le> q \<and> eligible k q r) rs = filter (eligible k q) rs" for rs
    by (rule filter_cong) (auto simp: eligible_def)
  have none: "filter (eligible k q) (tbl T t) = []" if "t \<in> set ts" "\<not> overlapsScanRange t a b" for t
    using that at table_at_keys not_overlapping_covers [OF that(2) k]
    by (fastforce simp: filter_empty_conv eligible_def)
  have "filter (eligible k q) (concat (map (filter (\<lambda>r. rec_seq r \<le> q)) (map (tbl T) (filter (\<lambda>t. overlapsScanRange t a b) ts))))
      = filter (eligible k q) (concat (map (tbl T) ts))"
    using none by (induction ts) (auto simp: el)
  then show ?thesis by (simp add: visible_def el)
qed

lemma DB_scan_reads:
  fixes q :: u64
  assumes inv: "db_inv fp T w db" and n: "nominal w"
  defines "q' \<equiv> (if q = - 1 then db_nextSeq db - 1 else q)"
  shows "\<exists>rs. DB_scan a b q (w, db) = Some (Inr rs, (w, db))
    \<and> sorted_wrt (\<lambda>x y. rec_key x < rec_key y) rs
    \<and> (\<forall>r. r \<in> set rs \<longleftrightarrow> a \<le> rec_key r \<and> rec_key r < b
         \<and> visible (db_records T db) (rec_key r) q' = Some r \<and> rec_type r = Type_VALUE)"
proof -
  let ?m = "db_manifest db" and ?mem = "db_activeMemTable db"
  let ?ts = "filter (\<lambda>t. overlapsScanRange t a b) (all_tables ?m)"
  let ?rss = "map (filter (\<lambda>r. rec_seq r \<le> q')) (mt_records ?mem # map (tbl T) ?ts)"
  have cat: "catalogue_ok fp T w (db_dataDirectory db) ?m" using inv by (simp add: db_inv_def)
  then have at: "\<forall>t \<in> set (all_tables ?m). table_at fp w (db_dataDirectory db) T t"
    by (simp add: catalogue_ok_def)
  then obtain its where its: "openTableIterators (selectScanTables ?m (db_dataDirectory db) a b) w = Some (Inr its, w)"
    "list_all2 raw_rep its (map (tbl T) ?ts)"
    using openTableIterators_rep [OF n, of ?ts fp "db_dataDirectory db" T] by (auto simp: selectScanTables_all)
  have "list_all2 raw_rep (MemIterator (MemTableIterator_new ?mem) # its) (mt_records ?mem # map (tbl T) ?ts)"
    using its(2) MemTableIterator_new_rep by simp
  from snapshot_iterators_rep [OF this, of q'] obtain sits where
    sits: "snapshot_iterators q' (MemIterator (MemTableIterator_new ?mem) # its) = Inr sits" "list_all2 it_rep sits ?rss"
    by blast
  have srt: "\<forall>rs \<in> set ?rss. sorted_records rs"
    using sources_sorted [OF inv] by (auto simp: sources_def intro: sorted_records_filter)
  have "layered (mt_records ?mem # map (tbl T) ?ts)"
    using sources_layered [OF inv] by (auto simp: sources_def layered_def sorted_wrt_map sorted_wrt_filter)
  from merge_layers [OF sits(2) srt layered_filter [OF this]] obtain out where
    out: "mergeAll sits = Inr out" "sorted_records out" "mset out = mset (concat ?rss)" by blast
  have set: "set out = set (concat ?rss)" using out(3) by (rule mset_eq_setD)
  have le: "\<forall>r \<in> set out. rec_seq r \<le> q'" by (auto simp: set)
  have vis: "visible out k q' = visible (db_records T db) k q'" if "a \<le> k" "k < b" for k
    using visible_scan_sources [OF at that, of q' "mt_records ?mem"] set
      visible_set_cong [OF set sorted_records_unique [OF out(2)], of k q']
    by (simp add: db_records_def sources_def)
  define rs where "rs = filter (\<lambda>r. a \<le> rec_key r \<and> rec_key r < b \<and> rec_type r = Type_VALUE) (latestVisiblePerKey out)"
  have run: "DB_scan a b q (w, db) = Some (Inr rs, (w, db))"
    using its(1) sits(1) out(1)
    by (simp add: DB_scan_def db_get_def io_bind_def io_outer_def Let_def rs_def
        del: snapshot_iterators.simps flip: q'_def)
  moreover have "sorted_wrt (\<lambda>x y. rec_key x < rec_key y) rs"
    using unique_keys_sorted [OF out(2)] by (simp add: rs_def latestVisiblePerKey_def sorted_wrt_filter)
  moreover have "r \<in> set rs \<longleftrightarrow> a \<le> rec_key r \<and> rec_key r < b
         \<and> visible (db_records T db) (rec_key r) q' = Some r \<and> rec_type r = Type_VALUE" for r
    using latestVisible_spec [OF out(2) le, of r] vis [of "rec_key r"] by (auto simp: rs_def)
  ultimately show ?thesis by blast
qed

text \<open>
  C12: a scan of a key range at a sequence number (by default the current one) returns exactly the
  records that a read at that number answers with a value, for the keys of the range, each once and
  in ascending key order; it opens only the tables that can hold such keys.
\<close>

theorem DB_scan_correct:
  assumes "db_inv fp T w db" "nominal w"
  shows "\<exists>rs. DB_scan start end' readSeq (w, db) = Some (Inr rs, (w, db))
    \<and> sorted_wrt (\<lambda>x y. rec_key x < rec_key y) rs
    \<and> (\<forall>r. r \<in> set rs \<longleftrightarrow> start \<le> rec_key r \<and> rec_key r < end'
         \<and> visible (db_records T db) (rec_key r) (if readSeq = - 1 then db_nextSeq db - 1 else readSeq) = Some r
         \<and> rec_type r = Type_VALUE)"
  by (rule DB_scan_reads [OF assms])

section \<open>An example\<close>

text \<open>A database with one level 0 table and an empty MemTable.\<close>

definition db_example_world :: world where
  "db_example_world = \<lparr>w_files = [(sstablePath [''d''] 1, sst_image fp_example batch_example)],
     w_dirs = [[], [''d''], [''d'', ''sstable'']], w_fds = [], w_policy = None, w_os = sconst OsOk\<rparr>"

definition db_example_meta :: TableMeta where
  "db_example_meta = meta 1 (of_nat (length (sst_image fp_example batch_example)))
     (rec_key (hd batch_example)) (rec_key (last batch_example))"

definition db_example_manifest :: Manifest where
  "db_example_manifest = \<lparr>mf_path = [''d'', ''MANIFEST''],
     mf_levels = [[db_example_meta]],
     mf_nextTableNumber = 2, mf_logNumber = 0, mf_lastSeq = 9\<rparr>"

definition db_example :: DB where
  "db_example = \<lparr>db_activeMemTable = empty_memtable (walPath [''d''] 0)
       \<lparr>wal_path = walPath [''d''] 0, wal_fd = 3, wal_poisoned = False\<rparr>,
     db_dataDirectory = [''d''], db_walFilePath = walPath [''d''] 0, db_flushThresholdBytes = 100,
     db_manifest = db_example_manifest, db_level0CompactionThreshold = 4, db_compactionSliceBytes = 1000,
     db_compactionBaseThresholdBytes = 1000, db_compactionCursors = [], db_tableCache = [],
     db_nextSeq = 10, db_activeSnapshotSequences = {#}, db_writeFailed = False\<rparr>"

lemma mt_records_empty [simp]: "mt_records (empty_memtable p ww) = []"
  by (simp add: mt_records_def empty_memtable_def)

lemma db_example_level:
  "Manifest_level i db_example_manifest =
   (if i = 0 then [db_example_meta] else [])"
  by (simp add: Manifest_level_def db_example_manifest_def)

lemma db_example_tables:
  "all_tables db_example_manifest = [db_example_meta]"
  by (simp add: all_tables_def db_example_manifest_def)

lemma db_example_inv: "db_inv fp_example (\<lambda>_. batch_example) db_example_world db_example"
proof -
  have lev: "levels_inv db_example_manifest"
    by (auto simp: levels_inv_def db_example_level level_inv_def table_range_def db_example_meta_def batch_example_def)
  have lay: "layers_ok (\<lambda>_. batch_example) db_example_manifest"
    by (auto simp: layers_ok_def db_example_level)
  have num: "numbers_ok db_example_manifest"
    by (auto simp: numbers_ok_def db_example_level) (simp_all add: db_example_manifest_def db_example_meta_def)
  have at: "table_at fp_example db_example_world [''d''] (\<lambda>_. batch_example) db_example_meta"
    by (simp add: table_at_def table_file_def table_example tbl_def db_example_world_def db_example_meta_def)
  have "catalogue_ok fp_example (\<lambda>_. batch_example) db_example_world [''d''] db_example_manifest"
    using lev lay num at by (simp add: catalogue_ok_def db_example_tables) (simp add: db_example_manifest_def)
  then show ?thesis
    by (auto simp: db_inv_def db_example_def cache_ok_def db_records_def sources_def db_example_tables tbl_def
        newer_than_def batch_example_def)
qed

lemma db_example_nominal: "nominal db_example_world"
  by (simp add: nominal_def db_example_world_def)

lemma db_example_records: "db_records (\<lambda>_. batch_example) db_example = batch_example"
  by (simp add: db_records_def sources_def db_example_def db_example_tables tbl_def)

theorem DB_get_at_correct_witness:
  "\<exists>db'. DB_get_at ''a'' 5 [] (db_example_world, db_example) = Some (Inr (True, ''x''), (db_example_world, db'))"
proof -
  have "read_value batch_example ''a'' 5 = Some ''x''"
    by (simp add: read_value_def batch_example_def visible_def pick_def eligible_def)
  with DB_get_at_correct [OF db_example_inv db_example_nominal, of "''a''" 5 "[]"] show ?thesis
    by (auto simp: db_example_records)
qed

theorem DB_scan_correct_witness:
  "\<exists>rs. DB_scan ''a'' ''z'' (- 1) (db_example_world, db_example) = Some (Inr rs, (db_example_world, db_example))
    \<and> sorted_wrt (\<lambda>x y. rec_key x < rec_key y) rs"
  using DB_scan_correct [OF db_example_inv db_example_nominal, of "''a''" "''z''" "- 1"] by blast

end
