(* ===== verification/DBCompaction.thy ===== *)
theory DBCompaction
  imports DBReads
begin

text \<open>
  Compaction: merging tables of one level with the overlapping tables of the next one, writing the
  result in slices and replacing the inputs in the catalogue. In the absence of I/O faults a
  compaction keeps the invariant of the database and every read at or above the oldest active
  snapshot.
\<close>

section \<open>The files of a database\<close>

definition manifest_path :: "path \<Rightarrow> path" where
  "manifest_path dir = dir @ [''MANIFEST'']"

definition data_file :: "path \<Rightarrow> path \<Rightarrow> bool" where
  "data_file dir p \<longleftrightarrow> p = manifest_path dir \<or> p = temporary_path (manifest_path dir)
     \<or> (\<exists>n. p = sstablePath dir n \<or> p = temporary_path (sstablePath dir n) \<or> p = walPath dir n)"

definition data_dirs :: "path \<Rightarrow> path set" where
  "data_dirs dir = set (prefixes (dir @ [''sstable''])) \<union> set (prefixes (dir @ [''wal'']))"

text \<open>No file is in the way of the directories, and no directory in the way of the files.\<close>

definition dir_ok :: "path \<Rightarrow> world \<Rightarrow> bool" where
  "dir_ok dir w \<longleftrightarrow> dir \<noteq> [] \<and> (\<forall>q \<in> data_dirs dir. content_of w q = None)
     \<and> (\<forall>p. data_file dir p \<longrightarrow> p \<notin> set (w_dirs w))"

lemma path_lasts [simp]:
  "last (sstablePath dir n) = kSSTablePrefix @ to_string (unat n) @ kSSTableSuffix"
  "butlast (sstablePath dir n) = dir @ [''sstable'']"
  "last (walPath dir n) = kWalPrefix @ to_string (unat n) @ kWalSuffix"
  "butlast (walPath dir n) = dir @ [''wal'']"
  "last (manifest_path dir) = ''MANIFEST''" "butlast (manifest_path dir) = dir"
  "sstablePath dir n \<noteq> []" "walPath dir n \<noteq> []" "manifest_path dir \<noteq> []"
  by (simp_all add: sstablePath_def walPath_def manifest_path_def butlast_append)

lemma last_temporary [simp]: "last (temporary_path p) = last p @ ''.tmp''"
  by (simp add: temporary_path_def)

lemma temporary_neq [simp]:
  "temporary_path (sstablePath dir n) \<noteq> sstablePath dir m" "sstablePath dir m \<noteq> temporary_path (sstablePath dir n)"
  "temporary_path (manifest_path dir) \<noteq> manifest_path dir"
proof -
  have "last (last (temporary_path (sstablePath dir n))) \<noteq> last (last (sstablePath dir m))"
    by (simp add: kSSTableSuffix_def)
  then show "temporary_path (sstablePath dir n) \<noteq> sstablePath dir m"
    "sstablePath dir m \<noteq> temporary_path (sstablePath dir n)" by metis+
  have "last (last (temporary_path (manifest_path dir))) \<noteq> last (last (manifest_path dir))" by simp
  then show "temporary_path (manifest_path dir) \<noteq> manifest_path dir" by metis
qed

lemma temporary_inject: "p \<noteq> [] \<Longrightarrow> q \<noteq> [] \<Longrightarrow> temporary_path p = temporary_path q \<longleftrightarrow> p = q"
  by (simp add: temporary_path_def) (metis append_butlast_last_id)

lemma sstable_neq [simp]:
  "sstablePath dir n \<noteq> manifest_path dir" "manifest_path dir \<noteq> sstablePath dir n"
  "walPath dir n \<noteq> manifest_path dir" "manifest_path dir \<noteq> walPath dir n"
  "sstablePath dir n \<noteq> temporary_path (manifest_path dir)" "temporary_path (sstablePath dir n) \<noteq> manifest_path dir"
  "walPath dir n \<noteq> temporary_path (manifest_path dir)" "walPath dir n \<noteq> temporary_path (sstablePath dir m)"
proof -
  have b: "butlast p \<noteq> butlast q \<Longrightarrow> p \<noteq> q" for p q :: path by blast
  show "sstablePath dir n \<noteq> manifest_path dir" "manifest_path dir \<noteq> sstablePath dir n"
    "walPath dir n \<noteq> manifest_path dir" "manifest_path dir \<noteq> walPath dir n"
    "sstablePath dir n \<noteq> temporary_path (manifest_path dir)" "temporary_path (sstablePath dir n) \<noteq> manifest_path dir"
    "walPath dir n \<noteq> temporary_path (manifest_path dir)" "walPath dir n \<noteq> temporary_path (sstablePath dir m)"
    by (rule b, simp)+
qed

lemma data_file_not_dir: "data_file dir p \<Longrightarrow> p \<notin> data_dirs dir"
proof
  assume f: "data_file dir p" and d: "p \<in> data_dirs dir"
  from d have "length p \<le> Suc (length dir)" "p = dir @ [''sstable''] \<or> p = dir @ [''wal''] \<or> prefix p dir"
    by (auto simp: data_dirs_def dest: prefix_length_le)
  with f show False
    by (auto simp: data_file_def sstablePath_def walPath_def manifest_path_def temporary_path_def butlast_append
        dest: prefix_length_le)
qed

lemma data_file_parents: "data_file dir p \<Longrightarrow> set (prefixes (butlast p)) \<subseteq> data_dirs dir"
  by (auto simp: data_file_def data_dirs_def)

lemma dir_ok_writable:
  assumes "dir_ok dir w" "data_file dir p" "data_file dir (temporary_path p)"
  shows "writable w p"
proof -
  have "butlast p \<noteq> [] \<and> p \<noteq> []"
    using assms(1,2) by (auto simp: data_file_def dir_ok_def)
  then show ?thesis using assms data_file_parents [OF assms(2)] by (auto simp: writable_def dir_ok_def)
qed

lemma data_file_intros [simp]:
  "data_file dir (sstablePath dir n)" "data_file dir (temporary_path (sstablePath dir n))"
  "data_file dir (manifest_path dir)" "data_file dir (temporary_path (manifest_path dir))"
  "data_file dir (walPath dir n)"
  by (auto simp: data_file_def)

lemma dir_ok_files:
  assumes "dir_ok dir w" "\<And>q. q \<in> data_dirs dir \<Longrightarrow> content_of w' q = None" "set (w_dirs w') \<subseteq> set (w_dirs w) \<union> data_dirs dir"
  shows "dir_ok dir w'"
  using assms data_file_not_dir by (auto simp: dir_ok_def)

lemma dir_ok_publish:
  assumes "dir_ok dir w" "data_file dir p" "p \<noteq> []"
  shows "dir_ok dir (publish p c w)"
proof (rule dir_ok_files [OF assms(1)])
  show "content_of (publish p c w) q = None" if "q \<in> data_dirs dir" for q
    using assms that data_file_not_dir [OF assms(2)] by (auto simp: dir_ok_def)
  show "set (w_dirs (publish p c w)) \<subseteq> set (w_dirs w) \<union> data_dirs dir"
    using data_file_parents [OF assms(2)] by (auto simp: publish_def)
qed

lemma dir_ok_del_file: "dir_ok dir w \<Longrightarrow> dir_ok dir (del_file p w)"
  by (auto simp: dir_ok_def)

section \<open>Writing the output\<close>

definition slice_meta :: "fp \<Rightarrow> u64 \<Rightarrow> Record list \<Rightarrow> TableMeta" where
  "slice_meta fp n s = meta n (of_nat (length (sst_image fp s))) (rec_key (hd s)) (rec_key (last s))"

definition slice_metas :: "fp \<Rightarrow> u64 \<Rightarrow> Record list list \<Rightarrow> TableMeta list" where
  "slice_metas fp n ss = map (\<lambda>i. slice_meta fp (n + of_nat i) (ss ! i)) [0..<length ss]"

lemma length_slice_metas [simp]: "length (slice_metas fp n ss) = length ss"
  by (simp add: slice_metas_def)

lemma slice_metas_snoc:
  "slice_metas fp n (ss @ [s]) = slice_metas fp n ss @ [slice_meta fp (n + of_nat (length ss)) s]"
  by (simp add: slice_metas_def nth_append)

text \<open>
  \<open>wrote fp dir (w, m) ss (w', m')\<close>: the slices \<open>ss\<close> have been written under the next table numbers,
  and no other file has changed but their temporaries.
\<close>

definition wrote :: "fp \<Rightarrow> path \<Rightarrow> world \<times> Manifest \<Rightarrow> Record list list \<Rightarrow> world \<times> Manifest \<Rightarrow> bool" where
  "wrote fp dir = (\<lambda>(w, m) ss (w', m').
     nominal w' \<and> dir_ok dir w' \<and> w_fds w' = w_fds w
     \<and> m' = m\<lparr>mf_nextTableNumber := mf_nextTableNumber m + of_nat (length ss)\<rparr>
     \<and> (\<forall>i < length ss. content_of w' (sstablePath dir (mf_nextTableNumber m + of_nat i)) = Some (sst_image fp (ss ! i)))
     \<and> (\<forall>p. (\<forall>i < length ss. p \<noteq> sstablePath dir (mf_nextTableNumber m + of_nat i)
                \<and> p \<noteq> temporary_path (sstablePath dir (mf_nextTableNumber m + of_nat i)))
          \<longrightarrow> content_of w' p = content_of w p))"

lemma wrote_Nil: "nominal w \<Longrightarrow> dir_ok dir w \<Longrightarrow> wrote fp dir (w, m) [] (w, m)"
  by (simp add: wrote_def)

lemma word_add_of_nat_inject:
  "unat n + i < 2 ^ 64 \<Longrightarrow> unat n + j < 2 ^ 64 \<Longrightarrow> (n :: u64) + of_nat i = n + of_nat j \<longleftrightarrow> i = j"
proof -
  assume "unat n + i < 2 ^ 64" "unat n + j < 2 ^ 64"
  then have "unat (n + of_nat i) = unat n + i" "unat (n + of_nat j) = unat n + j"
    by (simp_all add: unat_word_ariths unat_of_nat)
  then show ?thesis by (metis add_left_cancel)
qed

lemma writeCompactionSlice_run:
  assumes "nominal w" "dir_ok dir w" "table_ok fp s"
  shows "writeCompactionSlice fp dir s (w, m) =
    Some (Inr (slice_meta fp (mf_nextTableNumber m) s),
      (publish (sstablePath dir (mf_nextTableNumber m)) (sst_image fp s) w,
       m\<lparr>mf_nextTableNumber := mf_nextTableNumber m + 1\<rparr>))"
  using addRecordToFile_nominal [OF assms(1) dir_ok_writable [OF assms(2)] assms(3), of "sstablePath dir (mf_nextTableNumber m)"]
  by (simp add: writeCompactionSlice_def manifest_act_def allocateNumber_def io_bind_def io_outer_def
      slice_meta_def meta_def)

lemma wrote_snoc:
  assumes wr: "wrote fp dir (w, m) ss (w1, m1)" and s: "table_ok fp s"
    and fit: "unat (mf_nextTableNumber m) + length ss < 2 ^ 64"
  shows "\<exists>w2 m2. writeCompactionSlice fp dir s (w1, m1)
      = Some (Inr (slice_meta fp (mf_nextTableNumber m + of_nat (length ss)) s), (w2, m2))
    \<and> wrote fp dir (w, m) (ss @ [s]) (w2, m2)"
proof -
  let ?n = "mf_nextTableNumber m"
  let ?p = "sstablePath dir (?n + of_nat (length ss))"
  let ?w2 = "publish ?p (sst_image fp s) w1" and ?m2 = "m1\<lparr>mf_nextTableNumber := mf_nextTableNumber m1 + 1\<rparr>"
  from wr have w1: "nominal w1" "dir_ok dir w1" "w_fds w1 = w_fds w"
    and m1: "m1 = m\<lparr>mf_nextTableNumber := ?n + of_nat (length ss)\<rparr>"
    and new: "\<And>i. i < length ss \<Longrightarrow> content_of w1 (sstablePath dir (?n + of_nat i)) = Some (sst_image fp (ss ! i))"
    and old: "\<And>p. \<forall>i < length ss. p \<noteq> sstablePath dir (?n + of_nat i) \<and> p \<noteq> temporary_path (sstablePath dir (?n + of_nat i))
          \<Longrightarrow> content_of w1 p = content_of w p"
    by (auto simp: wrote_def)
  have fresh: "?n + of_nat i \<noteq> ?n + of_nat (length ss)" if "i < length ss" for i
    using word_add_of_nat_inject [of ?n i "length ss"] fit that by simp
  have "content_of ?w2 (sstablePath dir (?n + of_nat i)) = Some (sst_image fp ((ss @ [s]) ! i))"
    if "i < length (ss @ [s])" for i
    using that fresh [of i] new [of i] by (cases "i = length ss") (simp_all add: nth_append)
  moreover have "content_of ?w2 p = content_of w p"
    if "\<forall>i < length (ss @ [s]). p \<noteq> sstablePath dir (?n + of_nat i) \<and> p \<noteq> temporary_path (sstablePath dir (?n + of_nat i))" for p
    using that old [of p] by auto
  moreover have "dir_ok dir ?w2" using w1(2) by (intro dir_ok_publish) simp_all
  ultimately have "wrote fp dir (w, m) (ss @ [s]) (?w2, ?m2)"
    using w1 m1 by (simp add: wrote_def ac_simps)
  moreover have "writeCompactionSlice fp dir s (w1, m1) = Some (Inr (slice_meta fp (?n + of_nat (length ss)) s), (?w2, ?m2))"
    using writeCompactionSlice_run [OF w1(1,2) s, of m1] m1 by simp
  ultimately show ?thesis by blast
qed

text \<open>
  Sizes: less than \<open>2 ^ 57\<close> bytes of records, each with 32 bit lengths. A part of such a list is
  such a list.
\<close>

definition records_fit :: "Record list \<Rightarrow> bool" where
  "records_fit rs \<longleftrightarrow> (\<forall>r \<in> set rs. encodable r) \<and> length rs \<le> 2 ^ 40 \<and> length (records_bytes rs) < 2 ^ 57"

lemma length_records_bytes: "length (records_bytes rs) = (\<Sum>r \<in># mset rs. length (record_bytes r))"
  by (induction rs) (simp_all add: records_bytes_def)

lemma records_fit_sub:
  assumes "records_fit rs" "mset ss \<subseteq># mset rs"
  shows "records_fit ss"
proof -
  obtain C where "mset rs = mset ss + C" using assms(2) by (auto simp: mset_subset_eq_exists_conv)
  then have "length (records_bytes ss) \<le> length (records_bytes rs)" by (simp add: length_records_bytes)
  moreover have "length ss \<le> length rs" using assms(2) by (metis size_mset size_mset_mono)
  moreover have "set ss \<subseteq> set rs" using assms(2) by (metis set_mset_mono set_mset_mset)
  ultimately show ?thesis using assms(1) by (auto simp: records_fit_def)
qed

lemma table_ok_fit:
  "fp_ok fp \<Longrightarrow> rs \<noteq> [] \<Longrightarrow> sorted_records rs \<Longrightarrow> records_fit rs \<Longrightarrow> table_ok fp rs"
  by (rule table_okI) (simp_all add: records_fit_def)

lemma sorted_records_sublist: "sorted_records rs \<Longrightarrow> sorted_records (take a (drop b rs))"
  unfolding sorted_records_def by (intro sorted_wrt_take sorted_wrt_drop)

lemma mset_sublist: "mset (take a (drop b rs)) \<subseteq># mset rs"
  by (metis append_take_drop_id mset_append mset_subset_eq_add_left mset_subset_eq_add_right subset_mset.order_trans)

text \<open>Records of different slices have different keys.\<close>

definition key_before :: "Record list \<Rightarrow> Record list \<Rightarrow> bool" where
  "key_before a b \<longleftrightarrow> (\<forall>x \<in> set a. \<forall>y \<in> set b. rec_key x < rec_key y)"

lemma key_boundary:
  assumes srt: "sorted_records rs" and k: "k < length rs"
    and b: "\<not> (k + 1 < length rs \<and> rec_key (rs ! k) = rec_key (rs ! (k + 1)))"
  shows "key_before (take (k + 1) rs) (drop (k + 1) rs)"
  unfolding key_before_def
proof (intro ballI)
  fix x y
  assume "x \<in> set (take (k + 1) rs)" and y: "y \<in> set (drop (k + 1) rs)"
  then obtain i where "i < k + 1" "x = rs ! i" using k by (auto simp: in_set_conv_nth)
  then have i: "i \<le> k" "x = rs ! i" by simp_all
  from y obtain j where j: "k + 1 + j < length rs" "y = rs ! (k + 1 + j)" by (rule in_drop_nth)
  have lt: "rkey (rs ! a) < rkey (rs ! c)" if "a < c" "c < length rs" for a c
    using srt that by (simp add: sorted_records_def sorted_wrt_iff_nth_less)
  have le: "rec_key (rs ! a) \<le> rec_key (rs ! c)" if "a \<le> c" "c < length rs" for a c
    using lt [of a c] that by (cases "a = c") (auto simp: rkey_less)
  have "rec_key (rs ! k) \<noteq> rec_key (rs ! (k + 1))" using b j by simp
  moreover have "rec_key (rs ! k) \<le> rec_key (rs ! (k + 1))" using le [of k "k + 1"] j by simp
  ultimately have "rec_key (rs ! k) < rec_key (rs ! (k + 1))" by simp
  moreover have "rec_key x \<le> rec_key (rs ! k)" using le [of i k] i k by simp
  moreover have "rec_key (rs ! (k + 1)) \<le> rec_key y" using le [of "k + 1" "k + 1 + j"] j by simp
  ultimately show "rec_key x < rec_key y" by order
qed

text \<open>The state of the loop after \<open>k\<close> records.\<close>

definition slicing :: "Record list \<Rightarrow> nat \<Rightarrow> Record list list \<Rightarrow> u64 \<Rightarrow> nat \<Rightarrow> bool" where
  "slicing rs k ss bytes begin' \<longleftrightarrow>
     begin' \<le> k \<and> concat ss = take begin' rs \<and> (\<forall>s \<in> set ss. s \<noteq> [])
     \<and> sorted_wrt key_before ss \<and> key_before (take begin' rs) (drop begin' rs)
     \<and> bytes = of_nat (length (records_bytes (take (k - begin') (drop begin' rs))))"

lemma slicing_more:
  assumes "slicing rs k ss bytes b" "k < length rs" "encodable (rs ! k)"
  shows "slicing rs (Suc k) ss (bytes + encodedRecordSize (rs ! k)) b"
proof -
  have b: "b \<le> k" using assms(1) by (simp add: slicing_def)
  then have "take (Suc k - b) (drop b rs) = take (k - b) (drop b rs) @ [rs ! k]"
    using assms(2) by (simp add: Suc_diff_le take_Suc_conv_app_nth)
  with assms b show ?thesis
    by (simp add: slicing_def encodedRecordSize_def length_record_bytes records_bytes_def
        kEncodedRecordHeaderSize_def kEncodedRecordChecksumSize_def)
qed

lemma key_before_subset:
  "key_before a b \<Longrightarrow> set a' \<subseteq> set a \<Longrightarrow> set b' \<subseteq> set b \<Longrightarrow> key_before a' b'"
  unfolding key_before_def by blast

lemma slicing_cut:
  assumes sl: "slicing rs k ss bytes b" and k: "k < length rs" and srt: "sorted_records rs"
    and cut: "\<not> (k + 1 < length rs \<and> rec_key (rs ! k) = rec_key (rs ! (k + 1)))"
  shows "slicing rs (Suc k) (ss @ [take (k - b + 1) (drop b rs)]) 0 (Suc k)"
proof -
  let ?s = "take (k - b + 1) (drop b rs)"
  have b: "b \<le> k" using sl by (simp add: slicing_def)
  have all: "take b rs @ ?s = take (Suc k) rs"
    using b take_add [of b "k - b + 1" rs] by simp
  have "key_before s ?s" if "s \<in> set ss" for s
  proof (rule key_before_subset)
    show "key_before (take b rs) (drop b rs)" using sl by (simp add: slicing_def)
    show "set s \<subseteq> set (take b rs)" using that sl by (auto simp: slicing_def dest!: arg_cong [of "concat ss" _ set])
    show "set ?s \<subseteq> set (drop b rs)" by (rule set_take_subset)
  qed
  moreover have "?s \<noteq> []" using b k by simp
  moreover have "key_before (take (Suc k) rs) (drop (Suc k) rs)"
    using key_boundary [OF srt k cut] by simp
  ultimately show ?thesis using sl all by (simp add: slicing_def sorted_wrt_append records_bytes_def)
qed

lemma slicing_last:
  assumes "slicing rs k ss bytes b" "s \<in> set ss"
  shows "key_before s (drop b rs)"
proof (rule key_before_subset)
  show "key_before (take b rs) (drop b rs)" using assms(1) by (simp add: slicing_def)
  show "set s \<subseteq> set (take b rs)" using assms by (auto simp: slicing_def dest!: arg_cong [of "concat ss" _ set])
qed simp

lemma nonempty_count: "\<forall>s \<in> set ss. s \<noteq> [] \<Longrightarrow> length ss \<le> length (concat ss)"
  by (induction ss) (auto simp: Suc_le_eq add_strict_increasing)

lemma slice_count: "slicing rs k ss bytes b \<Longrightarrow> length ss \<le> b \<and> length ss \<le> length rs"
  using nonempty_count [of ss] by (auto simp: slicing_def)

lemma compaction_loop:
  assumes "nominal w" "dir_ok dir w" "fp_ok fp" "sorted_records rs" "records_fit rs"
    and "unat (mf_nextTableNumber m) + length rs < 2 ^ 64" "k \<le> length rs"
  shows "\<exists>ss bytes b w' m'.
    io_fold (compaction_step fp dir rs limit) ([], 0, 0) [0..<k] (w, m)
      = Some (Inr (slice_metas fp (mf_nextTableNumber m) ss, bytes, b), (w', m'))
    \<and> wrote fp dir (w, m) ss (w', m') \<and> slicing rs k ss bytes b"
  using assms(7)
proof (induction k)
  case 0
  have "slicing rs 0 [] 0 0" by (simp add: slicing_def key_before_def)
  with wrote_Nil [OF assms(1,2)] show ?case by (fastforce simp: slice_metas_def)
next
  case (Suc k)
  let ?n = "mf_nextTableNumber m" and ?step = "compaction_step fp dir rs limit"
  from Suc obtain ss bytes b w1 m1 where
    run: "io_fold ?step ([], 0, 0) [0..<k] (w, m) = Some (Inr (slice_metas fp ?n ss, bytes, b), (w1, m1))"
    and wr: "wrote fp dir (w, m) ss (w1, m1)" and sl: "slicing rs k ss bytes b"
    by auto
  have k: "k < length rs" using Suc.prems by simp
  then have "encodable (rs ! k)" using assms(5) by (simp add: records_fit_def)
  note more = slicing_more [OF sl k this]
  have split: "io_fold ?step ([], 0, 0) [0..<Suc k] (w, m) = ?step (slice_metas fp ?n ss, bytes, b) k (w1, m1)"
    using run by (simp add: io_fold_append io_bind_def split: option.splits sum.splits)
  show ?case
  proof (cases "bytes + encodedRecordSize (rs ! k) \<le> limit
      \<or> (k + 1 < length rs \<and> rec_key (rs ! k) = rec_key (rs ! (k + 1)))")
    case True
    then have "?step (slice_metas fp ?n ss, bytes, b) k (w1, m1)
        = Some (Inr (slice_metas fp ?n ss, bytes + encodedRecordSize (rs ! k), b), (w1, m1))"
      by (auto simp: compaction_step_def Let_def)
    with split wr more show ?thesis by metis
  next
    case False
    let ?s = "take (k - b + 1) (drop b rs)"
    have cut: "slicing rs (Suc k) (ss @ [?s]) 0 (Suc k)" using slicing_cut [OF sl k assms(4)] False by blast
    then have "?s \<noteq> []" and len: "length ss < length rs" 
      using slice_count [OF cut] k by (auto simp: slicing_def)
    have "table_ok fp ?s"
      using assms(3-5) \<open>?s \<noteq> []\<close>
      by (intro table_ok_fit sorted_records_sublist records_fit_sub [OF assms(5) mset_sublist])
    from wrote_snoc [OF wr this] len assms(6) obtain w2 m2 where
      w2: "writeCompactionSlice fp dir ?s (w1, m1) = Some (Inr (slice_meta fp (?n + of_nat (length ss)) ?s), (w2, m2))"
      "wrote fp dir (w, m) (ss @ [?s]) (w2, m2)" by auto
    then have "?step (slice_metas fp ?n ss, bytes, b) k (w1, m1)
        = Some (Inr (slice_metas fp ?n (ss @ [?s]), 0, Suc k), (w2, m2))"
      using False by (simp add: compaction_step_def Let_def io_bind_def slice_metas_snoc)
    with split w2(2) cut show ?thesis by metis
  qed
qed

text \<open>
  The output of a compaction: the records cut into non-empty slices, no key in two slices, written
  under fresh numbers.
\<close>

lemma writeCompactionOutput_run:
  assumes "nominal w" "dir_ok dir w" "fp_ok fp" "sorted_records rs" "records_fit rs"
    and "unat (mf_nextTableNumber m) + length rs < 2 ^ 64"
  shows "\<exists>ss w' m'. writeCompactionOutput fp dir rs limit (w, m)
      = Some (Inr (slice_metas fp (mf_nextTableNumber m) ss), (w', m'))
    \<and> wrote fp dir (w, m) ss (w', m') \<and> concat ss = rs \<and> (\<forall>s \<in> set ss. s \<noteq> [])
    \<and> sorted_wrt key_before ss"
proof -
  let ?n = "mf_nextTableNumber m"
  from compaction_loop [OF assms order_refl, of limit] obtain ss bytes b w1 m1 where
    run: "io_fold (compaction_step fp dir rs limit) ([], 0, 0) [0..<length rs] (w, m)
      = Some (Inr (slice_metas fp ?n ss, bytes, b), (w1, m1))"
    and wr: "wrote fp dir (w, m) ss (w1, m1)" and sl: "slicing rs (length rs) ss bytes b" by blast
  have bytes: "bytes = of_nat (length (records_bytes (drop b rs)))" using sl by (simp add: slicing_def)
  have "records_fit (drop b rs)"
    using records_fit_sub [OF assms(5), of "drop b rs"] mset_sublist [of "length rs" b rs] by simp
  then have small: "length (records_bytes (drop b rs)) < 2 ^ 57" "\<forall>r \<in> set (drop b rs). encodable r"
    by (auto simp: records_fit_def)
  show ?thesis
  proof (cases "drop b rs = []")
    case True
    with run bytes sl wr show ?thesis
      by (intro exI [of _ ss] exI [of _ w1] exI [of _ m1])
        (auto simp: writeCompactionOutput_def io_bind_def slicing_def)
  next
    case False
    then obtain r rest where rest: "drop b rs = r # rest" by (cases "drop b rs") auto
    then have "0 < length (records_bytes (drop b rs))" using small(2) by (simp add: length_record_bytes)
    then have nz: "bytes \<noteq> 0"
      using bytes small(1) of_nat_eq64_iff [of "length (records_bytes (drop b rs))" 0] by simp
    have cut: "sorted_wrt key_before (ss @ [drop b rs]) \<and> concat (ss @ [drop b rs]) = rs"
      using sl slicing_last [OF sl] by (simp add: slicing_def sorted_wrt_append)
    have "table_ok fp (drop b rs)"
      using table_ok_fit [OF assms(3) False _ \<open>records_fit (drop b rs)\<close>]
        sorted_records_sublist [OF assms(4), of "length rs" b] by simp
    moreover have "length ss < length rs" using slice_count [OF sl] False by (simp add: slicing_def)
    ultimately obtain w2 m2 where
      w2: "writeCompactionSlice fp dir (drop b rs) (w1, m1)
        = Some (Inr (slice_meta fp (?n + of_nat (length ss)) (drop b rs)), (w2, m2))"
      "wrote fp dir (w, m) (ss @ [drop b rs]) (w2, m2)"
      using wrote_snoc [OF wr] assms(6) by fastforce
    with run nz have "writeCompactionOutput fp dir rs limit (w, m)
        = Some (Inr (slice_metas fp ?n (ss @ [drop b rs])), (w2, m2))"
      by (simp add: writeCompactionOutput_def io_bind_def slice_metas_snoc)
    with w2(2) cut sl False show ?thesis
      by (intro exI [of _ "ss @ [drop b rs]"] exI [of _ w2] exI [of _ m2]) (auto simp: slicing_def)
  qed
qed

section \<open>Merging the selected tables\<close>

lemma tables_comparable:
  assumes "catalogue_ok fp T w dir m" "t \<in> set (all_tables m)" "u \<in> set (all_tables m)" "t \<noteq> u"
  shows "newer_than (tbl T t) (tbl T u) \<or> newer_than (tbl T u) (tbl T t)"
proof -
  from assms(2,3) obtain i j where ij: "i < length (all_tables m)" "t = all_tables m ! i"
    "j < length (all_tables m)" "u = all_tables m ! j"
    by (metis in_set_conv_nth)
  have srt: "sorted_wrt newer_than (map (tbl T) (all_tables m))"
    using tables_layered [OF assms(1)] by (simp add: layered_def)
  have "i \<noteq> j" using ij assms(4) by blast
  then show ?thesis
    using srt ij by (cases "i < j") (auto simp: sorted_wrt_iff_nth_less)
qed

lemma tables_unique_distinct:
  assumes cat: "catalogue_ok fp T w dir m" and "set ts \<subseteq> set (all_tables m)" "distinct ts"
  shows "unique_versions (concat (map (tbl T) ts)) \<and> distinct (concat (map (tbl T) ts))"
  using assms(2,3)
proof (induction ts)
  case Nil
  then show ?case by (simp add: unique_versions_def)
next
  case (Cons t ts)
  let ?a = "tbl T t" and ?b = "concat (map (tbl T) ts)"
  have at: "table_at fp w dir T x" if "x \<in> set (t # ts)" for x
    using cat that Cons.prems(1) by (auto simp: catalogue_ok_def)
  have srt: "sorted_records ?a" using table_at_sorted [OF at, of t] by simp
  have cmp: "newer_than ?a (tbl T u) \<or> newer_than (tbl T u) ?a" if "u \<in> set ts" for u
    using tables_comparable [OF cat, of t u] Cons.prems that by auto
  have eq: "x = y" if "x \<in> set ?a" "y \<in> set ?b" "rkey x = rkey y" for x y
  proof -
    from that(2) obtain u where "u \<in> set ts" "y \<in> set (tbl T u)" by auto
    with cmp that show ?thesis unfolding newer_than_def rkey_eq by (metis order_less_irrefl)
  qed
  have disj: "set ?a \<inter> set ?b = {}"
  proof (rule ccontr)
    assume "set ?a \<inter> set ?b \<noteq> {}"
    then obtain x u where "x \<in> set ?a" "u \<in> set ts" "x \<in> set (tbl T u)" by auto
    with cmp show False unfolding newer_than_def by (metis order_less_irrefl)
  qed
  have "unique_versions (?a @ ?b)"
    unfolding unique_versions_def inj_on_def
  proof (intro ballI impI)
    fix x y
    assume xy: "x \<in> set (?a @ ?b)" "y \<in> set (?a @ ?b)" "rkey x = rkey y"
    have "unique_versions ?a" "unique_versions ?b"
      using sorted_records_unique [OF srt] Cons by auto
    with xy eq [of x y] eq [of y x] show "x = y"
      by (auto simp: unique_versions_def inj_on_def)
  qed
  moreover have "distinct ?a" using layered_distinct [of "[?a]"] srt by simp
  ultimately show ?case using Cons disj by simp
qed

lemma merge_tables:
  assumes cat: "catalogue_ok fp T w dir m" and n: "nominal w"
    and ts: "set ts \<subseteq> set (all_tables m)" "distinct ts"
  shows "\<exists>its out. openTableIterators (tablePaths dir (map tm_number ts)) w = Some (Inr its, w)
    \<and> mergeAll (map RawIt its) = Inr out \<and> sorted_records out
    \<and> mset out = mset (concat (map (tbl T) ts))"
proof -
  have at: "\<forall>t \<in> set ts. table_at fp w dir T t" using cat ts(1) by (auto simp: catalogue_ok_def)
  from openTableIterators_rep [OF n at] obtain its where
    its: "openTableIterators (tablePaths dir (map tm_number ts)) w = Some (Inr its, w)"
    "list_all2 raw_rep its (map (tbl T) ts)"
    by (auto simp: tablePaths_def comp_def)
  have "list_all2 it_rep (map RawIt its) (map (tbl T) ts)"
    using its(2) by (simp add: list_all2_map1)
  moreover have "\<forall>rs \<in> set (map (tbl T) ts). sorted_records rs" using at table_at_sorted by auto
  ultimately show ?thesis
    using merge_unique tables_unique_distinct [OF cat ts] its(1) by blast
qed

section \<open>Which tables may be compacted together\<close>

text \<open>
  A selection for the level \<open>l\<close>: tables of the level above and of the level itself, with the whole
  level 0 if \<open>l\<close> is 1; the tables of level \<open>l\<close> that stay lie entirely on one side of all of them.
\<close>

definition selects :: "Manifest \<Rightarrow> u64 list \<Rightarrow> nat \<Rightarrow> bool" where
  "selects m rem l \<longleftrightarrow>
     0 < l \<and> distinct rem \<and> rem \<noteq> [] \<and> set rem \<subseteq> tm_number ` set (all_tables m)
     \<and> (\<forall>i. \<forall>t \<in> set (Manifest_level i m). tm_number t \<in> set rem \<longrightarrow> Suc i = l \<or> i = l)
     \<and> (l = 1 \<longrightarrow> (\<forall>t \<in> set (Manifest_level 0 m). tm_number t \<in> set rem))
     \<and> (\<forall>t \<in> set (Manifest_level l m). tm_number t \<notin> set rem \<longrightarrow>
          (\<forall>u \<in> set (all_tables m). tm_number u \<in> set rem \<longrightarrow> tm_maxKey t < tm_minKey u)
          \<or> (\<forall>u \<in> set (all_tables m). tm_number u \<in> set rem \<longrightarrow> tm_maxKey u < tm_minKey t))"

lemma numbers_ok_inj:
  "numbers_ok m \<Longrightarrow> t \<in> set (all_tables m) \<Longrightarrow> u \<in> set (all_tables m) \<Longrightarrow> tm_number t = tm_number u \<Longrightarrow> t = u"
  unfolding numbers_ok_def in_all_tables by blast

lemma map_choice: "set ys \<subseteq> f ` A \<Longrightarrow> \<exists>xs. map f xs = ys \<and> set xs \<subseteq> A"
proof (induction ys)
  case (Cons y ys)
  then obtain x xs where "f x = y" "x \<in> A" "map f xs = ys" "set xs \<subseteq> A" by auto
  then show ?case by (intro exI [of _ "x # xs"]) simp
qed simp

lemma selects_tables:
  assumes "selects m rem l" "numbers_ok m"
  obtains ts where "map tm_number ts = rem" "set ts = {t \<in> set (all_tables m). tm_number t \<in> set rem}" "distinct ts"
proof -
  have "set rem \<subseteq> tm_number ` set (all_tables m)" using assms(1) by (simp add: selects_def)
  from map_choice [OF this] obtain ts where ts: "map tm_number ts = rem" "set ts \<subseteq> set (all_tables m)" by blast
  have "t \<in> set ts" if "t \<in> set (all_tables m)" "tm_number t \<in> set rem" for t
  proof -
    from that(2) ts(1) obtain u where "u \<in> set ts" "tm_number u = tm_number t" by auto
    with numbers_ok_inj [OF assms(2), of u t] ts(2) that(1) show ?thesis by auto
  qed
  with ts have "set ts = {t \<in> set (all_tables m). tm_number t \<in> set rem}" by auto
  moreover have "distinct (map tm_number ts)" using assms(1) ts(1) by (simp add: selects_def)
  then have "distinct ts" by (simp add: distinct_map)
  ultimately show thesis using ts(1) that by blast
qed

section \<open>Replacing the selected tables by the output\<close>

text \<open>The contents of the tables after the slices \<open>ss\<close> were written from number \<open>n\<close> on.\<close>

definition add_slices :: "u64 \<Rightarrow> Record list list \<Rightarrow> contents \<Rightarrow> contents" where
  "add_slices n ss T = (\<lambda>k. if unat (k - n) < length ss then ss ! unat (k - n) else T k)"

lemma add_slices_new:
  "i < length ss \<Longrightarrow> length ss < 2 ^ 64 \<Longrightarrow> add_slices n ss T (n + of_nat i) = ss ! i"
  using unat_of_nat64 [of i] by (simp add: add_slices_def)

lemma add_slices_old:
  assumes "k < n" "unat n + length ss < 2 ^ 64"
  shows "add_slices n ss T k = T k"
proof -
  have "unat (k - n) = 2 ^ 64 + unat k - unat n"
    using assms(1) by (simp add: unat_sub_if' word_less_nat_alt)
  then have "\<not> unat (k - n) < length ss" using assms(2) by simp
  then show ?thesis by (simp add: add_slices_def)
qed

lemma slice_metas_nth: "i < length ss \<Longrightarrow> slice_metas fp n ss ! i = slice_meta fp (n + of_nat i) (ss ! i)"
  by (simp add: slice_metas_def)

lemma slice_meta_fields [simp]:
  "tm_number (slice_meta fp n s) = n" "tm_minKey (slice_meta fp n s) = rec_key (hd s)"
  "tm_maxKey (slice_meta fp n s) = rec_key (last s)" "tm_size (slice_meta fp n s) = of_nat (length (sst_image fp s))"
  by (simp_all add: slice_meta_def)

text \<open>
  A replacement: the tables of a valid selection for level \<open>l\<close> give way to slices that hold some
  of their records, in order and without a common key.
\<close>

definition replacement ::
  "fp \<Rightarrow> contents \<Rightarrow> world \<Rightarrow> path \<Rightarrow> Manifest \<Rightarrow> u64 list \<Rightarrow> nat \<Rightarrow> Record list list \<Rightarrow> bool" where
  "replacement fp T w dir m rem l ss \<longleftrightarrow>
     catalogue_ok fp T w dir m \<and> selects m rem l \<and> l \<le> 20
     \<and> (\<forall>s \<in> set ss. s \<noteq> [] \<and> sorted_records s) \<and> sorted_wrt key_before ss
     \<and> (\<forall>x \<in> set (concat ss). \<exists>t \<in> set (all_tables m). tm_number t \<in> set rem \<and> x \<in> set (tbl T t))
     \<and> unat (mf_nextTableNumber m) + length ss < 2 ^ 64"

abbreviation outputs :: "fp \<Rightarrow> Manifest \<Rightarrow> Record list list \<Rightarrow> TableMeta list" where
  "outputs fp m ss \<equiv> slice_metas fp (mf_nextTableNumber m) ss"

abbreviation new_tables :: "Manifest \<Rightarrow> Record list list \<Rightarrow> contents \<Rightarrow> contents" where
  "new_tables m ss T \<equiv> add_slices (mf_nextTableNumber m) ss T"

abbreviation bumped :: "Manifest \<Rightarrow> Record list list \<Rightarrow> Manifest" where
  "bumped m ss \<equiv> m\<lparr>mf_nextTableNumber := mf_nextTableNumber m + of_nat (length ss)\<rparr>"

lemma level_bumped [simp]: "Manifest_level i (m\<lparr>mf_nextTableNumber := n\<rparr>) = Manifest_level i m"
  by (simp add: Manifest_level_def)

lemma replacementD:
  assumes "replacement fp T w dir m rem l ss"
  shows "catalogue_ok fp T w dir m" "selects m rem l" "l \<le> 20" "\<forall>s \<in> set ss. s \<noteq> [] \<and> sorted_records s"
    "sorted_wrt key_before ss"
    "\<forall>x \<in> set (concat ss). \<exists>t \<in> set (all_tables m). tm_number t \<in> set rem \<and> x \<in> set (tbl T t)"
    "unat (mf_nextTableNumber m) + length ss < 2 ^ 64"
  using assms by (simp_all add: replacement_def)

lemma old_number:
  "catalogue_ok fp T w dir m \<Longrightarrow> t \<in> set (Manifest_level i m) \<Longrightarrow> tm_number t < mf_nextTableNumber m"
  by (auto simp: catalogue_ok_def numbers_ok_def)

lemma level_table_at:
  "catalogue_ok fp T w dir m \<Longrightarrow> t \<in> set (Manifest_level i m) \<Longrightarrow> table_at fp w dir T t"
  using in_all_tables by (auto simp: catalogue_ok_def)

lemma out_cases:
  assumes r: "replacement fp T w dir m rem l ss" and "t \<in> set (outputs fp m ss)"
  obtains i where "i < length ss" "t = slice_meta fp (mf_nextTableNumber m + of_nat i) (ss ! i)"
    "tbl (new_tables m ss T) t = ss ! i"
proof -
  from assms(2) obtain i where i: "i < length ss" "t = outputs fp m ss ! i" by (auto simp: in_set_conv_nth)
  then have "t = slice_meta fp (mf_nextTableNumber m + of_nat i) (ss ! i)" by (simp add: slice_metas_nth)
  moreover from this have "tbl (new_tables m ss T) t = ss ! i"
    using add_slices_new [of i ss "mf_nextTableNumber m" T] i replacementD(7) [OF r] by (simp add: tbl_def)
  ultimately show thesis using that i by blast
qed

lemma old_tbl:
  assumes "replacement fp T w dir m rem l ss" "t \<in> set (Manifest_level i m)"
  shows "tbl (new_tables m ss T) t = tbl T t"
  using add_slices_old [OF old_number [OF replacementD(1) [OF assms(1)] assms(2)] replacementD(7) [OF assms(1)]]
  by (simp add: tbl_def)

lemma out_number:
  assumes r: "replacement fp T w dir m rem l ss" and "t \<in> set (outputs fp m ss)"
  shows "mf_nextTableNumber m \<le> tm_number t \<and> tm_number t < mf_nextTableNumber m + of_nat (length ss)"
proof -
  from assms obtain i where i: "i < length ss" "tm_number t = mf_nextTableNumber m + of_nat i"
    by (auto elim: out_cases)
  have "unat (mf_nextTableNumber m + of_nat j) = unat (mf_nextTableNumber m) + j" if "j \<le> length ss" for j
    using that replacementD(7) [OF r] by (simp add: unat_word_ariths unat_of_nat)
  with i show ?thesis by (simp add: word_le_nat_alt word_less_nat_alt)
qed

lemma selected_levels:
  "selects m rem l \<Longrightarrow> t \<in> set (Manifest_level i m) \<Longrightarrow> tm_number t \<in> set rem \<Longrightarrow> Suc i = l \<or> i = l"
  by (auto simp: selects_def)

text \<open>Every record of the output is in a selected table, on the target level or the one above.\<close>

lemma out_record:
  assumes r: "replacement fp T w dir m rem l ss" and "t \<in> set (outputs fp m ss)" "x \<in> set (tbl (new_tables m ss T) t)"
  obtains i u where "u \<in> set (Manifest_level i m)" "Suc i = l \<or> i = l" "tm_number u \<in> set rem" "x \<in> set (tbl T u)"
proof -
  from r assms(2) obtain j where "j < length ss" "tbl (new_tables m ss T) t = ss ! j" by (rule out_cases)
  with assms(3) have "x \<in> set (concat ss)" by auto
  with replacementD(6) [OF r] obtain u where "u \<in> set (all_tables m)" "tm_number u \<in> set rem" "x \<in> set (tbl T u)"
    by blast
  moreover from this obtain i where "u \<in> set (Manifest_level i m)" by (auto simp: in_all_tables)
  ultimately show thesis using that selected_levels [OF replacementD(2) [OF r]] by blast
qed

lemma newer_outs:
  assumes "replacement fp T w dir m rem l ss" "t \<in> set (outputs fp m ss)"
    and "\<And>i u. u \<in> set (Manifest_level i m) \<Longrightarrow> Suc i = l \<or> i = l \<Longrightarrow> tm_number u \<in> set rem \<Longrightarrow> newer_than a (tbl T u)"
  shows "newer_than a (tbl (new_tables m ss T) t)"
  unfolding newer_than_def
proof (intro ballI impI)
  fix x y
  assume "x \<in> set a" and y: "y \<in> set (tbl (new_tables m ss T) t)" and k: "rec_key x = rec_key y"
  from out_record [OF assms(1,2) y] obtain i u where
    u: "u \<in> set (Manifest_level i m)" "Suc i = l \<or> i = l" "tm_number u \<in> set rem" "y \<in> set (tbl T u)" .
  with assms(3) [OF u(1-3)] \<open>x \<in> set a\<close> k show "rec_seq y < rec_seq x" by (simp add: newer_than_def)
qed

lemma outs_newer:
  assumes "replacement fp T w dir m rem l ss" "t \<in> set (outputs fp m ss)"
    and "\<And>i u. u \<in> set (Manifest_level i m) \<Longrightarrow> Suc i = l \<or> i = l \<Longrightarrow> newer_than (tbl T u) a"
  shows "newer_than (tbl (new_tables m ss T) t) a"
  unfolding newer_than_def
proof (intro ballI impI)
  fix x y
  assume x: "x \<in> set (tbl (new_tables m ss T) t)" and y: "y \<in> set a" "rec_key x = rec_key y"
  from out_record [OF assms(1,2) x] obtain i u where
    u: "u \<in> set (Manifest_level i m)" "Suc i = l \<or> i = l" "x \<in> set (tbl T u)" .
  with assms(3) [OF u(1,2)] y show "rec_seq y < rec_seq x" by (simp add: newer_than_def)
qed

lemma out_range:
  assumes r: "replacement fp T w dir m rem l ss" and "t \<in> set (outputs fp m ss)"
  obtains u v where "u \<in> set (all_tables m)" "tm_number u \<in> set rem" "tm_minKey u \<le> tm_minKey t"
    "v \<in> set (all_tables m)" "tm_number v \<in> set rem" "tm_maxKey t \<le> tm_maxKey v"
proof -
  from assms obtain i where i: "i < length ss" "t = slice_meta fp (mf_nextTableNumber m + of_nat i) (ss ! i)"
    "tbl (new_tables m ss T) t = ss ! i" by (rule out_cases)
  have ne: "ss ! i \<noteq> []" using i(1) replacementD(4) [OF r] by auto
  have cov: "\<exists>u \<in> set (all_tables m). tm_number u \<in> set rem \<and> covers (rec_key x) u" if x: "x \<in> set (ss ! i)" for x
  proof -
    from out_record [OF assms, of x] x i(3) obtain j u where
      u: "u \<in> set (Manifest_level j m)" "tm_number u \<in> set rem" "x \<in> set (tbl T u)" by metis
    with table_at_keys [OF level_table_at [OF replacementD(1) [OF r] u(1)] u(3)] in_all_tables show ?thesis by blast
  qed
  from cov [of "hd (ss ! i)"] ne obtain u where
    "u \<in> set (all_tables m)" "tm_number u \<in> set rem" "covers (rec_key (hd (ss ! i))) u" by auto
  moreover from cov [of "last (ss ! i)"] ne obtain v where
    "v \<in> set (all_tables m)" "tm_number v \<in> set rem" "covers (rec_key (last (ss ! i))) v" by auto
  ultimately show thesis using that i by (auto simp: covers_def)
qed

lemma out_table_range:
  assumes r: "replacement fp T w dir m rem l ss" and "t \<in> set (outputs fp m ss)"
  shows "table_range t"
proof -
  from assms obtain i where i: "i < length ss" "t = slice_meta fp (mf_nextTableNumber m + of_nat i) (ss ! i)"
    by (rule out_cases)
  then have "ss ! i \<noteq> []" "sorted_records (ss ! i)" using replacementD(4) [OF r] by auto
  with sorted_key_bounds(1) [of "ss ! i" "last (ss ! i)"] i show ?thesis by (simp add: table_range_def)
qed

lemma outs_disjoint:
  assumes r: "replacement fp T w dir m rem l ss"
  shows "disjoint_ranges (outputs fp m ss)"
  unfolding disjoint_ranges_def sorted_wrt_iff_nth_less
proof (intro allI impI)
  fix i j
  assume "i < j" "j < length (outputs fp m ss)"
  then have ij: "i < length ss" "j < length ss" and "key_before (ss ! i) (ss ! j)"
    using replacementD(5) [OF r] by (auto simp: sorted_wrt_iff_nth_less)
  moreover have "ss ! i \<noteq> []" "ss ! j \<noteq> []" using ij replacementD(4) [OF r] by auto
  ultimately have "rec_key (last (ss ! i)) < rec_key (hd (ss ! j))" by (simp add: key_before_def)
  then show "\<not> rangesOverlap (outputs fp m ss ! i) (tm_minKey (outputs fp m ss ! j)) (tm_maxKey (outputs fp m ss ! j))"
    using ij by (simp add: slice_metas_nth rangesOverlap_def not_le)
qed

lemma outs_beside:
  assumes r: "replacement fp T w dir m rem l ss" and t: "t \<in> set (outputs fp m ss)"
    and x: "x \<in> set (Manifest_level l m)" "tm_number x \<notin> set rem"
  shows "\<not> rangesOverlap x (tm_minKey t) (tm_maxKey t)"
proof -
  from r t obtain u v where uv: "u \<in> set (all_tables m)" "tm_number u \<in> set rem" "tm_minKey u \<le> tm_minKey t"
    "v \<in> set (all_tables m)" "tm_number v \<in> set rem" "tm_maxKey t \<le> tm_maxKey v"
    by (rule out_range)
  have "(\<forall>u \<in> set (all_tables m). tm_number u \<in> set rem \<longrightarrow> tm_maxKey x < tm_minKey u)
      \<or> (\<forall>u \<in> set (all_tables m). tm_number u \<in> set rem \<longrightarrow> tm_maxKey u < tm_minKey x)"
    using replacementD(2) [OF r] x by (auto simp: selects_def)
  with uv have "tm_maxKey x < tm_minKey u \<or> tm_maxKey v < tm_minKey x" by blast
  with uv(3,6) show ?thesis unfolding rangesOverlap_def by (metis leD order_le_less_trans order_less_le_trans)
qed

end
