(* ===== verification/DBCompactRange.thy ===== *)
theory DBCompactRange
  imports DBCompaction
begin

text \<open>
  One run of \<open>compactRange\<close>: the catalogue after the replacement, the removal of the inputs, and
  the theorem that the invariant and the reads survive.
\<close>

section \<open>The catalogue after a replacement\<close>

lemma newer_disjoint_rev:
  assumes "table_at fp w dir T t" "table_at fp w dir T u" "tm_maxKey u < tm_minKey t"
  shows "newer_than (tbl T t) (tbl T u)"
  unfolding newer_than_def
proof (intro ballI impI)
  fix x y
  assume "x \<in> set (tbl T t)" "y \<in> set (tbl T u)" "rec_key x = rec_key y"
  then have "covers (rec_key x) t" "covers (rec_key x) u" using table_at_keys assms by metis+
  with covers_apart [OF assms(3)] show "rec_seq y < rec_seq x" by blast
qed

text \<open>Two tables of one level below level 0 share no key, so each is newer than the other.\<close>

lemma level_apart:
  assumes "catalogue_ok fp T w dir m" "0 < i" "t \<in> set (Manifest_level i m)" "u \<in> set (Manifest_level i m)" "t \<noteq> u"
  shows "tm_maxKey t < tm_minKey u \<or> tm_maxKey u < tm_minKey t"
proof -
  have "level_inv i (Manifest_level i m)" using assms(1) by (simp add: catalogue_ok_def levels_inv_def)
  then have srt: "sorted_wrt (\<lambda>a b. tm_maxKey a < tm_minKey b) (Manifest_level i m)"
    using assms(2) by (simp add: level_inv_def)
  from assms(3,4) obtain a b where "a < length (Manifest_level i m)" "t = Manifest_level i m ! a"
    "b < length (Manifest_level i m)" "u = Manifest_level i m ! b" by (metis in_set_conv_nth)
  moreover from this assms(5) have "a < b \<or> b < a" by (metis nat_neq_iff)
  ultimately show ?thesis using srt by (auto simp: sorted_wrt_iff_nth_less)
qed

lemma level_newer:
  assumes "catalogue_ok fp T w dir m" "0 < i" "t \<in> set (Manifest_level i m)" "u \<in> set (Manifest_level i m)" "t \<noteq> u"
  shows "newer_than (tbl T t) (tbl T u)"
  using level_apart [OF assms] newer_disjoint newer_disjoint_rev level_table_at assms by metis

lemma layers_newer:
  "catalogue_ok fp T w dir m \<Longrightarrow> t \<in> set (Manifest_level i m) \<Longrightarrow> u \<in> set (Manifest_level j m) \<Longrightarrow> i < j
   \<Longrightarrow> newer_than (tbl T t) (tbl T u)"
  by (auto simp: catalogue_ok_def layers_ok_def)

text \<open>A table that stays above the target level is newer than every selected one it shares a key with.\<close>

lemma kept_newer:
  assumes r: "replacement fp T w dir m rem l ss" and t: "t \<in> set (Manifest_level i m)" "tm_number t \<notin> set rem" "i < l"
    and u: "u \<in> set (Manifest_level j m)" "Suc j = l \<or> j = l" "tm_number u \<in> set rem"
  shows "newer_than (tbl T t) (tbl T u)"
proof (cases "i < j")
  case True
  then show ?thesis using layers_newer [OF replacementD(1) [OF r] t(1) u(1)] by simp
next
  case False
  with t(3) u(2) have ij: "j = i" "l = Suc i" by auto
  have "i \<noteq> 0"
  proof
    assume "i = 0"
    then show False using replacementD(2) [OF r] t(1,2) ij by (auto simp: selects_def)
  qed
  moreover have "t \<noteq> u" using t(2) u(3) by blast
  ultimately show ?thesis using level_newer [OF replacementD(1) [OF r] _ t(1), of u] u(1) ij by simp
qed

definition replaced :: "fp \<Rightarrow> Manifest \<Rightarrow> u64 list \<Rightarrow> nat \<Rightarrow> Record list list \<Rightarrow> Manifest \<Rightarrow> bool" where
  "replaced fp m rem l ss m' \<longleftrightarrow>
     (\<forall>i. mset (Manifest_level i m') =
        filter_mset (\<lambda>t. tm_number t \<notin> set rem) (mset (Manifest_level i m))
        + (if i = l then mset (outputs fp m ss) else {#}))
     \<and> mf_path m' = mf_path m \<and> mf_nextTableNumber m' = mf_nextTableNumber m + of_nat (length ss)
     \<and> mf_logNumber m' = mf_logNumber m \<and> mf_lastSeq m' = mf_lastSeq m
     \<and> length (mf_levels m') \<le> max (length (mf_levels m)) (Suc l) \<and> levels_inv m'"

lemma replaced_level:
  assumes "replaced fp m rem l ss m'"
  shows "t \<in> set (Manifest_level i m') \<longleftrightarrow>
    t \<in> set (Manifest_level i m) \<and> tm_number t \<notin> set rem \<or> i = l \<and> t \<in> set (outputs fp m ss)"
proof -
  have "mset (Manifest_level i m') = filter_mset (\<lambda>t. tm_number t \<notin> set rem) (mset (Manifest_level i m))
        + (if i = l then mset (outputs fp m ss) else {#})"
    using assms by (simp add: replaced_def)
  from arg_cong [OF this, of set_mset] show ?thesis by auto
qed

lemma replaceTables_replaced:
  assumes r: "replacement fp T w dir m rem l ss"
  shows "\<exists>m'. replaceTables rem (outputs fp m ss) (of_nat l) (bumped m ss) = (Inr (), m') \<and> replaced fp m rem l ss m'"
proof -
  let ?l = "of_nat l :: u32"
  have sel: "0 < l" "l \<le> 20" using replacementD(2,3) [OF r] by (auto simp: selects_def)
  then have u: "unat ?l = l" by (simp add: unat_of_nat)
  have l: "?l \<noteq> -1" "?l \<noteq> 0"
  proof -
    show "?l \<noteq> 0" using u sel by (metis less_numeral_extra(3) unat_0)
    have "unat (-1 :: u32) = 2 ^ 32 - 1" by (simp add: unsigned_minus_1_eq_mask mask_eq_exp_minus_1)
    then show "?l \<noteq> -1" using u sel by auto
  qed
  have inv: "levels_inv (bumped m ss)"
    using replacementD(1) [OF r] by (simp add: catalogue_ok_def levels_inv_def)
  have fresh: "\<forall>t \<in> set (outputs fp m ss). \<forall>x \<in> set (Manifest_level 0 (bumped m ss)). tm_number x \<noteq> tm_number t"
    using out_number [OF r] old_number [OF replacementD(1) [OF r]] by fastforce
  have beside: "\<forall>t \<in> set (outputs fp m ss). \<forall>x \<in> set (Manifest_level (unat ?l) (bumped m ss)).
      tm_number x \<notin> set rem \<longrightarrow> \<not> rangesOverlap x (tm_minKey t) (tm_maxKey t)"
    using outs_beside [OF r] by (simp add: u)
  have rng: "\<forall>t \<in> set (outputs fp m ss). table_range t" using out_table_range [OF r] by blast
  show ?thesis
    by (rule replaceTables_ok [OF inv l rng outs_disjoint [OF r] beside fresh]) (auto simp: replaced_def u)
qed

lemma replaced_layers:
  assumes r: "replacement fp T w dir m rem l ss" and rep: "replaced fp m rem l ss m'"
  shows "layers_ok (new_tables m ss T) m'"
  unfolding layers_ok_def
proof (intro allI ballI impI)
  fix i j t u
  assume t: "t \<in> set (Manifest_level i m')" and u: "u \<in> set (Manifest_level j m')"
    and ij: "i < j \<or> i = 0 \<and> j = 0 \<and> tm_number u < tm_number t"
  have l: "0 < l" using replacementD(2) [OF r] by (simp add: selects_def)
  note cat = replacementD(1) [OF r]
  consider (kk) "t \<in> set (Manifest_level i m)" "u \<in> set (Manifest_level j m)"
    | (ko) "t \<in> set (Manifest_level i m)" "tm_number t \<notin> set rem" "j = l" "u \<in> set (outputs fp m ss)"
    | (ok) "i = l" "t \<in> set (outputs fp m ss)" "u \<in> set (Manifest_level j m)"
    | (oo) "i = l" "j = l"
    using t u by (auto simp: replaced_level [OF rep])
  then show "newer_than (tbl (new_tables m ss T) t) (tbl (new_tables m ss T) u)"
  proof cases
    case kk
    moreover have "layers_ok T m" using cat by (simp add: catalogue_ok_def)
    ultimately show ?thesis using ij by (auto simp: layers_ok_def old_tbl [OF r])
  next
    case ko
    have "i < l" using ij l ko(3) by auto
    then show ?thesis
      using newer_outs [OF r ko(4), of "tbl T t"] kept_newer [OF r ko(1,2)] by (simp add: old_tbl [OF r ko(1)])
  next
    case ok
    have "l < j" using ij l ok(1) by auto
    then have "newer_than (tbl T x) (tbl T u)" if "x \<in> set (Manifest_level a m)" "Suc a = l \<or> a = l" for a x
      using layers_newer [OF cat that(1) ok(3)] that(2) by auto
    then show ?thesis using outs_newer [OF r ok(2), of "tbl T u"] by (simp add: old_tbl [OF r ok(3)])
  qed (use ij l in simp)
qed

lemma out_number_inj:
  assumes r: "replacement fp T w dir m rem l ss"
    and "t \<in> set (outputs fp m ss)" "u \<in> set (outputs fp m ss)" "tm_number t = tm_number u"
  shows "t = u"
proof -
  from r assms(2) obtain i where i: "i < length ss" "t = slice_meta fp (mf_nextTableNumber m + of_nat i) (ss ! i)"
    by (rule out_cases)
  from r assms(3) obtain j where j: "j < length ss" "u = slice_meta fp (mf_nextTableNumber m + of_nat j) (ss ! j)"
    by (rule out_cases)
  have "i = j"
    using assms(4) i j replacementD(7) [OF r] word_add_of_nat_inject [of "mf_nextTableNumber m" i j] by simp
  with i j show ?thesis by simp
qed

lemma next_grows:
  assumes "unat n + k < 2 ^ 64"
  shows "(n :: u64) \<le> n + of_nat k" "unat (n + of_nat k) = unat n + k"
proof -
  show "unat (n + of_nat k) = unat n + k" using assms by (simp add: unat_word_ariths unat_of_nat)
  then show "n \<le> n + of_nat k" by (simp add: word_le_nat_alt)
qed

lemma replaced_numbers:
  assumes r: "replacement fp T w dir m rem l ss" and rep: "replaced fp m rem l ss m'"
  shows "numbers_ok m'"
  unfolding numbers_ok_def
proof (intro conjI allI ballI impI)
  note cat = replacementD(1) [OF r]
  have num: "numbers_ok m" using cat by (simp add: catalogue_ok_def)
  fix i t
  assume t: "t \<in> set (Manifest_level i m')"
  have next': "mf_nextTableNumber m' = mf_nextTableNumber m + of_nat (length ss)" using rep by (simp add: replaced_def)
  from t show "tm_number t < mf_nextTableNumber m'"
    using old_number [OF cat, of t i] out_number [OF r, of t] next_grows(1) [OF replacementD(7) [OF r]]
    by (auto simp: replaced_level [OF rep] next' intro: order_less_le_trans)
next
  note cat = replacementD(1) [OF r]
  have num: "numbers_ok m" using cat by (simp add: catalogue_ok_def)
  fix i j t u
  assume t: "t \<in> set (Manifest_level i m')" and u: "u \<in> set (Manifest_level j m')"
    and eq: "tm_number t = tm_number u"
  have mixed: False if "x \<in> set (Manifest_level a m)" "y \<in> set (outputs fp m ss)" "tm_number x = tm_number y" for x y a
    using old_number [OF cat that(1)] out_number [OF r that(2)] that(3) by auto
  consider "t \<in> set (Manifest_level i m)" "u \<in> set (Manifest_level j m)"
    | "i = l" "j = l" "t \<in> set (outputs fp m ss)" "u \<in> set (outputs fp m ss)"
    using t u eq mixed [of t i u] mixed [of u j t] by (auto simp: replaced_level [OF rep])
  then have "i = j \<and> t = u"
  proof cases
    case 1
    then show ?thesis using num eq by (simp add: numbers_ok_def)
  next
    case 2
    then show ?thesis using out_number_inj [OF r] eq by blast
  qed
  then show "i = j" "t = u" by simp_all
qed

lemma replaced_catalogue:
  assumes r: "replacement fp T w dir m rem l ss" and rep: "replaced fp m rem l ss m'"
    and ok: "\<forall>s \<in> set ss. table_ok fp s"
    and new: "\<forall>i < length ss. content_of w' (sstablePath dir (mf_nextTableNumber m + of_nat i)) = Some (sst_image fp (ss ! i))"
    and old: "\<forall>t \<in> set (all_tables m). tm_number t \<notin> set rem \<longrightarrow>
        content_of w' (sstablePath dir (tm_number t)) = content_of w (sstablePath dir (tm_number t))"
  shows "catalogue_ok fp (new_tables m ss T) w' dir m'"
proof -
  have "table_at fp w' dir (new_tables m ss T) t" if "t \<in> set (all_tables m')" for t
  proof -
    from that obtain i where "t \<in> set (Manifest_level i m')" by (auto simp: in_all_tables)
    then consider "t \<in> set (Manifest_level i m)" "tm_number t \<notin> set rem" | "t \<in> set (outputs fp m ss)"
      by (auto simp: replaced_level [OF rep])
    then show ?thesis
    proof cases
      case 1
      with level_table_at [OF replacementD(1) [OF r] 1(1)] old in_all_tables show ?thesis
        by (auto simp: table_at_def table_file_def old_tbl [OF r 1(1)])
    next
      case 2
      from r 2 obtain j where "j < length ss" "t = slice_meta fp (mf_nextTableNumber m + of_nat j) (ss ! j)"
        "tbl (new_tables m ss T) t = ss ! j" by (rule out_cases)
      with ok new show ?thesis by (simp add: table_at_def table_file_def)
    qed
  qed
  moreover have "length (mf_levels m') \<le> 21" "levels_inv m'"
    using rep replacementD(1,3) [OF r] by (auto simp: replaced_def catalogue_ok_def)
  ultimately show ?thesis
    using replaced_layers [OF r rep] replaced_numbers [OF r rep] by (simp add: catalogue_ok_def)
qed

section \<open>Removing the inputs\<close>

lemma removeFile_nominal:
  "nominal w \<Longrightarrow> content_of w p \<noteq> None \<Longrightarrow> removeFile p msg w = Some (Inr (), del_file p w)"
  by (auto simp: removeFile_def io_bind_def io_act_def sys_remove_def)

lemma remove_files:
  assumes "nominal w" "distinct ps" "\<forall>p \<in> set ps. content_of w p \<noteq> None"
  shows "io_for ps (\<lambda>p. removeFile p msg) w = Some (Inr (), fold del_file ps w)"
  using assms
proof (induction ps arbitrary: w)
  case (Cons p ps)
  have "\<forall>q \<in> set ps. content_of (del_file p w) q \<noteq> None" using Cons.prems(2,3) by auto
  with Cons.IH [of "del_file p w"] Cons.prems show ?case by (simp add: io_bind_def removeFile_nominal)
qed simp

lemma fold_del_file [simp]:
  "content_of (fold del_file ps w) q = (if q \<in> set ps then None else content_of w q)"
  "nominal (fold del_file ps w) = nominal w" "w_fds (fold del_file ps w) = w_fds w"
  by (induction ps arbitrary: w) auto

lemma dir_ok_removed: "dir_ok dir w \<Longrightarrow> dir_ok dir (fold del_file ps w)"
  by (induction ps arbitrary: w) (auto simp: dir_ok_del_file)

lemma map_of_fold_delete:
  "map_of (fold (\<lambda>n. AList.delete n) ns c) k = (if k \<in> set ns then None else map_of c k)"
  by (induction ns arbitrary: c) (auto simp: delete_conv')

section \<open>Reads of a reduced database\<close>

lemma visible_reduce:
  assumes "unique_versions xs" "unique_versions ys" "unique_versions s"
    and "set xs = A \<union> set s" "set ys = A \<union> set r" "set r \<subseteq> set s" "visible r k q = visible s k q"
  shows "visible ys k q = visible xs k q"
proof (cases "visible xs k q")
  case None
  then have "visible ys k q = None" using assms(4-6) by (auto simp: visible_None)
  with None show ?thesis by simp
next
  case (Some x)
  from visible_SomeD [OF this] have x: "x \<in> A \<union> set s" "eligible k q x"
    "\<And>y. y \<in> A \<union> set s \<Longrightarrow> eligible k q y \<Longrightarrow> rec_seq y \<le> rec_seq x"
    using assms(4) by auto
  have "x \<in> A \<union> set r"
  proof (cases "x \<in> A")
    case False
    then have "visible s k q = Some x" using x assms(3) by (intro visible_eqI) auto
    then show ?thesis using assms(7) visible_SomeD [of r k q x] by simp
  qed simp
  then have "visible ys k q = Some x" using x assms by (intro visible_eqI) auto
  with Some show ?thesis by simp
qed

lemma mset_distinct_sub: "distinct xs \<Longrightarrow> set xs \<subseteq> set ys \<Longrightarrow> mset xs \<subseteq># mset ys"
  by (auto simp: subseteq_mset_def distinct_count_atmost_1 Suc_le_eq)

lemma mset_sub_length: "mset xs \<subseteq># mset ys \<Longrightarrow> length xs \<le> length ys"
  by (metis size_mset size_mset_mono)

section \<open>A run of compactRange\<close>

definition db_ready :: "fp \<Rightarrow> contents \<Rightarrow> world \<Rightarrow> DB \<Rightarrow> bool" where
  "db_ready fp T w db \<longleftrightarrow> db_inv fp T w db \<and> nominal w \<and> dir_ok (db_dataDirectory db) w \<and> fp_ok fp
     \<and> mf_path (db_manifest db) = manifest_path (db_dataDirectory db) \<and> records_fit (db_records T db)"

text \<open>The records of the tables of a selection, and those of the rest of the database.\<close>

definition chosen :: "contents \<Rightarrow> DB \<Rightarrow> u64 list \<Rightarrow> Record set" where
  "chosen T db rem = {x. \<exists>t \<in> set (all_tables (db_manifest db)). tm_number t \<in> set rem \<and> x \<in> set (tbl T t)}"

definition others :: "contents \<Rightarrow> DB \<Rightarrow> u64 list \<Rightarrow> Record set" where
  "others T db rem = set (mt_records (db_activeMemTable db))
     \<union> {x. \<exists>t \<in> set (all_tables (db_manifest db)). tm_number t \<notin> set rem \<and> x \<in> set (tbl T t)}"

lemma records_split: "set (db_records T db) = others T db rem \<union> chosen T db rem"
  by (auto simp: db_records_def sources_def others_def chosen_def)

text \<open>The inputs are read and merged; the reduced records are at most those of the database.\<close>

lemma selection_merged:
  assumes ready: "db_ready fp T w db" and sel: "selects (db_manifest db) rem l"
  obtains its out where
    "openTableIterators (tablePaths (db_dataDirectory db) rem) w = Some (Inr its, w)"
    "mergeAll (map RawIt its) = Inr out" "sorted_records out" "set out = chosen T db rem" "out \<noteq> []"
proof -
  let ?m = "db_manifest db" and ?dir = "db_dataDirectory db"
  have cat: "catalogue_ok fp T w ?dir ?m" and n: "nominal w"
    using ready by (simp_all add: db_ready_def db_inv_def)
  have "numbers_ok ?m" using cat by (simp add: catalogue_ok_def)
  from selects_tables [OF sel this] obtain ts where
    ts: "map tm_number ts = rem" "set ts = {t \<in> set (all_tables ?m). tm_number t \<in> set rem}" "distinct ts" .
  have sub: "set ts \<subseteq> set (all_tables ?m)" using ts(2) by blast
  from merge_tables [OF cat n sub ts(3)] ts(1) obtain its out where
    run: "openTableIterators (tablePaths ?dir rem) w = Some (Inr its, w)" "mergeAll (map RawIt its) = Inr out"
    and out: "sorted_records out" "mset out = mset (concat (map (tbl T) ts))" by auto
  have "set out = chosen T db rem"
    using mset_eq_setD [OF out(2)] ts(2) by (auto simp: chosen_def)
  moreover have "out \<noteq> []"
  proof -
    from sel have "rem \<noteq> []" by (simp add: selects_def)
    then obtain t where "t \<in> set ts" using ts(1) by (cases ts) auto
    with sub cat have "table_at fp w ?dir T t" by (auto simp: catalogue_ok_def)
    then have "tbl T t \<noteq> []" using table_at_sorted by blast
    with \<open>t \<in> set ts\<close> show ?thesis using mset_eq_setD [OF out(2)] by fastforce
  qed
  ultimately show thesis using run out(1) that by blast
qed

lemma retained_bound:
  assumes "sorted_records out" "set out = chosen T db rem"
  shows "mset (retainForCompaction out q) \<subseteq># mset (db_records T db)"
    "length (retainForCompaction out q) \<le> length (db_records T db)"
proof -
  let ?rs = "retainForCompaction out q"
  have "sorted_records ?rs" "set ?rs \<subseteq> set out" using retain_sorted [OF assms(1)] retain_set [OF assms(1)] by auto
  moreover from this have "distinct ?rs" using layered_distinct [of "[?rs]"] by simp
  ultimately show sub: "mset ?rs \<subseteq># mset (db_records T db)"
    using assms(2) records_split [of T db rem] by (intro mset_distinct_sub) auto
  show "length ?rs \<le> length (db_records T db)" using sub by (rule mset_sub_length)
qed

text \<open>The first half: the inputs are merged, reduced and written in slices.\<close>

lemma compaction_output:
  assumes ready: "db_ready fp T w db" and sel: "selects (db_manifest db) rem l" and l: "l \<le> 20"
    and room: "unat (mf_nextTableNumber (db_manifest db)) + length (db_records T db) < 2 ^ 64"
  obtains its out ss w1 where
    "openTableIterators (tablePaths (db_dataDirectory db) rem) w = Some (Inr its, w)"
    "mergeAll (map RawIt its) = Inr out"
    "writeCompactionOutput fp (db_dataDirectory db) (retainForCompaction out (smallestActiveSnapshot db))
       (db_compactionSliceBytes db) (w, db_manifest db)
     = Some (Inr (outputs fp (db_manifest db) ss), (w1, bumped (db_manifest db) ss))"
    "wrote fp (db_dataDirectory db) (w, db_manifest db) ss (w1, bumped (db_manifest db) ss)"
    "replacement fp T w (db_dataDirectory db) (db_manifest db) rem l ss" "\<forall>s \<in> set ss. table_ok fp s"
    "sorted_records out" "set out = chosen T db rem"
    "concat ss = retainForCompaction out (smallestActiveSnapshot db)" "ss \<noteq> []"
proof -
  let ?m = "db_manifest db" and ?dir = "db_dataDirectory db" and ?q = "smallestActiveSnapshot db"
  have cat: "catalogue_ok fp T w ?dir ?m" and n: "nominal w" and d: "dir_ok ?dir w" and fp: "fp_ok fp"
    and fit: "records_fit (db_records T db)"
    using ready by (simp_all add: db_ready_def db_inv_def)
  from selection_merged [OF ready sel] obtain its out where
    run: "openTableIterators (tablePaths ?dir rem) w = Some (Inr its, w)" "mergeAll (map RawIt its) = Inr out"
    and out: "sorted_records out" and set: "set out = chosen T db rem" and ne: "out \<noteq> []" .
  define rs where "rs = retainForCompaction out ?q"
  have rs: "sorted_records rs" "set rs \<subseteq> set out"
    using retain_sorted [OF out] retain_set [OF out] by (auto simp: rs_def)
  have small: "mset rs \<subseteq># mset (db_records T db)" unfolding rs_def by (rule retained_bound [OF out set])
  have "records_fit rs" by (rule records_fit_sub [OF fit small])
  moreover have "length rs \<le> length (db_records T db)" using small by (rule mset_sub_length)
  ultimately obtain ss w1 m1 where
    o: "writeCompactionOutput fp ?dir rs (db_compactionSliceBytes db) (w, ?m) = Some (Inr (outputs fp ?m ss), (w1, m1))"
    and wr: "wrote fp ?dir (w, ?m) ss (w1, m1)" and cc: "concat ss = rs" "\<forall>s \<in> set ss. s \<noteq> []" "sorted_wrt key_before ss"
    using writeCompactionOutput_run [OF n d fp rs(1), of ?m "db_compactionSliceBytes db"] room by fastforce
  have m1: "m1 = bumped ?m ss" using wr by (simp add: wrote_def)
  have part: "sorted_records s \<and> records_fit s" if "s \<in> set ss" for s
  proof -
    from that obtain a b where "rs = a @ s @ b" using cc(1) by (metis concat.simps(2) concat_append split_list)
    then have "s = take (length s) (drop (length a) rs)" by simp
    then show ?thesis
      using sorted_records_sublist [OF rs(1)] records_fit_sub [OF \<open>records_fit rs\<close> mset_sublist] by metis
  qed
  have "length ss \<le> length rs" using nonempty_count [OF cc(2)] cc(1) by simp
  then have r: "replacement fp T w ?dir ?m rem l ss"
    using cat sel l cc part rs(2) set room \<open>length rs \<le> length (db_records T db)\<close>
    by (auto simp: replacement_def chosen_def)
  have "rs \<noteq> []" using retain_nonempty [OF out ne] by (simp add: rs_def)
  then have "ss \<noteq> []" using cc(1) by auto
  then show thesis
    using that [OF run o [unfolded rs_def m1] wr [unfolded m1] r _ out set] part cc table_ok_fit [OF fp]
    by (simp add: rs_def)
qed

text \<open>The database after the replacement.\<close>

definition after_replace :: "u64 list \<Rightarrow> Manifest \<Rightarrow> DB \<Rightarrow> DB" where
  "after_replace rem m' db = db\<lparr>db_manifest := m',
     db_tableCache := fold (\<lambda>n. AList.delete n) rem (db_tableCache db)\<rparr>"

lemma after_replace_fields [simp]:
  "db_manifest (after_replace rem m' db) = m'" "db_activeMemTable (after_replace rem m' db) = db_activeMemTable db"
  "db_dataDirectory (after_replace rem m' db) = db_dataDirectory db" "db_nextSeq (after_replace rem m' db) = db_nextSeq db"
  "map_of (db_tableCache (after_replace rem m' db)) k = (if k \<in> set rem then None else map_of (db_tableCache db) k)"
  by (simp_all add: after_replace_def map_of_fold_delete)

lemma replaced_tables:
  assumes "replaced fp m rem l ss m'"
  shows "t \<in> set (all_tables m') \<longleftrightarrow>
    t \<in> set (all_tables m) \<and> tm_number t \<notin> set rem \<or> t \<in> set (outputs fp m ss)"
  by (auto simp: in_all_tables replaced_level [OF assms])

lemma outs_records:
  assumes r: "replacement fp T w dir m rem l ss"
  shows "(\<exists>t \<in> set (outputs fp m ss). x \<in> set (tbl (new_tables m ss T) t)) \<longleftrightarrow> x \<in> set (concat ss)"
proof
  assume "\<exists>t \<in> set (outputs fp m ss). x \<in> set (tbl (new_tables m ss T) t)"
  then obtain t where t: "t \<in> set (outputs fp m ss)" "x \<in> set (tbl (new_tables m ss T) t)" by blast
  from r t(1) obtain j where "j < length ss" "tbl (new_tables m ss T) t = ss ! j" by (rule out_cases)
  with t(2) show "x \<in> set (concat ss)" by auto
next
  assume "x \<in> set (concat ss)"
  then obtain s where "s \<in> set ss" "x \<in> set s" by auto
  then obtain j where j: "j < length ss" "x \<in> set (ss ! j)" by (metis in_set_conv_nth)
  have "outputs fp m ss ! j \<in> set (outputs fp m ss)" using j(1) by simp
  moreover have "tbl (new_tables m ss T) (outputs fp m ss ! j) = ss ! j"
    using j(1) add_slices_new [of j ss] replacementD(7) [OF r] by (simp add: slice_metas_nth tbl_def)
  ultimately show "\<exists>t \<in> set (outputs fp m ss). x \<in> set (tbl (new_tables m ss T) t)" using j(2) by metis
qed

lemma replaced_records:
  assumes r: "replacement fp T w dir (db_manifest db) rem l ss" and rep: "replaced fp (db_manifest db) rem l ss m'"
  shows "set (db_records (new_tables (db_manifest db) ss T) (after_replace rem m' db)) = others T db rem \<union> set (concat ss)"
proof -
  let ?T = "new_tables (db_manifest db) ss T"
  have old: "tbl ?T t = tbl T t" if "t \<in> set (all_tables (db_manifest db))" for t
    using that old_tbl [OF r] by (auto simp: in_all_tables)
  have "x \<in> set (db_records ?T (after_replace rem m' db)) \<longleftrightarrow>
      x \<in> set (mt_records (db_activeMemTable db)) \<or> (\<exists>t \<in> set (all_tables m'). x \<in> set (tbl ?T t))" for x
    by (auto simp: db_records_def sources_def)
  moreover have "(\<exists>t \<in> set (all_tables m'). x \<in> set (tbl ?T t)) \<longleftrightarrow>
      (\<exists>t \<in> set (all_tables (db_manifest db)). tm_number t \<notin> set rem \<and> x \<in> set (tbl T t)) \<or> x \<in> set (concat ss)" for x
  proof -
    have "(\<exists>t \<in> set (all_tables m'). x \<in> set (tbl ?T t)) \<longleftrightarrow>
        (\<exists>t \<in> set (all_tables (db_manifest db)). tm_number t \<notin> set rem \<and> x \<in> set (tbl ?T t))
        \<or> (\<exists>t \<in> set (outputs fp (db_manifest db) ss). x \<in> set (tbl ?T t))"
      using replaced_tables [OF rep] by blast
    moreover have "(\<exists>t \<in> set (all_tables (db_manifest db)). tm_number t \<notin> set rem \<and> x \<in> set (tbl ?T t)) \<longleftrightarrow>
        (\<exists>t \<in> set (all_tables (db_manifest db)). tm_number t \<notin> set rem \<and> x \<in> set (tbl T t))"
      using old by (intro bex_cong) simp_all
    ultimately show ?thesis using outs_records [OF r, of x] by simp
  qed
  ultimately show ?thesis by (auto simp: others_def)
qed

lemma replaced_cache:
  assumes r: "replacement fp T w dir (db_manifest db) rem l ss" and rep: "replaced fp (db_manifest db) rem l ss m'"
    and c: "cache_ok fp T db"
  shows "cache_ok fp (new_tables (db_manifest db) ss T) (after_replace rem m' db)"
  unfolding cache_ok_def
proof (intro allI impI conjI)
  let ?m = "db_manifest db"
  fix n st
  assume "map_of (db_tableCache (after_replace rem m' db)) n = Some st"
  then have n: "n \<notin> set rem" "map_of (db_tableCache db) n = Some st" by (simp_all split: if_splits)
  with c have old: "n < mf_nextTableNumber ?m"
    "n \<in> tm_number ` set (all_tables ?m) \<Longrightarrow> st = sst_of (sstablePath (db_dataDirectory db) n) fp (T n)"
    by (auto simp: cache_ok_def)
  have "mf_nextTableNumber ?m \<le> mf_nextTableNumber m'"
    using rep next_grows(1) [OF replacementD(7) [OF r]] by (simp add: replaced_def)
  with old(1) show "n < mf_nextTableNumber (db_manifest (after_replace rem m' db))" by (simp add: order_less_le_trans)
  assume "n \<in> tm_number ` set (all_tables (db_manifest (after_replace rem m' db)))"
  then obtain t where t: "t \<in> set (all_tables m')" "n = tm_number t" by auto
  have "t \<notin> set (outputs fp ?m ss)" using out_number [OF r, of t] old(1) t(2) by auto
  with t have "n \<in> tm_number ` set (all_tables ?m)" by (auto simp: replaced_tables [OF rep])
  with old add_slices_old [OF old(1) replacementD(7) [OF r]]
  show "st = sst_of (sstablePath (db_dataDirectory (after_replace rem m' db)) n) fp (new_tables ?m ss T n)" by simp
qed

lemma replaced_inv:
  assumes r: "replacement fp T w (db_dataDirectory db) (db_manifest db) rem l ss"
    and rep: "replaced fp (db_manifest db) rem l ss m'" and inv: "db_inv fp T w db"
    and cat: "catalogue_ok fp (new_tables (db_manifest db) ss T) w' (db_dataDirectory db) m'"
    and sub: "set (concat ss) \<subseteq> chosen T db rem"
  shows "db_inv fp (new_tables (db_manifest db) ss T) w' (after_replace rem m' db)"
proof -
  let ?mem = "mt_records (db_activeMemTable db)" and ?T = "new_tables (db_manifest db) ss T"
  have new: "newer_than ?mem (tbl T t)" if "t \<in> set (Manifest_level i (db_manifest db))" for t i
    using inv that by (auto simp: db_inv_def in_all_tables)
  have "newer_than ?mem (tbl ?T t)" if "t \<in> set (all_tables m')" for t
  proof (cases "t \<in> set (outputs fp (db_manifest db) ss)")
    case True
    then show ?thesis using newer_outs [OF r True] new by blast
  next
    case False
    with that have "t \<in> set (all_tables (db_manifest db))" by (simp add: replaced_tables [OF rep])
    then obtain i where "t \<in> set (Manifest_level i (db_manifest db))" by (auto simp: in_all_tables)
    then show ?thesis using new old_tbl [OF r] by simp
  qed
  moreover have "\<forall>x \<in> set (db_records ?T (after_replace rem m' db)). rec_seq x < db_nextSeq db"
    using inv sub replaced_records [OF r rep] records_split [of T db rem] by (auto simp: db_inv_def)
  moreover have "cache_ok fp ?T (after_replace rem m' db)"
    using inv by (intro replaced_cache [OF r rep]) (simp add: db_inv_def)
  ultimately show ?thesis using inv cat by (simp add: db_inv_def)
qed

section \<open>The weight of a catalogue\<close>

text \<open>
  A record on level \<open>i\<close> weighs \<open>21 - i\<close>: a compaction moves records down, so the weight drops.
\<close>

definition level_records :: "contents \<Rightarrow> TableMeta list \<Rightarrow> nat" where
  "level_records T ts = (\<Sum>t \<leftarrow> ts. length (tbl T t))"

definition weight :: "contents \<Rightarrow> Manifest \<Rightarrow> nat" where
  "weight T m = (\<Sum>i<21. (21 - i) * level_records T (Manifest_level i m))"

lemma level_records_mset: "level_records T ts = (\<Sum>t \<in># mset ts. length (tbl T t))"
  by (simp add: level_records_def flip: sum_mset_sum_list)

lemma card_tables: "card (\<Union>t \<in> set ts. set (tbl T t)) \<le> level_records T ts"
proof (induction ts)
  case (Cons t ts)
  have "card (\<Union>u \<in> set (t # ts). set (tbl T u)) \<le> card (set (tbl T t)) + card (\<Union>u \<in> set ts. set (tbl T u))"
    by (simp add: card_Un_le)
  also have "\<dots> \<le> length (tbl T t) + level_records T ts" using Cons card_length add_mono by blast
  finally show ?case by (simp add: level_records_def)
qed (simp add: level_records_def)

lemma level_records_split:
  "level_records T ts = level_records T (filter P ts) + level_records T (filter (\<lambda>t. \<not> P t) ts)"
  by (induction ts) (simp_all add: level_records_def)

lemma replaced_level_records:
  assumes r: "replacement fp T w dir m rem l ss" and rep: "replaced fp m rem l ss m'"
  shows "level_records (new_tables m ss T) (Manifest_level i m') =
    level_records T (filter (\<lambda>t. tm_number t \<notin> set rem) (Manifest_level i m)) + (if i = l then length (concat ss) else 0)"
proof -
  let ?T = "new_tables m ss T" and ?kept = "filter (\<lambda>t. tm_number t \<notin> set rem) (Manifest_level i m)"
  have "mset (Manifest_level i m') = mset (?kept @ (if i = l then outputs fp m ss else []))"
    using rep by (simp add: replaced_def)
  then have "level_records ?T (Manifest_level i m') = level_records ?T (?kept @ (if i = l then outputs fp m ss else []))"
    unfolding level_records_mset by simp
  moreover have "level_records ?T ?kept = level_records T ?kept"
    unfolding level_records_def using old_tbl [OF r] by (intro arg_cong [of _ _ sum_list] map_cong) auto
  moreover have "map (\<lambda>t. length (tbl ?T t)) (outputs fp m ss) = map length ss"
    using replacementD(7) [OF r] by (auto intro!: nth_equalityI simp: slice_metas_nth tbl_def add_slices_new)
  ultimately show ?thesis by (simp add: level_records_def length_concat)
qed

lemma output_count:
  assumes r: "replacement fp T w dir m rem l ss" and d: "distinct (concat ss)"
  defines "c \<equiv> \<lambda>i. level_records T (filter (\<lambda>t. tm_number t \<in> set rem) (Manifest_level i m))"
  shows "length (concat ss) \<le> c (l - 1) + c l" "i \<noteq> l - 1 \<Longrightarrow> i \<noteq> l \<Longrightarrow> c i = 0"
proof -
  let ?sel = "\<lambda>i. filter (\<lambda>t. tm_number t \<in> set rem) (Manifest_level i m)"
  let ?U = "\<lambda>i. \<Union>t \<in> set (?sel i). set (tbl T t)"
  note lev = selected_levels [OF replacementD(2) [OF r]]
  have "set (concat ss) \<subseteq> ?U (l - 1) \<union> ?U l"
  proof
    fix x
    assume "x \<in> set (concat ss)"
    with replacementD(6) [OF r] obtain t where t: "t \<in> set (all_tables m)" "tm_number t \<in> set rem" "x \<in> set (tbl T t)"
      by blast
    then obtain i where "t \<in> set (Manifest_level i m)" by (auto simp: in_all_tables)
    with t lev [of t i] show "x \<in> ?U (l - 1) \<union> ?U l" by fastforce
  qed
  then have "card (set (concat ss)) \<le> card (?U (l - 1)) + card (?U l)"
    by (meson List.finite_set card_Un_le card_mono finite_UN_I finite_UnI le_trans)
  also have "\<dots> \<le> c (l - 1) + c l" unfolding c_def by (intro add_mono card_tables)
  finally show "length (concat ss) \<le> c (l - 1) + c l" by (simp only: distinct_card [OF d])
  show "c i = 0" if "i \<noteq> l - 1" "i \<noteq> l"
  proof -
    have "?sel i = []" using lev [of _ i] that by (force simp: filter_empty_conv)
    then show ?thesis by (simp add: c_def level_records_def)
  qed
qed

lemma weight_drops:
  assumes r: "replacement fp T w dir m rem l ss" and rep: "replaced fp m rem l ss m'" and d: "distinct (concat ss)"
    and up: "t \<in> set (Manifest_level (l - 1) m)" "tm_number t \<in> set rem"
  shows "weight (new_tables m ss T) m' < weight T m"
proof -
  let ?k = "\<lambda>i. level_records T (filter (\<lambda>t. tm_number t \<notin> set rem) (Manifest_level i m))"
  let ?c = "\<lambda>i. level_records T (filter (\<lambda>t. tm_number t \<in> set rem) (Manifest_level i m))"
  let ?o = "length (concat ss)"
  have l: "0 < l" "l \<le> 20" using replacementD(2,3) [OF r] by (auto simp: selects_def)
  have "tbl T t \<noteq> []" using table_at_sorted [OF level_table_at [OF replacementD(1) [OF r] up(1)]] by simp
  moreover have "length (tbl T t) \<le> ?c (l - 1)"
    unfolding level_records_def using up by (intro member_le_sum_list) auto
  ultimately have pos: "0 < ?c (l - 1)" by (cases "tbl T t") auto
  have le: "?o \<le> ?c (l - 1) + ?c l" by (rule output_count(1) [OF r d])
  have new: "weight (new_tables m ss T) m' = (\<Sum>i<21. (21 - i) * ?k i) + (21 - l) * ?o"
    using l by (simp add: weight_def replaced_level_records [OF r rep] add_mult_distrib2 sum.distrib
        if_distrib [of "\<lambda>x. _ * x"] sum.delta cong: if_cong)
  have old: "weight T m = (\<Sum>i<21. (21 - i) * ?k i) + (\<Sum>i<21. (21 - i) * ?c i)"
    unfolding weight_def
    by (subst level_records_split [where P = "\<lambda>t. tm_number t \<in> set rem"])
      (simp add: add_mult_distrib2 sum.distrib)
  have "(\<Sum>i \<in> {l - 1, l}. (21 - i) * ?c i) \<le> (\<Sum>i<21. (21 - i) * ?c i)"
    using l by (intro sum_mono2) auto
  moreover have "(\<Sum>i \<in> {l - 1, l}. (21 - i) * ?c i) = (21 - (l - 1)) * ?c (l - 1) + (21 - l) * ?c l" using l by simp
  moreover have "21 - (l - 1) = Suc (21 - l)" using l by simp
  moreover have "(21 - l) * ?o \<le> (21 - l) * (?c (l - 1) + ?c l)" using le by (rule mult_le_mono2)
  ultimately show ?thesis unfolding new old using pos by (simp add: add_mult_distrib2)
qed

section \<open>What a compaction keeps\<close>

definition saved :: "world \<Rightarrow> DB \<Rightarrow> bool" where
  "saved w db \<longleftrightarrow>
     content_of w (manifest_path (db_dataDirectory db)) = Some (manifest_bytes (db_manifest db))"

definition same_logs :: "path \<Rightarrow> world \<Rightarrow> world \<Rightarrow> bool" where
  "same_logs dir w w' \<longleftrightarrow>
     (\<forall>n. content_of w' (walPath dir n) = content_of w (walPath dir n)) \<and> w_fds w' = w_fds w"

text \<open>No table file has a number that is still to be given.\<close>

definition tables_fresh :: "world \<Rightarrow> DB \<Rightarrow> bool" where
  "tables_fresh w db \<longleftrightarrow>
     (\<forall>n \<ge> mf_nextTableNumber (db_manifest db). content_of w (sstablePath (db_dataDirectory db) n) = None)"

text \<open>
  The database is still in order; it answers every read at or above the oldest active snapshot as
  before; it holds no new record; of the object only the catalogue, the cache and the cursors
  changed, and the log numbers are the same.
\<close>

definition compacted :: "fp \<Rightarrow> contents \<Rightarrow> world \<Rightarrow> DB \<Rightarrow> contents \<Rightarrow> world \<Rightarrow> DB \<Rightarrow> bool" where
  "compacted fp T w db T' w' db' \<longleftrightarrow>
     db_ready fp T' w' db'
     \<and> (\<forall>k q. smallestActiveSnapshot db \<le> q \<longrightarrow> visible (db_records T' db') k q = visible (db_records T db) k q)
     \<and> mset (db_records T' db') \<subseteq># mset (db_records T db)
     \<and> (\<exists>m c cu. db' = db\<lparr>db_manifest := m, db_tableCache := c, db_compactionCursors := cu\<rparr>)
     \<and> mf_logNumber (db_manifest db') = mf_logNumber (db_manifest db)
     \<and> mf_lastSeq (db_manifest db') = mf_lastSeq (db_manifest db)
     \<and> mf_nextTableNumber (db_manifest db) \<le> mf_nextTableNumber (db_manifest db')
     \<and> same_logs (db_dataDirectory db) w w' \<and> (saved w db \<longrightarrow> saved w' db')
     \<and> (tables_fresh w db \<longrightarrow> tables_fresh w' db')"

lemma compacted_refl: "db_ready fp T w db \<Longrightarrow> compacted fp T w db T w db"
  unfolding compacted_def same_logs_def
  by (intro conjI exI [of _ "db_manifest db"] exI [of _ "db_tableCache db"] exI [of _ "db_compactionCursors db"]) simp_all

lemma compacted_trans:
  assumes "compacted fp T w db T1 w1 db1" "compacted fp T1 w1 db1 T2 w2 db2"
  shows "compacted fp T w db T2 w2 db2"
proof -
  from assms(1) obtain m c cu where db1: "db1 = db\<lparr>db_manifest := m, db_tableCache := c, db_compactionCursors := cu\<rparr>"
    by (auto simp: compacted_def)
  from assms(2) obtain m' c' cu' where db2: "db2 = db1\<lparr>db_manifest := m', db_tableCache := c', db_compactionCursors := cu'\<rparr>"
    by (auto simp: compacted_def)
  have "smallestActiveSnapshot db1 = smallestActiveSnapshot db" "db_dataDirectory db1 = db_dataDirectory db"
    by (simp_all add: db1 smallestActiveSnapshot_def)
  moreover have "\<exists>m c cu. db2 = db\<lparr>db_manifest := m, db_tableCache := c, db_compactionCursors := cu\<rparr>"
    by (intro exI [of _ m'] exI [of _ c'] exI [of _ cu']) (simp add: db1 db2)
  moreover have "mset (db_records T2 db2) \<subseteq># mset (db_records T db)"
    using assms by (meson compacted_def subset_mset.order_trans)
  moreover have "mf_nextTableNumber (db_manifest db) \<le> mf_nextTableNumber (db_manifest db2)"
    using assms by (meson compacted_def order_trans)
  ultimately show ?thesis
    using assms unfolding compacted_def same_logs_def by (simp add: db1)
qed

lemma wal_neq_sstable [simp]: "walPath dir n \<noteq> sstablePath dir m"
proof -
  have "butlast (walPath dir n) \<noteq> butlast (sstablePath dir m)" by simp
  then show ?thesis by metis
qed

section \<open>The theorem\<close>

text \<open>The files after the slices were written, the catalogue saved and the inputs removed.\<close>

definition cleaned :: "path \<Rightarrow> u64 list \<Rightarrow> Manifest \<Rightarrow> world \<Rightarrow> world" where
  "cleaned dir rem m' w = fold del_file (tablePaths dir rem) (publish (manifest_path dir) (manifest_bytes m') w)"

lemma cleaned_content:
  "content_of (cleaned dir rem m' w) p =
     (if p \<in> sstablePath dir ` set rem then None
      else if p = manifest_path dir then Some (manifest_bytes m')
      else if p = temporary_path (manifest_path dir) then None else content_of w p)"
  by (auto simp: cleaned_def tablePaths_def)

lemma cleaned_fields [simp]:
  "nominal (cleaned dir rem m' w) = nominal w" "w_fds (cleaned dir rem m' w) = w_fds w"
  by (simp_all add: cleaned_def)

lemma cleaned_dir_ok: "dir_ok dir w \<Longrightarrow> dir_ok dir (cleaned dir rem m' w)"
  unfolding cleaned_def by (intro dir_ok_removed dir_ok_publish) simp_all

lemma wrote_old:
  assumes "wrote fp dir (w, m) ss (w1, m1)"
    and "\<And>i. i < length ss \<Longrightarrow> p \<noteq> sstablePath dir (mf_nextTableNumber m + of_nat i)"
    and "\<And>i. i < length ss \<Longrightarrow> p \<noteq> temporary_path (sstablePath dir (mf_nextTableNumber m + of_nat i))"
  shows "content_of w1 p = content_of w p"
  using assms by (auto simp: wrote_def)

lemma old_number_fresh:
  assumes "n < mf_nextTableNumber m" "unat (mf_nextTableNumber m) + length ss < 2 ^ 64" "i < length ss"
  shows "n \<noteq> mf_nextTableNumber m + of_nat i"
proof -
  have "mf_nextTableNumber m \<le> mf_nextTableNumber m + of_nat i"
    using assms(2,3) by (intro next_grows) simp
  with assms(1) show ?thesis by auto
qed

lemma selected_number:
  assumes "replacement fp T w dir m rem l ss" "n \<in> set rem"
  shows "n < mf_nextTableNumber m" "content_of w (sstablePath dir n) \<noteq> None"
proof -
  from replacementD(2) [OF assms(1)] assms(2) obtain t where "t \<in> set (all_tables m)" "n = tm_number t"
    by (auto simp: selects_def)
  then obtain i where i: "t \<in> set (Manifest_level i m)" "n = tm_number t" by (auto simp: in_all_tables)
  then show "n < mf_nextTableNumber m" using old_number [OF replacementD(1) [OF assms(1)]] by simp
  show "content_of w (sstablePath dir n) \<noteq> None"
    using level_table_at [OF replacementD(1) [OF assms(1)] i(1)] i(2) by (simp add: table_at_def table_file_def)
qed

lemma cleaned_catalogue:
  assumes r: "replacement fp T w dir m rem l ss" and rep: "replaced fp m rem l ss m'"
    and ok: "\<forall>s \<in> set ss. table_ok fp s" and wr: "wrote fp dir (w, m) ss (w1, m1)"
  shows "catalogue_ok fp (new_tables m ss T) (cleaned dir rem m' w1) dir m'"
proof (rule replaced_catalogue [OF r rep ok])
  note fresh = old_number_fresh [OF _ replacementD(7) [OF r]]
  show "\<forall>i < length ss. content_of (cleaned dir rem m' w1) (sstablePath dir (mf_nextTableNumber m + of_nat i))
      = Some (sst_image fp (ss ! i))"
  proof (intro allI impI)
    fix i
    assume i: "i < length ss"
    then have "mf_nextTableNumber m + of_nat i \<notin> set rem"
      using selected_number(1) [OF r] fresh by blast
    with i wr show "content_of (cleaned dir rem m' w1) (sstablePath dir (mf_nextTableNumber m + of_nat i))
        = Some (sst_image fp (ss ! i))"
      by (auto simp: cleaned_content wrote_def)
  qed
  show "\<forall>t \<in> set (all_tables m). tm_number t \<notin> set rem \<longrightarrow>
      content_of (cleaned dir rem m' w1) (sstablePath dir (tm_number t)) = content_of w (sstablePath dir (tm_number t))"
  proof (intro ballI impI)
    fix t
    assume t: "t \<in> set (all_tables m)" "tm_number t \<notin> set rem"
    have "tm_number t < mf_nextTableNumber m" using number_bound [OF replacementD(1) [OF r] t(1)] .
    then have "content_of w1 (sstablePath dir (tm_number t)) = content_of w (sstablePath dir (tm_number t))"
      using fresh by (intro wrote_old [OF wr]) auto
    with t(2) show "content_of (cleaned dir rem m' w1) (sstablePath dir (tm_number t))
        = content_of w (sstablePath dir (tm_number t))"
      by (auto simp: cleaned_content)
  qed
qed

lemma cleaned_fresh:
  assumes r: "replacement fp T w (db_dataDirectory db) (db_manifest db) rem l ss"
    and wr: "wrote fp (db_dataDirectory db) (w, db_manifest db) ss (w1, m1)" and f: "tables_fresh w db"
    and m': "mf_nextTableNumber m' = mf_nextTableNumber (db_manifest db) + of_nat (length ss)"
  shows "tables_fresh (cleaned (db_dataDirectory db) rem m' w1) (after_replace rem m' db)"
  unfolding tables_fresh_def
proof (intro allI impI)
  let ?n = "mf_nextTableNumber (db_manifest db)"
  fix n
  assume "mf_nextTableNumber (db_manifest (after_replace rem m' db)) \<le> n"
  then have n: "unat ?n + length ss \<le> unat n"
    using m' next_grows(2) [OF replacementD(7) [OF r]] by (simp add: word_le_nat_alt)
  have "unat (?n + of_nat i) = unat ?n + i" if "i < length ss" for i
    using that replacementD(7) [OF r] by (intro next_grows) simp
  with n have "n \<noteq> ?n + of_nat i" if "i < length ss" for i using that by fastforce
  then have "content_of w1 (sstablePath (db_dataDirectory db) n) = content_of w (sstablePath (db_dataDirectory db) n)"
    by (intro wrote_old [OF wr]) auto
  moreover have "?n \<le> n" using n by (simp add: word_le_nat_alt)
  ultimately show "content_of (cleaned (db_dataDirectory db) rem m' w1)
      (sstablePath (db_dataDirectory (after_replace rem m' db)) n) = None"
    using f by (simp add: cleaned_content tables_fresh_def)
qed

lemma compactRange_exec:
  assumes its: "openTableIterators (tablePaths (db_dataDirectory db) rem) w = Some (Inr its, w)"
    and out: "mergeAll (map RawIt its) = Inr out"
    and o: "writeCompactionOutput fp (db_dataDirectory db) (retainForCompaction out (smallestActiveSnapshot db))
       (db_compactionSliceBytes db) (w, db_manifest db) = Some (Inr outs, (w1, m1))"
    and rep: "replaceTables rem outs (ucast l) m1 = (Inr (), m')"
    and save: "Manifest_save m' w1 = Some (Inr (), w2)"
    and del: "io_for (tablePaths (db_dataDirectory db) rem) (\<lambda>p. removeFile p ''remove old sst file failed'') w2 = Some (Inr (), w3)"
  shows "compactRange fp rem l (w, db) = Some (Inr (), (w3, after_replace rem m' db))"
  using assms
  by (simp add: compactRange_def db_get_def db_upd_def on_manifest_def manifest_try_def io_bind_def io_outer_def
      Let_def after_replace_def)

lemma db_records_distinct: "db_inv fp T w db \<Longrightarrow> distinct (db_records T db)"
  unfolding db_records_def using sources_layered sources_sorted by (intro layered_distinct) blast+

lemma of_nat_level: "ucast (of_nat l :: u64) = (of_nat l :: u32)"
  by (simp add: word_unat_eq_iff unsigned_ucast_eq unsigned_of_nat)

text \<open>The inputs are there to be removed once the catalogue is saved.\<close>

lemma remove_inputs:
  assumes r: "replacement fp T w dir m rem l ss" and sel: "selects m rem l"
    and wr: "wrote fp dir (w, m) ss (w1, bumped m ss)"
  shows "io_for (tablePaths dir rem) (\<lambda>p. removeFile p ''remove old sst file failed'')
      (publish (manifest_path dir) (manifest_bytes m') w1) = Some (Inr (), cleaned dir rem m' w1)"
  unfolding cleaned_def
proof (rule remove_files)
  let ?w = "publish (manifest_path dir) (manifest_bytes m') w1"
  show "distinct (tablePaths dir rem)"
    using sel by (simp add: selects_def tablePaths_def distinct_map inj_on_def)
  show "\<forall>p \<in> set (tablePaths dir rem). content_of ?w p \<noteq> None"
  proof
    fix p
    assume "p \<in> set (tablePaths dir rem)"
    then obtain n where n: "n \<in> set rem" "p = sstablePath dir n" by (auto simp: tablePaths_def)
    have "content_of w1 p = content_of w p"
      using n selected_number(1) [OF r n(1)] old_number_fresh [OF _ replacementD(7) [OF r]]
      by (intro wrote_old [OF wr]) auto
    with n selected_number(2) [OF r n(1)] show "content_of ?w p \<noteq> None" by simp
  qed
qed (use wr in \<open>simp add: wrote_def\<close>)

text \<open>A compaction takes at most as many file numbers as there are records.\<close>

lemma replaced_numbers_bound:
  assumes r: "replacement fp T w dir (db_manifest db) rem l ss" and rep: "replaced fp (db_manifest db) rem l ss m'"
    and srt: "sorted_records (concat ss)" and sub: "set (concat ss) \<subseteq> chosen T db rem"
  shows "unat (mf_nextTableNumber m') \<le> unat (mf_nextTableNumber (db_manifest db)) + length (db_records T db)" "distinct (concat ss)"
proof -
  show dis: "distinct (concat ss)" using layered_distinct [of "[concat ss]"] srt by simp
  have "length ss \<le> length (concat ss)" using replacementD(4) [OF r] by (intro nonempty_count) auto
  moreover have "length (concat ss) \<le> length (db_records T db)"
    using dis sub records_split [of T db rem] by (intro mset_sub_length mset_distinct_sub) auto
  ultimately show "unat (mf_nextTableNumber m') \<le> unat (mf_nextTableNumber (db_manifest db)) + length (db_records T db)"
    using rep next_grows(2) [OF replacementD(7) [OF r]] by (auto simp: replaced_def)
qed

lemma compactRange_run:
  assumes ready: "db_ready fp T w db" and sel: "selects (db_manifest db) rem l" and l: "l \<le> 20"
    and room: "unat (mf_nextTableNumber (db_manifest db)) + length (db_records T db) < 2 ^ 64"
  shows "\<exists>T' w' m' ss. compactRange fp rem (of_nat l) (w, db) = Some (Inr (), (w', after_replace rem m' db))
    \<and> compacted fp T w db T' w' (after_replace rem m' db) \<and> saved w' (after_replace rem m' db)
    \<and> replaced fp (db_manifest db) rem l ss m'
    \<and> unat (mf_nextTableNumber m') \<le> unat (mf_nextTableNumber (db_manifest db)) + length (db_records T db)
    \<and> ((\<exists>t \<in> set (Manifest_level (l - 1) (db_manifest db)). tm_number t \<in> set rem) \<longrightarrow>
         weight T' m' < weight T (db_manifest db))"
proof -
  let ?m = "db_manifest db" and ?dir = "db_dataDirectory db" and ?q = "smallestActiveSnapshot db"
  from compaction_output [OF assms] obtain its out ss w1 where
    its: "openTableIterators (tablePaths ?dir rem) w = Some (Inr its, w)" and merge: "mergeAll (map RawIt its) = Inr out"
    and o: "writeCompactionOutput fp ?dir (retainForCompaction out ?q) (db_compactionSliceBytes db) (w, ?m)
      = Some (Inr (outputs fp ?m ss), (w1, bumped ?m ss))"
    and wr: "wrote fp ?dir (w, ?m) ss (w1, bumped ?m ss)" and r: "replacement fp T w ?dir ?m rem l ss"
    and ok: "\<forall>s \<in> set ss. table_ok fp s" and out: "sorted_records out" "set out = chosen T db rem"
    and cc: "concat ss = retainForCompaction out ?q" and "ss \<noteq> []" .
  from replaceTables_replaced [OF r] obtain m' where
    m': "replaceTables rem (outputs fp ?m ss) (of_nat l) (bumped ?m ss) = (Inr (), m')" and rep: "replaced fp ?m rem l ss m'"
    by blast
  let ?T' = "new_tables ?m ss T" and ?db' = "after_replace rem m' db" and ?w' = "cleaned ?dir rem m' w1"
  have inv: "db_inv fp T w db" and fp: "fp_ok fp" and fit: "records_fit (db_records T db)"
    and mp: "mf_path ?m = manifest_path ?dir" using ready by (simp_all add: db_ready_def)
  have w1: "nominal w1" "dir_ok ?dir w1" "w_fds w1 = w_fds w" using wr by (simp_all add: wrote_def)
  have mp': "mf_path m' = manifest_path ?dir" using rep mp by (simp add: replaced_def)
  let ?w2 = "publish (manifest_path ?dir) (manifest_bytes m') w1"
  have save: "Manifest_save m' w1 = Some (Inr (), ?w2)"
    using Manifest_save_nominal [OF w1(1), of m'] dir_ok_writable [OF w1(2)] mp' by simp
  note del = remove_inputs [OF r sel wr]
  have "ucast (of_nat l :: u64) = (of_nat l :: u32)" by (simp add: of_nat_level)
  with m' have run: "compactRange fp rem (of_nat l) (w, db) = Some (Inr (), (?w', ?db'))"
    using compactRange_exec [OF its merge o _ save del] by simp
  have sub: "set (concat ss) \<subseteq> chosen T db rem" using cc out retain_set [OF out(1)] by auto
  have inv': "db_inv fp ?T' ?w' ?db'"
    by (rule replaced_inv [OF r rep inv cleaned_catalogue [OF r rep ok wr] sub])
  have set': "set (db_records ?T' ?db') = others T db rem \<union> set (concat ss)" by (rule replaced_records [OF r rep])
  then have ms: "mset (db_records ?T' ?db') \<subseteq># mset (db_records T db)"
    using sub records_split [of T db rem] db_records_distinct [OF inv'] by (intro mset_distinct_sub) auto
  have reads: "visible (db_records ?T' ?db') k q = visible (db_records T db) k q" if "?q \<le> q" for k q
    using visible_reduce [OF db_records_unique [OF inv] db_records_unique [OF inv'] sorted_records_unique [OF out(1)],
        of "others T db rem" "concat ss" k q]
      set' records_split [of T db rem] out(2) sub cc retain_visible [OF out(1) that, of k]
    by simp
  have logs: "same_logs ?dir w ?w'"
    unfolding same_logs_def using w1(3) wrote_old [OF wr, of "walPath ?dir _"] by (auto simp: cleaned_content)
  have sv: "saved ?w' ?db'" by (auto simp: saved_def cleaned_content)
  have rdy: "db_ready fp ?T' ?w' ?db'"
    using inv' w1 fp mp' cleaned_dir_ok [OF w1(2)] records_fit_sub [OF fit ms] by (simp add: db_ready_def)
  have "\<exists>m c cu. ?db' = db\<lparr>db_manifest := m, db_tableCache := c, db_compactionCursors := cu\<rparr>"
    by (intro exI [of _ m'] exI [of _ "fold (\<lambda>n. AList.delete n) rem (db_tableCache db)"]
        exI [of _ "db_compactionCursors db"]) (simp add: after_replace_def)
  moreover have "tables_fresh ?w' ?db'" if "tables_fresh w db"
    using that rep by (intro cleaned_fresh [OF r wr]) (simp_all add: replaced_def)
  moreover have "mf_nextTableNumber ?m \<le> mf_nextTableNumber m'"
    using rep next_grows(1) [OF replacementD(7) [OF r]] by (simp add: replaced_def)
  ultimately have comp: "compacted fp T w db ?T' ?w' ?db'"
    using rdy reads ms logs sv rep by (simp add: compacted_def replaced_def)
  have "sorted_records (concat ss)" using retain_sorted [OF out(1)] cc by simp
  note num = replaced_numbers_bound [OF r rep this sub]
  show ?thesis using run comp sv rep num(1) weight_drops [OF r rep num(2)] by blast
qed

end
