(* ===== verification/DBLevels.thy ===== *)
theory DBLevels
  imports DBCompactRange
begin

text \<open>
  Choosing what to compact: the tables of a level and the overlapping tables of the next one, one
  compaction of a level, and the loop \<open>maybeCompact\<close>, which ends because every compaction moves
  records down and the budgets of the levels grow tenfold.
\<close>

section \<open>Selections\<close>

text \<open>
  A group of tables of one level, all inside a key range, together with the tables of the next
  level that overlap the range.
\<close>

lemma level_distinct:
  assumes "catalogue_ok fp T w dir m"
  shows "distinct (map tm_number (Manifest_level i m))"
proof -
  have inv: "level_inv i (Manifest_level i m)" and num: "numbers_ok m"
    using assms by (simp_all add: catalogue_ok_def levels_inv_def)
  have "distinct (Manifest_level i m)"
  proof (cases "i = 0")
    case True
    with inv have "sorted_wrt (\<lambda>a b. tm_number a > tm_number b) (Manifest_level i m)" by (simp add: level_inv_def)
    then show ?thesis
      by (simp add: sorted_wrt_iff_nth_less distinct_conv_nth) (metis linorder_neqE_nat order_less_irrefl)
  next
    case False
    with inv have srt: "sorted_wrt (\<lambda>a b. tm_maxKey a < tm_minKey b) (Manifest_level i m)"
      and rng: "\<forall>t \<in> set (Manifest_level i m). table_range t" by (simp_all add: level_inv_def)
    have "\<not> tm_maxKey t < tm_minKey t" if "t \<in> set (Manifest_level i m)" for t
      using rng that by (auto simp: table_range_def not_less)
    with srt show ?thesis
      by (simp add: sorted_wrt_iff_nth_less distinct_conv_nth) (metis linorder_neqE_nat nth_mem)
  qed
  moreover have "inj_on tm_number (set (Manifest_level i m))"
    using num by (auto simp: inj_on_def numbers_ok_def)
  ultimately show ?thesis by (simp add: distinct_map)
qed

lemma range_inside:
  assumes "catalogue_ok fp T w dir m" "t \<in> set (Manifest_level i m)"
  shows "tm_minKey t \<le> tm_maxKey t"
proof -
  have at: "table_at fp w dir T t" using level_table_at [OF assms] .
  then have "tbl T t \<noteq> []" "sorted_records (tbl T t)" using table_at_sorted by blast+
  with sorted_key_bounds(1) [of "tbl T t" "last (tbl T t)"] at show ?thesis by (simp add: table_at_def)
qed

definition picked :: "Manifest \<Rightarrow> u64 list \<Rightarrow> nat \<Rightarrow> TableMeta set \<Rightarrow> string \<Rightarrow> string \<Rightarrow> bool" where
  "picked m rem l U lo hi \<longleftrightarrow> 0 < l \<and> distinct rem
     \<and> U \<subseteq> set (Manifest_level (l - 1) m) \<and> U \<noteq> {} \<and> (l = 1 \<longrightarrow> U = set (Manifest_level 0 m))
     \<and> (\<forall>u \<in> U. lo \<le> tm_minKey u \<and> tm_maxKey u \<le> hi)
     \<and> set rem = tm_number ` (U \<union> {t \<in> set (Manifest_level l m). rangesOverlap t lo hi})"

lemma picked_cases:
  assumes cat: "catalogue_ok fp T w dir m" and p: "picked m rem l U lo hi"
    and t: "t \<in> set (Manifest_level i m)" "tm_number t \<in> set rem"
  obtains "t \<in> U" "Suc i = l" | "i = l" "rangesOverlap t lo hi"
proof -
  have num: "numbers_ok m" using cat by (simp add: catalogue_ok_def)
  from p t(2) obtain u where u: "tm_number t = tm_number u"
    "u \<in> U \<or> u \<in> set (Manifest_level l m) \<and> rangesOverlap u lo hi" by (auto simp: picked_def)
  from u(2) show thesis
  proof
    assume "u \<in> U"
    moreover from this have "u \<in> set (Manifest_level (l - 1) m)" using p by (auto simp: picked_def)
    with t(1) u(1) num have "i = l - 1 \<and> t = u" unfolding numbers_ok_def by blast
    moreover have "0 < l" using p by (simp add: picked_def)
    ultimately show thesis using that(1) by auto
  next
    assume "u \<in> set (Manifest_level l m) \<and> rangesOverlap u lo hi"
    moreover from this t(1) u(1) num have "i = l \<and> t = u" unfolding numbers_ok_def by blast
    ultimately show thesis using that(2) by blast
  qed
qed

text \<open>A table of the target level left out lies on one side of every selected table.\<close>

lemma picked_beside:
  assumes cat: "catalogue_ok fp T w dir m" and p: "picked m rem l U lo hi"
    and t: "t \<in> set (Manifest_level l m)" "tm_number t \<notin> set rem"
    and u: "u \<in> set (all_tables m)" "tm_number u \<in> set rem"
  shows "tm_maxKey t < lo \<Longrightarrow> tm_maxKey t < tm_minKey u" "hi < tm_minKey t \<Longrightarrow> tm_maxKey u < tm_minKey t"
proof -
  from u(1) obtain i where i: "u \<in> set (Manifest_level i m)" by (auto simp: in_all_tables)
  note tr = range_inside [OF cat t(1)]
  have l: "0 < l" using p by (simp add: picked_def)
  from cat p i u(2) have "(tm_maxKey t < lo \<longrightarrow> tm_maxKey t < tm_minKey u) \<and> (hi < tm_minKey t \<longrightarrow> tm_maxKey u < tm_minKey t)"
  proof (cases rule: picked_cases)
    case 1
    then have "lo \<le> tm_minKey u" "tm_maxKey u \<le> hi" using p by (auto simp: picked_def)
    then show ?thesis by (meson order_le_less_trans order_less_le_trans)
  next
    case 2
    then have o: "lo \<le> tm_maxKey u" "tm_minKey u \<le> hi" by (simp_all add: rangesOverlap_def)
    have "t \<noteq> u" using t(2) u(2) by blast
    then have apart: "tm_maxKey t < tm_minKey u \<or> tm_maxKey u < tm_minKey t"
      using level_apart [OF cat l t(1), of u] i 2(1) by simp
    have "\<not> tm_maxKey u < tm_minKey t" if "tm_maxKey t < lo" using that o(1) tr by order
    moreover have "\<not> tm_maxKey t < tm_minKey u" if "hi < tm_minKey t" using that o(2) tr by order
    ultimately show ?thesis using apart by blast
  qed
  then show "tm_maxKey t < lo \<Longrightarrow> tm_maxKey t < tm_minKey u" "hi < tm_minKey t \<Longrightarrow> tm_maxKey u < tm_minKey t"
    by simp_all
qed

lemma picked_selects:
  assumes cat: "catalogue_ok fp T w dir m" and p: "picked m rem l U lo hi"
  shows "selects m rem l"
proof -
  have set: "set rem = tm_number ` (U \<union> {t \<in> set (Manifest_level l m). rangesOverlap t lo hi})"
    and U: "U \<subseteq> set (Manifest_level (l - 1) m)" "U \<noteq> {}" using p by (simp_all add: picked_def)
  have "(\<forall>u \<in> set (all_tables m). tm_number u \<in> set rem \<longrightarrow> tm_maxKey t < tm_minKey u)
      \<or> (\<forall>u \<in> set (all_tables m). tm_number u \<in> set rem \<longrightarrow> tm_maxKey u < tm_minKey t)"
    if t: "t \<in> set (Manifest_level l m)" "tm_number t \<notin> set rem" for t
  proof -
    have "\<not> rangesOverlap t lo hi" using t by (auto simp: set)
    then have "tm_maxKey t < lo \<or> hi < tm_minKey t" by (auto simp: rangesOverlap_def)
    then show ?thesis using picked_beside [OF cat p t] by blast
  qed
  moreover have "set rem \<subseteq> tm_number ` set (all_tables m)"
    unfolding set using U(1) by (intro image_mono) (fastforce simp: in_all_tables)
  moreover have "rem \<noteq> []" using U(2) set by auto
  moreover have "Suc i = l \<or> i = l" if "t \<in> set (Manifest_level i m)" "tm_number t \<in> set rem" for t i
    using picked_cases [OF cat p that] by blast
  moreover have "\<forall>t \<in> set (Manifest_level 0 m). tm_number t \<in> set rem" if "l = 1"
    using p that by (simp add: picked_def)
  ultimately show ?thesis using p by (simp add: selects_def picked_def)
qed

lemma picked_upper:
  assumes "picked m rem l U lo hi"
  shows "\<exists>t \<in> set (Manifest_level (l - 1) m). tm_number t \<in> set rem"
  using assms by (auto simp: picked_def)

text \<open>Level 0: all of its tables, which may overlap each other.\<close>

lemma fold_min: "t \<in> set ts \<Longrightarrow> fold (\<lambda>t m. min m (f t)) ts a \<le> (f t :: string)"
  "fold (\<lambda>t m. min m (f t)) ts a \<le> a"
proof (induction ts arbitrary: a)
  case (Cons u ts)
  { case 1
    then show ?case using Cons [of "min a (f u)"] by (auto intro: order_trans) }
  { case 2
    then show ?case using Cons(2) [of "min a (f u)"] by (auto intro: order_trans) }
qed simp_all

lemma fold_max: "t \<in> set ts \<Longrightarrow> (f t :: string) \<le> fold (\<lambda>t m. max m (f t)) ts a"
  "a \<le> fold (\<lambda>t m. max m (f t)) ts a"
proof (induction ts arbitrary: a)
  case (Cons u ts)
  { case 1
    then show ?case using Cons [of "max a (f u)"] by (auto intro: order_trans) }
  { case 2
    then show ?case using Cons(2) [of "max a (f u)"] by (auto intro: order_trans) }
qed simp_all

lemma set_TableNumbers [simp]: "set (TableNumbers ns) = set ns" "distinct (TableNumbers ns)"
  by (simp_all add: TableNumbers_def)

lemma level_zero_picked:
  assumes "Manifest_level 0 m \<noteq> []"
  shows "\<exists>lo hi. picked m (selectLevelZeroCompactionTables m) 1 (set (Manifest_level 0 m)) lo hi"
proof -
  let ?L = "Manifest_level 0 m"
  define lo where "lo = fold (\<lambda>t m. min m (tm_minKey t)) ?L (tm_minKey (hd ?L))"
  define hi where "hi = fold (\<lambda>t m. max m (tm_maxKey t)) ?L (tm_maxKey (hd ?L))"
  have "set (selectLevelZeroCompactionTables m)
      = tm_number ` (set ?L \<union> {t \<in> set (Manifest_level 1 m). rangesOverlap t lo hi})"
    by (auto simp: selectLevelZeroCompactionTables_def Let_def lo_def hi_def rangesOverlap_def not_less)
  moreover have "lo \<le> tm_minKey u \<and> tm_maxKey u \<le> hi" if "u \<in> set ?L" for u
    using fold_min(1) [OF that] fold_max(1) [OF that] by (simp add: lo_def hi_def)
  moreover have "distinct (selectLevelZeroCompactionTables m)"
    by (simp add: selectLevelZeroCompactionTables_def Let_def)
  ultimately show ?thesis
    using assms by (intro exI [of _ lo] exI [of _ hi]) (simp add: picked_def)
qed

text \<open>Lower levels: one table, after the cursor of the level.\<close>

lemma append_overlapping:
  "appendOverlappingTables db [t] l =
   t # filter (\<lambda>u. rangesOverlap u (tm_minKey t) (tm_maxKey t)) (Manifest_level l (db_manifest db))"
  by (auto simp: appendOverlappingTables_def levelCount_def Manifest_level_def)

lemma table_picked:
  assumes cat: "catalogue_ok fp T w dir m" and n: "0 < n" and t: "t \<in> set (Manifest_level n m)"
  shows "picked m (map tm_number (t # filter (\<lambda>u. rangesOverlap u (tm_minKey t) (tm_maxKey t))
      (Manifest_level (Suc n) m))) (Suc n) {t} (tm_minKey t) (tm_maxKey t)"
proof -
  let ?f = "filter (\<lambda>u. rangesOverlap u (tm_minKey t) (tm_maxKey t)) (Manifest_level (Suc n) m)"
  have "tm_number t \<noteq> tm_number u" if "u \<in> set (Manifest_level (Suc n) m)" for u
  proof
    assume "tm_number t = tm_number u"
    with cat t that have "n = Suc n" unfolding catalogue_ok_def numbers_ok_def by blast
    then show False by simp
  qed
  then have "tm_number t \<notin> tm_number ` set ?f" by auto
  moreover have "distinct (map tm_number ?f)" using level_distinct [OF cat, of "Suc n"] by (rule distinct_map_filter)
  ultimately show ?thesis using n t by (auto simp: picked_def)
qed

lemma selectHigherLevel_run:
  assumes "Manifest_level n (db_manifest db) \<noteq> []"
  shows "\<exists>t \<in> set (Manifest_level n (db_manifest db)). \<forall>w.
    selectHigherLevelCompactionTables n (w, db) = Some (Inr (map tm_number (t # filter
      (\<lambda>u. rangesOverlap u (tm_minKey t) (tm_maxKey t)) (Manifest_level (Suc n) (db_manifest db)))),
      (w, db\<lparr>db_compactionCursors := AList.update (of_nat n) (tm_maxKey t) (db_compactionCursors db)\<rparr>))"
proof -
  let ?L = "Manifest_level n (db_manifest db)"
  define t where "t = (case map_of (db_compactionCursors db) (of_nat n) of
      None \<Rightarrow> hd ?L
    | Some cursor \<Rightarrow>
        let table = partition_point (\<lambda>t. \<not> cursor < tm_minKey t) ?L
        in ?L ! (if table = length ?L then 0 else table))"
  have "t \<in> set ?L"
    using assms by (auto simp: t_def Let_def le_neq_implies_less split: option.split)
  moreover have "selectHigherLevelCompactionTables n (w, db) = Some (Inr (map tm_number (appendOverlappingTables db [t] (n + 1))),
      (w, db\<lparr>db_compactionCursors := AList.update (of_nat n) (tm_maxKey t) (db_compactionCursors db)\<rparr>))" for w
    using assms unfolding selectHigherLevelCompactionTables_def
    by (simp add: db_get_def db_upd_def io_bind_def flip: t_def)
  ultimately show ?thesis unfolding append_overlapping by auto
qed

section \<open>Compacting a level\<close>

lemma compacted_cursors:
  "db_ready fp T w db \<Longrightarrow> compacted fp T w db T w (db\<lparr>db_compactionCursors := cu\<rparr>)"
  unfolding compacted_def same_logs_def
  by (intro conjI exI [of _ "db_manifest db"] exI [of _ "db_tableCache db"] exI [of _ cu])
    (simp_all add: db_ready_def db_inv_def cache_ok_def db_records_def sources_def saved_def tables_fresh_def)

text \<open>Which tables a level has after level \<open>n\<close> was compacted.\<close>

definition moved_down :: "nat \<Rightarrow> Manifest \<Rightarrow> Manifest \<Rightarrow> bool" where
  "moved_down n m m' \<longleftrightarrow> (\<forall>i. i \<noteq> Suc n \<longrightarrow> set (Manifest_level i m') \<subseteq> set (Manifest_level i m))
     \<and> (n = 0 \<longrightarrow> Manifest_level 0 m' = [])"

lemma replaced_moved_down:
  assumes "replaced fp m rem (Suc n) ss m'" "picked m rem (Suc n) U lo hi"
  shows "moved_down n m m'"
proof -
  have "Manifest_level 0 m' = []" if "n = 0"
  proof -
    have "t \<notin> set (Manifest_level 0 m')" for t
      using replaced_level [OF assms(1), of t 0] assms(2) that by (auto simp: picked_def)
    then show ?thesis by (metis list.set_intros(1) neq_Nil_conv)
  qed
  then show ?thesis using replaced_level [OF assms(1)] by (auto simp: moved_down_def)
qed

lemma compactLevel_selection:
  assumes cat: "catalogue_ok fp T w (db_dataDirectory db) (db_manifest db)" and ne: "Manifest_level n (db_manifest db) \<noteq> []"
  obtains rem U lo hi cu where "picked (db_manifest db) rem (Suc n) U lo hi"
    "\<forall>v. compactLevel fp n (v, db) = compactRange fp rem (of_nat (Suc n)) (v, db\<lparr>db_compactionCursors := cu\<rparr>)"
proof (cases "n = 0")
  case True
  with level_zero_picked [of "db_manifest db"] ne obtain lo hi where
    "picked (db_manifest db) (selectLevelZeroCompactionTables (db_manifest db)) 1 (set (Manifest_level 0 (db_manifest db))) lo hi" by auto
  moreover have "compactLevel fp n (v, db) = compactRange fp (selectLevelZeroCompactionTables (db_manifest db)) (of_nat (Suc n))
      (v, db\<lparr>db_compactionCursors := db_compactionCursors db\<rparr>)" for v
    using True ne by (simp add: compactLevel_def db_get_def io_bind_def split: option.split sum.split)
  ultimately show thesis
    using that [of "selectLevelZeroCompactionTables (db_manifest db)" "set (Manifest_level 0 (db_manifest db))" lo hi "db_compactionCursors db"] True by simp
next
  case False
  from selectHigherLevel_run [OF ne] obtain t cu where t: "t \<in> set (Manifest_level n (db_manifest db))"
    and run: "\<And>v. selectHigherLevelCompactionTables n (v, db) = Some (Inr (map tm_number (t # filter
      (\<lambda>u. rangesOverlap u (tm_minKey t) (tm_maxKey t)) (Manifest_level (Suc n) (db_manifest db)))), (v, db\<lparr>db_compactionCursors := cu\<rparr>))"
    by blast
  from run False have "compactLevel fp n (v, db) = compactRange fp (map tm_number (t # filter
      (\<lambda>u. rangesOverlap u (tm_minKey t) (tm_maxKey t)) (Manifest_level (Suc n) (db_manifest db)))) (of_nat (Suc n))
      (v, db\<lparr>db_compactionCursors := cu\<rparr>)" for v
    by (simp add: compactLevel_def io_bind_def add.commute split: option.split sum.split)
  moreover have "picked (db_manifest db) (map tm_number (t # filter (\<lambda>u. rangesOverlap u (tm_minKey t) (tm_maxKey t))
      (Manifest_level (Suc n) (db_manifest db)))) (Suc n) {t} (tm_minKey t) (tm_maxKey t)"
    using table_picked [OF cat _ t] False by simp
  ultimately show thesis using that by blast
qed

lemma compactLevel_run:
  assumes ready: "db_ready fp T w db" and n: "n \<le> 19" and ne: "Manifest_level n (db_manifest db) \<noteq> []"
    and room: "unat (mf_nextTableNumber (db_manifest db)) + length (db_records T db) < 2 ^ 64"
  shows "\<exists>T' w' db'. compactLevel fp n (w, db) = Some (Inr (), (w', db'))
    \<and> compacted fp T w db T' w' db' \<and> saved w' db' \<and> moved_down n (db_manifest db) (db_manifest db')
    \<and> unat (mf_nextTableNumber (db_manifest db')) \<le> unat (mf_nextTableNumber (db_manifest db)) + length (db_records T db)
    \<and> weight T' (db_manifest db') < weight T (db_manifest db)"
proof -
  let ?m = "db_manifest db"
  have cat: "catalogue_ok fp T w (db_dataDirectory db) ?m" using ready by (simp add: db_ready_def db_inv_def)
  obtain rem U lo hi cu where p: "picked ?m rem (Suc n) U lo hi"
    and run: "\<forall>v. compactLevel fp n (v, db) = compactRange fp rem (of_nat (Suc n)) (v, db\<lparr>db_compactionCursors := cu\<rparr>)"
    by (rule compactLevel_selection [OF cat ne])
  let ?db = "db\<lparr>db_compactionCursors := cu\<rparr>"
  note c1 = compacted_cursors [OF ready, of cu]
  have ready1: "db_ready fp T w ?db" and recs: "db_records T ?db = db_records T db"
    using c1 by (simp_all add: compacted_def db_records_def sources_def)
  have sel: "selects (db_manifest ?db) rem (Suc n)" using picked_selects [OF cat p] by simp
  from compactRange_run [OF ready1 sel] n room recs obtain T' w' m' ss where
    r: "compactRange fp rem (of_nat (Suc n)) (w, ?db) = Some (Inr (), (w', after_replace rem m' ?db))"
    "compacted fp T w ?db T' w' (after_replace rem m' ?db)" "saved w' (after_replace rem m' ?db)"
    "replaced fp ?m rem (Suc n) ss m'"
    "unat (mf_nextTableNumber m') \<le> unat (mf_nextTableNumber ?m) + length (db_records T db)"
    "weight T' m' < weight T ?m"
    using picked_upper [OF p] by (auto simp del: of_nat_Suc)
  with run compacted_trans [OF c1 r(2)] replaced_moved_down [OF r(4) p] show ?thesis
    by (intro exI [of _ T'] exI [of _ w'] exI [of _ "after_replace rem m' ?db"]) (simp del: of_nat_Suc)
qed

section \<open>Budgets\<close>

lemma unat_sum_le: "unat (foldl (\<lambda>s t. s + f t) a ts :: u64) \<le> unat a + (\<Sum>t \<leftarrow> ts. unat (f t))"
proof (induction ts arbitrary: a)
  case (Cons t ts)
  have "unat (a + f t) \<le> unat a + unat (f t)" by (simp add: unat_word_ariths)
  with Cons [of "a + f t"] show ?case by simp
qed simp

lemma sum_records_bytes:
  "(\<Sum>t \<leftarrow> ts. c * length (records_bytes (tbl T t))) = c * length (records_bytes (concat (map (tbl T) ts)))"
  by (induction ts) (simp_all add: records_bytes_def add_mult_distrib2)

lemma level_bytes_le:
  assumes ready: "db_ready fp T w db"
  shows "unat (levelSizeBytes db i) < 2 ^ 60"
proof -
  let ?L = "Manifest_level i (db_manifest db)"
  have inv: "db_inv fp T w db" and fp: "fp_ok fp" and fit: "records_fit (db_records T db)"
    using ready by (simp_all add: db_ready_def)
  then have cat: "catalogue_ok fp T w (db_dataDirectory db) (db_manifest db)" by (simp add: db_inv_def)
  have sub: "set ?L \<subseteq> set (all_tables (db_manifest db))" by (auto simp: in_all_tables)
  have "distinct ?L" using level_distinct [OF cat, of i] by (simp add: distinct_map)
  then have "distinct (concat (map (tbl T) ?L))" using tables_unique_distinct [OF cat sub] by simp
  then have ms: "mset (concat (map (tbl T) ?L)) \<subseteq># mset (db_records T db)"
    using sub by (intro mset_distinct_sub) (auto simp: db_records_def sources_def)
  have one: "unat (tm_size t) \<le> 8 * length (records_bytes (tbl T t))" if t: "t \<in> set ?L" for t
  proof -
    have "table_at fp w (db_dataDirectory db) T t" by (rule level_table_at [OF cat t])
    then have s: "tm_size t = of_nat (length (sst_image fp (tbl T t)))" and ok: "table_ok fp (tbl T t)"
      by (simp_all add: table_at_def table_file_def)
    have "records_fit (tbl T t)"
    proof (rule records_fit_sub [OF records_fit_sub [OF fit ms]])
      show "mset (tbl T t) \<subseteq># mset (concat (map (tbl T) ?L))"
        using t split_list [OF t] by (auto simp: subset_mset.add_increasing2)
    qed
    then have "length (sst_image fp (tbl T t)) \<le> 8 * length (records_bytes (tbl T t))"
      using ok by (intro sst_image_size) (auto simp: records_fit_def table_ok_def)
    moreover have "unat (tm_size t) \<le> length (sst_image fp (tbl T t))"
      unfolding s unat_of_nat by (rule mod_less_eq_dividend)
    ultimately show ?thesis by linarith
  qed
  have "unat (levelSizeBytes db i) \<le> (\<Sum>t \<leftarrow> ?L. unat (tm_size t))"
    using unat_sum_le [of tm_size 0 ?L] by (simp add: levelSizeBytes_def)
  also have "\<dots> \<le> (\<Sum>t \<leftarrow> ?L. 8 * length (records_bytes (tbl T t)))" using one by (intro sum_list_mono) simp
  also have "\<dots> = 8 * length (records_bytes (concat (map (tbl T) ?L)))"
    by (rule sum_records_bytes)
  also have "\<dots> < 2 ^ 60" using records_fit_sub [OF fit ms] by (simp add: records_fit_def)
  finally show ?thesis .
qed

lemma budget_power: "1 \<le> i \<Longrightarrow> levelCompactionBudget db i = db_compactionBaseThresholdBytes db * 10 ^ (i - 1)"
proof -
  have "foldl (\<lambda>b _. b * 10) a [2..<Suc (Suc k)] = a * 10 ^ k" for a :: u64 and k
    by (induction k) simp_all
  from this [of _ "i - 1"] show "1 \<le> i \<Longrightarrow> ?thesis" by (simp add: levelCompactionBudget_def)
qed

lemma budget_exact:
  assumes "1 \<le> i" "unat (db_compactionBaseThresholdBytes db) * 10 ^ (i - 1) < 2 ^ 64"
  shows "unat (levelCompactionBudget db i) = unat (db_compactionBaseThresholdBytes db) * 10 ^ (i - 1)"
proof -
  let ?b = "db_compactionBaseThresholdBytes db"
  have "levelCompactionBudget db i = of_nat (unat ?b * 10 ^ (i - 1))" using budget_power [OF assms(1)] by simp
  then show ?thesis using assms(2) unat_of_nat64 by metis
qed

text \<open>
  The levels of a database that was always opened with the same base threshold: level \<open>l\<close> has
  tables only if the budget of the level above is a number of bytes that can exist.
\<close>

definition in_budget :: "u64 \<Rightarrow> Manifest \<Rightarrow> bool" where
  "in_budget b m \<longleftrightarrow> (\<forall>l \<ge> 2. Manifest_level l m \<noteq> [] \<longrightarrow> unat b * 10 ^ (l - 2) < 2 ^ 60)"

lemma over_budget_level:
  assumes ready: "db_ready fp T w db" and b: "in_budget (db_compactionBaseThresholdBytes db) (db_manifest db)"
    and pos: "0 < db_compactionBaseThresholdBytes db" and over: "firstOverBudgetLevel db = Some i"
  shows "1 \<le> i" "i \<le> 19" "Manifest_level i (db_manifest db) \<noteq> []"
    "unat (db_compactionBaseThresholdBytes db) * 10 ^ (i - 1) < 2 ^ 60"
proof -
  let ?b = "db_compactionBaseThresholdBytes db"
  from over have i: "1 \<le> i" and lt: "levelCompactionBudget db i < levelSizeBytes db i"
    by (auto simp: firstOverBudgetLevel_def find_Some_iff)
  show "1 \<le> i" by (rule i)
  show ne: "Manifest_level i (db_manifest db) \<noteq> []" using lt by (auto simp: levelSizeBytes_def)
  have "unat ?b * 10 ^ (i - 1) < 2 ^ 64"
  proof (cases "i = 1")
    case False
    then have "unat ?b * 10 ^ (i - 2) < 2 ^ 60" using b ne i by (simp add: in_budget_def)
    moreover have "i - 1 = Suc (i - 2)" using False i by simp
    ultimately show ?thesis by simp
  qed (use unsigned_less [of ?b] in simp)
  from budget_exact [OF i this] lt level_bytes_le [OF ready, of i]
  show small: "unat ?b * 10 ^ (i - 1) < 2 ^ 60" by (simp add: word_less_nat_alt)
  have "1 \<le> unat ?b" using pos by (simp add: unat_gt_0 Suc_le_eq word_neq_0_conv)
  then have "10 ^ (i - 1) \<le> unat ?b * 10 ^ (i - 1)" by simp
  also note small
  also have "(2 :: nat) ^ 60 < 10 ^ 19" by simp
  finally have "i - 1 < 19" by (rule power_less_imp_less_exp [rotated]) simp
  then show "i \<le> 19" by simp
qed

lemma moved_down_in_budget:
  assumes "moved_down n m m'" "in_budget b m" "1 \<le> n \<Longrightarrow> unat b * 10 ^ (n - 1) < 2 ^ 60"
  shows "in_budget b m'"
  unfolding in_budget_def
proof (intro allI impI)
  fix l :: nat
  assume l: "2 \<le> l" "Manifest_level l m' \<noteq> []"
  show "unat b * 10 ^ (l - 2) < 2 ^ 60"
  proof (cases "l = Suc n")
    case True
    then have "1 \<le> n" "l - 2 = n - 1" using l by auto
    then show ?thesis using assms(3) by simp
  next
    case False
    then have "set (Manifest_level l m') \<subseteq> set (Manifest_level l m)" using assms(1) by (simp add: moved_down_def)
    then have "Manifest_level l m \<noteq> []" using l(2) by auto
    then show ?thesis using assms(2) l(1) by (simp add: in_budget_def)
  qed
qed

section \<open>The compaction loop\<close>

definition settled :: "DB \<Rightarrow> bool" where
  "settled db \<longleftrightarrow> length (Manifest_level 0 (db_manifest db)) \<le> unat (db_level0CompactionThreshold db)
     \<and> firstOverBudgetLevel db = None"

text \<open>The next level to compact, as the loop chooses it.\<close>

lemma maybeCompact_step:
  "maybeCompact fp (w, db) =
     (if settled db then Some (Inr (), (w, db))
      else
        (case compactLevel fp (if unat (db_level0CompactionThreshold db) < length (Manifest_level 0 (db_manifest db))
            then 0 else the (firstOverBudgetLevel db)) (w, db) of
           None \<Rightarrow> None
         | Some (Inl e, s') \<Rightarrow> Some (Inl e, s')
         | Some (Inr _, s') \<Rightarrow> maybeCompact fp s'))"
  by (subst maybeCompact.simps) (auto simp: settled_def not_less split: option.split)

lemma unsettled_level:
  assumes ready: "db_ready fp T w db" and b: "in_budget (db_compactionBaseThresholdBytes db) (db_manifest db)"
    and pos: "0 < db_compactionBaseThresholdBytes db" and un: "\<not> settled db"
  defines "n \<equiv> if unat (db_level0CompactionThreshold db) < length (Manifest_level 0 (db_manifest db))
    then 0 else the (firstOverBudgetLevel db)"
  shows "n \<le> 19 \<and> Manifest_level n (db_manifest db) \<noteq> []
    \<and> (1 \<le> n \<longrightarrow> unat (db_compactionBaseThresholdBytes db) * 10 ^ (n - 1) < 2 ^ 60)"
proof (cases "unat (db_level0CompactionThreshold db) < length (Manifest_level 0 (db_manifest db))")
  case True
  then show ?thesis by (auto simp: n_def)
next
  case False
  with un obtain i where "firstOverBudgetLevel db = Some i" by (auto simp: settled_def)
  with over_budget_level [OF ready b pos] False show ?thesis by (simp add: n_def)
qed

lemma compacted_fields:
  assumes "compacted fp T w db T' w' db'"
  shows "db_compactionBaseThresholdBytes db' = db_compactionBaseThresholdBytes db"
    "db_level0CompactionThreshold db' = db_level0CompactionThreshold db"
    "db_dataDirectory db' = db_dataDirectory db" "db_activeMemTable db' = db_activeMemTable db"
    "db_nextSeq db' = db_nextSeq db" "db_walFilePath db' = db_walFilePath db"
    "db_flushThresholdBytes db' = db_flushThresholdBytes db" "db_writeFailed db' = db_writeFailed db"
    "db_activeSnapshotSequences db' = db_activeSnapshotSequences db"
    "smallestActiveSnapshot db' = smallestActiveSnapshot db"
  using assms by (auto simp: compacted_def smallestActiveSnapshot_def)

text \<open>
  Every compaction lowers the weight by at least one and takes at most one table number per record,
  so the numbers suffice if this many are left.
\<close>

definition numbers_left :: "contents \<Rightarrow> DB \<Rightarrow> bool" where
  "numbers_left T db \<longleftrightarrow>
     unat (mf_nextTableNumber (db_manifest db)) + length (db_records T db) * Suc (weight T (db_manifest db)) < 2 ^ 64"

lemma maybeCompact_run:
  assumes "db_ready fp T w db" "in_budget (db_compactionBaseThresholdBytes db) (db_manifest db)"
    "0 < db_compactionBaseThresholdBytes db" "numbers_left T db"
  shows "\<exists>T' w' db'. maybeCompact fp (w, db) = Some (Inr (), (w', db')) \<and> compacted fp T w db T' w' db'
    \<and> in_budget (db_compactionBaseThresholdBytes db') (db_manifest db') \<and> settled db'
    \<and> unat (mf_nextTableNumber (db_manifest db'))
        \<le> unat (mf_nextTableNumber (db_manifest db)) + length (db_records T db) * Suc (weight T (db_manifest db))"
  using assms
proof (induction "weight T (db_manifest db)" arbitrary: T w db rule: less_induct)
  case less
  show ?case
  proof (cases "settled db")
    case True
    with less.prems compacted_refl [OF less.prems(1)] show ?thesis by (subst maybeCompact_step) auto
  next
    case False
    define n where "n = (if unat (db_level0CompactionThreshold db) < length (Manifest_level 0 (db_manifest db))
      then 0 else the (firstOverBudgetLevel db))"
    from unsettled_level [OF less.prems(1-3) False]
    have n: "n \<le> 19" "Manifest_level n (db_manifest db) \<noteq> []"
      and b: "1 \<le> n \<Longrightarrow> unat (db_compactionBaseThresholdBytes db) * 10 ^ (n - 1) < 2 ^ 60"
      by (simp_all add: n_def)
    have room: "unat (mf_nextTableNumber (db_manifest db)) + length (db_records T db) < 2 ^ 64"
      using less.prems(4) by (simp add: numbers_left_def)
    from compactLevel_run [OF less.prems(1) n room] obtain T1 w1 db1 where
      r: "compactLevel fp n (w, db) = Some (Inr (), (w1, db1))" "compacted fp T w db T1 w1 db1"
      "moved_down n (db_manifest db) (db_manifest db1)" "weight T1 (db_manifest db1) < weight T (db_manifest db)"
      and num: "unat (mf_nextTableNumber (db_manifest db1)) \<le> unat (mf_nextTableNumber (db_manifest db)) + length (db_records T db)"
      by blast
    have "length (db_records T1 db1) \<le> length (db_records T db)"
      using r(2) by (intro mset_sub_length) (simp add: compacted_def)
    then have len: "length (db_records T1 db1) * Suc (weight T1 (db_manifest db1)) \<le> length (db_records T db) * weight T (db_manifest db)"
      using r(4) by (intro mult_le_mono) simp_all
    then have left: "numbers_left T1 db1" using num less.prems(4) by (simp add: numbers_left_def)
    have ready1: "db_ready fp T1 w1 db1" using r(2) by (simp add: compacted_def)
    have b1: "in_budget (db_compactionBaseThresholdBytes db1) (db_manifest db1)"
      using moved_down_in_budget [OF r(3) less.prems(2) b] compacted_fields(1) [OF r(2)] by simp
    from less.hyps [OF r(4) ready1 b1 _ left] less.prems(3) compacted_fields(1) [OF r(2)] obtain T' w' db' where
      f: "maybeCompact fp (w1, db1) = Some (Inr (), (w', db'))" "compacted fp T1 w1 db1 T' w' db'"
      "in_budget (db_compactionBaseThresholdBytes db') (db_manifest db')" "settled db'"
      and more: "unat (mf_nextTableNumber (db_manifest db'))
        \<le> unat (mf_nextTableNumber (db_manifest db1)) + length (db_records T1 db1) * Suc (weight T1 (db_manifest db1))"
      by auto
    have "unat (mf_nextTableNumber (db_manifest db'))
        \<le> unat (mf_nextTableNumber (db_manifest db)) + length (db_records T db) * Suc (weight T (db_manifest db))"
      using more num len by (simp add: mult_Suc_right)
    moreover have "maybeCompact fp (w, db) = Some (Inr (), (w', db'))"
      using False r(1) f(1) by (subst maybeCompact_step) (simp flip: n_def)
    ultimately show ?thesis using compacted_trans [OF r(2) f(2)] f(3,4) by blast
  qed
qed

section \<open>Properties\<close>

text \<open>
  C13: a manual compaction of a database in order returns; the database is in order afterwards and
  its catalogue is on disk, level 0 is empty, no record was added, and every read at or above the
  oldest active snapshot (the current sequence number if there is none) gives the same answer as
  before.
\<close>

theorem compaction_preserves_reads:
  assumes "db_ready fp T w db" "Manifest_level 0 (db_manifest db) \<noteq> []"
    and "unat (mf_nextTableNumber (db_manifest db)) + length (db_records T db) < 2 ^ 64"
  shows "\<exists>T' w' db'. DB_compact fp (w, db) = Some (Inr (), (w', db')) \<and> db_ready fp T' w' db'
    \<and> (\<forall>k q. smallestActiveSnapshot db \<le> q \<longrightarrow> visible (db_records T' db') k q = visible (db_records T db) k q)
    \<and> set (db_records T' db') \<subseteq> set (db_records T db) \<and> Manifest_level 0 (db_manifest db') = []
    \<and> content_of w' (manifest_path (db_dataDirectory db)) = Some (manifest_bytes (db_manifest db'))"
proof -
  from compactLevel_run [OF assms(1) _ assms(2,3)] obtain T' w' db' where
    r: "DB_compact fp (w, db) = Some (Inr (), (w', db'))" "compacted fp T w db T' w' db'" "saved w' db'"
    "moved_down 0 (db_manifest db) (db_manifest db')"
    by (auto simp: DB_compact_def)
  then have "set (db_records T' db') \<subseteq> set (db_records T db)"
    using set_mset_mono [of "mset (db_records T' db')" "mset (db_records T db)"] by (simp add: compacted_def)
  with r compacted_fields(3) [OF r(2)] show ?thesis
    by (intro exI [of _ T'] exI [of _ w'] exI [of _ db']) (simp add: compacted_def saved_def moved_down_def)
qed

text \<open>
  C14: the automatic compaction loop ends for every nonzero base threshold: after finitely many
  compactions level 0 has no more tables than its threshold and no level exceeds its budget; every
  read at or above the oldest active snapshot is as before. The 64 bit budgets and level sizes do
  not wrap on the way, and no level beyond number 20 is ever filled.
\<close>

theorem maybeCompact_settles:
  assumes "db_ready fp T w db" "in_budget (db_compactionBaseThresholdBytes db) (db_manifest db)"
    and "0 < db_compactionBaseThresholdBytes db" "numbers_left T db"
  shows "\<exists>T' w' db'. maybeCompact fp (w, db) = Some (Inr (), (w', db')) \<and> db_ready fp T' w' db'
    \<and> (\<forall>k q. smallestActiveSnapshot db \<le> q \<longrightarrow> visible (db_records T' db') k q = visible (db_records T db) k q)
    \<and> length (Manifest_level 0 (db_manifest db')) \<le> unat (db_level0CompactionThreshold db)
    \<and> firstOverBudgetLevel db' = None"
proof -
  from maybeCompact_run [OF assms] obtain T' w' db' where
    r: "maybeCompact fp (w, db) = Some (Inr (), (w', db'))" "compacted fp T w db T' w' db'" "settled db'" by blast
  then show ?thesis using compacted_fields(2) [OF r(2)]
    by (intro exI [of _ T'] exI [of _ w'] exI [of _ db']) (simp add: compacted_def settled_def)
qed

text \<open>
  C36: the budget of a level is the base threshold times a power of ten as long as that fits 64 bits,
  and wraps around beyond: with a base of \<open>2 ^ 63\<close> bytes the budget of every level below the first
  is zero, so that any table there counts as too much.
\<close>

theorem levelCompactionBudget_wraps:
  assumes "1 \<le> i"
  shows "unat (levelCompactionBudget db i) = unat (db_compactionBaseThresholdBytes db) * 10 ^ (i - 1) mod 2 ^ 64
    \<and> (db_compactionBaseThresholdBytes db = 2 ^ 63 \<and> 2 \<le> i \<longrightarrow> levelCompactionBudget db i = 0)"
proof
  let ?b = "db_compactionBaseThresholdBytes db"
  have "levelCompactionBudget db i = of_nat (unat ?b * 10 ^ (i - 1))" using budget_power [OF assms] by simp
  then show "unat (levelCompactionBudget db i) = unat ?b * 10 ^ (i - 1) mod 2 ^ 64" by (simp only: unat_of_nat) simp
  show "?b = 2 ^ 63 \<and> 2 \<le> i \<longrightarrow> levelCompactionBudget db i = 0"
  proof
    assume h: "?b = 2 ^ 63 \<and> 2 \<le> i"
    then obtain j where j: "i - 1 = Suc j" by (cases "i - 1") auto
    have "levelCompactionBudget db i = (2 ^ 63 * 10) * 10 ^ j"
      using h budget_power [OF assms] by (simp only: j power_Suc mult.assoc)
    also have "(2 ^ 63 :: u64) * 10 = 0" by simp
    finally show "levelCompactionBudget db i = 0" by simp
  qed
qed

lemma db_example_dir_ok: "dir_ok [''d''] db_example_world"
proof -
  have "content_of db_example_world q = None" if "q \<in> data_dirs [''d'']" for q
    using that by (auto simp: data_dirs_def db_example_world_def sstablePath_def)
  moreover have "p \<notin> set (w_dirs db_example_world)" if "data_file [''d''] p" for p
    using that by (auto simp: data_file_def db_example_world_def sstablePath_def walPath_def manifest_path_def temporary_path_def)
  ultimately show ?thesis by (simp add: dir_ok_def)
qed

lemma db_example_fit: "records_fit batch_example"
proof -
  have "\<forall>x \<in> set batch_example. encodable x" using table_example by (simp add: table_ok_def)
  then show ?thesis by (simp add: records_fit_def batch_example_def length_record_bytes)
qed

lemma db_example_ready: "db_ready fp_example (\<lambda>_. batch_example) db_example_world db_example"
  using db_example_inv db_example_nominal db_example_dir_ok db_example_fit fp_example_ok
  by (simp add: db_ready_def db_example_records) (simp add: db_example_def db_example_manifest_def manifest_path_def)

theorem compaction_preserves_reads_witness:
  "\<exists>T' w' db'. DB_compact fp_example (db_example_world, db_example) = Some (Inr (), (w', db'))
    \<and> Manifest_level 0 (db_manifest db') = [] \<and> visible (db_records T' db') ''a'' 9 = visible batch_example ''a'' 9"
proof -
  have "Manifest_level 0 (db_manifest db_example) \<noteq> []"
    by (simp add: db_example_def db_example_level)
  moreover have "unat (mf_nextTableNumber (db_manifest db_example)) + length batch_example < 2 ^ 64"
    by (simp add: db_example_def db_example_manifest_def batch_example_def)
  moreover have "smallestActiveSnapshot db_example \<le> 9" by (simp add: smallestActiveSnapshot_def db_example_def)
  ultimately show ?thesis
    using compaction_preserves_reads [OF db_example_ready] unfolding db_example_records by blast
qed

definition db_busy :: DB where
  "db_busy = db_example\<lparr>db_level0CompactionThreshold := 0\<rparr>"

lemma db_busy_ready: "db_ready fp_example (\<lambda>_. batch_example) db_example_world db_busy"
  using db_example_ready
  by (simp add: db_busy_def db_ready_def db_inv_def cache_ok_def db_records_def sources_def)

theorem maybeCompact_settles_witness:
  "\<exists>w' db'. maybeCompact fp_example (db_example_world, db_busy) = Some (Inr (), (w', db'))
    \<and> length (Manifest_level 0 (db_manifest db')) \<le> 0"
proof -
  have m: "db_manifest db_busy = db_example_manifest" "db_compactionBaseThresholdBytes db_busy = 1000"
    "db_level0CompactionThreshold db_busy = 0" by (simp_all add: db_busy_def db_example_def)
  have "in_budget (db_compactionBaseThresholdBytes db_busy) (db_manifest db_busy)"
    by (simp add: in_budget_def m db_example_level)
  moreover have "level_records (\<lambda>_. batch_example) (Manifest_level i db_example_manifest) = (if i = 0 then 2 else 0)" for i
    by (simp add: level_records_def db_example_level tbl_def batch_example_def)
  then have "weight (\<lambda>_. batch_example) db_example_manifest = 42"
    by (simp add: weight_def if_distrib [of "\<lambda>x. _ * x"] sum.delta cong: if_cong)
  moreover have "db_records (\<lambda>_. batch_example) db_busy = batch_example"
    using db_example_records by (simp add: db_busy_def db_records_def sources_def)
  ultimately show ?thesis
    using maybeCompact_settles [OF db_busy_ready] m
    by (simp add: numbers_left_def batch_example_def db_example_manifest_def) blast
qed

theorem levelCompactionBudget_wraps_witness: "unat (levelCompactionBudget db_example 3) = 100000"
  using levelCompactionBudget_wraps [of 3 db_example] by (simp add: db_example_def)

end
