(* ===== verification/DBWrites.thy ===== *)
theory DBWrites
  imports DBLevels
begin

text \<open>
  The write path: a batch is numbered, logged, applied to the MemTable and, when the MemTable has
  grown past its threshold, flushed into a level 0 table. In the absence of I/O faults every write
  is acknowledged and adds exactly its records; an open database and its log always agree.
\<close>

section \<open>A new MemTable\<close>

lemma MemTable_create:
  assumes "nominal w" "creatable w p" "content_of w p = None"
  shows "MemTable_new p w = Some (Inr (empty_memtable p (writer_at p w)), set_file p wal_header (attach p w))"
proof -
  let ?w = "set_file p wal_header (attach p w)" and ?m0 = "empty_memtable p (writer_at p w)"
  have p: "parseWALRecords wal_header = Inr (wal_entries [], length wal_header)"
    using parse_incomplete_tail [of "[]" "[]"] by (simp add: wal_frames_def batches_ok_def)
  have rd: "sys_open_read p ?w = (Some wal_header, ?w)" using assms by (simp add: sys_open_read_def)
  have tr: "\<exists>w2. WALFileWriter_truncate (mt_walWriter ?m0) (length wal_header) ?w = (0, w2)"
    using assms by (simp add: WALFileWriter_truncate_def sys_ftruncate_def writer_at_def empty_memtable_def)
  then obtain w2 where tr: "WALFileWriter_truncate (mt_walWriter ?m0) (length wal_header) ?w = (0, w2)" by blast
  have "mt_logPath ?m0 = p" by (simp add: empty_memtable_def)
  from restore_run [OF rd _ p this tr, of "[]"] show ?thesis
    using nominal_open_fresh [OF assms]
    by (simp add: MemTable_new_def io_bind_def empty_memtable_def Let_def apply_records_def)
qed

lemma dir_ok_creatable: "dir_ok dir w \<Longrightarrow> creatable w (walPath dir n)"
proof -
  assume d: "dir_ok dir w"
  have "data_file dir (walPath dir n)" by simp
  from data_file_parents [OF this] d show ?thesis by (auto simp: creatable_def dir_ok_def)
qed

lemma dir_ok_attach:
  assumes "dir_ok dir w"
  shows "dir_ok dir (set_file (walPath dir n) c (attach (walPath dir n) w))" "dir_ok dir (attach (walPath dir n) w)"
proof -
  let ?p = "walPath dir n"
  have f: "data_file dir ?p" by simp
  have dirs: "set (w_dirs (attach ?p w)) \<subseteq> set (w_dirs w) \<union> data_dirs dir"
    using data_file_parents [OF f] by (auto simp: attach_def)
  show "dir_ok dir (attach ?p w)"
    by (rule dir_ok_files [OF assms]) (use assms dirs in \<open>auto simp: dir_ok_def\<close>)
  show "dir_ok dir (set_file ?p c (attach ?p w))"
    by (rule dir_ok_files [OF assms])
      (use assms dirs data_file_not_dir [OF f] in \<open>auto simp: dir_ok_def\<close>)
qed

section \<open>An open database\<close>

text \<open>The log holds the batches whose records are in the MemTable, in order.\<close>

definition wal_state :: "Record list list \<Rightarrow> world \<Rightarrow> DB \<Rightarrow> bool" where
  "wal_state bs w db \<longleftrightarrow>
     log_open w (db_activeMemTable db) (wal_header @ wal_frames bs) \<and> \<not> poisoned (db_activeMemTable db)
     \<and> batches_ok bs \<and> db_walFilePath db = walPath (db_dataDirectory db) (mf_logNumber (db_manifest db))
     \<and> (\<exists>ww. db_activeMemTable db = apply_records (concat bs)
            (empty_memtable (walPath (db_dataDirectory db) (mf_logNumber (db_manifest db))) ww))"

lemma wal_state_path:
  "wal_state bs w db \<Longrightarrow>
   mt_logPath (db_activeMemTable db) = walPath (db_dataDirectory db) (mf_logNumber (db_manifest db))"
  by (auto simp: wal_state_def empty_memtable_def)

text \<open>No log has a number beyond the next one to be given.\<close>

definition wals_fresh :: "world \<Rightarrow> DB \<Rightarrow> bool" where
  "wals_fresh w db \<longleftrightarrow> mf_logNumber (db_manifest db) \<le> mf_nextTableNumber (db_manifest db)
     \<and> (\<forall>n > mf_nextTableNumber (db_manifest db). content_of w (walPath (db_dataDirectory db) n) = None)"

text \<open>
  The sequence number in the catalogue covers the tables, and the next number is the one that
  opening the database would compute.
\<close>

definition seqs_ok :: "contents \<Rightarrow> DB \<Rightarrow> bool" where
  "seqs_ok T db \<longleftrightarrow>
     (\<forall>t \<in> set (all_tables (db_manifest db)). \<forall>r \<in> set (tbl T t). rec_seq r \<le> mf_lastSeq (db_manifest db))
     \<and> mf_lastSeq (db_manifest db) < db_nextSeq db
     \<and> db_nextSeq db = max (mf_lastSeq (db_manifest db)) (getMaxWALSeq (db_activeMemTable db)) + 1"

definition empty_manifest :: "path \<Rightarrow> Manifest" where
  "empty_manifest p = \<lparr>mf_path = p, mf_levels = [], mf_nextTableNumber = 0, mf_logNumber = 0, mf_lastSeq = 0\<rparr>"

definition stored :: "world \<Rightarrow> DB \<Rightarrow> bool" where
  "stored w db \<longleftrightarrow> saved w db
     \<or> content_of w (manifest_path (db_dataDirectory db)) = None
       \<and> db_manifest db = empty_manifest (manifest_path (db_dataDirectory db))"

text \<open>Every active snapshot was taken at a sequence number already given.\<close>

definition snaps_ok :: "DB \<Rightarrow> bool" where
  "snaps_ok db \<longleftrightarrow> (\<forall>q \<in># db_activeSnapshotSequences db. q < db_nextSeq db)"

definition db_open :: "fp \<Rightarrow> contents \<Rightarrow> Record list list \<Rightarrow> world \<Rightarrow> DB \<Rightarrow> bool" where
  "db_open fp T bs w db \<longleftrightarrow> db_ready fp T w db \<and> wal_state bs w db
     \<and> in_budget (db_compactionBaseThresholdBytes db) (db_manifest db) \<and> 0 < db_compactionBaseThresholdBytes db
     \<and> tables_fresh w db \<and> wals_fresh w db \<and> seqs_ok T db \<and> stored w db \<and> snaps_ok db"

lemma open_lastSeq: "db_open fp T bs w db \<Longrightarrow> mf_lastSeq (db_manifest db) < db_nextSeq db"
  unfolding db_open_def seqs_ok_def by blast

lemma open_nextSeq: "db_open fp T bs w db \<Longrightarrow> 0 < db_nextSeq db"
  using open_lastSeq order_le_less_trans [OF word_zero_le] by blast

lemma compacted_tables:
  assumes "compacted fp T w db T' w' db'"
  shows "mset (concat (map (tbl T') (all_tables (db_manifest db'))))
    \<subseteq># mset (concat (map (tbl T) (all_tables (db_manifest db))))"
proof -
  have "mset (db_records T' db') \<subseteq># mset (db_records T db)" using assms by (simp add: compacted_def)
  then show ?thesis
    using compacted_fields(4) [OF assms] by (simp add: db_records_def sources_def)
qed

lemma compacted_open:
  assumes o: "db_open fp T bs w db" and c: "compacted fp T w db T' w' db'" and s: "saved w db \<or> saved w' db'"
    and b: "in_budget (db_compactionBaseThresholdBytes db') (db_manifest db')"
  shows "db_open fp T' bs w' db'"
proof -
  note f = compacted_fields [OF c]
  have m: "mf_logNumber (db_manifest db') = mf_logNumber (db_manifest db)"
    "mf_lastSeq (db_manifest db') = mf_lastSeq (db_manifest db)"
    "mf_nextTableNumber (db_manifest db) \<le> mf_nextTableNumber (db_manifest db')"
    and logs: "\<And>n. content_of w' (walPath (db_dataDirectory db) n) = content_of w (walPath (db_dataDirectory db) n)"
    "w_fds w' = w_fds w"
    and keep: "db_ready fp T' w' db'" "tables_fresh w' db'" "saved w' db'"
    using c o s by (auto simp: compacted_def same_logs_def db_open_def)
  have wal: "wal_state bs w db" using o by (simp add: db_open_def)
  have "wal_state bs w' db'"
    using wal wal_state_path [OF wal] logs f m by (simp add: wal_state_def log_open_def open_on_def)
  moreover have "wals_fresh w' db'"
    using o m logs f unfolding db_open_def wals_fresh_def by (auto intro: order_trans)
  moreover have "seqs_ok T' db'"
  proof -
    have "set (concat (map (tbl T') (all_tables (db_manifest db')))) \<subseteq> set (concat (map (tbl T) (all_tables (db_manifest db))))"
      using set_mset_mono [OF compacted_tables [OF c]] by simp
    moreover have "\<forall>r \<in> set (concat (map (tbl T) (all_tables (db_manifest db)))). rec_seq r \<le> mf_lastSeq (db_manifest db)"
      using o by (auto simp: db_open_def seqs_ok_def)
    ultimately show ?thesis using o m f by (fastforce simp: db_open_def seqs_ok_def)
  qed
  ultimately show ?thesis using o keep b f by (simp add: db_open_def stored_def snaps_ok_def)
qed

section \<open>Adding the flushed table\<close>

text \<open>The catalogue after the MemTable was written as table \<open>n\<close> of level 0.\<close>

definition flush_manifest :: "fp \<Rightarrow> Record list \<Rightarrow> u64 \<Rightarrow> Manifest \<Rightarrow> Manifest" where
  "flush_manifest fp rs lastSeq m =
     (let n = mf_nextTableNumber m;
          m1 = m\<lparr>mf_nextTableNumber := n + 2, mf_logNumber := n + 1\<rparr>
      in (snd (addTable n (of_nat (length (sst_image fp rs))) (rec_key (hd rs)) (rec_key (last rs)) 0 m1))\<lparr>mf_lastSeq := lastSeq\<rparr>)"

lemma level_renumbered [simp]:
  "Manifest_level i (m\<lparr>mf_logNumber := a\<rparr>) = Manifest_level i m"
  "Manifest_level i (m\<lparr>mf_lastSeq := a\<rparr>) = Manifest_level i m"
  by (simp_all add: Manifest_level_def)

lemma flush_added:
  assumes cat: "catalogue_ok fp T w dir m" and rs: "rs \<noteq> []" "sorted_records rs"
  shows "addTable (mf_nextTableNumber m) s (rec_key (hd rs)) (rec_key (last rs)) 0
      (m\<lparr>mf_nextTableNumber := k, mf_logNumber := j\<rparr>) =
      (Inr (), snd (addTable (mf_nextTableNumber m) s (rec_key (hd rs)) (rec_key (last rs)) 0
        (m\<lparr>mf_nextTableNumber := k, mf_logNumber := j\<rparr>)))"
    "levels_inv (flush_manifest fp rs q m)"
    "mset (Manifest_level i (flush_manifest fp rs q m)) = mset (Manifest_level i m)
       + (if i = 0 then {#slice_meta fp (mf_nextTableNumber m) rs#} else {#})"
    "mf_path (flush_manifest fp rs q m) = mf_path m"
    "mf_nextTableNumber (flush_manifest fp rs q m) = mf_nextTableNumber m + 2"
    "mf_logNumber (flush_manifest fp rs q m) = mf_nextTableNumber m + 1" "mf_lastSeq (flush_manifest fp rs q m) = q"
    "length (mf_levels (flush_manifest fp rs q m)) = max (length (mf_levels m)) 1"
proof -
  have k: "rec_key (hd rs) \<le> rec_key (last rs)" using rs sorted_key_bounds(1) [of rs "last rs"] by simp
  have inv: "levels_inv (m\<lparr>mf_nextTableNumber := a, mf_logNumber := b\<rparr>)" for a b
    using cat by (simp add: catalogue_ok_def levels_inv_def)
  have fresh: "\<forall>t \<in> set (Manifest_level 0 (m\<lparr>mf_nextTableNumber := a, mf_logNumber := b\<rparr>)). tm_number t \<noteq> mf_nextTableNumber m" for a b
    using old_number [OF cat] by fastforce
  show "addTable (mf_nextTableNumber m) s (rec_key (hd rs)) (rec_key (last rs)) 0 (m\<lparr>mf_nextTableNumber := k, mf_logNumber := j\<rparr>) =
      (Inr (), snd (addTable (mf_nextTableNumber m) s (rec_key (hd rs)) (rec_key (last rs)) 0
        (m\<lparr>mf_nextTableNumber := k, mf_logNumber := j\<rparr>)))" for k j
  proof -
    let ?a = "addTable (mf_nextTableNumber m) s (rec_key (hd rs)) (rec_key (last rs)) 0
      (m\<lparr>mf_nextTableNumber := k, mf_logNumber := j\<rparr>)"
    have "?a = (fst ?a, snd ?a)" by simp
    from addTable_cases(2) [OF inv _ k fresh this] have "fst ?a = Inr ()" by simp
    then show ?thesis by (simp add: prod_eq_iff)
  qed
  let ?s = "of_nat (length (sst_image fp rs))"
  obtain r m' where run: "addTable (mf_nextTableNumber m) ?s (rec_key (hd rs)) (rec_key (last rs)) 0
      (m\<lparr>mf_nextTableNumber := mf_nextTableNumber m + 2, mf_logNumber := mf_nextTableNumber m + 1\<rparr>) = (r, m')" by fastforce
  note c = addTable_cases [OF inv _ k fresh run]
  have f: "flush_manifest fp rs q m = m'\<lparr>mf_lastSeq := q\<rparr>" using run by (simp add: flush_manifest_def Let_def)
  have r: "r = Inr ()" using c(2) by simp
  show "levels_inv (flush_manifest fp rs q m)" using c(1) by (simp add: f levels_inv_def)
  show "mset (Manifest_level i (flush_manifest fp rs q m)) = mset (Manifest_level i m)
       + (if i = 0 then {#slice_meta fp (mf_nextTableNumber m) rs#} else {#})"
    using c(4) [of i] r by (simp add: f slice_meta_def)
  show "mf_path (flush_manifest fp rs q m) = mf_path m"
    "mf_nextTableNumber (flush_manifest fp rs q m) = mf_nextTableNumber m + 2"
    "mf_logNumber (flush_manifest fp rs q m) = mf_nextTableNumber m + 1" "mf_lastSeq (flush_manifest fp rs q m) = q"
    "length (mf_levels (flush_manifest fp rs q m)) = max (length (mf_levels m)) 1"
    using c(5-9) by (simp_all add: f)
qed

lemma flush_level:
  assumes "catalogue_ok fp T w dir m" "rs \<noteq> []" "sorted_records rs"
  shows "t \<in> set (Manifest_level i (flush_manifest fp rs q m)) \<longleftrightarrow>
    t \<in> set (Manifest_level i m) \<or> i = 0 \<and> t = slice_meta fp (mf_nextTableNumber m) rs"
  using arg_cong [OF flush_added(3) [OF assms, of i q], of set_mset] by auto

lemma flush_tbl:
  assumes "catalogue_ok fp T w dir m" "t \<in> set (Manifest_level i m)"
  shows "tbl (T(mf_nextTableNumber m := rs)) t = tbl T t"
  using old_number [OF assms] by (auto simp: tbl_def)

text \<open>The order of the levels and the numbers of the tables after a flush.\<close>

lemma flush_layers:
  assumes cat: "catalogue_ok fp T w dir m" and rs: "rs \<noteq> []" "sorted_records rs"
    and newer: "\<forall>t \<in> set (all_tables m). newer_than rs (tbl T t)"
  shows "layers_ok (T(mf_nextTableNumber m := rs)) (flush_manifest fp rs q m)"
proof -
  let ?n = "mf_nextTableNumber m" and ?m = "flush_manifest fp rs q m"
  let ?T = "T(?n := rs)" and ?t = "slice_meta fp ?n rs"
  note lev = flush_level [OF cat rs, where q = q]
  have nt: "tbl ?T ?t = rs" by (simp add: tbl_def)
  show ?thesis
    unfolding layers_ok_def
  proof (intro allI ballI impI)
    fix i j t u
    assume t: "t \<in> set (Manifest_level i ?m)" and u: "u \<in> set (Manifest_level j ?m)"
      and ij: "i < j \<or> i = 0 \<and> j = 0 \<and> tm_number u < tm_number t"
    have "\<not> ?n < tm_number t"
      using t old_number [OF cat, of t i] by (auto simp: lev)
    then consider "t \<in> set (Manifest_level i m)" "u \<in> set (Manifest_level j m)"
      | "t = ?t" "u \<in> set (Manifest_level j m)"
      using t u ij by (auto simp: lev)
    then show "newer_than (tbl ?T t) (tbl ?T u)"
    proof cases
      case 1
      moreover have "layers_ok T m" using cat by (simp add: catalogue_ok_def)
      ultimately show ?thesis using ij by (auto simp: layers_ok_def flush_tbl [OF cat])
    next
      case 2
      then show ?thesis using newer in_all_tables by (auto simp: nt flush_tbl [OF cat])
    qed
  qed
qed

lemma flush_table_numbers:
  assumes cat: "catalogue_ok fp T w dir m" and rs: "rs \<noteq> []" "sorted_records rs"
    and room: "unat (mf_nextTableNumber m) + 2 < 2 ^ 64"
  shows "numbers_ok (flush_manifest fp rs q m)"
proof -
  let ?n = "mf_nextTableNumber m" and ?m = "flush_manifest fp rs q m"
  let ?t = "slice_meta fp ?n rs"
  note a = flush_added(2-8) [OF cat rs, where q = q] and lev = flush_level [OF cat rs, where q = q]
  have gr: "?n < ?n + 2" using next_grows(2) [of ?n 2] room by (simp add: word_less_nat_alt)
  show ?thesis
    unfolding numbers_ok_def
  proof (intro conjI allI ballI impI)
    fix i t
    assume "t \<in> set (Manifest_level i ?m)"
    then show "tm_number t < mf_nextTableNumber ?m"
      using old_number [OF cat, of t i] gr by (auto simp: lev a intro: order_less_trans)
  next
    fix i j t u
    assume t: "t \<in> set (Manifest_level i ?m)" and u: "u \<in> set (Manifest_level j ?m)" and eq: "tm_number t = tm_number u"
    have num: "numbers_ok m" using cat by (simp add: catalogue_ok_def)
    have below: "tm_number x \<noteq> ?n" if "x \<in> set (Manifest_level a m)" for x a
      using old_number [OF cat that] by auto
    from t u have "t \<in> set (Manifest_level i m) \<and> u \<in> set (Manifest_level j m) \<or> i = 0 \<and> j = 0 \<and> t = ?t \<and> u = ?t"
      using eq below [of t i] below [of u j] by (auto simp: lev)
    then have "i = j \<and> t = u" using num eq unfolding numbers_ok_def by blast
    then show "i = j" "t = u" by simp_all
  qed
qed

lemma flush_catalogue:
  assumes cat: "catalogue_ok fp T w dir m" and ok: "table_ok fp rs"
    and newer: "\<forall>t \<in> set (all_tables m). newer_than rs (tbl T t)"
    and room: "unat (mf_nextTableNumber m) + 2 < 2 ^ 64"
    and new: "content_of w' (sstablePath dir (mf_nextTableNumber m)) = Some (sst_image fp rs)"
    and old: "\<forall>t \<in> set (all_tables m). content_of w' (sstablePath dir (tm_number t)) = content_of w (sstablePath dir (tm_number t))"
  shows "catalogue_ok fp (T(mf_nextTableNumber m := rs)) w' dir (flush_manifest fp rs q m)"
proof -
  let ?n = "mf_nextTableNumber m" and ?m = "flush_manifest fp rs q m"
  let ?T = "T(?n := rs)" and ?t = "slice_meta fp ?n rs"
  have rs: "rs \<noteq> []" "sorted_records rs" using ok by (simp_all add: table_ok_def)
  note a = flush_added(2-8) [OF cat rs, where q = q] and lev = flush_level [OF cat rs, where q = q]
  have nt: "tbl ?T ?t = rs" by (simp add: tbl_def)
  have "table_at fp w' dir ?T t" if t: "t \<in> set (all_tables ?m)" for t
  proof (cases "t = ?t")
    case True
    then show ?thesis using new ok by (simp add: table_at_def table_file_def nt)
  next
    case False
    with t obtain i where i: "t \<in> set (Manifest_level i m)" by (auto simp: in_all_tables lev)
    then have "content_of w' (sstablePath dir (tm_number t)) = content_of w (sstablePath dir (tm_number t))"
      using old in_all_tables by blast
    with level_table_at [OF cat i] show ?thesis
      by (simp add: table_at_def table_file_def flush_tbl [OF cat i])
  qed
  moreover have "length (mf_levels ?m) \<le> 21" using cat a(7) by (simp add: catalogue_ok_def)
  ultimately show ?thesis using a(1) flush_layers [OF cat rs newer] flush_table_numbers [OF cat rs room] by (simp add: catalogue_ok_def)
qed

section \<open>A flush\<close>

text \<open>The files and the object when the flush is done, before the compaction loop.\<close>

definition flushed_manifest :: "fp \<Rightarrow> DB \<Rightarrow> Manifest" where
  "flushed_manifest fp db = flush_manifest fp (mt_records (db_activeMemTable db)) (db_nextSeq db - 1) (db_manifest db)"

definition flushed_wal :: "DB \<Rightarrow> path" where
  "flushed_wal db = walPath (db_dataDirectory db) (mf_nextTableNumber (db_manifest db) + 1)"

definition flush_files :: "fp \<Rightarrow> world \<Rightarrow> DB \<Rightarrow> world" where
  "flush_files fp w db =
     (let dir = db_dataDirectory db; d = dir @ [''sstable'']
      in publish (manifest_path dir) (manifest_bytes (flushed_manifest fp db))
          (publish (sstablePath dir (mf_nextTableNumber (db_manifest db)))
            (sst_image fp (mt_records (db_activeMemTable db))) (if path_exists d w then w else mkdirs d w)))"

definition flush_world :: "fp \<Rightarrow> world \<Rightarrow> DB \<Rightarrow> world" where
  "flush_world fp w db =
     del_file (db_walFilePath db) (MemTable_dtor (db_activeMemTable db)
       (set_file (flushed_wal db) wal_header (attach (flushed_wal db) (flush_files fp w db))))"

definition flush_db :: "fp \<Rightarrow> world \<Rightarrow> DB \<Rightarrow> DB" where
  "flush_db fp w db = db\<lparr>db_manifest := flushed_manifest fp db,
     db_activeMemTable := empty_memtable (flushed_wal db) (writer_at (flushed_wal db) w),
     db_walFilePath := flushed_wal db\<rparr>"

lemma build_records:
  assumes "mem_inv m"
  shows "map (\<lambda>(k, entry). \<lparr>rec_key = key_key k, rec_seq = key_seq k, rec_type = ent_type entry,
     rec_value = ent_value entry\<rparr>) (mt_table m) = mt_records m"
  unfolding mt_records_def
  by (rule map_cong) (use assms in \<open>auto simp: mem_inv_def entry_ok_def entry_record_def\<close>)

lemma nominal_dtor:
  "nominal w \<Longrightarrow> MemTable_dtor m w =
     (if 0 \<le> wal_fd (mt_walWriter m) \<and> map_of (w_fds w) (wal_fd (mt_walWriter m)) \<noteq> None
      then w\<lparr>w_fds := AList.delete (wal_fd (mt_walWriter m)) (w_fds w)\<rparr> else w)"
  by (auto simp: MemTable_dtor_def WALFileWriter_dtor_def sys_close_def)

lemma flush_files_content:
  assumes "db_dataDirectory db \<noteq> []"
  shows "content_of (flush_files fp w db) p =
    (if p = manifest_path (db_dataDirectory db) then Some (manifest_bytes (flushed_manifest fp db))
     else if p = temporary_path (manifest_path (db_dataDirectory db)) then None
     else if p = sstablePath (db_dataDirectory db) (mf_nextTableNumber (db_manifest db))
     then Some (sst_image fp (mt_records (db_activeMemTable db)))
     else if p = temporary_path (sstablePath (db_dataDirectory db) (mf_nextTableNumber (db_manifest db))) then None
     else content_of w p)"
  by (simp add: flush_files_def Let_def)

lemma flush_files_fields:
  "nominal w \<Longrightarrow> nominal (flush_files fp w db)" "w_fds (flush_files fp w db) = w_fds w"
  by (simp_all add: flush_files_def Let_def)

text \<open>
  The flush up to the new catalogue in memory, and the change of the log after the catalogue was
  published.
\<close>

definition fillFlush :: "fp \<Rightarrow> (path \<times> u64) db" where
  "fillFlush fp =
     io_bind (on_manifest (manifest_act allocateNumber)) (\<lambda>tableNumber.
     io_bind (db_get db_dataDirectory) (\<lambda>dataDirectory.
     let tablePath = sstablePath dataDirectory tableNumber in
     io_bind (io_outer (fs_throwing (path_exists (butlast tablePath)))) (\<lambda>found.
     io_bind (if \<not> found then io_outer (create_directories (butlast tablePath)) else io_ret ()) (\<lambda>_.
     io_bind (on_manifest (manifest_act allocateNumber)) (\<lambda>nextWALNumber.
     io_bind (on_manifest (manifest_act (\<lambda>m. ((), setLogNumber nextWALNumber m)))) (\<lambda>_.
     io_bind (db_get db_activeMemTable) (\<lambda>memTable.
     io_bind (io_outer (build fp memTable tablePath)) (\<lambda>(minKey, maxKey).
     io_bind (io_outer (fs_throwing (file_size tablePath))) (\<lambda>fileSize.
     io_bind (on_manifest (manifest_try (addTable tableNumber fileSize minKey maxKey 0))) (\<lambda>_.
     io_bind (db_get db_nextSeq) (\<lambda>nextSeq.
     io_bind (on_manifest (manifest_act (\<lambda>m. ((), setLastSeq (nextSeq - 1) m)))) (\<lambda>_.
     io_ret (dataDirectory, nextWALNumber)))))))))))))"

definition switchLog :: "path \<Rightarrow> u64 \<Rightarrow> unit db" where
  "switchLog dataDirectory nextWALNumber =
     io_bind (db_get db_walFilePath) (\<lambda>oldWALPath.
     let nextWALPath = walPath dataDirectory nextWALNumber in
     io_bind (replace_memTable nextWALPath) (\<lambda>_.
     io_bind (db_upd (\<lambda>db. db\<lparr>db_walFilePath := nextWALPath\<rparr>)) (\<lambda>_.
     io_outer (removeFile oldWALPath ''remove wal file failed''))))"

lemma io_bind_case_prod: "io_bind (case x of (a, b) \<Rightarrow> f a b) g = (case x of (a, b) \<Rightarrow> io_bind (f a b) g)"
  by (simp split: prod.split)

lemma flush_body_split:
  "flush_body fp = io_bind (fillFlush fp) (\<lambda>(dataDirectory, nextWALNumber).
     io_bind (db_get db_manifest) (\<lambda>manifest.
     io_bind (io_outer (Manifest_save manifest)) (\<lambda>_.
     io_bind (switchLog dataDirectory nextWALNumber) (\<lambda>_. maybeCompact fp))))"
  by (simp only: flush_body_def fillFlush_def switchLog_def Let_def io_bind_assoc io_bind_case_prod io_bind_ret prod.case)

lemma open_dir: "db_open fp T bs w db \<Longrightarrow> dir_ok (db_dataDirectory db) w \<and> nominal w \<and> db_dataDirectory db \<noteq> []"
  by (simp add: db_open_def db_ready_def dir_ok_def)

lemma mem_table_ok:
  assumes o: "db_open fp T bs w db" and ne: "MemTable_size (db_activeMemTable db) \<noteq> 0"
  shows "table_ok fp (mt_records (db_activeMemTable db))"
proof -
  have inv: "mem_inv (db_activeMemTable db)" and fp: "fp_ok fp" and fit: "records_fit (db_records T db)"
    using o by (simp_all add: db_open_def db_ready_def db_inv_def)
  have "records_fit (mt_records (db_activeMemTable db))"
    by (rule records_fit_sub [OF fit]) (simp add: db_records_def sources_def)
  moreover have "mt_records (db_activeMemTable db) \<noteq> []" using ne by (simp add: mt_records_def MemTable_size_def)
  ultimately show ?thesis using table_ok_fit [OF fp] mt_records_sorted [OF inv] by blast
qed

lemma flush_prepared:
  assumes "dir_ok dir w" "nominal w"
  defines "w0 \<equiv> if path_exists (dir @ [''sstable'']) w then w else mkdirs (dir @ [''sstable'']) w"
  shows "(if path_exists (dir @ [''sstable'']) w then Some (Inr (), w)
      else create_directories (dir @ [''sstable'']) w) = Some (Inr (), w0)"
    "dir_ok dir w0" "nominal w0" "content_of w0 = content_of w" "w_fds w0 = w_fds w"
proof -
  let ?d = "dir @ [''sstable'']"
  have p: "\<forall>q \<in> set (prefixes ?d). content_of w q = None" using assms(1) by (simp add: dir_ok_def data_dirs_def)
  then have "create_directories ?d w = Some (Inr (), mkdirs ?d w)"
    using nominal_create_directories [OF assms(2)] by (simp add: create_directories_def io_bind_def io_act_def)
  then show "(if path_exists ?d w then Some (Inr (), w) else create_directories ?d w) = Some (Inr (), w0)"
    by (simp add: w0_def)
  show c: "content_of w0 = content_of w" and "nominal w0" "w_fds w0 = w_fds w" using assms by (simp_all add: w0_def fun_eq_iff)
  show "dir_ok dir w0"
    by (rule dir_ok_files [OF assms(1)]) (use assms(1) c in \<open>auto simp: w0_def dir_ok_def data_dirs_def\<close>)
qed

text \<open>The world when the table of the MemTable has been written.\<close>

definition filled :: "fp \<Rightarrow> world \<Rightarrow> DB \<Rightarrow> world" where
  "filled fp w db =
     (let d = db_dataDirectory db @ [''sstable'']
      in publish (sstablePath (db_dataDirectory db) (mf_nextTableNumber (db_manifest db)))
           (sst_image fp (mt_records (db_activeMemTable db))) (if path_exists d w then w else mkdirs d w))"

lemma filled_props:
  assumes o: "db_open fp T bs w db"
  shows "nominal (filled fp w db)" "dir_ok (db_dataDirectory db) (filled fp w db)" "w_fds (filled fp w db) = w_fds w"
  using open_dir [OF o] flush_prepared [of "db_dataDirectory db" w]
  by (auto simp: filled_def Let_def intro!: dir_ok_publish)

lemma fillFlush_run:
  assumes o: "db_open fp T bs w db" and ne: "MemTable_size (db_activeMemTable db) \<noteq> 0"
  shows "fillFlush fp (w, db) = Some (Inr (db_dataDirectory db, mf_nextTableNumber (db_manifest db) + 1),
    (filled fp w db, db\<lparr>db_manifest := flushed_manifest fp db\<rparr>))"
proof -
  let ?dir = "db_dataDirectory db" and ?m = "db_manifest db" and ?mem = "db_activeMemTable db"
  let ?n = "mf_nextTableNumber ?m" and ?rs = "mt_records ?mem" and ?img = "sst_image fp (mt_records ?mem)"
  have d: "dir_ok ?dir w" "nominal w" using open_dir [OF o] by simp_all
  have cat: "catalogue_ok fp T w ?dir ?m" and inv: "mem_inv ?mem"
    using o by (simp_all add: db_open_def db_ready_def db_inv_def)
  have ok: "table_ok fp ?rs" by (rule mem_table_ok [OF o ne])
  then have rs: "?rs \<noteq> []" "sorted_records ?rs" by (simp_all add: table_ok_def)
  define w0 where "w0 = (if path_exists (?dir @ [''sstable'']) w then w else mkdirs (?dir @ [''sstable'']) w)"
  note w0 = flush_prepared [OF d, folded w0_def]
  let ?p = "sstablePath ?dir ?n" and ?w1 = "filled fp w db"
  have w1: "?w1 = publish ?p ?img w0" by (simp add: filled_def Let_def w0_def)
  have "\<not> path_exists ?p w0"
    using o w0 by (auto simp: path_exists_def db_open_def tables_fresh_def dir_ok_def)
  then have b: "build fp ?mem ?p w0 = Some (Inr (rec_key (hd ?rs), rec_key (last ?rs)), ?w1)"
    using addRecordToFile_nominal [OF w0(3) dir_ok_writable [OF w0(2)] ok, of ?p] w0(3)
    by (simp add: build_def nominal_fs_throwing io_bind_def Let_def build_records [OF inv] w1)
  have sz: "file_size ?p ?w1 = of_nat (length ?img)" by (simp add: file_size_def w1)
  have fm: "flushed_manifest fp db = snd (addTable ?n (of_nat (length ?img)) (rec_key (hd ?rs)) (rec_key (last ?rs)) 0
      (?m\<lparr>mf_nextTableNumber := ?n + 2, mf_logNumber := ?n + 1\<rparr>))\<lparr>mf_lastSeq := db_nextSeq db - 1\<rparr>"
    by (simp add: flushed_manifest_def flush_manifest_def Let_def)
  have "addTable ?n (file_size ?p ?w1) (rec_key (hd ?rs)) (rec_key (last ?rs)) 0
      (?m\<lparr>mf_nextTableNumber := ?n + 2, mf_logNumber := ?n + 1\<rparr>)
      = (Inr (), snd (addTable ?n (of_nat (length ?img)) (rec_key (hd ?rs)) (rec_key (last ?rs)) 0
      (?m\<lparr>mf_nextTableNumber := ?n + 2, mf_logNumber := ?n + 1\<rparr>)))"
    unfolding sz by (rule flush_added(1) [OF cat rs])
  moreover have "(if \<not> path_exists (?dir @ [''sstable'']) w then io_outer (create_directories (?dir @ [''sstable''])) else io_ret ())
      (w, x) = Some (Inr (), (w0, x))" for x :: DB
    using w0(1) by (auto simp: io_outer_def split: if_splits)
  ultimately show ?thesis
    using b d(2) filled_props(1) [OF o] unfolding fillFlush_def Let_def
    by (simp add: fm on_manifest_def manifest_act_def manifest_try_def db_get_def io_bind_def io_outer_def
        allocateNumber_def nominal_fs_throwing setLogNumber_def setLastSeq_def add.commute [of 2] cong: if_cong)
qed

lemma flush_saved:
  assumes o: "db_open fp T bs w db" and ne: "MemTable_size (db_activeMemTable db) \<noteq> 0"
  shows "Manifest_save (flushed_manifest fp db) (filled fp w db) = Some (Inr (), flush_files fp w db)"
    "dir_ok (db_dataDirectory db) (flush_files fp w db)" "mf_path (flushed_manifest fp db) = manifest_path (db_dataDirectory db)"
proof -
  let ?dir = "db_dataDirectory db" and ?rs = "mt_records (db_activeMemTable db)"
  have cat: "catalogue_ok fp T w ?dir (db_manifest db)" and mp: "mf_path (db_manifest db) = manifest_path ?dir"
    using o by (simp_all add: db_open_def db_ready_def db_inv_def)
  have rs: "?rs \<noteq> []" "sorted_records ?rs" using mem_table_ok [OF o ne] by (simp_all add: table_ok_def)
  show p: "mf_path (flushed_manifest fp db) = manifest_path ?dir"
    using flush_added(4) [OF cat rs] mp by (simp add: flushed_manifest_def)
  have w2: "flush_files fp w db = publish (manifest_path ?dir) (manifest_bytes (flushed_manifest fp db)) (filled fp w db)"
    by (simp add: flush_files_def filled_def Let_def)
  note f = filled_props [OF o]
  show "Manifest_save (flushed_manifest fp db) (filled fp w db) = Some (Inr (), flush_files fp w db)"
    using Manifest_save_nominal [OF f(1), of "flushed_manifest fp db"] dir_ok_writable [OF f(2)] by (simp add: w2 p)
  show "dir_ok ?dir (flush_files fp w db)" unfolding w2 by (rule dir_ok_publish [OF f(2)]) simp_all
qed

lemma flushed_wal_fresh:
  assumes o: "db_open fp T bs w db" and room: "unat (mf_nextTableNumber (db_manifest db)) + 2 < 2 ^ 64"
  shows "content_of w (flushed_wal db) = None" "db_walFilePath db \<noteq> flushed_wal db"
    "content_of w (db_walFilePath db) = Some (wal_header @ wal_frames bs)"
proof -
  have "mf_nextTableNumber (db_manifest db) < mf_nextTableNumber (db_manifest db) + 1"
    using next_grows(2) [of "mf_nextTableNumber (db_manifest db)" 1] room by (simp add: word_less_nat_alt)
  then show n: "content_of w (flushed_wal db) = None" using o by (simp add: db_open_def wals_fresh_def flushed_wal_def)
  show c: "content_of w (db_walFilePath db) = Some (wal_header @ wal_frames bs)"
    using o wal_state_path [of bs w db] by (simp add: db_open_def wal_state_def log_open_def open_on_def)
  show "db_walFilePath db \<noteq> flushed_wal db" using n c by auto
qed

lemma switchLog_run:
  assumes o: "db_open fp T bs w db" and ne: "MemTable_size (db_activeMemTable db) \<noteq> 0"
    and room: "unat (mf_nextTableNumber (db_manifest db)) + 2 < 2 ^ 64"
  shows "switchLog (db_dataDirectory db) (mf_nextTableNumber (db_manifest db) + 1)
      (flush_files fp w db, db\<lparr>db_manifest := flushed_manifest fp db\<rparr>)
    = Some (Inr (), (flush_world fp w db, flush_db fp w db))"
proof -
  let ?dir = "db_dataDirectory db" and ?n = "mf_nextTableNumber (db_manifest db)" and ?mem = "db_activeMemTable db"
  let ?w2 = "flush_files fp w db" and ?db1 = "db\<lparr>db_manifest := flushed_manifest fp db\<rparr>"
  have d: "nominal w" "?dir \<noteq> []" using open_dir [OF o] by simp_all
  note fr = flushed_wal_fresh [OF o room]
  have "content_of ?w2 (flushed_wal db) = None"
    using fr(1) by (simp add: flush_files_content [OF d(2)] flushed_wal_def)
  then have mt: "MemTable_new (flushed_wal db) ?w2 = Some (Inr (empty_memtable (flushed_wal db) (writer_at (flushed_wal db) w)),
      set_file (flushed_wal db) wal_header (attach (flushed_wal db) ?w2))"
    using MemTable_create [OF _ dir_ok_creatable [OF flush_saved(2) [OF o ne]], of "?n + 1"]
      flush_files_fields(1) [OF d(1)] flush_files_fields(2) [of fp w db]
    by (simp add: flushed_wal_def writer_at_def)
  let ?w3 = "set_file (flushed_wal db) wal_header (attach (flushed_wal db) ?w2)"
  have n3: "nominal ?w3" using flush_files_fields(1) [OF d(1)] by simp
  have "db_walFilePath db = walPath ?dir (mf_logNumber (db_manifest db))" using o by (simp add: db_open_def wal_state_def)
  then have "content_of ?w3 (db_walFilePath db) = Some (wal_header @ wal_frames bs)"
    using fr(2,3) by (simp add: flush_files_content [OF d(2)])
  then have "removeFile (db_walFilePath db) ''remove wal file failed'' (MemTable_dtor ?mem ?w3) = Some (Inr (), flush_world fp w db)"
    using n3 by (simp add: removeFile_nominal flush_world_def nominal_dtor [OF n3])
  with mt show ?thesis
    by (simp add: switchLog_def replace_memTable_def db_get_def db_upd_def io_bind_def io_outer_def Let_def flush_db_def
        flip: flushed_wal_def)
qed

lemma flush_body_run:
  assumes o: "db_open fp T bs w db" and ne: "MemTable_size (db_activeMemTable db) \<noteq> 0"
    and room: "unat (mf_nextTableNumber (db_manifest db)) + 2 < 2 ^ 64"
  shows "flush_body fp (w, db) = maybeCompact fp (flush_world fp w db, flush_db fp w db)"
  using fillFlush_run [OF o ne] flush_saved(1) [OF o ne] switchLog_run [OF o ne room]
  by (simp add: flush_body_split io_bind_def io_outer_def db_get_def)

text \<open>The database after a flush is open, with an empty log, and holds the same records.\<close>

lemma dtor_fields:
  assumes "nominal w"
  shows "content_of (MemTable_dtor m w) = content_of w" "nominal (MemTable_dtor m w)" "w_dirs (MemTable_dtor m w) = w_dirs w"
    "fd \<noteq> wal_fd (mt_walWriter m) \<Longrightarrow> map_of (w_fds (MemTable_dtor m w)) fd = map_of (w_fds w) fd"
  using assms by (auto simp: nominal_dtor delete_conv' fun_eq_iff)

lemma flush_world_props:
  assumes o: "db_open fp T bs w db"
  shows "nominal (flush_world fp w db)" "dir_ok (db_dataDirectory db) (flush_world fp w db)"
    "content_of (flush_world fp w db) p =
      (if p = db_walFilePath db then None else if p = flushed_wal db then Some wal_header
       else content_of (flush_files fp w db) p)"
    "map_of (w_fds (flush_world fp w db)) (fresh_fd (w_fds w)) = Some (flushed_wal db)"
proof -
  let ?w2 = "flush_files fp w db" and ?dir = "db_dataDirectory db" and ?mem = "db_activeMemTable db"
  let ?w3 = "set_file (flushed_wal db) wal_header (attach (flushed_wal db) ?w2)"
  have d: "dir_ok ?dir w" "nominal w" using open_dir [OF o] by simp_all
  have n3: "nominal ?w3" using flush_files_fields(1) [OF d(2)] by simp
  have "dir_ok ?dir ?w2"
    unfolding flush_files_def Let_def using flush_prepared(2) [OF d] by (intro dir_ok_publish) simp_all
  then have d3: "dir_ok ?dir ?w3" unfolding flushed_wal_def by (rule dir_ok_attach)
  show "nominal (flush_world fp w db)" using dtor_fields(2) [OF n3] by (simp add: flush_world_def)
  show "content_of (flush_world fp w db) p =
      (if p = db_walFilePath db then None else if p = flushed_wal db then Some wal_header else content_of ?w2 p)"
    using dtor_fields(1) [OF n3] by (simp add: flush_world_def)
  show "dir_ok ?dir (flush_world fp w db)"
    unfolding flush_world_def using dtor_fields(1,3) [OF n3] d3
    by (intro dir_ok_del_file) (auto simp: dir_ok_def)
  have "map_of (w_fds w) (wal_fd (mt_walWriter ?mem)) \<noteq> None"
    using o by (simp add: db_open_def wal_state_def log_open_def open_on_def)
  then have "fresh_fd (w_fds w) \<noteq> wal_fd (mt_walWriter ?mem)" by (metis fresh_fd_lookup)
  then show "map_of (w_fds (flush_world fp w db)) (fresh_fd (w_fds w)) = Some (flushed_wal db)"
    using dtor_fields(4) [OF n3] flush_files_fields(2) [of fp w db] by (simp add: flush_world_def)
qed

lemma flush_all_tables:
  assumes "catalogue_ok fp T w dir m" "rs \<noteq> []" "sorted_records rs"
  shows "set (all_tables (flush_manifest fp rs q m)) = insert (slice_meta fp (mf_nextTableNumber m) rs) (set (all_tables m))"
  using flush_level [OF assms] by (auto simp: in_all_tables)

lemma flush_records:
  assumes o: "db_open fp T bs w db" and ne: "MemTable_size (db_activeMemTable db) \<noteq> 0"
  shows "set (db_records (T(mf_nextTableNumber (db_manifest db) := mt_records (db_activeMemTable db))) (flush_db fp w db))
    = set (db_records T db)"
proof -
  let ?m = "db_manifest db" and ?rs = "mt_records (db_activeMemTable db)"
  let ?T = "T(mf_nextTableNumber ?m := ?rs)" and ?t = "slice_meta fp (mf_nextTableNumber ?m) ?rs"
  have cat: "catalogue_ok fp T w (db_dataDirectory db) ?m" using o by (simp add: db_open_def db_ready_def db_inv_def)
  have rs: "?rs \<noteq> []" "sorted_records ?rs" using mem_table_ok [OF o ne] by (simp_all add: table_ok_def)
  have tabs: "set (all_tables (flushed_manifest fp db)) = insert ?t (set (all_tables ?m))"
    using flush_all_tables [OF cat rs] by (simp add: flushed_manifest_def)
  have "tbl ?T t = tbl T t" if "t \<in> set (all_tables ?m)" for t
    using that flush_tbl [OF cat] by (auto simp: in_all_tables)
  moreover have "tbl ?T ?t = ?rs" by (simp add: tbl_def)
  moreover have "set (db_records ?T (flush_db fp w db)) = (\<Union>t \<in> set (all_tables (flushed_manifest fp db)). set (tbl ?T t))"
    by (simp add: db_records_def sources_def flush_db_def)
  ultimately show ?thesis by (simp add: tabs db_records_def sources_def)
qed

lemma records_fit_set:
  assumes "records_fit xs" "distinct ys" "set ys \<subseteq> set xs"
  shows "records_fit ys"
  using assms mset_distinct_sub [OF assms(2,3)] by (rule_tac records_fit_sub)

lemma flush_inv:
  assumes o: "db_open fp T bs w db" and ne: "MemTable_size (db_activeMemTable db) \<noteq> 0"
    and room: "unat (mf_nextTableNumber (db_manifest db)) + 2 < 2 ^ 64"
  shows "db_ready fp (T(mf_nextTableNumber (db_manifest db) := mt_records (db_activeMemTable db)))
      (flush_world fp w db) (flush_db fp w db)"
proof -
  let ?m = "db_manifest db" and ?rs = "mt_records (db_activeMemTable db)" and ?dir = "db_dataDirectory db"
  let ?n = "mf_nextTableNumber ?m" and ?w = "flush_world fp w db" and ?db = "flush_db fp w db"
  let ?T = "T(?n := ?rs)"
  have inv: "db_inv fp T w db" and fp: "fp_ok fp" and fit: "records_fit (db_records T db)" and mp: "mf_path ?m = manifest_path ?dir"
    using o by (simp_all add: db_open_def db_ready_def)
  then have cat: "catalogue_ok fp T w ?dir ?m" and newer: "\<forall>t \<in> set (all_tables ?m). newer_than ?rs (tbl T t)"
    and cache: "cache_ok fp T db" by (simp_all add: db_inv_def)
  have ok: "table_ok fp ?rs" by (rule mem_table_ok [OF o ne])
  then have rs: "?rs \<noteq> []" "sorted_records ?rs" by (simp_all add: table_ok_def)
  have dir: "?dir \<noteq> []" using open_dir [OF o] by simp
  have wal: "db_walFilePath db = walPath ?dir (mf_logNumber ?m)" using o by (simp add: db_open_def wal_state_def)
  note c = flush_world_props(3) [OF o] and a = flush_added [OF cat rs]
  have cat': "catalogue_ok fp ?T ?w ?dir (flushed_manifest fp db)"
    unfolding flushed_manifest_def
  proof (rule flush_catalogue [OF cat ok newer room])
    show "content_of ?w (sstablePath ?dir ?n) = Some (sst_image fp ?rs)"
      by (simp add: c flush_files_content [OF dir] wal flushed_wal_def)
    show "\<forall>t \<in> set (all_tables ?m). content_of ?w (sstablePath ?dir (tm_number t)) = content_of w (sstablePath ?dir (tm_number t))"
    proof
      fix t
      assume "t \<in> set (all_tables ?m)"
      then have "tm_number t \<noteq> ?n" using number_bound [OF cat, of t] by auto
      then show "content_of ?w (sstablePath ?dir (tm_number t)) = content_of w (sstablePath ?dir (tm_number t))"
        by (simp add: c flush_files_content [OF dir] wal flushed_wal_def)
    qed
  qed
  have gr: "?n < ?n + 2" using next_grows(2) [of ?n 2] room by (simp add: word_less_nat_alt)
  have "cache_ok fp ?T ?db"
    unfolding cache_ok_def
  proof (intro allI impI conjI)
    fix k st
    assume "map_of (db_tableCache ?db) k = Some st"
    then have k: "k < ?n" "k \<in> tm_number ` set (all_tables ?m) \<Longrightarrow> st = sst_of (sstablePath ?dir k) fp (T k)"
      using cache by (auto simp: cache_ok_def flush_db_def)
    show "k < mf_nextTableNumber (db_manifest ?db)"
      using k(1) gr by (simp add: flush_db_def flushed_manifest_def a order_less_trans)
    assume "k \<in> tm_number ` set (all_tables (db_manifest ?db))"
    then have "k \<in> tm_number ` set (all_tables ?m)"
      using k(1) by (auto simp: flush_db_def flushed_manifest_def flush_all_tables [OF cat rs])
    with k show "st = sst_of (sstablePath (db_dataDirectory ?db) k) fp (?T k)" by (auto simp: flush_db_def)
  qed
  moreover have set: "set (db_records ?T ?db) = set (db_records T db)" by (rule flush_records [OF o ne])
  moreover have "\<forall>r \<in> set (db_records T db). rec_seq r < db_nextSeq db" using inv by (simp add: db_inv_def)
  ultimately have inv': "db_inv fp ?T ?w ?db"
    using cat' by (simp add: db_inv_def) (simp add: flush_db_def)
  have "records_fit (db_records ?T ?db)"
    using records_fit_set [OF fit db_records_distinct [OF inv']] set by simp
  with inv' fp mp a(4) flush_world_props(1,2) [OF o] show ?thesis
    by (simp add: db_ready_def) (simp add: flush_db_def flushed_manifest_def)
qed

lemma seq_pred: "0 < n \<Longrightarrow> (r :: u64) \<le> n - 1 \<longleftrightarrow> r < n"
proof -
  assume "0 < n"
  then have n: "1 \<le> unat n" by (simp add: word_less_nat_alt)
  then have "unat (n - 1) = unat n - 1" by (simp add: unat_sub_if')
  with n show ?thesis unfolding word_le_nat_alt word_less_nat_alt by linarith
qed

text \<open>The fields of the database after a flush, as numbers and paths.\<close>

lemma flush_db_fields:
  assumes o: "db_open fp T bs w db" and ne: "MemTable_size (db_activeMemTable db) \<noteq> 0"
    and room: "unat (mf_nextTableNumber (db_manifest db)) + 2 < 2 ^ 64"
  shows "mf_nextTableNumber (db_manifest (flush_db fp w db)) = mf_nextTableNumber (db_manifest db) + 2"
    "mf_logNumber (db_manifest (flush_db fp w db)) = mf_nextTableNumber (db_manifest db) + 1"
    "mf_lastSeq (db_manifest (flush_db fp w db)) = db_nextSeq db - 1"
    "db_dataDirectory (flush_db fp w db) = db_dataDirectory db" "db_nextSeq (flush_db fp w db) = db_nextSeq db"
    "unat (mf_nextTableNumber (db_manifest db) + 1) = unat (mf_nextTableNumber (db_manifest db)) + 1"
    "unat (mf_nextTableNumber (db_manifest db) + 2) = unat (mf_nextTableNumber (db_manifest db)) + 2"
proof -
  let ?n = "mf_nextTableNumber (db_manifest db)"
  have cat: "catalogue_ok fp T w (db_dataDirectory db) (db_manifest db)" using o by (simp add: db_open_def db_ready_def db_inv_def)
  have rs: "mt_records (db_activeMemTable db) \<noteq> []" "sorted_records (mt_records (db_activeMemTable db))"
    using mem_table_ok [OF o ne] by (simp_all add: table_ok_def)
  show "mf_nextTableNumber (db_manifest (flush_db fp w db)) = ?n + 2" "mf_logNumber (db_manifest (flush_db fp w db)) = ?n + 1"
    "mf_lastSeq (db_manifest (flush_db fp w db)) = db_nextSeq db - 1"
    "db_dataDirectory (flush_db fp w db) = db_dataDirectory db" "db_nextSeq (flush_db fp w db) = db_nextSeq db"
    by (simp_all add: flush_db_def flushed_manifest_def flush_added [OF cat rs])
  show "unat (?n + 1) = unat ?n + 1" "unat (?n + 2) = unat ?n + 2"
    using next_grows(2) [of ?n 1] next_grows(2) [of ?n 2] room by simp_all
qed

lemma flush_fresh:
  assumes o: "db_open fp T bs w db" and ne: "MemTable_size (db_activeMemTable db) \<noteq> 0"
    and room: "unat (mf_nextTableNumber (db_manifest db)) + 2 < 2 ^ 64"
  shows "tables_fresh (flush_world fp w db) (flush_db fp w db)" "wals_fresh (flush_world fp w db) (flush_db fp w db)"
proof -
  let ?dir = "db_dataDirectory db" and ?n = "mf_nextTableNumber (db_manifest db)"
  have dir: "?dir \<noteq> []" using open_dir [OF o] by simp
  have wal: "db_walFilePath db = walPath ?dir (mf_logNumber (db_manifest db))" using o by (simp add: db_open_def wal_state_def)
  note c = flush_world_props(3) [OF o] and f = flush_db_fields(1-5) [OF o ne room] and u = flush_db_fields(6,7) [OF o ne room]
  show "tables_fresh (flush_world fp w db) (flush_db fp w db)"
    unfolding tables_fresh_def
  proof (intro allI impI)
    fix k
    assume "mf_nextTableNumber (db_manifest (flush_db fp w db)) \<le> k"
    then have k: "unat ?n + 2 \<le> unat k" using u by (simp add: f word_le_nat_alt)
    then have "?n \<noteq> k" "?n \<le> k" by (auto simp: word_le_nat_alt)
    then show "content_of (flush_world fp w db) (sstablePath (db_dataDirectory (flush_db fp w db)) k) = None"
      using o by (auto simp: f c flush_files_content [OF dir] wal flushed_wal_def db_open_def tables_fresh_def)
  qed
  have "content_of (flush_world fp w db) (walPath ?dir k) = None" if "?n + 2 < k" for k
  proof -
    have "?n < k" "k \<noteq> ?n + 1" using that u by (auto simp: word_less_nat_alt)
    then show ?thesis using o by (auto simp: c flush_files_content [OF dir] wal flushed_wal_def db_open_def wals_fresh_def)
  qed
  then show "wals_fresh (flush_world fp w db) (flush_db fp w db)" using u by (simp add: wals_fresh_def f word_le_nat_alt)
qed

lemma flush_seqs:
  assumes o: "db_open fp T bs w db" and ne: "MemTable_size (db_activeMemTable db) \<noteq> 0"
    and room: "unat (mf_nextTableNumber (db_manifest db)) + 2 < 2 ^ 64"
  shows "seqs_ok (T(mf_nextTableNumber (db_manifest db) := mt_records (db_activeMemTable db))) (flush_db fp w db)" (is "seqs_ok ?T ?db")
proof -
  have inv: "db_inv fp T w db" using o by (simp add: db_open_def db_ready_def)
  have lt: "\<forall>r \<in> set (db_records ?T ?db). rec_seq r < db_nextSeq db"
    using flush_records [OF o ne] inv by (simp add: db_inv_def)
  have "0 < db_nextSeq db" by (rule open_nextSeq [OF o])
  then have "r \<le> db_nextSeq db - 1 \<longleftrightarrow> r < db_nextSeq db" for r by (rule seq_pred)
  moreover have "getMaxWALSeq (db_activeMemTable ?db) = 0" by (simp add: flush_db_def getMaxWALSeq_def empty_memtable_def)
  moreover have "max (db_nextSeq db - 1) 0 = db_nextSeq db - 1" by (simp add: max_absorb1)
  ultimately show ?thesis using lt by (auto simp: seqs_ok_def flush_db_fields [OF o ne room] db_records_def sources_def)
qed

lemma flush_open:
  assumes o: "db_open fp T bs w db" and ne: "MemTable_size (db_activeMemTable db) \<noteq> 0"
    and room: "unat (mf_nextTableNumber (db_manifest db)) + 2 < 2 ^ 64"
  shows "db_open fp (T(mf_nextTableNumber (db_manifest db) := mt_records (db_activeMemTable db))) []
      (flush_world fp w db) (flush_db fp w db)" "saved (flush_world fp w db) (flush_db fp w db)"
proof -
  let ?m = "db_manifest db" and ?rs = "mt_records (db_activeMemTable db)" and ?dir = "db_dataDirectory db"
  let ?n = "mf_nextTableNumber ?m" and ?w = "flush_world fp w db" and ?db = "flush_db fp w db"
  let ?T = "T(?n := ?rs)"
  have inv: "db_inv fp T w db" using o by (simp add: db_open_def db_ready_def)
  then have cat: "catalogue_ok fp T w ?dir ?m" by (simp add: db_inv_def)
  have rs: "?rs \<noteq> []" "sorted_records ?rs" using mem_table_ok [OF o ne] by (simp_all add: table_ok_def)
  have dir: "?dir \<noteq> []" using open_dir [OF o] by simp
  have wal: "db_walFilePath db = walPath ?dir (mf_logNumber ?m)" using o by (simp add: db_open_def wal_state_def)
  note c = flush_world_props(3) [OF o] and a = flush_added [OF cat rs]
  have f: "db_manifest ?db = flushed_manifest fp db" "db_dataDirectory ?db = ?dir" "db_walFilePath ?db = flushed_wal db"
    "db_activeMemTable ?db = empty_memtable (flushed_wal db) (writer_at (flushed_wal db) w)" "db_nextSeq ?db = db_nextSeq db"
    "db_compactionBaseThresholdBytes ?db = db_compactionBaseThresholdBytes db"
    "db_activeSnapshotSequences ?db = db_activeSnapshotSequences db"
    by (simp_all add: flush_db_def)
  have m: "mf_nextTableNumber (flushed_manifest fp db) = ?n + 2" "mf_logNumber (flushed_manifest fp db) = ?n + 1"
    "mf_lastSeq (flushed_manifest fp db) = db_nextSeq db - 1"
    by (simp_all add: flushed_manifest_def a)
  have u: "unat (?n + 1) = unat ?n + 1" "unat (?n + 2) = unat ?n + 2"
    using next_grows(2) [of ?n 1] next_grows(2) [of ?n 2] room by simp_all
  show sv: "saved ?w ?db"
    by (simp add: saved_def f c flush_files_content [OF dir] wal flushed_wal_def)
  have "mf_logNumber ?m \<le> ?n" using o by (simp add: db_open_def wals_fresh_def)
  then have neq: "?n + 1 \<noteq> mf_logNumber ?m" using u by (auto simp: word_le_nat_alt)
  have "wal_state [] ?w ?db"
    using flush_world_props(4) [OF o] neq
    by (simp add: wal_state_def log_open_def open_on_def f m c wal flushed_wal_def writer_at_def empty_memtable_def
        wal_frames_def batches_ok_def apply_records_def)
  moreover have "in_budget (db_compactionBaseThresholdBytes db) (flushed_manifest fp db)"
    using o flush_level [OF cat rs] unfolding db_open_def in_budget_def flushed_manifest_def
    by (metis (no_types, lifting) list.set_intros(1) neq_Nil_conv not_numeral_le_zero list.set_cases)
  ultimately show "db_open fp ?T [] ?w ?db"
    using flush_inv [OF o ne room] flush_fresh [OF o ne room] flush_seqs [OF o ne room] sv o by (simp add: db_open_def stored_def snaps_ok_def f)
qed

section \<open>Table numbers for the compactions of a flush\<close>

lemma level_records_sum:
  "(\<Sum>i<n. level_records T (f i)) = length (concat (map (tbl T) (concat (map f [0..<n]))))"
  by (induction n) (simp_all add: level_records_def length_concat comp_def)

lemma weight_bound:
  assumes "length (mf_levels m) \<le> 21"
  shows "weight T m \<le> 21 * length (concat (map (tbl T) (all_tables m)))"
proof -
  have "weight T m \<le> (\<Sum>i<21. 21 * level_records T (Manifest_level i m))"
    unfolding weight_def by (intro sum_mono mult_le_mono1) simp
  also have "\<dots> = 21 * (\<Sum>i<21. level_records T (Manifest_level i m))" by (simp add: sum_distrib_left)
  also have "(\<Sum>i<21. level_records T (Manifest_level i m)) = (\<Sum>i<length (mf_levels m). level_records T (Manifest_level i m))"
    using assms by (intro sum.mono_neutral_right) (auto simp: Manifest_level_def level_records_def)
  also have "\<dots> = length (concat (map (tbl T) (all_tables m)))"
    by (simp only: all_tables_levels levelCount_def level_records_sum)
  finally show ?thesis .
qed

text \<open>The numbers that a flush of a database of \<open>n\<close> records takes at most.\<close>

definition flush_numbers :: "nat \<Rightarrow> nat" where
  "flush_numbers n = 2 + n * (21 * n + 1)"

lemma flush_numbers_mono: "m \<le> n \<Longrightarrow> flush_numbers m \<le> flush_numbers n"
  unfolding flush_numbers_def by (intro add_mono mult_le_mono) simp_all

lemma numbers_used:
  assumes inv: "db_inv fp T' w' db'" and len: "length (db_records T' db') \<le> n"
  shows "2 + length (db_records T' db') * Suc (weight T' (db_manifest db')) \<le> flush_numbers n"
proof -
  have "length (mf_levels (db_manifest db')) \<le> 21" using inv by (simp add: db_inv_def catalogue_ok_def)
  from weight_bound [OF this, of T'] have "weight T' (db_manifest db') \<le> 21 * length (db_records T' db')"
    by (simp add: db_records_def sources_def)
  with len have "length (db_records T' db') * Suc (weight T' (db_manifest db')) \<le> n * (21 * n + 1)"
    by (intro mult_le_mono) simp_all
  then show ?thesis by (simp add: flush_numbers_def)
qed

definition room_for :: "contents \<Rightarrow> DB \<Rightarrow> nat \<Rightarrow> bool" where
  "room_for T db k \<longleftrightarrow>
     unat (mf_nextTableNumber (db_manifest db)) + flush_numbers (length (db_records T db) + k) < 2 ^ 64"

lemma same_records_length:
  assumes "db_inv fp T w db" "db_inv fp' T' w' db'" "set (db_records T' db') \<subseteq> set (db_records T db)"
  shows "length (db_records T' db') \<le> length (db_records T db)"
  using db_records_distinct [OF assms(2)] assms(3) by (intro mset_sub_length mset_distinct_sub)

lemma flush_reads:
  assumes o: "db_open fp T bs w db" and ne: "MemTable_size (db_activeMemTable db) \<noteq> 0"
    and room: "unat (mf_nextTableNumber (db_manifest db)) + 2 < 2 ^ 64"
  shows "visible (db_records (T(mf_nextTableNumber (db_manifest db) := mt_records (db_activeMemTable db))) (flush_db fp w db)) k q
    = visible (db_records T db) k q"
  using flush_records [OF o ne] flush_open(1) [OF o ne room]
  by (intro visible_set_cong) (auto simp: db_open_def db_ready_def intro: db_records_unique)

lemma flush_numbers_left:
  assumes o: "db_open fp T bs w db" and ne: "MemTable_size (db_activeMemTable db) \<noteq> 0" and room: "room_for T db 0"
  defines "T' \<equiv> T(mf_nextTableNumber (db_manifest db) := mt_records (db_activeMemTable db))"
  shows "numbers_left T' (flush_db fp w db)"
    "unat (mf_nextTableNumber (db_manifest (flush_db fp w db)))
      + length (db_records T' (flush_db fp w db)) * Suc (weight T' (db_manifest (flush_db fp w db)))
     \<le> unat (mf_nextTableNumber (db_manifest db)) + flush_numbers (length (db_records T db))"
proof -
  let ?w = "flush_world fp w db" and ?db = "flush_db fp w db"
  have r2: "unat (mf_nextTableNumber (db_manifest db)) + 2 < 2 ^ 64" using room by (simp add: room_for_def flush_numbers_def)
  have inv: "db_inv fp T w db" and inv1: "db_inv fp T' ?w ?db"
    using o flush_open(1) [OF o ne r2] by (simp_all add: db_open_def db_ready_def T'_def)
  have "catalogue_ok fp T w (db_dataDirectory db) (db_manifest db)" using inv by (simp add: db_inv_def)
  moreover have "mt_records (db_activeMemTable db) \<noteq> []" "sorted_records (mt_records (db_activeMemTable db))"
    using mem_table_ok [OF o ne] by (simp_all add: table_ok_def)
  ultimately have "mf_nextTableNumber (db_manifest ?db) = mf_nextTableNumber (db_manifest db) + 2"
    by (simp add: flush_db_def flushed_manifest_def flush_added)
  then have "unat (mf_nextTableNumber (db_manifest ?db)) = unat (mf_nextTableNumber (db_manifest db)) + 2"
    using next_grows(2) [of "mf_nextTableNumber (db_manifest db)" 2] r2 by simp
  moreover have "2 + length (db_records T' ?db) * Suc (weight T' (db_manifest ?db)) \<le> flush_numbers (length (db_records T db))"
    using same_records_length [OF inv inv1] flush_records [OF o ne] by (intro numbers_used [OF inv1]) (simp add: T'_def)
  ultimately show "unat (mf_nextTableNumber (db_manifest ?db)) + length (db_records T' ?db) * Suc (weight T' (db_manifest ?db))
     \<le> unat (mf_nextTableNumber (db_manifest db)) + flush_numbers (length (db_records T db))" by linarith
  with room show "numbers_left T' ?db" unfolding numbers_left_def room_for_def by simp
qed

lemma flush_run:
  assumes o: "db_open fp T bs w db" and ne: "MemTable_size (db_activeMemTable db) \<noteq> 0" and room: "room_for T db 0"
  shows "\<exists>T' w' db'. flush fp (w, db) = Some (Inr (), (w', db')) \<and> db_open fp T' [] w' db' \<and> saved w' db'
    \<and> (\<forall>k q. smallestActiveSnapshot db \<le> q \<longrightarrow> visible (db_records T' db') k q = visible (db_records T db) k q)
    \<and> set (db_records T' db') \<subseteq> set (db_records T db) \<and> settled db' \<and> mt_records (db_activeMemTable db') = []
    \<and> db_nextSeq db' = db_nextSeq db \<and> db_writeFailed db' = db_writeFailed db
    \<and> db_dataDirectory db' = db_dataDirectory db
    \<and> db_compactionBaseThresholdBytes db' = db_compactionBaseThresholdBytes db
    \<and> db_activeSnapshotSequences db' = db_activeSnapshotSequences db
    \<and> unat (mf_nextTableNumber (db_manifest db'))
        \<le> unat (mf_nextTableNumber (db_manifest db)) + flush_numbers (length (db_records T db))"
proof -
  let ?T = "T(mf_nextTableNumber (db_manifest db) := mt_records (db_activeMemTable db))"
  let ?w = "flush_world fp w db" and ?db = "flush_db fp w db"
  have r2: "unat (mf_nextTableNumber (db_manifest db)) + 2 < 2 ^ 64" using room by (simp add: room_for_def flush_numbers_def)
  note o1 = flush_open [OF o ne r2] and run = flush_body_run [OF o ne r2]
  have ready: "db_ready fp ?T ?w ?db" using o1(1) by (simp add: db_open_def)
  have set: "set (db_records ?T ?db) = set (db_records T db)" by (rule flush_records [OF o ne])
  note left = flush_numbers_left [OF o ne room]
  with maybeCompact_run [OF ready] o1(1) obtain T' w' db' where
    mc: "maybeCompact fp (?w, ?db) = Some (Inr (), (w', db'))" "compacted fp ?T ?w ?db T' w' db'"
    "in_budget (db_compactionBaseThresholdBytes db') (db_manifest db')" "settled db'"
    and "unat (mf_nextTableNumber (db_manifest db'))
      \<le> unat (mf_nextTableNumber (db_manifest ?db)) + length (db_records ?T ?db) * Suc (weight ?T (db_manifest ?db))"
    by (auto simp: db_open_def)
  then have num: "unat (mf_nextTableNumber (db_manifest db'))
      \<le> unat (mf_nextTableNumber (db_manifest db)) + flush_numbers (length (db_records T db))"
    using left(2) by linarith
  have "db_open fp T' [] w' db'" by (rule compacted_open [OF o1(1) mc(2) _ mc(3)]) (simp add: o1(2))
  moreover have "flush fp (w, db) = Some (Inr (), (w', db'))"
    using run mc(1) ne by (simp add: flush_def db_get_def io_bind_def io_try_def)
  moreover have "smallestActiveSnapshot ?db = smallestActiveSnapshot db"
    by (simp add: smallestActiveSnapshot_def flush_db_def)
  moreover have "visible (db_records ?T ?db) k q = visible (db_records T db) k q" for k q by (rule flush_reads [OF o ne r2])
  moreover have "set (db_records T' db') \<subseteq> set (db_records ?T ?db)"
    using mc(2) set_mset_mono [of "mset (db_records T' db')" "mset (db_records ?T ?db)"] by (simp add: compacted_def)
  ultimately show ?thesis
    using mc set compacted_fields [OF mc(2)] o1(2) num
    by (intro exI [of _ T'] exI [of _ w'] exI [of _ db']) (simp add: compacted_def flush_db_def)
qed

section \<open>A write\<close>

lemma apply_records_set:
  assumes "mem_inv m" "sorted_wrt (\<lambda>a b. rec_seq a < rec_seq b) rs"
    and "\<forall>x \<in> set (mt_records m). \<forall>r \<in> set rs. rec_seq x < rec_seq r"
  shows "set (mt_records (apply_records rs m)) = set (mt_records m) \<union> set rs"
  using assms
proof (induction rs arbitrary: m)
  case Nil
  then show ?case by (simp add: apply_records_def)
next
  case (Cons r rs)
  let ?m = "applyToMemory (rec_key r) (record_entry r) m"
  have "{x \<in> set (mt_records m). rkey x \<noteq> rkey r} = set (mt_records m)"
    using Cons.prems(3) by (fastforce simp: rkey_eq)
  then have set: "set (mt_records ?m) = insert r (set (mt_records m))"
    using applyToMemory_records [OF Cons.prems(1), of r] by simp
  have "set (mt_records (apply_records rs ?m)) = set (mt_records ?m) \<union> set rs"
    using Cons.prems by (intro Cons.IH applyToMemory_inv) (auto simp: set)
  then show ?case by (simp add: apply_records_def set)
qed

lemma apply_records_size: "mt_records m = [] \<longleftrightarrow> MemTable_size m = 0"
  by (simp add: mt_records_def MemTable_size_def)

text \<open>The database after a batch was logged and applied.\<close>

definition logged :: "Record list \<Rightarrow> string \<Rightarrow> world \<Rightarrow> DB \<Rightarrow> world" where
  "logged rs c w db = (if rs = [] then w
     else set_file (db_walFilePath db) (c @ encodeWALFrame (batch_payload rs)) w)"

definition applied :: "Record list \<Rightarrow> DB \<Rightarrow> DB" where
  "applied rs db = db\<lparr>db_nextSeq := db_nextSeq db + of_nat (length rs),
     db_activeMemTable := apply_records rs (db_activeMemTable db)\<rparr>"

lemma applied_fields [simp]:
  "db_manifest (applied rs db) = db_manifest db" "db_dataDirectory (applied rs db) = db_dataDirectory db"
  "db_walFilePath (applied rs db) = db_walFilePath db" "db_writeFailed (applied rs db) = db_writeFailed db"
  "db_activeSnapshotSequences (applied rs db) = db_activeSnapshotSequences db"
  "db_tableCache (applied rs db) = db_tableCache db" "db_nextSeq (applied rs db) = db_nextSeq db + of_nat (length rs)"
  "db_compactionBaseThresholdBytes (applied rs db) = db_compactionBaseThresholdBytes db"
  "db_activeMemTable (applied rs db) = apply_records rs (db_activeMemTable db)"
  by (simp_all add: applied_def)

lemma applied_run:
  assumes o: "db_open fp T bs w db"
  shows "on_memTable (applyBatch rs) (w, db\<lparr>db_nextSeq := db_nextSeq db + of_nat (length rs)\<rparr>)
    = Some (Inr True, (logged rs (wal_header @ wal_frames bs) w db, applied rs db))"
proof (cases "rs = []")
  case True
  then show ?thesis by (simp add: on_memTable_def applyBatch_def logged_def applied_def apply_records_def)
next
  case False
  have wal: "wal_state bs w db" and n: "nominal w" using o by (simp_all add: db_open_def db_ready_def)
  then have "log_open w (db_activeMemTable db) (wal_header @ wal_frames bs)" "\<not> poisoned (db_activeMemTable db)"
    "db_walFilePath db = mt_logPath (db_activeMemTable db)"
    using wal_state_path [OF wal] by (simp_all add: wal_state_def)
  with nominal_applyBatch [OF n _ _ False] False show ?thesis
    by (simp add: on_memTable_def logged_def applied_def)
qed

lemma batch_seqs:
  assumes rs: "rs = number_records n brs" and seqs: "unat n + length brs < 2 ^ 64" and r: "r \<in> set rs"
  shows "n \<le> rec_seq r" "rec_seq r < n + of_nat (length rs)"
  using number_records_seqs [of n brs r] next_grows(2) [OF seqs] assms
  by (simp_all add: word_le_nat_alt word_less_nat_alt)

lemma batch_above:
  assumes o: "db_open fp T bs w db" and rs: "rs = number_records (db_nextSeq db) brs"
    and seqs: "unat (db_nextSeq db) + length brs < 2 ^ 64"
    and x: "x \<in> set (db_records T db)" "r \<in> set rs"
  shows "rec_seq x < rec_seq r"
proof -
  have "rec_seq x < db_nextSeq db" using o x(1) by (simp add: db_open_def db_ready_def db_inv_def)
  with batch_seqs(1) [OF rs seqs x(2)] show ?thesis by order
qed

lemma applied_records:
  assumes o: "db_open fp T bs w db" and rs: "rs = number_records (db_nextSeq db) brs"
    and seqs: "unat (db_nextSeq db) + length brs < 2 ^ 64"
  shows "set (mt_records (apply_records rs (db_activeMemTable db))) = set (mt_records (db_activeMemTable db)) \<union> set rs"
    "set (db_records T (applied rs db)) = set (db_records T db) \<union> set rs"
proof -
  have inv: "db_inv fp T w db" using o by (simp add: db_open_def db_ready_def)
  have "\<forall>x \<in> set (mt_records (db_activeMemTable db)). \<forall>r \<in> set rs. rec_seq x < rec_seq r"
    using batch_above [OF o rs seqs] by (simp add: db_records_def sources_def)
  then show mem: "set (mt_records (apply_records rs (db_activeMemTable db))) = set (mt_records (db_activeMemTable db)) \<union> set rs"
    using inv number_records_ascending [of "db_nextSeq db" brs] seqs rs by (intro apply_records_set) (simp_all add: db_inv_def)
  then show "set (db_records T (applied rs db)) = set (db_records T db) \<union> set rs"
    by (auto simp: db_records_def sources_def)
qed

lemma applied_inv:
  assumes o: "db_open fp T bs w db" and rs: "rs = number_records (db_nextSeq db) brs"
    and seqs: "unat (db_nextSeq db) + length brs < 2 ^ 64"
    and files: "\<And>n. content_of w' (sstablePath (db_dataDirectory db) n) = content_of w (sstablePath (db_dataDirectory db) n)"
  shows "db_inv fp T w' (applied rs db)"
proof -
  let ?mem = "apply_records rs (db_activeMemTable db)"
  have inv: "db_inv fp T w db" using o by (simp add: db_open_def db_ready_def)
  note r = applied_records [OF o rs seqs]
  have grow: "db_nextSeq db \<le> db_nextSeq db + of_nat (length rs)" using next_grows(1) [OF seqs] rs by simp
  have "newer_than (mt_records ?mem) (tbl T t)" if t: "t \<in> set (all_tables (db_manifest db))" for t
    unfolding newer_than_def
  proof (intro ballI impI)
    fix x y
    assume x: "x \<in> set (mt_records ?mem)" and y: "y \<in> set (tbl T t)" and k: "rec_key x = rec_key y"
    have "y \<in> set (db_records T db)" using y t by (auto simp: db_records_def sources_def)
    moreover have "newer_than (mt_records (db_activeMemTable db)) (tbl T t)" using inv t by (simp add: db_inv_def)
    ultimately show "rec_seq y < rec_seq x" using x y k batch_above [OF o rs seqs] by (auto simp: r newer_than_def)
  qed
  moreover have "rec_seq x < db_nextSeq db + of_nat (length rs)" if "x \<in> set (db_records T (applied rs db))" for x
  proof (cases "x \<in> set rs")
    case True
    then show ?thesis by (rule batch_seqs(2) [OF rs seqs])
  next
    case False
    with that inv have "rec_seq x < db_nextSeq db" by (simp add: r db_inv_def)
    with grow show ?thesis by order
  qed
  moreover have "catalogue_ok fp T w' (db_dataDirectory db) (db_manifest db)"
    using inv files by (simp add: db_inv_def catalogue_ok_def table_at_def table_file_def)
  ultimately show ?thesis using inv apply_records_inv by (simp add: db_inv_def cache_ok_def)
qed

lemma max_seq_bound:
  assumes "mem_inv m" "r \<in> set (mt_records m)"
  shows "rec_seq r \<le> getMaxWALSeq m"
proof -
  from assms(2) obtain k e where e: "(k, e) \<in> set (mt_table m)" "rec_seq r = ent_seq e"
    by (auto simp: mt_records_def entry_record_def)
  then have "ent_seq e \<in> (\<lambda>(k, e). ent_seq e) ` set (mt_table m)" by force
  with assms(1) e(2) show ?thesis
    by (simp add: mem_inv_def getMaxWALSeq_def fold_max_eq)
qed

lemma max_seq_cases:
  assumes "mem_inv m"
  shows "getMaxWALSeq m = 0 \<or> (\<exists>r \<in> set (mt_records m). getMaxWALSeq m = rec_seq r)"
proof -
  let ?S = "(\<lambda>(k, e). ent_seq e) ` set (mt_table m)"
  have "Max (insert 0 ?S) \<in> insert 0 ?S" by (rule Max_in) simp_all
  then have "getMaxWALSeq m = 0 \<or> getMaxWALSeq m \<in> ?S" using assms by (simp add: mem_inv_def getMaxWALSeq_def fold_max_eq)
  then show ?thesis by (force simp: mt_records_def entry_record_def)
qed

text \<open>After a batch the largest number in the MemTable is the last one given.\<close>

lemma applied_max:
  assumes o: "db_open fp T bs w db" and rs: "rs = number_records (db_nextSeq db) brs"
    and seqs: "unat (db_nextSeq db) + length brs < 2 ^ 64" and last: "mf_lastSeq (db_manifest db) < db_nextSeq db"
  shows "db_nextSeq db + of_nat (length rs)
    = max (mf_lastSeq (db_manifest db)) (getMaxWALSeq (apply_records rs (db_activeMemTable db))) + 1"
proof (cases "rs = []")
  case True
  then show ?thesis using o by (simp add: db_open_def seqs_ok_def apply_records_def)
next
  case False
  let ?n = "db_nextSeq db" and ?mem = "apply_records rs (db_activeMemTable db)"
  let ?top = "?n + of_nat (length rs) - 1"
  have inv: "db_inv fp T w db" using o by (simp add: db_open_def db_ready_def)
  have mi: "mem_inv ?mem" using inv by (simp add: db_inv_def apply_records_inv)
  have len: "0 < length brs" "length rs = length brs" using False rs by simp_all
  have u: "unat (?n + of_nat (length rs)) = unat ?n + length rs" using next_grows(2) [OF seqs] len by simp
  then have pos: "0 < ?n + of_nat (length rs)" using len by (simp add: word_less_nat_alt)
  have top: "?top = ?n + of_nat (length brs - 1)" using len by (cases "length brs") simp_all
  have "number_records ?n brs ! (length brs - 1) \<in> set rs" using len rs by simp
  moreover have "?top = rec_seq (number_records ?n brs ! (length brs - 1))"
    unfolding top using len(1) by (simp add: number_records_nth)
  ultimately have "?top \<in> rec_seq ` set rs" by (rule image_eqI [rotated])
  then have ge: "?top \<le> getMaxWALSeq ?mem"
    using max_seq_bound [OF mi] applied_records(1) [OF o rs seqs] by auto
  have "rec_seq r < ?n + of_nat (length rs)" if "r \<in> set (mt_records ?mem)" for r
    using applied_inv [OF o rs seqs refl] that by (simp add: db_inv_def db_records_def sources_def)
  then have "getMaxWALSeq ?mem < ?n + of_nat (length rs)" using max_seq_cases [OF mi] pos by auto
  then have "getMaxWALSeq ?mem \<le> ?top" using seq_pred [OF pos] by simp
  with ge have eq: "getMaxWALSeq ?mem = ?top" by simp
  have "?n \<le> ?top" unfolding top by (rule next_grows) (use seqs len in simp)
  with last have "mf_lastSeq (db_manifest db) \<le> ?top" by order
  then show ?thesis by (simp add: eq max_absorb2)
qed

text \<open>The frame of a batch of records that fit their fields is within the limits of the log.\<close>

lemma records_fit_payload:
  assumes "\<forall>r \<in> set rs. encodable r"
  shows "length (concat (map encodeWALRecord rs)) \<le> 4 * length (records_bytes rs)"
  using assms
proof (induction rs)
  case (Cons r rs)
  have "length (to_string (unat (rec_seq r))) \<le> 20" "length (to_string (length (rec_key r))) \<le> 20"
    "length (to_string (length (rec_value r))) \<le> 20"
    using Cons.prems unsigned_less [of "rec_seq r"] by (auto simp: encodable_def intro!: length_to_string64)
  then have "length (encodeWALRecord r) \<le> 4 * length (record_bytes r)"
    using Cons.prems by (auto simp: encodeWALRecord_def length_record_bytes)
  with Cons show ?case by (simp add: records_bytes_def)
qed (simp add: records_bytes_def)

lemma records_fit_batch:
  assumes "records_fit rs"
  shows "batches_ok [rs]"
proof -
  have "length (to_string (length rs)) \<le> 20" using assms by (intro length_to_string64) (simp add: records_fit_def)
  moreover have "length (concat (map encodeWALRecord rs)) \<le> 4 * length (records_bytes rs)"
    using assms by (intro records_fit_payload) (simp add: records_fit_def)
  ultimately show ?thesis
    using assms by (auto simp: batches_ok_def batch_payload_def records_fit_def loggable_def encodable_def)
qed
text \<open>What a batch has to satisfy: its counters and sizes fit their fields.\<close>

definition batch_fits :: "contents \<Rightarrow> DB \<Rightarrow> WriteBatch \<Rightarrow> bool" where
  "batch_fits T db b \<longleftrightarrow>
     (let rs = number_records (db_nextSeq db) (wb_records b)
      in unat (db_nextSeq db) + length rs < 2 ^ 64 \<and> records_fit (db_records T db @ rs)
        \<and> room_for T db (length rs))"

lemma applied_open:
  assumes o: "db_open fp T bs w db" and fit: "batch_fits T db b"
  defines "rs \<equiv> number_records (db_nextSeq db) (wb_records b)"
  shows "db_open fp T (if rs = [] then bs else bs @ [rs]) (logged rs (wal_header @ wal_frames bs) w db) (applied rs db)"
proof -
  let ?w = "logged rs (wal_header @ wal_frames bs) w db" and ?db = "applied rs db" and ?p = "db_walFilePath db"
  have seqs: "unat (db_nextSeq db) + length (wb_records b) < 2 ^ 64" and rf: "records_fit (db_records T db @ rs)"
    using fit by (simp_all add: batch_fits_def Let_def rs_def)
  have bo: "batches_ok [rs]" by (rule records_fit_batch [OF records_fit_sub [OF rf]]) simp
  have rdy: "db_ready fp T w db" and wal: "wal_state bs w db" using o by (simp_all add: db_open_def)
  have p: "?p = walPath (db_dataDirectory db) (mf_logNumber (db_manifest db))" using wal by (simp add: wal_state_def)
  have c: "content_of ?w q = content_of w q" if "q \<noteq> ?p" for q using that by (simp add: logged_def)
  have f: "nominal ?w = nominal w" "w_dirs ?w = w_dirs w" "w_fds ?w = w_fds w" by (simp_all add: logged_def)
  note r = applied_records [OF o _ seqs] applied_inv [OF o _ seqs]
  have rs: "rs = number_records (db_nextSeq db) (wb_records b)" by (simp add: rs_def)
  have inv: "db_inv fp T ?w ?db" by (rule r(3) [OF rs]) (simp add: c p)
  have "dir_ok (db_dataDirectory db) ?w"
  proof (rule dir_ok_files)
    show d: "dir_ok (db_dataDirectory db) w" using rdy by (simp add: db_ready_def)
    have "data_file (db_dataDirectory db) ?p" by (simp add: p)
    from data_file_not_dir [OF this] d show "content_of ?w q = None" if "q \<in> data_dirs (db_dataDirectory db)" for q
      using that c [of q] by (auto simp: dir_ok_def)
  qed (simp add: f)
  moreover have "records_fit (db_records T ?db)"
    using records_fit_set [OF rf db_records_distinct [OF inv]] r(2) [OF rs] by simp
  ultimately have rdy': "db_ready fp T ?w ?db" using rdy inv f by (simp add: db_ready_def)
  have "wal_state (if rs = [] then bs else bs @ [rs]) ?w ?db"
  proof (cases "rs = []")
    case True
    then show ?thesis using wal by (simp add: wal_state_def logged_def apply_records_def)
  next
    case False
    from wal obtain ww where "db_activeMemTable db = apply_records (concat bs) (empty_memtable ?p ww)"
      by (auto simp: wal_state_def)
    then have "\<exists>ww. apply_records rs (db_activeMemTable db) = apply_records (concat (bs @ [rs])) (empty_memtable ?p ww)"
      by (intro exI [of _ ww]) (simp add: apply_records_append)
    moreover have "log_open ?w (apply_records rs (db_activeMemTable db)) (wal_header @ wal_frames (bs @ [rs]))"
      using wal wal_state_path [OF wal] False p by (simp add: wal_state_def log_open_def open_on_def logged_def wal_frames_snoc)
    ultimately show ?thesis using wal False bo p by (simp add: wal_state_def)
  qed
  moreover have "seqs_ok T ?db" "snaps_ok ?db"
  proof -
    have le: "db_nextSeq db \<le> db_nextSeq db + of_nat (length rs)" using next_grows(1) [OF seqs] by (simp add: rs_def)
    then show "snaps_ok ?db" using o by (auto simp: db_open_def snaps_ok_def intro: order_less_le_trans)
    have last: "mf_lastSeq (db_manifest db) < db_nextSeq db" by (rule open_lastSeq [OF o])
    with le have "mf_lastSeq (db_manifest db) < db_nextSeq db + of_nat (length rs)" by order
    moreover have "\<forall>t \<in> set (all_tables (db_manifest db)). \<forall>r \<in> set (tbl T t). rec_seq r \<le> mf_lastSeq (db_manifest db)"
      using o unfolding db_open_def seqs_ok_def by blast
    ultimately show "seqs_ok T ?db" using applied_max [OF o rs seqs last] unfolding seqs_ok_def applied_fields by blast
  qed
  moreover have "tables_fresh ?w ?db" using o c p by (simp add: db_open_def tables_fresh_def)
  moreover have "wals_fresh ?w ?db" using o p by (auto simp: db_open_def wals_fresh_def logged_def)
  moreover have "stored ?w ?db" using o c p by (simp add: db_open_def stored_def saved_def)
  ultimately show ?thesis using rdy' o by (simp add: db_open_def)
qed

lemma write_exec:
  assumes "\<not> db_writeFailed db"
    and "on_memTable (applyBatch (number_records (db_nextSeq db) (wb_records b)))
      (w, db\<lparr>db_nextSeq := db_nextSeq db + of_nat (length (wb_records b))\<rparr>) = Some (Inr True, (w1, db1))"
    and "(if size_bytes (db_activeMemTable db1) > db_flushThresholdBytes db1 then flush fp (w1, db1) else Some (Inr (), (w1, db1)))
      = Some (Inr (), s')"
  shows "DB_write fp b (w, db) = Some (Inr True, s')"
  using assms
  by (auto simp: DB_write_def db_get_def db_upd_def io_bind_def io_try_def Let_def split: if_splits)

lemma DB_write_run:
  assumes o: "db_open fp T bs w db" and ok: "\<not> db_writeFailed db" and fit: "batch_fits T db b"
  defines "rs \<equiv> number_records (db_nextSeq db) (wb_records b)"
  shows "\<exists>T' bs' w' db'. DB_write fp b (w, db) = Some (Inr True, (w', db')) \<and> db_open fp T' bs' w' db'
    \<and> (\<forall>k q. smallestActiveSnapshot db' \<le> q \<longrightarrow> visible (db_records T' db') k q = visible (db_records T db @ rs) k q)
    \<and> db_nextSeq db' = db_nextSeq db + of_nat (length rs) \<and> \<not> db_writeFailed db'
    \<and> db_dataDirectory db' = db_dataDirectory db
    \<and> db_compactionBaseThresholdBytes db' = db_compactionBaseThresholdBytes db
    \<and> db_activeSnapshotSequences db' = db_activeSnapshotSequences db
    \<and> set (db_records T' db') \<subseteq> set (db_records T db @ rs)
    \<and> unat (mf_nextTableNumber (db_manifest db'))
        \<le> unat (mf_nextTableNumber (db_manifest db)) + flush_numbers (length (db_records T db) + length rs)"
proof -
  let ?w1 = "logged rs (wal_header @ wal_frames bs) w db" and ?db1 = "applied rs db"
  define bs1 where "bs1 = (if rs = [] then bs else bs @ [rs])"
  have o1: "db_open fp T bs1 ?w1 ?db1" unfolding bs1_def rs_def by (rule applied_open [OF o fit])
  have app: "on_memTable (applyBatch (number_records (db_nextSeq db) (wb_records b)))
      (w, db\<lparr>db_nextSeq := db_nextSeq db + of_nat (length (wb_records b))\<rparr>) = Some (Inr True, (?w1, ?db1))"
    using applied_run [OF o, of rs] by (simp add: rs_def)
  have seqs: "unat (db_nextSeq db) + length (wb_records b) < 2 ^ 64" and room: "room_for T db (length rs)"
    using fit by (simp_all add: batch_fits_def Let_def rs_def)
  have inv1: "db_inv fp T ?w1 ?db1" using o1 by (simp add: db_open_def db_ready_def)
  have set: "set (db_records T ?db1) = set (db_records T db @ rs)"
    using applied_records(2) [OF o _ seqs] by (simp add: rs_def)
  have vis: "visible (db_records T ?db1) k q = visible (db_records T db @ rs) k q" for k q
    using set db_records_unique [OF inv1] by (rule visible_set_cong)
  show ?thesis
  proof (cases "size_bytes (db_activeMemTable ?db1) > db_flushThresholdBytes ?db1 \<and> MemTable_size (db_activeMemTable ?db1) \<noteq> 0")
    case True
    have "length (db_records T ?db1) \<le> length (db_records T db @ rs)"
      using db_records_distinct [OF inv1] set by (intro mset_sub_length mset_distinct_sub) simp_all
    then have len: "length (db_records T ?db1) \<le> length (db_records T db) + length rs" by simp
    then have le: "flush_numbers (length (db_records T ?db1)) \<le> flush_numbers (length (db_records T db) + length rs)"
      by (rule flush_numbers_mono)
    with room have "room_for T ?db1 0" by (simp add: room_for_def)
    from flush_run [OF o1 _ this] True obtain T' w' db' where
      f: "flush fp (?w1, ?db1) = Some (Inr (), (w', db'))" "db_open fp T' [] w' db'"
      "\<forall>k q. smallestActiveSnapshot ?db1 \<le> q \<longrightarrow> visible (db_records T' db') k q = visible (db_records T ?db1) k q"
      "db_nextSeq db' = db_nextSeq ?db1" "db_writeFailed db' = db_writeFailed ?db1"
      "db_activeSnapshotSequences db' = db_activeSnapshotSequences ?db1"
      "set (db_records T' db') \<subseteq> set (db_records T ?db1)"
      "db_dataDirectory db' = db_dataDirectory ?db1"
      "db_compactionBaseThresholdBytes db' = db_compactionBaseThresholdBytes ?db1"
      "unat (mf_nextTableNumber (db_manifest db')) \<le> unat (mf_nextTableNumber (db_manifest ?db1)) + flush_numbers (length (db_records T ?db1))"
      by blast
    have "smallestActiveSnapshot ?db1 = smallestActiveSnapshot db'" using f by (simp add: smallestActiveSnapshot_def)
    then show ?thesis
      using write_exec [OF ok app, of fp "(w', db')"] True f vis ok set le
      by (intro exI [of _ T'] exI [of _ "[]"] exI [of _ w'] exI [of _ db']) simp
  next
    case False
    then have "flush fp (?w1, ?db1) = Some (Inr (), (?w1, ?db1))" if "size_bytes (db_activeMemTable ?db1) > db_flushThresholdBytes ?db1"
      using that by (simp add: flush_def db_get_def io_bind_def)
    then have "DB_write fp b (w, db) = Some (Inr True, (?w1, ?db1))"
      using write_exec [OF ok app, of fp "(?w1, ?db1)"] by auto
    then show ?thesis
      using o1 vis ok set by (intro exI [of _ T] exI [of _ bs1] exI [of _ ?w1] exI [of _ ?db1]) simp
  qed
qed

end
