(* ===== verification/DBOpen.thy ===== *)
theory DBOpen
  imports DBWrites
begin

text \<open>
  Opening a database: the directory is created if it is missing, the catalogue is loaded, files that
  no catalogue entry names are swept, and the log is replayed. Opening the directory of a database
  that was dropped gives a database with the same records.
\<close>

section \<open>Sweeping\<close>

text \<open>Files were only removed, and none that matters.\<close>

definition swept :: "(path \<Rightarrow> bool) \<Rightarrow> world \<Rightarrow> world \<Rightarrow> bool" where
  "swept K w w' \<longleftrightarrow> w_dirs w' = w_dirs w \<and> w_fds w' = w_fds w \<and> nominal w'
     \<and> (\<forall>p. content_of w' p = content_of w p \<or> content_of w' p = None \<and> \<not> K p)"

lemma swept_refl: "nominal w \<Longrightarrow> swept K w w"
  by (simp add: swept_def)

lemma swept_trans: "swept K w w1 \<Longrightarrow> swept K w1 w2 \<Longrightarrow> swept K w w2"
  unfolding swept_def by metis

lemma swept_del: "nominal w \<Longrightarrow> \<not> K p \<Longrightarrow> swept K w (del_file p w)"
  by (simp add: swept_def)

lemma swept_keeps: "swept K w w' \<Longrightarrow> K p \<Longrightarrow> content_of w' p = content_of w p"
  unfolding swept_def by metis

lemma swept_none: "swept K w w' \<Longrightarrow> content_of w p = None \<Longrightarrow> content_of w' p = None"
  unfolding swept_def by metis

lemma swept_dir_ok: "swept K w w' \<Longrightarrow> dir_ok dir w \<Longrightarrow> dir_ok dir w'"
  by (rule dir_ok_files) (auto simp: dir_ok_def swept_none dest: swept_def [THEN iffD1])

lemma temps_swept:
  assumes "nominal w" "\<And>p. p \<in> set ps \<Longrightarrow> K p \<Longrightarrow> extension (last p) \<noteq> ''.tmp''"
  shows "\<exists>w'. cleanupOrphanedTemps_loop ps w = Some (Inr (), w') \<and> swept K w w'"
  using assms
proof (induction ps arbitrary: w)
  case (Cons p ps)
  show ?case
  proof (cases "content_of w p \<noteq> None \<and> extension (last p) = ''.tmp''")
    case True
    then have "\<not> K p" using Cons.prems(2) [of p] by auto
    then have d: "swept K w (del_file p w)" using Cons.prems(1) by (intro swept_del)
    have "\<exists>w'. cleanupOrphanedTemps_loop ps (del_file p w) = Some (Inr (), w') \<and> swept K (del_file p w) w'"
      using Cons.prems by (intro Cons.IH) simp_all
    then obtain w' where "cleanupOrphanedTemps_loop ps (del_file p w) = Some (Inr (), w')" "swept K (del_file p w) w'"
      by blast
    with swept_trans [OF d] True Cons.prems(1) show ?thesis
      by (auto simp: io_bind_def io_act_def fs_query_def is_regular_file_def fs_remove_def sys_remove_def)
  next
    case False
    moreover have "\<exists>w'. cleanupOrphanedTemps_loop ps w = Some (Inr (), w') \<and> swept K w w'"
      using Cons.prems by (intro Cons.IH) simp_all
    ultimately show ?thesis using Cons.prems(1)
      by (auto simp: io_bind_def io_act_def fs_query_def is_regular_file_def split: bool.split)
  qed
qed (auto intro: swept_refl)

definition untracked :: "u64 list \<Rightarrow> path \<Rightarrow> bool" where
  "untracked active p \<longleftrightarrow> extension (last p) = ''.sst''
     \<and> (\<exists>n. parseNumberedFile (last p) kSSTablePrefix kSSTableSuffix = Some n \<and> n \<notin> set active)"

lemma tables_swept:
  assumes "nominal w" "\<And>p. p \<in> set ps \<Longrightarrow> K p \<Longrightarrow> \<not> untracked active p"
  shows "\<exists>w'. cleanupUntrackedSSTables_loop active ps w = Some (Inr (), w') \<and> swept K w w'
    \<and> (\<forall>p \<in> set ps. untracked active p \<longrightarrow> content_of w' p = None)"
  using assms
proof (induction ps arbitrary: w)
  case (Cons p ps)
  have rest: "\<exists>w'. cleanupUntrackedSSTables_loop active ps v = Some (Inr (), w') \<and> swept K v w'
      \<and> (\<forall>p \<in> set ps. untracked active p \<longrightarrow> content_of w' p = None)" if "nominal v" for v
    using that Cons.prems(2) by (intro Cons.IH) auto
  show ?case
  proof (cases "content_of w p \<noteq> None \<and> untracked active p")
    case True
    then have d: "swept K w (del_file p w)" using Cons.prems by (intro swept_del) auto
    from rest [of "del_file p w"] Cons.prems(1) obtain w' where
      w': "cleanupUntrackedSSTables_loop active ps (del_file p w) = Some (Inr (), w')" "swept K (del_file p w) w'"
      "\<forall>p \<in> set ps. untracked active p \<longrightarrow> content_of w' p = None" by auto
    have "content_of w' p = None" using swept_none [OF w'(2)] by simp
    with swept_trans [OF d w'(2)] w' True Cons.prems(1) show ?thesis
      by (auto simp: untracked_def io_bind_def io_act_def fs_query_def is_regular_file_def removeFile_nominal)
  next
    case False
    from rest [OF Cons.prems(1)] obtain w' where
      w': "cleanupUntrackedSSTables_loop active ps w = Some (Inr (), w')" "swept K w w'"
      "\<forall>p \<in> set ps. untracked active p \<longrightarrow> content_of w' p = None" by blast
    have "untracked active p \<Longrightarrow> content_of w' p = None" using False swept_none [OF w'(2)] by auto
    with w' False Cons.prems(1) show ?thesis
      by (auto simp: untracked_def io_bind_def io_act_def fs_query_def is_regular_file_def split: option.split bool.split)
  qed
qed (auto intro: swept_refl)

lemma wals_swept:
  assumes "nominal w" "\<And>p n. p \<in> set ps \<Longrightarrow> K p \<Longrightarrow> parseNumberedFile (last p) kWalPrefix kWalSuffix = Some n \<Longrightarrow> \<not> n < current"
  shows "\<exists>w'. cleanupOldWALFiles_loop current ps w = Some (Inr (), w') \<and> swept K w w'"
  using assms
proof (induction ps arbitrary: w)
  case (Cons p ps)
  have rest: "\<exists>w'. cleanupOldWALFiles_loop current ps v = Some (Inr (), w') \<and> swept K v w'" if "nominal v" for v
    using that Cons.prems(2) by (intro Cons.IH) auto
  let ?num = "parseNumberedFile (last p) kWalPrefix kWalSuffix"
  show ?case
  proof (cases "content_of w p \<noteq> None \<and> (\<exists>n. ?num = Some n \<and> n < current)")
    case True
    then obtain n where n: "?num = Some n" "n < current" by blast
    then have d: "swept K w (del_file p w)" using Cons.prems by (intro swept_del) auto
    from rest [of "del_file p w"] Cons.prems(1) obtain w' where
      "cleanupOldWALFiles_loop current ps (del_file p w) = Some (Inr (), w')" "swept K (del_file p w) w'" by auto
    with swept_trans [OF d] True n Cons.prems(1) show ?thesis
      by (auto simp: io_bind_def io_act_def fs_query_def is_regular_file_def removeFile_nominal)
  next
    case False
    then show ?thesis using rest [OF Cons.prems(1)] Cons.prems(1)
      by (auto simp: io_bind_def io_act_def fs_query_def is_regular_file_def split: option.split bool.split)
  qed
qed (auto intro: swept_refl)

lemma for_directory_swept:
  assumes "nominal w" "\<And>w ps. nominal w \<Longrightarrow> \<forall>p \<in> set ps. p \<noteq> [] \<and> butlast p = d \<Longrightarrow>
      \<exists>w'. body ps w = Some (Inr (), w') \<and> swept K w w'"
  shows "\<exists>w'. for_directory d body w = Some (Inr (), w') \<and> swept K w w'"
proof -
  have "\<forall>p \<in> set (dir_entries d w). p \<noteq> [] \<and> butlast p = d" by (simp add: dir_entries_def)
  from assms(2) [OF assms(1) this] show ?thesis
    using assms(1) by (auto simp: for_directory_def io_bind_def nominal_fs_throwing io_act_def fs_query_def intro: swept_refl)
qed

lemma for_directory_gone:
  assumes "nominal w" "d \<in> set (w_dirs w)" "\<And>w ps. nominal w \<Longrightarrow> \<forall>p \<in> set ps. p \<noteq> [] \<and> butlast p = d \<Longrightarrow>
      \<exists>w'. body ps w = Some (Inr (), w') \<and> swept K w w' \<and> (\<forall>p \<in> set ps. U p \<longrightarrow> content_of w' p = None)"
  shows "\<exists>w'. for_directory d body w = Some (Inr (), w') \<and> swept K w w'
    \<and> (\<forall>p. p \<noteq> [] \<longrightarrow> butlast p = d \<longrightarrow> U p \<longrightarrow> content_of w' p = None)"
proof -
  have "\<forall>p \<in> set (dir_entries d w). p \<noteq> [] \<and> butlast p = d" by (simp add: dir_entries_def)
  from assms(3) [OF assms(1) this] obtain w' where
    w': "body (dir_entries d w) w = Some (Inr (), w')" "swept K w w'"
    "\<forall>p \<in> set (dir_entries d w). U p \<longrightarrow> content_of w' p = None" by blast
  have "content_of w' p = None" if "p \<noteq> []" "butlast p = d" "U p" for p
  proof (cases "p \<in> set (dir_entries d w)")
    case False
    with that have "content_of w p = None" by (simp add: dir_entries_def map_of_eq_None_iff)
    then show ?thesis by (rule swept_none [OF w'(2)])
  qed (use w'(3) that in blast)
  with w' assms(1,2) show ?thesis
    by (auto simp: for_directory_def io_bind_def nominal_fs_throwing io_act_def fs_query_def path_exists_def is_dir_def)
qed

lemma orphans_swept:
  assumes "nominal w" "\<And>w ps. nominal w \<Longrightarrow> \<forall>p \<in> set ps. p \<noteq> [] \<and> butlast p = d \<Longrightarrow>
      \<exists>w'. cleanupOrphanedTemps_loop ps w = Some (Inr (), w') \<and> swept K w w'"
  shows "\<exists>w'. cleanupOrphanedTemps d w = Some (Inr (), w') \<and> swept K w w'"
proof -
  have "\<forall>p \<in> set (dir_entries d w). p \<noteq> [] \<and> butlast p = d" by (simp add: dir_entries_def)
  from assms(2) [OF assms(1) this] show ?thesis
    using assms(1) by (auto simp: cleanupOrphanedTemps_def io_bind_def io_act_def fs_query_def intro: swept_refl)
qed

text \<open>The files a database needs: its catalogue, its tables and its current log.\<close>

definition needed_file :: "path \<Rightarrow> Manifest \<Rightarrow> path \<Rightarrow> bool" where
  "needed_file dir m p \<longleftrightarrow> p = manifest_path dir \<or> p = walPath dir (mf_logNumber m)
     \<or> (\<exists>t \<in> set (all_tables m). p = sstablePath dir (tm_number t))"

lemma extension_suffix:
  assumes "a \<noteq> []" "CHR ''.'' \<notin> set s" "s \<noteq> []"
  shows "extension (a @ CHR ''.'' # s) = CHR ''.'' # s"
proof -
  have "takeWhile (\<lambda>c. c \<noteq> CHR ''.'') (rev s @ CHR ''.'' # rev a) = rev s"
    using assms(2) by (subst takeWhile_append2) auto
  moreover have "length s + 1 < length (a @ CHR ''.'' # s)" using assms(1) by (cases a) auto
  moreover have "a @ CHR ''.'' # s \<noteq> ''..''" using assms by (cases a; cases "tl a") auto
  ultimately show ?thesis by (simp add: extension_def)
qed

lemma needed_table:
  assumes "needed_file dir m p" "butlast p = dir @ [''sstable'']"
  obtains t where "t \<in> set (all_tables m)" "p = sstablePath dir (tm_number t)"
  using assms by (auto simp: needed_file_def)

lemma needed_log: "needed_file dir m p \<Longrightarrow> butlast p = dir @ [''wal''] \<Longrightarrow> p = walPath dir (mf_logNumber m)"
  by (auto simp: needed_file_def)

lemma set_allTableNumbers: "set (allTableNumbers m) = tm_number ` set (all_tables m)"
  by (simp add: allTableNumbers_def all_tables_def)

text \<open>None of them is a temporary file, an untracked table or an old log.\<close>

lemma table_extension: "extension (last (sstablePath dir n)) = ''.sst''"
proof -
  have "last (sstablePath dir n) = (kSSTablePrefix @ to_string (unat n)) @ CHR ''.'' # ''sst''"
    by (simp add: kSSTableSuffix_def)
  moreover have "extension ((kSSTablePrefix @ to_string (unat n)) @ CHR ''.'' # ''sst'') = CHR ''.'' # ''sst''"
    by (rule extension_suffix) (simp_all add: kSSTablePrefix_def)
  ultimately show ?thesis by simp
qed

lemma needed_not_temp:
  assumes "needed_file dir m p" "butlast p = dir @ [''sstable'']"
  shows "extension (last p) \<noteq> ''.tmp''"
proof -
  from assms obtain t where "t \<in> set (all_tables m)" "p = sstablePath dir (tm_number t)" by (rule needed_table)
  then show ?thesis using table_extension [of dir "tm_number t"] by simp
qed

lemma needed_tracked:
  assumes "needed_file dir m p" "butlast p = dir @ [''sstable'']"
  shows "\<not> untracked (allTableNumbers m) p"
proof -
  from assms obtain t where "t \<in> set (all_tables m)" "p = sstablePath dir (tm_number t)" by (rule needed_table)
  then show ?thesis by (auto simp: untracked_def numbered_file_roundtrip set_allTableNumbers)
qed

lemma needed_log_current:
  assumes "needed_file dir m p" "butlast p = dir @ [''wal'']" "parseNumberedFile (last p) kWalPrefix kWalSuffix = Some n"
  shows "\<not> n < mf_logNumber m"
  using needed_log [OF assms(1,2)] assms(3) by (simp add: numbered_file_roundtrip)

lemma sweep_run:
  assumes "nominal w"
  shows "\<exists>w1. cleanupOrphanedTemps (dir @ [''sstable'']) w = Some (Inr (), w1) \<and> swept (needed_file dir m) w w1"
    "\<exists>w2. cleanupUntrackedSSTables (dir @ [''sstable'']) (allTableNumbers m) w = Some (Inr (), w2) \<and> swept (needed_file dir m) w w2
      \<and> (dir @ [''sstable''] \<in> set (w_dirs w) \<longrightarrow> (\<forall>n. n \<notin> set (allTableNumbers m) \<longrightarrow> content_of w2 (sstablePath dir n) = None))"
    "\<exists>w3. cleanupOldWALFiles (dir @ [''wal'']) (mf_logNumber m) w = Some (Inr (), w3) \<and> swept (needed_file dir m) w w3"
proof -
  show "\<exists>w1. cleanupOrphanedTemps (dir @ [''sstable'']) w = Some (Inr (), w1) \<and> swept (needed_file dir m) w w1"
    by (intro orphans_swept [OF assms] temps_swept) (auto dest: needed_not_temp)
  have gone: "untracked (allTableNumbers m) (sstablePath dir n)" if "n \<notin> set (allTableNumbers m)" for n
    using that table_extension [of dir n] by (simp add: untracked_def numbered_file_roundtrip)
  have loop: "\<exists>w'. cleanupUntrackedSSTables_loop (allTableNumbers m) ps v = Some (Inr (), w') \<and> swept (needed_file dir m) v w'
      \<and> (\<forall>p \<in> set ps. untracked (allTableNumbers m) p \<longrightarrow> content_of w' p = None)"
    if "nominal v" "\<forall>p \<in> set ps. p \<noteq> [] \<and> butlast p = dir @ [''sstable'']" for v ps
    using that needed_tracked by (intro tables_swept) auto
  show "\<exists>w2. cleanupUntrackedSSTables (dir @ [''sstable'']) (allTableNumbers m) w = Some (Inr (), w2) \<and> swept (needed_file dir m) w w2
      \<and> (dir @ [''sstable''] \<in> set (w_dirs w) \<longrightarrow> (\<forall>n. n \<notin> set (allTableNumbers m) \<longrightarrow> content_of w2 (sstablePath dir n) = None))"
  proof (cases "dir @ [''sstable''] \<in> set (w_dirs w)")
    case True
    from for_directory_gone [OF assms True loop] obtain w2 where
      w2: "for_directory (dir @ [''sstable'']) (cleanupUntrackedSSTables_loop (allTableNumbers m)) w = Some (Inr (), w2)"
      "swept (needed_file dir m) w w2"
      "\<forall>p. p \<noteq> [] \<longrightarrow> butlast p = dir @ [''sstable''] \<longrightarrow> untracked (allTableNumbers m) p \<longrightarrow> content_of w2 p = None"
      by blast
    have "content_of w2 (sstablePath dir n) = None" if "n \<notin> set (allTableNumbers m)" for n
      using w2(3) [rule_format, of "sstablePath dir n"] gone [OF that] by simp
    with w2 show ?thesis unfolding cleanupUntrackedSSTables_def by blast
  next
    case False
    have "\<exists>w2. for_directory (dir @ [''sstable'']) (cleanupUntrackedSSTables_loop (allTableNumbers m)) w = Some (Inr (), w2)
        \<and> swept (needed_file dir m) w w2"
      using loop by (intro for_directory_swept [OF assms]) blast
    with False show ?thesis unfolding cleanupUntrackedSSTables_def by blast
  qed
  show "\<exists>w3. cleanupOldWALFiles (dir @ [''wal'']) (mf_logNumber m) w = Some (Inr (), w3) \<and> swept (needed_file dir m) w w3"
    unfolding cleanupOldWALFiles_def
    by (intro for_directory_swept [OF assms] wals_swept) (auto dest: needed_log_current)
qed

section \<open>A directory that can be opened\<close>

definition log_records :: "Record list list \<Rightarrow> Record list" where
  "log_records bs = mt_records (apply_records (concat bs) (empty_memtable [] \<lparr>wal_path = [], wal_fd = 0, wal_poisoned = False\<rparr>))"

lemma log_records_eq: "mt_records (apply_records (concat bs) (empty_memtable p ww)) = log_records bs"
  unfolding log_records_def mt_records_def
  by (intro arg_cong [of _ _ "map entry_record"] apply_records_table) (simp add: empty_memtable_def)

text \<open>
  The log may end in a torn frame, and there may be table files with numbers not yet given, left
  behind by an operation that failed.
\<close>

definition on_disk :: "fp \<Rightarrow> contents \<Rightarrow> Record list list \<Rightarrow> path \<Rightarrow> Manifest \<Rightarrow> world \<Rightarrow> bool" where
  "on_disk fp T bs dir m w \<longleftrightarrow> nominal w \<and> dir_ok dir w \<and> fp_ok fp \<and> catalogue_ok fp T w dir m
     \<and> mf_path m = manifest_path dir
     \<and> (content_of w (manifest_path dir) = Some (manifest_bytes m)
        \<or> content_of w (manifest_path dir) = None \<and> m = empty_manifest (manifest_path dir))
     \<and> ((\<exists>t. content_of w (walPath dir (mf_logNumber m)) = Some (wal_header @ wal_frames bs @ t)
              \<and> incomplete t \<and> \<not> looks_committed t)
        \<or> content_of w (walPath dir (mf_logNumber m)) = None \<and> bs = [])
     \<and> batches_ok bs
     \<and> (\<forall>n \<ge> mf_nextTableNumber m. content_of w (sstablePath dir n) \<noteq> None \<longrightarrow> dir @ [''sstable''] \<in> set (w_dirs w))
     \<and> mf_logNumber m \<le> mf_nextTableNumber m \<and> (\<forall>n > mf_nextTableNumber m. content_of w (walPath dir n) = None)
     \<and> (\<forall>t \<in> set (all_tables m). \<forall>r \<in> set (tbl T t). rec_seq r \<le> mf_lastSeq m) \<and> mf_lastSeq m \<noteq> -1
     \<and> (\<forall>r \<in> set (log_records bs). rec_seq r \<noteq> -1)
     \<and> (\<forall>t \<in> set (all_tables m). newer_than (log_records bs) (tbl T t))
     \<and> records_fit (log_records bs @ concat (map (tbl T) (all_tables m)))"

lemma open_on_disk:
  assumes o: "db_open fp T bs w db"
  shows "on_disk fp T bs (db_dataDirectory db) (db_manifest db) (w\<lparr>w_fds := fds\<rparr>)"
proof -
  have rdy: "db_ready fp T w db" and inv: "db_inv fp T w db" and wal: "wal_state bs w db"
    using o by (simp_all add: db_open_def db_ready_def)
  have mem: "mt_records (db_activeMemTable db) = log_records bs"
    using wal log_records_eq by (auto simp: wal_state_def)
  have lt: "q \<noteq> -1" if "q < db_nextSeq db" for q using that by (metis not_less_iff_gr_or_eq word_n1_ge order.strict_trans1)
  have "content_of w (walPath (db_dataDirectory db) (mf_logNumber (db_manifest db))) = Some (wal_header @ wal_frames bs @ [])"
    using wal wal_state_path [OF wal] by (simp add: wal_state_def log_open_def open_on_def)
  moreover have "incomplete [] \<and> \<not> looks_committed []" by (simp add: incomplete_def looks_committed_Nil)
  moreover have "\<forall>r \<in> set (log_records bs). rec_seq r \<noteq> -1"
    using inv lt by (auto simp: db_inv_def db_records_def sources_def mem)
  moreover have "catalogue_ok fp T (w\<lparr>w_fds := fds\<rparr>) (db_dataDirectory db) (db_manifest db)"
    using inv by (simp add: db_inv_def catalogue_ok_def table_at_def table_file_def)
  moreover have "dir_ok (db_dataDirectory db) (w\<lparr>w_fds := fds\<rparr>)" using rdy by (simp add: db_ready_def dir_ok_def)
  ultimately show ?thesis
    using o rdy inv mem lt
    by (auto simp: on_disk_def db_open_def db_ready_def db_inv_def wal_state_def stored_def saved_def tables_fresh_def
        wals_fresh_def seqs_ok_def db_records_def sources_def)
qed

section \<open>Opening\<close>

lemma ensureDataDirectory_run:
  assumes "dir_ok dir w" "nominal w"
  shows "\<exists>w'. ensureDataDirectory dir w = Some (Inr (), w') \<and> dir_ok dir w' \<and> nominal w'
    \<and> content_of w' = content_of w \<and> w_fds w' = w_fds w \<and> set (w_dirs w) \<subseteq> set (w_dirs w')"
proof (cases "dir \<in> set (w_dirs w)")
  case True
  with assms show ?thesis
    by (simp add: ensureDataDirectory_def io_bind_def nominal_fs_throwing path_exists_def is_dir_def)
next
  case False
  have sub: "set (prefixes dir) \<subseteq> data_dirs dir" by (auto simp: data_dirs_def)
  then have none: "\<forall>q \<in> set (prefixes dir). content_of w q = None" and "content_of w dir = None"
    using assms(1) by (auto simp: dir_ok_def)
  then have run: "ensureDataDirectory dir w = Some (Inr (), mkdirs dir w)"
    using False assms(2) nominal_create_directories [OF assms(2) none]
    by (simp add: ensureDataDirectory_def io_bind_def nominal_fs_throwing path_exists_def create_directories_def io_act_def)
  have "dir_ok dir (mkdirs dir w)"
    by (rule dir_ok_files [OF assms(1)]) (use assms(1) sub in \<open>auto simp: dir_ok_def\<close>)
  with run assms(2) show ?thesis by (auto simp: fun_eq_iff)
qed

lemma catalogue_fits:
  assumes cat: "catalogue_ok fp T w dir m" and fit: "records_fit (concat (map (tbl T) (all_tables m)))"
  shows "manifest_fits m"
proof -
  have at: "table_at fp w dir T t" if "t \<in> set (all_tables m)" for t using cat that by (simp add: catalogue_ok_def)
  have "meta_fits t" if "t \<in> set (all_tables m)" for t
  proof -
    have "tbl T t \<noteq> []" using table_at_sorted [OF at [OF that]] by simp
    then have "hd (tbl T t) \<in> set (tbl T t)" "last (tbl T t) \<in> set (tbl T t)" by simp_all
    then have "encodable (hd (tbl T t))" "encodable (last (tbl T t))" using fit that by (auto simp: records_fit_def)
    then show ?thesis using at [OF that] by (simp add: meta_fits_def table_at_def encodable_def)
  qed
  moreover have "length level < 2 ^ 64" if "level \<in> set (mf_levels m)" for level
  proof -
    have "length level \<le> length (all_tables m)"
      using that split_list [OF that] by (auto simp: all_tables_def)
    also have "\<dots> = length (map (tbl T) (all_tables m))" by simp
    also have "\<dots> \<le> length (concat (map (tbl T) (all_tables m)))"
      using table_at_sorted [OF at] by (intro nonempty_count) auto
    also have "\<dots> < 2 ^ 64" using fit by (simp add: records_fit_def)
    finally show ?thesis .
  qed
  moreover have "length (mf_levels m) < 2 ^ 64" using cat by (simp add: catalogue_ok_def)
  ultimately show ?thesis by (auto simp: manifest_fits_def all_tables_def)
qed

lemma on_disk_manifest:
  assumes d: "on_disk fp T bs dir m w" and c: "content_of w' (manifest_path dir) = content_of w (manifest_path dir)"
    and n: "nominal w'" "dir_ok dir w'"
  shows "Manifest_new (manifest_path dir) w' = Some (Inr m, w')"
proof (cases "content_of w (manifest_path dir)")
  case None
  then have m: "m = empty_manifest (manifest_path dir)" using d by (simp add: on_disk_def)
  have "manifest_path dir \<notin> set (w_dirs w')" using n(2) by (simp add: dir_ok_def)
  with None c n(1) show ?thesis
    by (simp add: m Manifest_new_def io_bind_def io_act_def fs_query_def path_exists_def empty_manifest_def)
next
  case (Some b)
  have cat: "catalogue_ok fp T w dir m" and b: "b = manifest_bytes m" and p: "mf_path m = manifest_path dir"
    and fit: "records_fit (log_records bs @ concat (map (tbl T) (all_tables m)))"
    using d Some by (auto simp: on_disk_def)
  have "records_fit (concat (map (tbl T) (all_tables m)))" by (rule records_fit_sub [OF fit]) simp
  from catalogue_fits [OF cat this] Manifest_load [of w' m] n(1) c Some b p show ?thesis by simp
qed

lemma max_seq_limit:
  assumes "mem_inv m" "\<forall>r \<in> set (mt_records m). rec_seq r \<noteq> -1"
  shows "getMaxWALSeq m \<noteq> -1"
  using max_seq_cases [OF assms(1)] assms(2) by auto

lemma open_log:
  assumes d: "on_disk fp T bs dir m w"
    and c: "content_of w' (walPath dir (mf_logNumber m)) = content_of w (walPath dir (mf_logNumber m))"
    and n: "nominal w'" "dir_ok dir w'"
  defines "p \<equiv> walPath dir (mf_logNumber m)"
  shows "\<exists>w''. MemTable_new p w' = Some (Inr (apply_records (concat bs) (empty_memtable p (writer_at p w'))), w'')
    \<and> nominal w'' \<and> dir_ok dir w'' \<and> map_of (w_fds w'') (fresh_fd (w_fds w')) = Some p
    \<and> content_of w'' = (content_of w')(p \<mapsto> wal_header @ wal_frames bs)"
proof (cases "content_of w p")
  case None
  then have bs: "bs = []" using d by (simp add: on_disk_def p_def)
  have "content_of w' p = None" using None c by (simp add: p_def)
  from MemTable_create [OF n(1) dir_ok_creatable [OF n(2)] this [unfolded p_def]] dir_ok_attach(1) [OF n(2)] n(1)
  show ?thesis by (simp add: bs p_def wal_frames_def apply_records_def)
next
  case (Some l)
  then obtain t where l: "content_of w' p = Some (wal_header @ wal_frames bs @ t)" and b: "batches_ok bs"
    and t: "incomplete t" "\<not> looks_committed t" using d c by (auto simp: on_disk_def p_def)
  let ?good = "length (wal_header @ wal_frames bs)"
  have "parseWALRecords (wal_header @ wal_frames bs @ t) = Inr (wal_entries bs, ?good)"
    using parse_incomplete_tail [OF b t(1)] t(2) by simp
  from MemTable_reopen_gen [OF n(1) dir_ok_creatable [OF n(2)] l [unfolded p_def] refl this]
    dir_ok_attach [OF n(2)] n(1) l
  show ?thesis by (cases "t = []") (simp_all add: p_def fun_upd_idem)
qed

lemma opened_seqs:
  assumes "(a :: u64) \<noteq> -1" "b \<noteq> -1" "r \<le> a \<or> r \<le> b"
  shows "r < max a b + 1"
proof -
  have "max a b \<noteq> -1" using assms(1,2) by (simp add: max_def)
  then have "unat (max a b + 1) = unat (max a b) + 1" using unatSuc [of "max a b"] by (simp add: add.commute add_eq_0_iff)
  then have "max a b < max a b + 1" by (simp add: word_less_nat_alt)
  moreover have "r \<le> max a b" using assms(3) by (simp add: le_max_iff_disj)
  ultimately show ?thesis by order
qed

text \<open>The object that opening gives.\<close>

definition opened :: "path \<Rightarrow> u64 \<Rightarrow> u64 \<Rightarrow> u64 \<Rightarrow> u64 \<Rightarrow> Manifest \<Rightarrow> MemTable \<Rightarrow> DB" where
  "opened dir flushThreshold compactThreshold sliceThreshold base m mem =
     \<lparr>db_activeMemTable = mem, db_dataDirectory = dir, db_walFilePath = walPath dir (mf_logNumber m),
      db_flushThresholdBytes = flushThreshold, db_manifest = m, db_level0CompactionThreshold = compactThreshold,
      db_compactionSliceBytes = sliceThreshold, db_compactionBaseThresholdBytes = base, db_compactionCursors = [],
      db_tableCache = [], db_nextSeq = max (mf_lastSeq m) (getMaxWALSeq mem) + 1,
      db_activeSnapshotSequences = {#}, db_writeFailed = False\<rparr>"

lemma opened_fields [simp]:
  "db_activeMemTable (opened dir f c s b m mem) = mem" "db_dataDirectory (opened dir f c s b m mem) = dir"
  "db_manifest (opened dir f c s b m mem) = m" "db_walFilePath (opened dir f c s b m mem) = walPath dir (mf_logNumber m)"
  "db_compactionBaseThresholdBytes (opened dir f c s b m mem) = b" "db_tableCache (opened dir f c s b m mem) = []"
  "db_nextSeq (opened dir f c s b m mem) = max (mf_lastSeq m) (getMaxWALSeq mem) + 1"
  "db_activeSnapshotSequences (opened dir f c s b m mem) = {#}" "db_writeFailed (opened dir f c s b m mem) = False"
  by (simp_all add: opened_def)

lemma opened_open:
  assumes d: "on_disk fp T bs dir m w" and base: "0 < b" "in_budget b m"
    and w': "nominal w'" "dir_ok dir w'"
    and keep: "\<And>p. needed_file dir m p \<Longrightarrow> p \<noteq> walPath dir (mf_logNumber m) \<Longrightarrow> content_of w' p = content_of w p"
    and none: "\<And>p. p \<noteq> walPath dir (mf_logNumber m) \<Longrightarrow> content_of w p = None \<Longrightarrow> content_of w' p = None"
    and fresh: "\<And>n. mf_nextTableNumber m \<le> n \<Longrightarrow> content_of w' (sstablePath dir n) = None"
    and log: "content_of w' (walPath dir (mf_logNumber m)) = Some (wal_header @ wal_frames bs)"
      "map_of (w_fds w') (wal_fd ww) = Some (walPath dir (mf_logNumber m))" "\<not> wal_poisoned ww"
  defines "mem \<equiv> apply_records (concat bs) (empty_memtable (walPath dir (mf_logNumber m)) ww)"
  shows "db_open fp T bs w' (opened dir f c s b m mem)"
    "db_records T (opened dir f c s b m mem) = log_records bs @ concat (map (tbl T) (all_tables m))"
proof -
  let ?p = "walPath dir (mf_logNumber m)" and ?db = "opened dir f c s b m mem"
  have D: "catalogue_ok fp T w dir m" "fp_ok fp" "mf_path m = manifest_path dir" "batches_ok bs"
    "mf_logNumber m \<le> mf_nextTableNumber m" "mf_lastSeq m \<noteq> -1" "\<forall>r \<in> set (log_records bs). rec_seq r \<noteq> -1"
    "\<forall>t \<in> set (all_tables m). newer_than (log_records bs) (tbl T t)"
    "records_fit (log_records bs @ concat (map (tbl T) (all_tables m)))"
    "\<forall>t \<in> set (all_tables m). \<forall>r \<in> set (tbl T t). rec_seq r \<le> mf_lastSeq m"
    using d by (simp_all add: on_disk_def)
  have "mt_walWriter mem = ww" "mt_logPath mem = ?p" by (simp_all add: mem_def) (simp_all add: empty_memtable_def)
  moreover have "mt_records mem = log_records bs" "mem_inv mem"
    unfolding mem_def by (simp_all add: log_records_eq apply_records_inv)
  ultimately have mem: "mt_records mem = log_records bs" "mem_inv mem" "mt_walWriter mem = ww" "mt_logPath mem = ?p" by simp_all
  show recs: "db_records T ?db = log_records bs @ concat (map (tbl T) (all_tables m))"
    by (simp add: db_records_def sources_def mem)
  have "content_of w' (sstablePath dir (tm_number t)) = content_of w (sstablePath dir (tm_number t))"
    if "t \<in> set (all_tables m)" for t
    using that by (intro keep) (auto simp: needed_file_def)
  then have cat: "catalogue_ok fp T w' dir m" using D(1) by (simp add: catalogue_ok_def table_at_def table_file_def)
  have lim: "getMaxWALSeq mem \<noteq> -1" using max_seq_limit [OF mem(2)] D(7) mem(1) by simp
  have seq: "rec_seq r < max (mf_lastSeq m) (getMaxWALSeq mem) + 1" if "r \<in> set (db_records T ?db)" for r
    using that D(10) max_seq_bound [OF mem(2)] by (intro opened_seqs [OF D(6) lim]) (auto simp: recs mem(1))
  have "db_inv fp T w' ?db" using cat mem D(8) seq by (simp add: db_inv_def cache_ok_def)
  then have "db_ready fp T w' ?db" using w' D recs by (simp add: db_ready_def)
  moreover have "wal_state bs w' ?db"
    using log mem D(4) by (auto simp: wal_state_def log_open_def open_on_def mem_def)
  moreover have "tables_fresh w' ?db" "wals_fresh w' ?db"
    using d D(5) none fresh by (auto simp: on_disk_def tables_fresh_def wals_fresh_def)
  moreover have "seqs_ok T ?db"
    using D(10) opened_seqs [OF D(6) lim] by (simp add: seqs_ok_def)
  moreover have "stored w' ?db"
    using d keep [of "manifest_path dir"] by (auto simp: on_disk_def stored_def saved_def needed_file_def)
  ultimately show "db_open fp T bs w' ?db" using base by (simp add: db_open_def snaps_ok_def)
qed

text \<open>Everything before the log is opened.\<close>

lemma DB_new_swept:
  assumes n: "dir_ok dir w" "nominal w"
    and m: "\<And>v. content_of v (manifest_path dir) = content_of w (manifest_path dir) \<Longrightarrow> nominal v \<Longrightarrow> dir_ok dir v \<Longrightarrow>
      Manifest_new (manifest_path dir) v = Some (Inr m, v)"
  shows "\<exists>v. nominal v \<and> dir_ok dir v \<and> (\<forall>q. needed_file dir m q \<longrightarrow> content_of v q = content_of w q)
    \<and> (\<forall>q. content_of w q = None \<longrightarrow> content_of v q = None)
    \<and> (dir @ [''sstable''] \<in> set (w_dirs w) \<longrightarrow> (\<forall>n. n \<notin> set (allTableNumbers m) \<longrightarrow> content_of v (sstablePath dir n) = None))
    \<and> (\<forall>f c s b. DB_new dir f c s b w
        = io_bind (MemTable_new (walPath dir (mf_logNumber m))) (\<lambda>mem. io_ret (opened dir f c s b m mem)) v)"
proof -
  let ?K = "needed_file dir m"
  from ensureDataDirectory_run [OF n] obtain w1 where
    w1: "ensureDataDirectory dir w = Some (Inr (), w1)" "dir_ok dir w1" "nominal w1" "content_of w1 = content_of w"
    and dirs: "set (w_dirs w) \<subseteq> set (w_dirs w1)" by blast
  have m1: "Manifest_new (manifest_path dir) w1 = Some (Inr m, w1)" using w1 by (intro m) simp_all
  from sweep_run(1) [OF w1(3)] obtain w2 where
    w2: "cleanupOrphanedTemps (dir @ [''sstable'']) w1 = Some (Inr (), w2)" "swept ?K w1 w2" by blast
  then have "nominal w2" by (simp add: swept_def)
  from sweep_run(2) [OF this] obtain w3 where
    w3: "cleanupUntrackedSSTables (dir @ [''sstable'']) (allTableNumbers m) w2 = Some (Inr (), w3)" "swept ?K w2 w3"
    and gone: "dir @ [''sstable''] \<in> set (w_dirs w2) \<longrightarrow> (\<forall>n. n \<notin> set (allTableNumbers m) \<longrightarrow> content_of w3 (sstablePath dir n) = None)"
    by blast
  then have "nominal w3" by (simp add: swept_def)
  from sweep_run(3) [OF this] obtain w4 where
    w4: "cleanupOldWALFiles (dir @ [''wal'']) (mf_logNumber m) w3 = Some (Inr (), w4)" "swept ?K w3 w4" by blast
  have sw: "swept ?K w1 w4" using swept_trans w2(2) w3(2) w4(2) by blast
  have n4: "nominal w4" "dir_ok dir w4" using sw swept_dir_ok [OF sw w1(2)] by (simp_all add: swept_def)
  have keep: "content_of w4 q = content_of w q" if "?K q" for q using swept_keeps [OF sw that] w1(4) by simp
  have none: "content_of w4 q = None" if "content_of w q = None" for q using swept_none [OF sw] that w1(4) by simp
  have "dir @ [''sstable''] \<in> set (w_dirs w2)" if "dir @ [''sstable''] \<in> set (w_dirs w)"
    using that dirs w2(2) by (auto simp: swept_def)
  then have del: "content_of w4 (sstablePath dir n) = None"
    if "dir @ [''sstable''] \<in> set (w_dirs w)" "n \<notin> set (allTableNumbers m)" for n
    using that gone swept_none [OF w4(2)] by blast
  have "DB_new dir f c s b w = io_bind (MemTable_new (walPath dir (mf_logNumber m))) (\<lambda>mem. io_ret (opened dir f c s b m mem)) w4" for f c s b
    using w1(1) m1 w2(1) w3(1) w4(1)
    by (simp add: DB_new_def io_bind_def Let_def opened_def manifest_path_def Manifest_logNumber_def Manifest_lastSeq_def
        split: option.split sum.split)
  with n4 keep none del show ?thesis by blast
qed

lemma DB_new_run:
  assumes d: "on_disk fp T bs dir m w" and base: "0 < b" "in_budget b m"
  shows "\<exists>w' db. DB_new dir f c s b w = Some (Inr db, w') \<and> db_open fp T bs w' db
    \<and> db_records T db = log_records bs @ concat (map (tbl T) (all_tables m))
    \<and> db_activeSnapshotSequences db = {#} \<and> \<not> db_writeFailed db \<and> db_dataDirectory db = dir \<and> db_manifest db = m
    \<and> db_nextSeq db = max (mf_lastSeq m) (getMaxWALSeq (db_activeMemTable db)) + 1
    \<and> db_compactionBaseThresholdBytes db = b"
proof -
  let ?K = "needed_file dir m" and ?p = "walPath dir (mf_logNumber m)"
  have n: "dir_ok dir w" "nominal w" using d by (simp_all add: on_disk_def)
  from DB_new_swept [OF n on_disk_manifest [OF d]] obtain w4 where
    n4: "nominal w4" "dir_ok dir w4" and keep: "\<And>q. ?K q \<Longrightarrow> content_of w4 q = content_of w q"
    and none: "\<And>q. content_of w q = None \<Longrightarrow> content_of w4 q = None"
    and gone: "\<And>n. dir @ [''sstable''] \<in> set (w_dirs w) \<Longrightarrow> n \<notin> set (allTableNumbers m) \<Longrightarrow> content_of w4 (sstablePath dir n) = None"
    and run: "DB_new dir f c s b w = io_bind (MemTable_new ?p) (\<lambda>mem. io_ret (opened dir f c s b m mem)) w4" by blast
  have fresh: "content_of w4 (sstablePath dir n) = None" if n: "mf_nextTableNumber m \<le> n" for n
  proof (cases "content_of w (sstablePath dir n) = None")
    case False
    with d n have "dir @ [''sstable''] \<in> set (w_dirs w)" by (simp add: on_disk_def)
    moreover have "n \<notin> set (allTableNumbers m)"
    proof
      assume "n \<in> set (allTableNumbers m)"
      then obtain t i where "n = tm_number t" "t \<in> set (Manifest_level i m)"
        by (auto simp: set_allTableNumbers in_all_tables)
      moreover have "numbers_ok m" using d by (simp add: on_disk_def catalogue_ok_def)
      ultimately show False using n by (auto simp: numbers_ok_def dest: leD)
    qed
    ultimately show ?thesis by (rule gone)
  qed (rule none)
  from open_log [OF d keep n4] obtain w5 where
    w5: "MemTable_new ?p w4 = Some (Inr (apply_records (concat bs) (empty_memtable ?p (writer_at ?p w4))), w5)"
    "nominal w5" "dir_ok dir w5" "map_of (w_fds w5) (fresh_fd (w_fds w4)) = Some ?p"
    "content_of w5 = (content_of w4)(?p \<mapsto> wal_header @ wal_frames bs)"
    by (auto simp: needed_file_def)
  let ?mem = "apply_records (concat bs) (empty_memtable ?p (writer_at ?p w4))"
  have "DB_new dir f c s b w = Some (Inr (opened dir f c s b m ?mem), w5)"
    using run w5(1) by (simp add: io_bind_def)
  moreover have "db_open fp T bs w5 (opened dir f c s b m ?mem)"
    "db_records T (opened dir f c s b m ?mem) = log_records bs @ concat (map (tbl T) (all_tables m))"
    using opened_open [OF d base w5(2,3), of "writer_at ?p w4"] keep none fresh w5(4,5) by (simp_all add: writer_at_def)
  ultimately show ?thesis by (intro exI [of _ w5] exI [of _ "opened dir f c s b m ?mem"]) simp
qed

text \<open>What the log determines: the records of the MemTable and its largest sequence number.\<close>

lemma max_seq_log:
  "getMaxWALSeq (apply_records rs (empty_memtable p ww)) = getMaxWALSeq (apply_records rs (empty_memtable q wv))"
proof -
  have "mt_table (apply_records rs (empty_memtable p ww)) = mt_table (apply_records rs (empty_memtable q wv))"
    by (rule apply_records_table) (simp add: empty_memtable_def)
  moreover have "mem_inv (apply_records rs (empty_memtable p ww))" "mem_inv (apply_records rs (empty_memtable q wv))"
    by (simp_all add: apply_records_inv)
  ultimately show ?thesis by (simp add: mem_inv_def getMaxWALSeq_def)
qed

lemma same_log:
  assumes "wal_state bs w db" "wal_state bs w' db'"
  shows "mt_records (db_activeMemTable db') = mt_records (db_activeMemTable db)"
    "getMaxWALSeq (db_activeMemTable db') = getMaxWALSeq (db_activeMemTable db)"
proof -
  from assms obtain p q ww wv where
    "db_activeMemTable db = apply_records (concat bs) (empty_memtable p ww)"
    "db_activeMemTable db' = apply_records (concat bs) (empty_memtable q wv)"
    by (auto simp: wal_state_def)
  then show "mt_records (db_activeMemTable db') = mt_records (db_activeMemTable db)"
    "getMaxWALSeq (db_activeMemTable db') = getMaxWALSeq (db_activeMemTable db)"
    by (simp add: log_records_eq, metis max_seq_log)
qed

lemma reopen_run:
  assumes o: "db_open fp T bs w db" and b: "0 < base" "in_budget base (db_manifest db)"
  shows "\<exists>w' db'. DB_new (db_dataDirectory db) flushThreshold compactThreshold sliceThreshold base (w\<lparr>w_fds := fds\<rparr>)
      = Some (Inr db', w') \<and> db_open fp T bs w' db' \<and> db_records T db' = db_records T db
    \<and> db_nextSeq db' = db_nextSeq db \<and> db_activeSnapshotSequences db' = {#} \<and> \<not> db_writeFailed db'
    \<and> db_dataDirectory db' = db_dataDirectory db \<and> db_manifest db' = db_manifest db"
proof -
  from DB_new_run [OF open_on_disk [OF o] b] obtain w' db' where
    r: "DB_new (db_dataDirectory db) flushThreshold compactThreshold sliceThreshold base (w\<lparr>w_fds := fds\<rparr>) = Some (Inr db', w')"
    "db_open fp T bs w' db'" "db_activeSnapshotSequences db' = {#}" "\<not> db_writeFailed db'"
    "db_manifest db' = db_manifest db" "db_dataDirectory db' = db_dataDirectory db"
    by blast
  have wal: "wal_state bs w db" "wal_state bs w' db'" using o r(2) by (simp_all add: db_open_def)
  have "db_records T db' = db_records T db" using same_log(1) [OF wal] r(5) by (simp add: db_records_def sources_def)
  moreover have "seqs_ok T db" "seqs_ok T db'" using o r(2) by (simp_all add: db_open_def)
  then have "db_nextSeq db' = db_nextSeq db"
    unfolding seqs_ok_def using same_log(2) [OF wal] r(5) by metis
  ultimately show ?thesis using r by blast
qed

section \<open>A new database\<close>

text \<open>A directory with no database in it opens as the empty database.\<close>

lemma fresh_on_disk:
  assumes "nominal w" "dir_ok dir w" "fp_ok fp" and none: "\<And>p. data_file dir p \<Longrightarrow> content_of w p = None"
  shows "on_disk fp T [] dir (empty_manifest (manifest_path dir)) w"
proof -
  let ?m = "empty_manifest (manifest_path dir)"
  have m: "all_tables ?m = []" "\<And>i. Manifest_level i ?m = []" "mf_levels ?m = []"
    by (simp_all add: empty_manifest_def all_tables_def Manifest_level_def)
  have "levels_inv ?m" by (simp add: levels_inv_def level_inv_def m)
  then have "catalogue_ok fp T w dir ?m"
    by (simp add: catalogue_ok_def layers_ok_def numbers_ok_def m)
  moreover have "log_records [] = []" by (simp add: log_records_def apply_records_def)
  ultimately show ?thesis
    using assms none by (simp add: on_disk_def m batches_ok_def records_fit_def) (simp add: empty_manifest_def)
qed

lemma empty_directory:
  assumes "dir \<noteq> []"
  shows "dir_ok dir empty_world" "content_of empty_world p = None" "nominal empty_world"
  using assms by (simp_all add: dir_ok_def empty_world_def nominal_def)

lemma new_database:
  assumes "dir \<noteq> []" "0 < base" "fp_ok fp"
  shows "\<exists>w db. DB_new dir flushThreshold compactThreshold sliceThreshold base empty_world = Some (Inr db, w)
    \<and> db_open fp T [] w db \<and> db_records T db = [] \<and> db_nextSeq db = 1 \<and> \<not> db_writeFailed db
    \<and> db_activeSnapshotSequences db = {#} \<and> db_dataDirectory db = dir
    \<and> db_manifest db = empty_manifest (manifest_path dir) \<and> db_compactionBaseThresholdBytes db = base"
proof -
  let ?m = "empty_manifest (manifest_path dir)"
  have d: "on_disk fp T [] dir ?m empty_world"
    using empty_directory [OF assms(1)] assms(3) by (intro fresh_on_disk)
  have m: "all_tables ?m = []" "mf_lastSeq ?m = 0" "in_budget base ?m"
    by (simp_all add: empty_manifest_def all_tables_def in_budget_def Manifest_level_def)
  from DB_new_run [OF d assms(2) m(3)] obtain w db where
    r: "DB_new dir flushThreshold compactThreshold sliceThreshold base empty_world = Some (Inr db, w)"
    "db_open fp T [] w db" "db_records T db = log_records [] @ concat (map (tbl T) (all_tables ?m))"
    "db_activeSnapshotSequences db = {#}" "\<not> db_writeFailed db" "db_dataDirectory db = dir" "db_manifest db = ?m"
    "db_nextSeq db = max (mf_lastSeq ?m) (getMaxWALSeq (db_activeMemTable db)) + 1" "db_compactionBaseThresholdBytes db = base"
    by blast
  have "log_records [] = []" by (simp add: log_records_def apply_records_def)
  moreover have "getMaxWALSeq (db_activeMemTable db) = 0"
    using r(2) by (auto simp: db_open_def wal_state_def apply_records_def getMaxWALSeq_def empty_memtable_def)
  ultimately show ?thesis using r m by (intro exI [of _ w] exI [of _ db]) simp
qed

text \<open>The first write to a new database.\<close>

lemma first_put:
  assumes n: "dir \<noteq> []" "0 < base" "fp_ok fp" and fit: "length k \<le> 0xFFFFFFFF" "length v \<le> 0xFFFFFFFF"
  shows "\<exists>T bs w db w1 db1. DB_new dir flushThreshold compactThreshold sliceThreshold base empty_world = Some (Inr db, w)
    \<and> DB_put fp k v (w, db) = Some (Inr True, (w1, db1)) \<and> db_open fp T bs w1 db1
    \<and> visible (db_records T db1) k 1 = Some \<lparr>rec_key = k, rec_seq = 1, rec_type = Type_VALUE, rec_value = v\<rparr>
    \<and> db_nextSeq db1 = 2 \<and> \<not> db_writeFailed db1 \<and> db_activeSnapshotSequences db1 = {#}
    \<and> db_dataDirectory db1 = dir \<and> db_compactionBaseThresholdBytes db1 = base"
proof -
  let ?b = "WriteBatch_put k v WriteBatch_new" and ?T = "\<lambda>_. []"
  let ?r = "\<lparr>rec_key = k, rec_seq = 1, rec_type = Type_VALUE, rec_value = v\<rparr>"
  from new_database [OF n, of flushThreshold compactThreshold sliceThreshold ?T] obtain w db where
    d: "DB_new dir flushThreshold compactThreshold sliceThreshold base empty_world = Some (Inr db, w)"
    "db_open fp ?T [] w db" "db_records ?T db = []" "db_nextSeq db = 1" "\<not> db_writeFailed db"
    "db_activeSnapshotSequences db = {#}" "db_dataDirectory db = dir"
    "db_manifest db = empty_manifest (manifest_path dir)" "db_compactionBaseThresholdBytes db = base" by blast
  have rs: "number_records (db_nextSeq db) (wb_records ?b) = [?r]"
    by (simp add: d WriteBatch_put_def WriteBatch_new_def)
  have "records_fit [?r]" using fit by (simp add: records_fit_def records_bytes_def encodable_def length_record_bytes)
  then have "batch_fits ?T db ?b"
    unfolding batch_fits_def Let_def rs by (simp add: d room_for_def flush_numbers_def empty_manifest_def)
  from DB_write_run [OF d(2,5) this] obtain T bs w1 db1 where
    r: "DB_write fp ?b (w, db) = Some (Inr True, (w1, db1))" "db_open fp T bs w1 db1"
    "\<forall>k q. smallestActiveSnapshot db1 \<le> q \<longrightarrow> visible (db_records T db1) k q = visible [?r] k q"
    "db_nextSeq db1 = 2" "\<not> db_writeFailed db1" "db_activeSnapshotSequences db1 = {#}"
    "db_dataDirectory db1 = dir" "db_compactionBaseThresholdBytes db1 = base"
    unfolding rs by (auto simp: d)
  moreover have "smallestActiveSnapshot db1 = 1" by (simp add: smallestActiveSnapshot_def r)
  moreover have "visible [?r] k 1 = Some ?r" by (simp add: visible_def eligible_def pick_def)
  ultimately show ?thesis using d(1) by (auto simp: DB_put_def)
qed

section \<open>Properties\<close>

text \<open>
  C10: a database survives being dropped: opening its directory again, with any thresholds that fit
  the levels it has, gives a database in order with exactly the same records, so that every read at
  every sequence number answers as before, and the next write gets the number it would have got. The records still in the MemTable come back from the
  log; no catalogue entry, table or log in use is swept away.
\<close>

theorem reopen_restores:
  assumes "db_open fp T bs w db" "0 < base" "in_budget base (db_manifest db)"
  shows "\<exists>w' db'. DB_new (db_dataDirectory db) flushThreshold compactThreshold sliceThreshold base (w\<lparr>w_fds := fds\<rparr>)
      = Some (Inr db', w') \<and> db_open fp T bs w' db' \<and> db_records T db' = db_records T db
    \<and> db_nextSeq db' = db_nextSeq db \<and> db_activeSnapshotSequences db' = {#} \<and> \<not> db_writeFailed db'"
  using reopen_run [OF assms] by blast

theorem reopen_restores_witness:
  "\<exists>w db w1 db1 w2 db2 T. DB_new [''d''] 100 4 1000 1000 empty_world = Some (Inr db, w)
    \<and> DB_put fp_example ''a'' ''x'' (w, db) = Some (Inr True, (w1, db1))
    \<and> DB_new [''d''] 0 0 0 1000 (w1\<lparr>w_fds := []\<rparr>) = Some (Inr db2, w2)
    \<and> read_value (db_records T db2) ''a'' 1 = Some ''x'' \<and> db_nextSeq db2 = 2"
proof -
  from first_put [of "[''d'']" 1000 fp_example "''a''" "''x''" 100 4 1000] obtain T bs w db w1 db1 where
    r: "DB_new [''d''] 100 4 1000 1000 empty_world = Some (Inr db, w)"
    "DB_put fp_example ''a'' ''x'' (w, db) = Some (Inr True, (w1, db1))" "db_open fp_example T bs w1 db1"
    "visible (db_records T db1) ''a'' 1 = Some \<lparr>rec_key = ''a'', rec_seq = 1, rec_type = Type_VALUE, rec_value = ''x''\<rparr>"
    "db_nextSeq db1 = 2" "db_dataDirectory db1 = [''d'']" "db_compactionBaseThresholdBytes db1 = 1000"
    using fp_example_ok by auto
  have "in_budget 1000 (db_manifest db1)" using r(3,7) by (auto simp: db_open_def)
  from reopen_restores [OF r(3) _ this, of 0 0 0 "[]"] r show ?thesis by (auto simp: read_value_def intro!: exI [of _ T])
qed

end
