(* ===== verification/DBSystem.thy ===== *)
theory DBSystem
  imports DBOpen
begin

text \<open>
  The database as its clients see it. The abstract store is the log of all operations it was ever
  given, with the numbers of the active snapshots; a read looks the answer up in the log. Every
  operation of the engine's interface refines the operation of the store, so any session with the
  database, with flushes, compactions and reopenings at any points, gives the answers of the store.
\<close>

section \<open>Refinement of sequences of operations\<close>

text \<open>Running a list of operations; the run ends without a result when an operation does.\<close>

fun run_all :: "('op \<Rightarrow> 's \<Rightarrow> ('ans \<times> 's) option) \<Rightarrow> 'op list \<Rightarrow> 's \<Rightarrow> ('ans list \<times> 's) option" where
  "run_all run [] s = Some ([], s)"
| "run_all run (x # xs) s =
     (case run x s of
        None \<Rightarrow> None
      | Some (a, s1) \<Rightarrow>
          (case run_all run xs s1 of None \<Rightarrow> None | Some (as, s2) \<Rightarrow> Some (a # as, s2)))"

fun spec_all :: "('op \<Rightarrow> 'a \<Rightarrow> 'ans \<times> 'a) \<Rightarrow> 'op list \<Rightarrow> 'a \<Rightarrow> 'ans list \<times> 'a" where
  "spec_all spec [] a = ([], a)"
| "spec_all spec (x # xs) a =
     (case spec x a of (r, a1) \<Rightarrow> case spec_all spec xs a1 of (rs, a2) \<Rightarrow> (r # rs, a2))"

fun fits_all :: "('op \<Rightarrow> 'a \<Rightarrow> bool) \<Rightarrow> ('op \<Rightarrow> 'a \<Rightarrow> 'ans \<times> 'a) \<Rightarrow> 'op list \<Rightarrow> 'a \<Rightarrow> bool" where
  "fits_all fits spec [] a = True"
| "fits_all fits spec (x # xs) a \<longleftrightarrow> fits x a \<and> fits_all fits spec xs (snd (spec x a))"

locale simulation =
  fixes run :: "'op \<Rightarrow> 's \<Rightarrow> ('ans \<times> 's) option"
    and spec :: "'op \<Rightarrow> 'a \<Rightarrow> 'ans \<times> 'a"
    and fits :: "'op \<Rightarrow> 'a \<Rightarrow> bool"
    and rel :: "'a \<Rightarrow> 's \<Rightarrow> bool"
  assumes step: "rel a s \<Longrightarrow> fits x a \<Longrightarrow> \<exists>s'. run x s = Some (fst (spec x a), s') \<and> rel (snd (spec x a)) s'"
begin

lemma run_refines:
  "rel a s \<Longrightarrow> fits_all fits spec xs a \<Longrightarrow>
   \<exists>s'. run_all run xs s = Some (fst (spec_all spec xs a), s') \<and> rel (snd (spec_all spec xs a)) s'"
proof (induction xs arbitrary: a s)
  case (Cons x xs)
  from Cons.prems have "fits x a" "fits_all fits spec xs (snd (spec x a))" by simp_all
  with step [OF Cons.prems(1)] obtain s1 where "run x s = Some (fst (spec x a), s1)" "rel (snd (spec x a)) s1" by blast
  moreover from Cons.IH [OF this(2) \<open>fits_all fits spec xs (snd (spec x a))\<close>] obtain s2 where
    "run_all run xs s1 = Some (fst (spec_all spec xs (snd (spec x a))), s2)"
    "rel (snd (spec_all spec xs (snd (spec x a)))) s2" by blast
  ultimately show ?case by (simp add: split_def)
qed simp

end

section \<open>The interface\<close>

datatype operation =
    Put string string
  | Remove string
  | Write WriteBatch
  | Get string string
  | Get_at string u64 string
  | Scan string string u64
  | Flush
  | Compact
  | Take_snapshot
  | Count_snapshots
  | Release_snapshot u64
  | Reopen u64 u64 u64

datatype answer =
    Acknowledged bool
  | Found bool string
  | Listed "Record list"
  | Taken u64
  | Counted nat
  | Finished

definition answered :: "('b \<Rightarrow> answer) \<Rightarrow> (exn + 'b) \<times> 's \<Rightarrow> (answer \<times> 's) option" where
  "answered f r = (case r of (Inl _, _) \<Rightarrow> None | (Inr x, s) \<Rightarrow> Some (f x, s))"

text \<open>
  A client that lets an exception through has no session any more, and one that waits for a call
  that never returns neither: both are \<open>None\<close>. Reopening destroys the database object, which closes
  its log, and constructs a new one with the same base threshold.
\<close>

fun run_op :: "fp \<Rightarrow> operation \<Rightarrow> world \<times> DB \<Rightarrow> (answer \<times> world \<times> DB) option" where
  "run_op fp (Put k v) s = Option.bind (DB_put fp k v s) (answered Acknowledged)"
| "run_op fp (Remove k) s = Option.bind (DB_remove fp k s) (answered Acknowledged)"
| "run_op fp (Write b) s = Option.bind (DB_write fp b s) (answered Acknowledged)"
| "run_op fp (Get k v) s = Option.bind (DB_get k v s) (answered (case_prod Found))"
| "run_op fp (Get_at k q v) s = Option.bind (DB_get_at k q v s) (answered (case_prod Found))"
| "run_op fp (Scan a b q) s = Option.bind (DB_scan a b q s) (answered Listed)"
| "run_op fp Flush s = Option.bind (flush fp s) (answered (\<lambda>_. Finished))"
| "run_op fp Compact s = Option.bind (DB_compact fp s) (answered (\<lambda>_. Finished))"
| "run_op fp Take_snapshot s = Option.bind (DB_snapshot s) (answered (\<lambda>sn. Taken (Snapshot_seq sn)))"
| "run_op fp Count_snapshots s = Some (Counted (activeSnapshotCount (snd s)), s)"
| "run_op fp (Release_snapshot q) s =
     (let active = Snapshot_dtor (Snapshot_new q) (Some (db_activeSnapshotSequences (snd s)))
      in Some (Finished, (fst s, (snd s)\<lparr>db_activeSnapshotSequences := the active\<rparr>)))"
| "run_op fp (Reopen flushThreshold compactThreshold sliceThreshold) s =
     Option.bind (DB_new (db_dataDirectory (snd s)) flushThreshold compactThreshold sliceThreshold
         (db_compactionBaseThresholdBytes (snd s)) (MemTable_dtor (db_activeMemTable (snd s)) (fst s)))
       (\<lambda>r. case r of (Inl _, _) \<Rightarrow> None | (Inr db, w) \<Rightarrow> Some (Finished, (w, db)))"

section \<open>The abstract store\<close>

record store =
  st_log :: "Record list"
  st_next :: u64
  st_snapshots :: "u64 multiset"
  st_numbers :: nat

definition contents_at :: "store \<Rightarrow> u64 \<Rightarrow> string \<Rightarrow> string option" where
  "contents_at \<sigma> q k = read_value (st_log \<sigma>) k q"

text \<open>The values of a key range at a sequence number, by key.\<close>

definition range_at :: "store \<Rightarrow> string \<Rightarrow> string \<Rightarrow> u64 \<Rightarrow> Record list" where
  "range_at \<sigma> a b q =
     filter (\<lambda>r. rec_type r = Type_VALUE)
       (List.map_filter (\<lambda>k. visible (st_log \<sigma>) k q)
         (filter (\<lambda>k. a \<le> k \<and> k < b) (sorted_list_of_set (rec_key ` set (st_log \<sigma>)))))"

definition oldest_read :: "store \<Rightarrow> u64" where
  "oldest_read \<sigma> = (if st_snapshots \<sigma> = {#} then st_next \<sigma> - 1 else Min_mset (st_snapshots \<sigma>))"

definition store_write :: "BatchRecord list \<Rightarrow> store \<Rightarrow> store" where
  "store_write brs \<sigma> = \<sigma>\<lparr>st_log := st_log \<sigma> @ number_records (st_next \<sigma>) brs,
     st_next := st_next \<sigma> + of_nat (length brs),
     st_numbers := st_numbers \<sigma> + flush_numbers (length (st_log \<sigma>) + length brs)\<rparr>"

definition found :: "string option \<Rightarrow> string \<Rightarrow> answer" where
  "found x v = (case x of None \<Rightarrow> Found False v | Some y \<Rightarrow> Found True y)"

fun store_op :: "operation \<Rightarrow> store \<Rightarrow> answer \<times> store" where
  "store_op (Put k v) \<sigma> = (Acknowledged True, store_write [\<lparr>br_key = k, br_type = Type_VALUE, br_value = v\<rparr>] \<sigma>)"
| "store_op (Remove k) \<sigma> = (Acknowledged True, store_write [\<lparr>br_key = k, br_type = Type_TOMBSTONE, br_value = []\<rparr>] \<sigma>)"
| "store_op (Write b) \<sigma> = (Acknowledged True, store_write (wb_records b) \<sigma>)"
| "store_op (Get k v) \<sigma> = (found (contents_at \<sigma> (st_next \<sigma> - 1) k) v, \<sigma>)"
| "store_op (Get_at k q v) \<sigma> = (found (contents_at \<sigma> q k) v, \<sigma>)"
| "store_op (Scan a b q) \<sigma> = (Listed (range_at \<sigma> a b (if q = - 1 then st_next \<sigma> - 1 else q)), \<sigma>)"
| "store_op Flush \<sigma> = (Finished, \<sigma>\<lparr>st_numbers := st_numbers \<sigma> + flush_numbers (length (st_log \<sigma>))\<rparr>)"
| "store_op Compact \<sigma> = (Finished, \<sigma>\<lparr>st_numbers := st_numbers \<sigma> + length (st_log \<sigma>)\<rparr>)"
| "store_op Take_snapshot \<sigma> =
     (Taken (st_next \<sigma> - 1), \<sigma>\<lparr>st_snapshots := add_mset (st_next \<sigma> - 1) (st_snapshots \<sigma>)\<rparr>)"
| "store_op Count_snapshots \<sigma> = (Counted (size (st_snapshots \<sigma>)), \<sigma>)"
| "store_op (Release_snapshot q) \<sigma> = (Finished, \<sigma>\<lparr>st_snapshots := st_snapshots \<sigma> - {#q#}\<rparr>)"
| "store_op (Reopen _ _ _) \<sigma> = (Finished, \<sigma>\<lparr>st_snapshots := {#}\<rparr>)"

text \<open>
  What a session may do: batches whose sizes and counters fit their fields, reads at the sequence
  number of an active snapshot or later, and operations while there are file numbers left.
\<close>

definition write_fits :: "BatchRecord list \<Rightarrow> store \<Rightarrow> bool" where
  "write_fits brs \<sigma> \<longleftrightarrow>
     (let rs = number_records (st_next \<sigma>) brs
      in unat (st_next \<sigma>) + length brs < 2 ^ 64 \<and> records_fit (st_log \<sigma> @ rs)
        \<and> st_numbers \<sigma> + flush_numbers (length (st_log \<sigma>) + length brs) < 2 ^ 64)"

fun op_fits :: "operation \<Rightarrow> store \<Rightarrow> bool" where
  "op_fits (Put k v) \<sigma> = write_fits [\<lparr>br_key = k, br_type = Type_VALUE, br_value = v\<rparr>] \<sigma>"
| "op_fits (Remove k) \<sigma> = write_fits [\<lparr>br_key = k, br_type = Type_TOMBSTONE, br_value = []\<rparr>] \<sigma>"
| "op_fits (Write b) \<sigma> = write_fits (wb_records b) \<sigma>"
| "op_fits (Get_at k q v) \<sigma> \<longleftrightarrow> oldest_read \<sigma> \<le> q"
| "op_fits (Scan a b q) \<sigma> \<longleftrightarrow> oldest_read \<sigma> \<le> q"
| "op_fits Flush \<sigma> \<longleftrightarrow> st_numbers \<sigma> + flush_numbers (length (st_log \<sigma>)) < 2 ^ 64"
| "op_fits Compact \<sigma> \<longleftrightarrow> st_numbers \<sigma> + length (st_log \<sigma>) < 2 ^ 64"
| "op_fits _ \<sigma> \<longleftrightarrow> True"

text \<open>A log whose numbers are below the next one.\<close>

definition store_ok :: "store \<Rightarrow> bool" where
  "store_ok \<sigma> \<longleftrightarrow> (\<forall>r \<in> set (st_log \<sigma>). rec_seq r < st_next \<sigma>) \<and> 0 < st_next \<sigma>"

text \<open>The database implements the store: it answers every admissible read like the log.\<close>

definition same_reads :: "contents \<Rightarrow> store \<Rightarrow> DB \<Rightarrow> bool" where
  "same_reads T \<sigma> db \<longleftrightarrow> mset (db_records T db) \<subseteq># mset (st_log \<sigma>)
     \<and> (\<forall>k q. oldest_read \<sigma> \<le> q \<longrightarrow> visible (db_records T db) k q = visible (st_log \<sigma>) k q)"

definition implements :: "fp \<Rightarrow> store \<Rightarrow> world \<times> DB \<Rightarrow> bool" where
  "implements fp \<sigma> s \<longleftrightarrow>
     (\<exists>T bs. db_open fp T bs (fst s) (snd s) \<and> same_reads T \<sigma> (snd s)) \<and> store_ok \<sigma> \<and> \<not> db_writeFailed (snd s)
     \<and> db_nextSeq (snd s) = st_next \<sigma> \<and> db_activeSnapshotSequences (snd s) = st_snapshots \<sigma>
     \<and> unat (mf_nextTableNumber (db_manifest (snd s))) \<le> st_numbers \<sigma>"

section \<open>Laws of the store\<close>

lemma store_write_ok:
  assumes "store_ok \<sigma>" "write_fits brs \<sigma>"
  shows "store_ok (store_write brs \<sigma>)"
proof -
  have seqs: "unat (st_next \<sigma>) + length brs < 2 ^ 64" using assms(2) by (simp add: write_fits_def Let_def)
  note g = next_grows(1) [OF seqs] batch_seqs(2) [OF refl seqs]
  show ?thesis using assms(1) g by (auto simp: store_ok_def store_write_def intro: order_less_le_trans)
qed

text \<open>A write changes no read at an earlier sequence number.\<close>

lemma store_write_past:
  assumes "write_fits brs \<sigma>" "q < st_next \<sigma>"
  shows "visible (st_log (store_write brs \<sigma>)) k q = visible (st_log \<sigma>) k q"
proof -
  have seqs: "unat (st_next \<sigma>) + length brs < 2 ^ 64" using assms(1) by (simp add: write_fits_def Let_def)
  have "filter (eligible k q) (number_records (st_next \<sigma>) brs) = []"
    using batch_seqs(1) [OF refl seqs] assms(2) by (fastforce simp: filter_empty_conv eligible_def)
  then show ?thesis by (simp add: store_write_def visible_append_gen)
qed

lemma visible_snoc_newest:
  assumes "\<forall>x \<in> set rs. rec_seq x < rec_seq r" "rec_seq r \<le> q"
  shows "visible (rs @ [r]) k q = (if rec_key r = k then Some r else visible rs k q)"
proof -
  have "rec_seq b < rec_seq r" if "visible rs k q = Some b" for b
    using visible_SomeD [OF that] assms(1) by blast
  then show ?thesis using assms(2) by (auto simp: visible_append_gen eligible_def pick_def split: option.split)
qed

text \<open>A single operation updates the current contents like a map.\<close>

lemma store_write_now:
  assumes ok: "store_ok \<sigma>" and fit: "write_fits [b] \<sigma>"
  shows "contents_at (store_write [b] \<sigma>) (st_next (store_write [b] \<sigma>) - 1)
    = (contents_at \<sigma> (st_next \<sigma> - 1)) (br_key b := (if br_type b = Type_TOMBSTONE then None else Some (br_value b)))"
proof
  fix k
  let ?n = "st_next \<sigma>"
  let ?r = "\<lparr>rec_key = br_key b, rec_seq = ?n, rec_type = br_type b, rec_value = br_value b\<rparr>"
  have lt: "\<forall>x \<in> set (st_log \<sigma>). rec_seq x < rec_seq ?r" using ok by (simp add: store_ok_def)
  have "visible (st_log \<sigma>) k ?n = visible (st_log \<sigma>) k (?n - 1)"
  proof -
    have "eligible k ?n x = eligible k (?n - 1) x" if "x \<in> set (st_log \<sigma>)" for x
      using that ok seq_pred [of ?n "rec_seq x"] by (auto simp: eligible_def store_ok_def)
    then show ?thesis unfolding visible_def by (metis (mono_tags, lifting) filter_cong)
  qed
  then show "contents_at (store_write [b] \<sigma>) (st_next (store_write [b] \<sigma>) - 1) k
    = ((contents_at \<sigma> (?n - 1)) (br_key b := (if br_type b = Type_TOMBSTONE then None else Some (br_value b)))) k"
    using visible_snoc_newest [OF lt, of ?n k] by (simp add: contents_at_def read_value_def store_write_def)
qed

section \<open>Every operation refines the store\<close>

lemma implementsE:
  assumes "implements fp \<sigma> (w, db)"
  obtains T bs where "db_open fp T bs w db" "same_reads T \<sigma> db" "\<not> db_writeFailed db" "db_nextSeq db = st_next \<sigma>"
    "db_activeSnapshotSequences db = st_snapshots \<sigma>" "unat (mf_nextTableNumber (db_manifest db)) \<le> st_numbers \<sigma>"
    "smallestActiveSnapshot db = oldest_read \<sigma>" "length (db_records T db) \<le> length (st_log \<sigma>)" "store_ok \<sigma>"
proof -
  from assms obtain T bs where o: "db_open fp T bs w db" "same_reads T \<sigma> db"
    and f: "\<not> db_writeFailed db" "db_nextSeq db = st_next \<sigma>" "db_activeSnapshotSequences db = st_snapshots \<sigma>"
      "unat (mf_nextTableNumber (db_manifest db)) \<le> st_numbers \<sigma>" and ok: "store_ok \<sigma>"
    unfolding implements_def by auto
  have small: "smallestActiveSnapshot db = oldest_read \<sigma>" by (simp add: smallestActiveSnapshot_def oldest_read_def f)
  have len: "length (db_records T db) \<le> length (st_log \<sigma>)"
    using o(2) by (intro mset_sub_length) (simp add: same_reads_def)
  show thesis by (rule that [OF o f small len ok])
qed

lemma implements_intro:
  assumes "db_open fp T bs w db" "same_reads T \<sigma> db" "\<not> db_writeFailed db" "db_nextSeq db = st_next \<sigma>"
    "db_activeSnapshotSequences db = st_snapshots \<sigma>" "unat (mf_nextTableNumber (db_manifest db)) \<le> st_numbers \<sigma>"
    "store_ok \<sigma>"
  shows "implements fp \<sigma> (w, db)"
  unfolding implements_def using assms by auto

lemma same_reads_trans:
  assumes "same_reads T \<sigma> db" "set (db_records T' db') \<subseteq> set (db_records T db)" "distinct (db_records T' db')"
    "\<And>k q. oldest_read \<sigma> \<le> q \<Longrightarrow> visible (db_records T' db') k q = visible (db_records T db) k q"
    "st_log \<sigma>' = st_log \<sigma>" "oldest_read \<sigma>' = oldest_read \<sigma>"
  shows "same_reads T' \<sigma>' db'"
  using assms mset_distinct_sub [OF assms(3,2)] by (auto simp: same_reads_def intro: subset_mset.order_trans)

lemma open_distinct: "db_open fp T bs w db \<Longrightarrow> distinct (db_records T db)"
  using db_records_distinct by (auto simp: db_open_def db_ready_def)

lemma seq_pred_mono:
  assumes "0 < n" "(n :: u64) \<le> m"
  shows "n - 1 \<le> m - 1"
proof -
  have "n - 1 < n" using seq_pred [OF assms(1), of "n - 1"] by simp
  then have lt: "n - 1 < m" using assms(2) by (rule order_less_le_trans)
  have "0 < m" using assms by (rule order_less_le_trans)
  from seq_pred [OF this] lt show ?thesis by simp
qed

lemma oldest_read_write:
  assumes "write_fits brs \<sigma>" "0 < st_next \<sigma>"
  shows "oldest_read \<sigma> \<le> oldest_read (store_write brs \<sigma>)"
proof -
  have seqs: "unat (st_next \<sigma>) + length brs < 2 ^ 64" using assms(1) by (simp add: write_fits_def Let_def)
  from seq_pred_mono [OF assms(2) next_grows(1) [OF this]] show ?thesis by (simp add: oldest_read_def store_write_def)
qed

lemma write_admitted:
  assumes o: "same_reads T \<sigma> db" "db_nextSeq db = st_next \<sigma>"
    and nu: "unat (mf_nextTableNumber (db_manifest db)) \<le> st_numbers \<sigma>" and len: "length (db_records T db) \<le> length (st_log \<sigma>)"
    and fit: "write_fits (wb_records b) \<sigma>"
  shows "batch_fits T db b"
    "unat (mf_nextTableNumber (db_manifest db)) + flush_numbers (length (db_records T db) + length (wb_records b))
      \<le> st_numbers (store_write (wb_records b) \<sigma>)"
proof -
  let ?rs = "number_records (st_next \<sigma>) (wb_records b)"
  have f: "unat (st_next \<sigma>) + length (wb_records b) < 2 ^ 64" "records_fit (st_log \<sigma> @ ?rs)"
    "st_numbers \<sigma> + flush_numbers (length (st_log \<sigma>) + length (wb_records b)) < 2 ^ 64"
    using fit by (simp_all add: write_fits_def Let_def)
  have le: "flush_numbers (length (db_records T db) + length (wb_records b)) \<le> flush_numbers (length (st_log \<sigma>) + length (wb_records b))"
    using len by (intro flush_numbers_mono) simp
  have "records_fit (db_records T db @ ?rs)" by (rule records_fit_sub [OF f(2)]) (use o(1) in \<open>simp add: same_reads_def\<close>)
  with f(1,3) le nu show "batch_fits T db b" by (simp add: batch_fits_def Let_def o(2) room_for_def)
  from le nu show "unat (mf_nextTableNumber (db_manifest db)) + flush_numbers (length (db_records T db) + length (wb_records b))
      \<le> st_numbers (store_write (wb_records b) \<sigma>)" by (simp add: store_write_def)
qed

lemma write_refines:
  assumes i: "implements fp \<sigma> (w, db)" and fit: "write_fits (wb_records b) \<sigma>"
  shows "\<exists>s'. DB_write fp b (w, db) = Some (Inr True, s') \<and> implements fp (store_write (wb_records b) \<sigma>) s'"
proof -
  from i obtain T bs where o: "db_open fp T bs w db" and sr: "same_reads T \<sigma> db" and ok: "\<not> db_writeFailed db"
    and nx: "db_nextSeq db = st_next \<sigma>" and sn: "db_activeSnapshotSequences db = st_snapshots \<sigma>"
    and nu: "unat (mf_nextTableNumber (db_manifest db)) \<le> st_numbers \<sigma>" and len: "length (db_records T db) \<le> length (st_log \<sigma>)"
    and so: "store_ok \<sigma>"
    by (rule implementsE)
  let ?rs = "number_records (st_next \<sigma>) (wb_records b)" and ?\<sigma> = "store_write (wb_records b) \<sigma>"
  note fits = write_admitted [OF sr nx nu len fit]
  have sub: "mset (db_records T db) \<subseteq># mset (st_log \<sigma>)" using sr by (simp add: same_reads_def)
  from DB_write_run [OF o ok fits(1)] obtain T' bs' w' db' where
    r: "DB_write fp b (w, db) = Some (Inr True, (w', db'))" "db_open fp T' bs' w' db'"
    "\<And>k q. smallestActiveSnapshot db' \<le> q \<Longrightarrow> visible (db_records T' db') k q = visible (db_records T db @ ?rs) k q"
    "db_nextSeq db' = st_next \<sigma> + of_nat (length ?rs)" "\<not> db_writeFailed db'"
    "db_activeSnapshotSequences db' = db_activeSnapshotSequences db"
    "set (db_records T' db') \<subseteq> set (db_records T db @ ?rs)"
    "unat (mf_nextTableNumber (db_manifest db')) \<le> unat (mf_nextTableNumber (db_manifest db))
      + flush_numbers (length (db_records T db) + length ?rs)"
    unfolding nx by blast
  have old: "smallestActiveSnapshot db' = oldest_read ?\<sigma>"
    using r(4,6) sn by (simp add: smallestActiveSnapshot_def oldest_read_def store_write_def)
  have "visible (db_records T' db') k q = visible (st_log ?\<sigma>) k q" if "oldest_read ?\<sigma> \<le> q" for k q
  proof -
    have "oldest_read \<sigma> \<le> q" using oldest_read_write [OF fit] open_nextSeq [OF o] nx that by simp
    with sr r(3) [of q k] that old show ?thesis by (simp add: same_reads_def visible_append_gen store_write_def)
  qed
  moreover have "mset (db_records T' db') \<subseteq># mset (st_log ?\<sigma>)"
    using mset_distinct_sub [OF open_distinct [OF r(2)] r(7)] sub
    by (auto simp: store_write_def intro: subset_mset.order_trans)
  ultimately have "same_reads T' ?\<sigma> db'" by (simp add: same_reads_def)
  then have "implements fp ?\<sigma> (w', db')"
    using r sn fits(2) store_write_ok [OF so fit] by (intro implements_intro [OF r(2)]) (simp_all add: store_write_def)
  with r(1) show ?thesis by blast
qed

text \<open>The table cache and the snapshots are in no part of the invariant but their own.\<close>

lemma open_parts [simp]:
  "wal_state bs w (db\<lparr>db_tableCache := c\<rparr>) = wal_state bs w db"
  "tables_fresh w (db\<lparr>db_tableCache := c\<rparr>) = tables_fresh w db"
  "wals_fresh w (db\<lparr>db_tableCache := c\<rparr>) = wals_fresh w db"
  "seqs_ok T (db\<lparr>db_tableCache := c\<rparr>) = seqs_ok T db"
  "stored w (db\<lparr>db_tableCache := c\<rparr>) = stored w db"
  "snaps_ok (db\<lparr>db_tableCache := c\<rparr>) = snaps_ok db"
  "db_records T (db\<lparr>db_tableCache := c\<rparr>) = db_records T db"
  "wal_state bs w (db\<lparr>db_activeSnapshotSequences := a\<rparr>) = wal_state bs w db"
  "tables_fresh w (db\<lparr>db_activeSnapshotSequences := a\<rparr>) = tables_fresh w db"
  "wals_fresh w (db\<lparr>db_activeSnapshotSequences := a\<rparr>) = wals_fresh w db"
  "seqs_ok T (db\<lparr>db_activeSnapshotSequences := a\<rparr>) = seqs_ok T db"
  "stored w (db\<lparr>db_activeSnapshotSequences := a\<rparr>) = stored w db"
  "db_inv fp T w (db\<lparr>db_activeSnapshotSequences := a\<rparr>) = db_inv fp T w db"
  "db_records T (db\<lparr>db_activeSnapshotSequences := a\<rparr>) = db_records T db"
  by (simp_all add: wal_state_def tables_fresh_def wals_fresh_def seqs_ok_def stored_def saved_def snaps_ok_def
      db_records_def sources_def db_inv_def cache_ok_def)

lemma open_cache:
  assumes "db_open fp T bs w db" "db_inv fp T w (db\<lparr>db_tableCache := c\<rparr>)"
  shows "db_open fp T bs w (db\<lparr>db_tableCache := c\<rparr>)"
  using assms by (simp add: db_open_def db_ready_def)

lemma implements_cache:
  assumes "implements fp \<sigma> (w, db)" "db_open fp T bs w db" "same_reads T \<sigma> db" "read_state fp T w db (w, db')"
  shows "implements fp \<sigma> (w, db')"
proof -
  have inv: "db_inv fp T w db" using assms(2) by (simp add: db_open_def db_ready_def)
  from read_state_inv [OF inv assms(4)] obtain c where
    c: "db' = db\<lparr>db_tableCache := c\<rparr>" "db_inv fp T w db'" "db_records T db' = db_records T db" by blast
  have "db_open fp T bs w db'" using open_cache [OF assms(2)] c by simp
  moreover have "same_reads T \<sigma> db'" using assms(3) c(3) by (simp add: same_reads_def)
  ultimately show ?thesis using assms(1) by (intro implements_intro) (simp_all add: implements_def c(1))
qed

lemma get_at_refines:
  assumes i: "implements fp \<sigma> (w, db)" and q: "oldest_read \<sigma> \<le> q"
  shows "\<exists>s'. DB_get_at k q v (w, db) = Some (Inr (case contents_at \<sigma> q k of None \<Rightarrow> (False, v) | Some x \<Rightarrow> (True, x)), s')
    \<and> implements fp \<sigma> s'"
proof -
  from i obtain T bs where o: "db_open fp T bs w db" "same_reads T \<sigma> db" by (rule implementsE)
  have "db_inv fp T w db" "nominal w" using o(1) by (simp_all add: db_open_def db_ready_def)
  from DB_get_at_reads [OF this, of k q v] obtain db' where
    r: "DB_get_at k q v (w, db) = Some (Inr (get_outcome (visible (db_records T db) k q) v), (w, db'))"
    "read_state fp T w db (w, db')" by blast
  have "visible (db_records T db) k q = visible (st_log \<sigma>) k q" using o(2) q by (simp add: same_reads_def)
  with r(1) implements_cache [OF i o r(2)] show ?thesis by (simp add: get_outcome_read contents_at_def)
qed

lemma sorted_key_unique:
  fixes f :: "'a \<Rightarrow> 'b :: linorder"
  assumes "sorted_wrt (\<lambda>x y. f x < f y) xs" "sorted_wrt (\<lambda>x y. f x < f y) ys" "set xs = set ys"
  shows "xs = ys"
proof -
  have "sorted_wrt (<) (map f xs)" "sorted_wrt (<) (map f ys)" using assms by (simp_all add: sorted_wrt_map)
  moreover from this have "inj_on f (set xs)" by (simp add: strict_sorted_iff distinct_map)
  ultimately have "map f xs = map f ys" "inj_on f (set xs \<union> set ys)"
    using assms(3) by (auto intro: strict_sorted_equal)
  then show ?thesis by (simp add: inj_on_map_eq_map)
qed

lemma range_at_spec:
  "sorted_wrt (\<lambda>x y. rec_key x < rec_key y) (range_at \<sigma> a b q)"
  "r \<in> set (range_at \<sigma> a b q) \<longleftrightarrow> a \<le> rec_key r \<and> rec_key r < b \<and> visible (st_log \<sigma>) (rec_key r) q = Some r
     \<and> rec_type r = Type_VALUE"
proof -
  let ?v = "\<lambda>k. visible (st_log \<sigma>) k q"
  let ?ks = "filter (\<lambda>k. a \<le> k \<and> k < b) (sorted_list_of_set (rec_key ` set (st_log \<sigma>)))"
  have key: "rec_key x = k \<and> x \<in> set (st_log \<sigma>)" if "?v k = Some x" for k x
    using visible_SomeD [OF that] by (simp add: eligible_def)
  have "sorted_wrt (<) ?ks" by (intro sorted_wrt_filter) simp
  then have "sorted_wrt (<) (filter (\<lambda>k. ?v k \<noteq> None) ?ks)" by (rule sorted_wrt_filter)
  then have "sorted_wrt (\<lambda>x y. rec_key x < rec_key y) (map (\<lambda>k. the (?v k)) (filter (\<lambda>k. ?v k \<noteq> None) ?ks))"
    unfolding sorted_wrt_map by (rule sorted_wrt_mono_rel [rotated]) (use key in fastforce)
  then show "sorted_wrt (\<lambda>x y. rec_key x < rec_key y) (range_at \<sigma> a b q)"
    unfolding range_at_def List.map_filter_def comp_def by (rule sorted_wrt_filter)
  show "r \<in> set (range_at \<sigma> a b q) \<longleftrightarrow> a \<le> rec_key r \<and> rec_key r < b \<and> ?v (rec_key r) = Some r \<and> rec_type r = Type_VALUE"
  proof
    assume "r \<in> set (range_at \<sigma> a b q)"
    then obtain k where k: "?v k = Some r" "a \<le> k" "k < b" "rec_type r = Type_VALUE"
      by (auto simp: range_at_def List.map_filter_def)
    then show "a \<le> rec_key r \<and> rec_key r < b \<and> ?v (rec_key r) = Some r \<and> rec_type r = Type_VALUE"
      using key [OF k(1)] by simp
  next
    assume r: "a \<le> rec_key r \<and> rec_key r < b \<and> ?v (rec_key r) = Some r \<and> rec_type r = Type_VALUE"
    then have "rec_key r \<in> set (filter (\<lambda>k. ?v k \<noteq> None) ?ks)" "r = the (?v (rec_key r))"
      using key [of "rec_key r" r] by simp_all
    then have "r \<in> set (map (\<lambda>k. the (?v k)) (filter (\<lambda>k. ?v k \<noteq> None) ?ks))"
      unfolding set_map by (rule image_eqI [rotated])
    with r show "r \<in> set (range_at \<sigma> a b q)" by (simp add: range_at_def List.map_filter_def comp_def)
  qed
qed

lemma scan_refines:
  assumes i: "implements fp \<sigma> (w, db)" and q: "oldest_read \<sigma> \<le> q"
  shows "DB_scan a b q (w, db) = Some (Inr (range_at \<sigma> a b (if q = - 1 then st_next \<sigma> - 1 else q)), (w, db))"
proof -
  from i obtain T bs where o: "db_open fp T bs w db" "same_reads T \<sigma> db" "db_nextSeq db = st_next \<sigma>"
    "db_activeSnapshotSequences db = st_snapshots \<sigma>" by (rule implementsE)
  let ?q = "if q = - 1 then st_next \<sigma> - 1 else q"
  have "snaps_ok db" "0 < st_next \<sigma>" using o(1) open_nextSeq [OF o(1)] o(3) by (simp_all add: db_open_def)
  then have "oldest_read \<sigma> \<le> st_next \<sigma> - 1"
    using o(3,4) seq_pred by (auto simp: oldest_read_def snaps_ok_def)
  then have q': "oldest_read \<sigma> \<le> ?q" using q by simp
  have "db_inv fp T w db" "nominal w" using o(1) by (simp_all add: db_open_def db_ready_def)
  from DB_scan_reads [OF this, of a b q] obtain rs where
    r: "DB_scan a b q (w, db) = Some (Inr rs, (w, db))" "sorted_wrt (\<lambda>x y. rec_key x < rec_key y) rs"
    "\<forall>r. r \<in> set rs \<longleftrightarrow> a \<le> rec_key r \<and> rec_key r < b \<and> visible (db_records T db) (rec_key r) ?q = Some r
      \<and> rec_type r = Type_VALUE"
    unfolding o(3) by blast
  have "visible (db_records T db) k ?q = visible (st_log \<sigma>) k ?q" for k using o(2) q' by (simp add: same_reads_def)
  with r(3) have "set rs = set (range_at \<sigma> a b ?q)" by (auto simp only: range_at_spec(2))
  from sorted_key_unique [OF r(2) range_at_spec(1) this] r(1) show ?thesis by simp
qed

lemma flush_refines:
  assumes i: "implements fp \<sigma> (w, db)" and fit: "op_fits Flush \<sigma>"
  shows "\<exists>s'. flush fp (w, db) = Some (Inr (), s') \<and> implements fp (snd (store_op Flush \<sigma>)) s'"
proof -
  from i obtain T bs where o: "db_open fp T bs w db" "same_reads T \<sigma> db" and ok: "\<not> db_writeFailed db"
    and f: "db_nextSeq db = st_next \<sigma>" "db_activeSnapshotSequences db = st_snapshots \<sigma>"
    and nu: "unat (mf_nextTableNumber (db_manifest db)) \<le> st_numbers \<sigma>"
    and old: "smallestActiveSnapshot db = oldest_read \<sigma>" and len: "length (db_records T db) \<le> length (st_log \<sigma>)"
    and so: "store_ok \<sigma>"
    by (rule implementsE)
  let ?\<sigma> = "snd (store_op Flush \<sigma>)"
  have so': "store_ok ?\<sigma>" using so by (simp add: store_ok_def)
  have s: "oldest_read ?\<sigma> = oldest_read \<sigma>" by (simp add: oldest_read_def)
  show ?thesis
  proof (cases "MemTable_size (db_activeMemTable db) = 0")
    case True
    have "same_reads T ?\<sigma> db" using o(2) s by (simp add: same_reads_def)
    with True o(1) ok f nu so' show ?thesis by (auto simp: flush_def db_get_def io_bind_def intro!: implements_intro)
  next
    case False
    note le = flush_numbers_mono [OF len]
    with fit nu have "room_for T db 0" by (simp add: room_for_def)
    from flush_run [OF o(1) False this] obtain T' w' db' where
      r: "flush fp (w, db) = Some (Inr (), (w', db'))" "db_open fp T' [] w' db'"
      "\<forall>k q. smallestActiveSnapshot db \<le> q \<longrightarrow> visible (db_records T' db') k q = visible (db_records T db) k q"
      "set (db_records T' db') \<subseteq> set (db_records T db)" "db_nextSeq db' = db_nextSeq db" "db_writeFailed db' = db_writeFailed db"
      "db_activeSnapshotSequences db' = db_activeSnapshotSequences db"
      "unat (mf_nextTableNumber (db_manifest db'))
        \<le> unat (mf_nextTableNumber (db_manifest db)) + flush_numbers (length (db_records T db))" by blast
    have "same_reads T' ?\<sigma> db'"
      by (rule same_reads_trans [OF o(2) r(4) open_distinct [OF r(2)]]) (use r(3) old s in simp_all)
    then have "implements fp ?\<sigma> (w', db')" using r ok f nu le so' by (intro implements_intro [OF r(2)]) simp_all
    with r(1) show ?thesis by blast
  qed
qed

lemma compact_refines:
  assumes i: "implements fp \<sigma> (w, db)" and fit: "op_fits Compact \<sigma>"
  shows "\<exists>s'. DB_compact fp (w, db) = Some (Inr (), s') \<and> implements fp (snd (store_op Compact \<sigma>)) s'"
proof -
  from i obtain T bs where o: "db_open fp T bs w db" "same_reads T \<sigma> db" and ok: "\<not> db_writeFailed db"
    and f: "db_nextSeq db = st_next \<sigma>" "db_activeSnapshotSequences db = st_snapshots \<sigma>"
    and nu: "unat (mf_nextTableNumber (db_manifest db)) \<le> st_numbers \<sigma>"
    and old: "smallestActiveSnapshot db = oldest_read \<sigma>" and len: "length (db_records T db) \<le> length (st_log \<sigma>)"
    and so: "store_ok \<sigma>"
    by (rule implementsE)
  let ?\<sigma> = "snd (store_op Compact \<sigma>)"
  have so': "store_ok ?\<sigma>" using so by (simp add: store_ok_def)
  have s: "oldest_read ?\<sigma> = oldest_read \<sigma>" by (simp add: oldest_read_def)
  show ?thesis
  proof (cases "Manifest_level 0 (db_manifest db) = []")
    case True
    have "same_reads T ?\<sigma> db" using o(2) s by (simp add: same_reads_def)
    with True o(1) ok f nu so' show ?thesis
      by (auto simp: DB_compact_def compactLevel_def db_get_def io_bind_def intro!: implements_intro)
  next
    case False
    have "db_ready fp T w db" using o(1) by (simp add: db_open_def)
    from compactLevel_run [OF this _ False] len nu fit obtain T' w' db' where
      r: "DB_compact fp (w, db) = Some (Inr (), (w', db'))" "compacted fp T w db T' w' db'" "saved w' db'"
      "moved_down 0 (db_manifest db) (db_manifest db')"
      "unat (mf_nextTableNumber (db_manifest db')) \<le> unat (mf_nextTableNumber (db_manifest db)) + length (db_records T db)"
      by (auto simp: DB_compact_def)
    note g = compacted_fields [OF r(2)]
    have "in_budget (db_compactionBaseThresholdBytes db) (db_manifest db')"
      by (rule moved_down_in_budget [OF r(4)]) (use o(1) in \<open>simp_all add: db_open_def\<close>)
    then have o': "db_open fp T' bs w' db'" by (intro compacted_open [OF o(1) r(2)]) (simp_all add: r(3) g)
    have "set (db_records T' db') \<subseteq> set (db_records T db)"
      using r(2) set_mset_mono [of "mset (db_records T' db')" "mset (db_records T db)"] by (simp add: compacted_def)
    then have "same_reads T' ?\<sigma> db'"
      by (rule same_reads_trans [OF o(2) _ open_distinct [OF o']]) (use r(2) old s in \<open>simp_all add: compacted_def\<close>)
    then have "implements fp ?\<sigma> (w', db')" using r(5) ok f g nu len so' by (intro implements_intro [OF o']) simp_all
    with r(1) show ?thesis by blast
  qed
qed

lemma snapshots_refine:
  assumes i: "implements fp \<sigma> (w, db)" and a: "\<forall>q \<in># a. q < st_next \<sigma>"
    and le: "oldest_read \<sigma> \<le> oldest_read (\<sigma>\<lparr>st_snapshots := a\<rparr>)"
  shows "implements fp (\<sigma>\<lparr>st_snapshots := a\<rparr>) (w, db\<lparr>db_activeSnapshotSequences := a\<rparr>)"
proof -
  from i obtain T bs where o: "db_open fp T bs w db" "same_reads T \<sigma> db" and ok: "\<not> db_writeFailed db"
    and f: "db_nextSeq db = st_next \<sigma>" and nu: "unat (mf_nextTableNumber (db_manifest db)) \<le> st_numbers \<sigma>"
    and so: "store_ok \<sigma>"
    by (rule implementsE)
  have "db_open fp T bs w (db\<lparr>db_activeSnapshotSequences := a\<rparr>)"
    using o(1) a f by (simp add: db_open_def db_ready_def) (simp add: snaps_ok_def)
  moreover have "same_reads T (\<sigma>\<lparr>st_snapshots := a\<rparr>) (db\<lparr>db_activeSnapshotSequences := a\<rparr>)"
    using o(2) le by (auto simp: same_reads_def intro: order_trans)
  ultimately show ?thesis using ok f nu so by (intro implements_intro) (simp_all add: store_ok_def)
qed

lemma implements_seqs:
  assumes "implements fp \<sigma> (w, db)"
  shows "0 < st_next \<sigma>" "q \<in># st_snapshots \<sigma> \<Longrightarrow> q \<le> st_next \<sigma> - 1" "q \<in># st_snapshots \<sigma> \<Longrightarrow> q < st_next \<sigma>"
    "oldest_read \<sigma> \<le> st_next \<sigma> - 1"
proof -
  from assms obtain T bs where o: "db_open fp T bs w db" and f: "db_nextSeq db = st_next \<sigma>" "db_activeSnapshotSequences db = st_snapshots \<sigma>"
    by (rule implementsE)
  show pos: "0 < st_next \<sigma>" using open_nextSeq [OF o] f by simp
  show lt: "q < st_next \<sigma>" if "q \<in># st_snapshots \<sigma>" for q using o f that by (simp add: db_open_def snaps_ok_def)
  then show le: "q \<le> st_next \<sigma> - 1" if "q \<in># st_snapshots \<sigma>" for q using that seq_pred [OF pos] by simp
  then show "oldest_read \<sigma> \<le> st_next \<sigma> - 1" by (simp add: oldest_read_def)
qed

lemma take_refines:
  assumes i: "implements fp \<sigma> (w, db)"
  shows "\<exists>s'. DB_snapshot (w, db) = Some (Inr (Snapshot_new (st_next \<sigma> - 1)), s')
    \<and> implements fp (\<sigma>\<lparr>st_snapshots := add_mset (st_next \<sigma> - 1) (st_snapshots \<sigma>)\<rparr>) s'"
proof -
  note q = implements_seqs [OF i]
  from i have f: "db_nextSeq db = st_next \<sigma>" "db_activeSnapshotSequences db = st_snapshots \<sigma>" by (simp_all add: implements_def)
  let ?a = "add_mset (st_next \<sigma> - 1) (st_snapshots \<sigma>)"
  have "implements fp (\<sigma>\<lparr>st_snapshots := ?a\<rparr>) (w, db\<lparr>db_activeSnapshotSequences := ?a\<rparr>)"
  proof (rule snapshots_refine [OF i])
    have "st_next \<sigma> - 1 < st_next \<sigma>" using seq_pred [OF q(1), of "st_next \<sigma> - 1"] by simp
    then show "\<forall>x \<in># ?a. x < st_next \<sigma>" using q(3) by auto
    show "oldest_read \<sigma> \<le> oldest_read (\<sigma>\<lparr>st_snapshots := ?a\<rparr>)"
      using q(4) by (simp add: oldest_read_def)
  qed
  then show ?thesis
    by (simp add: DB_snapshot_def registerSnapshot_def io_bind_def db_get_def db_upd_def f)
qed

lemma release_refines:
  assumes i: "implements fp \<sigma> (w, db)"
  shows "implements fp (\<sigma>\<lparr>st_snapshots := st_snapshots \<sigma> - {#q#}\<rparr>)
    (w, db\<lparr>db_activeSnapshotSequences := the (Snapshot_dtor (Snapshot_new q) (Some (db_activeSnapshotSequences db)))\<rparr>)"
proof -
  note s = implements_seqs [OF i]
  from i have f: "db_activeSnapshotSequences db = st_snapshots \<sigma>" by (simp add: implements_def)
  have "the (Snapshot_dtor (Snapshot_new q) (Some (db_activeSnapshotSequences db))) = st_snapshots \<sigma> - {#q#}"
    by (simp add: Snapshot_dtor_def Snapshot_release_def Snapshot_new_def f)
  moreover have "implements fp (\<sigma>\<lparr>st_snapshots := st_snapshots \<sigma> - {#q#}\<rparr>) (w, db\<lparr>db_activeSnapshotSequences := st_snapshots \<sigma> - {#q#}\<rparr>)"
  proof (rule snapshots_refine [OF i])
    show "\<forall>x \<in># st_snapshots \<sigma> - {#q#}. x < st_next \<sigma>" using s(3) by (auto dest: in_diffD)
    have "Min_mset (st_snapshots \<sigma>) \<le> Min_mset (st_snapshots \<sigma> - {#q#})" if "st_snapshots \<sigma> - {#q#} \<noteq> {#}"
      using that by (intro Min_antimono) (auto dest: in_diffD)
    then show "oldest_read \<sigma> \<le> oldest_read (\<sigma>\<lparr>st_snapshots := st_snapshots \<sigma> - {#q#}\<rparr>)"
      using s(4) by (cases "st_snapshots \<sigma> = {#}") (auto simp: oldest_read_def)
  qed
  ultimately show ?thesis by simp
qed

lemma MemTable_dtor_nominal: "nominal w \<Longrightarrow> \<exists>fds. MemTable_dtor m w = w\<lparr>w_fds := fds\<rparr>"
  by (auto simp: MemTable_dtor_def WALFileWriter_dtor_def sys_close_def intro: exI [of _ "w_fds w"])

lemma reopen_refines:
  assumes i: "implements fp \<sigma> (w, db)"
  shows "\<exists>w' db'. DB_new (db_dataDirectory db) f c sl (db_compactionBaseThresholdBytes db) (MemTable_dtor (db_activeMemTable db) w)
      = Some (Inr db', w') \<and> implements fp (\<sigma>\<lparr>st_snapshots := {#}\<rparr>) (w', db')"
proof -
  from i obtain T bs where o: "db_open fp T bs w db" "same_reads T \<sigma> db"
    and n: "db_nextSeq db = st_next \<sigma>" and nu: "unat (mf_nextTableNumber (db_manifest db)) \<le> st_numbers \<sigma>"
    and so: "store_ok \<sigma>"
    by (rule implementsE)
  have b: "0 < db_compactionBaseThresholdBytes db" "in_budget (db_compactionBaseThresholdBytes db) (db_manifest db)" "nominal w"
    using o(1) by (simp_all add: db_open_def db_ready_def)
  from MemTable_dtor_nominal [OF b(3)] obtain fds where
    fds: "MemTable_dtor (db_activeMemTable db) w = w\<lparr>w_fds := fds\<rparr>" by blast
  from reopen_run [OF o(1) b(1,2), of f c sl fds] obtain w' db' where
    r: "DB_new (db_dataDirectory db) f c sl (db_compactionBaseThresholdBytes db) (w\<lparr>w_fds := fds\<rparr>) = Some (Inr db', w')"
    "db_open fp T bs w' db'" "db_records T db' = db_records T db" "db_nextSeq db' = db_nextSeq db"
    "db_activeSnapshotSequences db' = {#}" "\<not> db_writeFailed db'" "db_manifest db' = db_manifest db" by blast
  have "oldest_read \<sigma> \<le> oldest_read (\<sigma>\<lparr>st_snapshots := {#}\<rparr>)"
    using implements_seqs(4) [OF i] by (simp add: oldest_read_def)
  then have "same_reads T (\<sigma>\<lparr>st_snapshots := {#}\<rparr>) db'"
    using o(2) r(3) by (auto simp: same_reads_def intro: order_trans)
  then have "implements fp (\<sigma>\<lparr>st_snapshots := {#}\<rparr>) (w', db')"
    using r n nu so by (intro implements_intro [OF r(2)]) (simp_all add: store_ok_def)
  with r(1) fds show ?thesis by auto
qed

section \<open>The simulation\<close>

lemma single_batches:
  "wb_records (WriteBatch_put k v WriteBatch_new) = [\<lparr>br_key = k, br_type = Type_VALUE, br_value = v\<rparr>]"
  "wb_records (WriteBatch_remove k WriteBatch_new) = [\<lparr>br_key = k, br_type = Type_TOMBSTONE, br_value = []\<rparr>]"
  by (simp_all add: WriteBatch_put_def WriteBatch_remove_def WriteBatch_new_def)

lemma found_case: "case_prod Found (case x of None \<Rightarrow> (False, v) | Some y \<Rightarrow> (True, y)) = found x v"
  by (simp add: found_def split: option.split)

lemma op_refines:
  assumes i: "implements fp \<sigma> s" and fit: "op_fits x \<sigma>"
  shows "\<exists>s'. run_op fp x s = Some (fst (store_op x \<sigma>), s') \<and> implements fp (snd (store_op x \<sigma>)) s'"
proof -
  obtain w db where s: "s = (w, db)" by fastforce
  note i = i [unfolded s]
  show ?thesis
  proof (cases x)
    case (Put k v)
    with write_refines [OF i, of "WriteBatch_put k v WriteBatch_new"] fit show ?thesis
      by (auto simp: s answered_def DB_put_def single_batches)
  next
    case (Remove k)
    with write_refines [OF i, of "WriteBatch_remove k WriteBatch_new"] fit show ?thesis
      by (auto simp: s answered_def DB_remove_def single_batches)
  next
    case (Write b)
    with write_refines [OF i, of b] fit show ?thesis by (auto simp: s answered_def)
  next
    case (Get k v)
    have "DB_get k v (w, db) = DB_get_at k (st_next \<sigma> - 1) v (w, db)"
      using i by (simp add: DB_get_def io_bind_def db_get_def implements_def)
    with get_at_refines [OF i implements_seqs(4) [OF i], of k v] Get show ?thesis
      by (auto simp: s answered_def found_case)
  next
    case (Get_at k q v)
    with get_at_refines [OF i, of q k v] fit show ?thesis by (auto simp: s answered_def found_case)
  next
    case (Scan a b q)
    with scan_refines [OF i, of q a b] fit i show ?thesis by (simp add: s answered_def)
  next
    case Flush
    with flush_refines [OF i] fit show ?thesis by (auto simp: s answered_def)
  next
    case Compact
    with compact_refines [OF i] fit show ?thesis by (auto simp: s answered_def)
  next
    case Take_snapshot
    with take_refines [OF i] show ?thesis by (auto simp: s answered_def Snapshot_seq_def Snapshot_new_def)
  next
    case Count_snapshots
    with i show ?thesis by (simp add: s activeSnapshotCount_def implements_def)
  next
    case (Release_snapshot q)
    with release_refines [OF i, of q] show ?thesis by (simp add: s Let_def)
  next
    case (Reopen f c sl)
    with reopen_refines [OF i, of f c sl] show ?thesis by (auto simp: s)
  qed
qed

interpretation db_sim: simulation "run_op fp" store_op op_fits "implements fp"
  by unfold_locales (rule op_refines)

definition new_store :: store where
  "new_store = \<lparr>st_log = [], st_next = 1, st_snapshots = {#}, st_numbers = 0\<rparr>"

lemma new_implements:
  assumes "dir \<noteq> []" "0 < base" "fp_ok fp"
  shows "\<exists>w db. DB_new dir flushThreshold compactThreshold sliceThreshold base empty_world = Some (Inr db, w)
    \<and> implements fp new_store (w, db)"
proof -
  from new_database [OF assms, of flushThreshold compactThreshold sliceThreshold "\<lambda>_. []"] obtain w db where
    r: "DB_new dir flushThreshold compactThreshold sliceThreshold base empty_world = Some (Inr db, w)"
    "db_open fp (\<lambda>_. []) [] w db" "db_records (\<lambda>_. []) db = []" "db_nextSeq db = 1" "\<not> db_writeFailed db"
    "db_activeSnapshotSequences db = {#}" "db_manifest db = empty_manifest (manifest_path dir)" by blast
  have "implements fp new_store (w, db)"
    by (rule implements_intro [OF r(2)])
      (simp_all add: same_reads_def store_ok_def new_store_def r empty_manifest_def)
  with r(1) show ?thesis by blast
qed

text \<open>What a snapshot sees does not change while it is active.\<close>

lemma store_keeps_view:
  assumes "store_ok \<sigma>" "op_fits x \<sigma>" "q \<in># st_snapshots \<sigma>" "q < st_next \<sigma>" "x \<noteq> Release_snapshot q"
    "\<And>f c sl. x \<noteq> Reopen f c sl"
  shows "contents_at (snd (store_op x \<sigma>)) q = contents_at \<sigma> q" "q \<in># st_snapshots (snd (store_op x \<sigma>))"
    "q < st_next (snd (store_op x \<sigma>))" "store_ok (snd (store_op x \<sigma>))"
proof -
  have w: "contents_at (store_write brs \<sigma>) q = contents_at \<sigma> q \<and> q \<in># st_snapshots (store_write brs \<sigma>)
      \<and> q < st_next (store_write brs \<sigma>) \<and> store_ok (store_write brs \<sigma>)" if "write_fits brs \<sigma>" for brs
  proof (intro conjI)
    show "contents_at (store_write brs \<sigma>) q = contents_at \<sigma> q"
      using store_write_past [OF that assms(4)] by (simp add: contents_at_def read_value_def fun_eq_iff)
    have "unat (st_next \<sigma>) + length brs < 2 ^ 64" using that by (simp add: write_fits_def Let_def)
    from next_grows(1) [OF this] assms(4) show "q < st_next (store_write brs \<sigma>)" by (simp add: store_write_def)
    show "q \<in># st_snapshots (store_write brs \<sigma>)" using assms(3) by (simp add: store_write_def)
  qed (rule store_write_ok [OF assms(1) that])
  have "contents_at (snd (store_op x \<sigma>)) q = contents_at \<sigma> q \<and> q \<in># st_snapshots (snd (store_op x \<sigma>))
      \<and> q < st_next (snd (store_op x \<sigma>)) \<and> store_ok (snd (store_op x \<sigma>))"
    using assms w by (cases x) (auto simp: contents_at_def fun_eq_iff store_ok_def in_diff_count)
  then show "contents_at (snd (store_op x \<sigma>)) q = contents_at \<sigma> q" "q \<in># st_snapshots (snd (store_op x \<sigma>))"
    "q < st_next (snd (store_op x \<sigma>))" "store_ok (snd (store_op x \<sigma>))" by simp_all
qed

definition keeps_snapshot :: "u64 \<Rightarrow> operation \<Rightarrow> bool" where
  "keeps_snapshot q x = (case x of Release_snapshot q' \<Rightarrow> q' \<noteq> q | Reopen _ _ _ \<Rightarrow> False | _ \<Rightarrow> True)"

lemma session_keeps_view:
  assumes "store_ok \<sigma>" "fits_all op_fits store_op xs \<sigma>" "q \<in># st_snapshots \<sigma>" "q < st_next \<sigma>"
    "\<forall>x \<in> set xs. keeps_snapshot q x"
  shows "contents_at (snd (spec_all store_op xs \<sigma>)) q = contents_at \<sigma> q \<and> q \<in># st_snapshots (snd (spec_all store_op xs \<sigma>))"
  using assms
proof (induction xs arbitrary: \<sigma>)
  case (Cons x xs)
  have "x \<noteq> Release_snapshot q" "\<And>f c sl. x \<noteq> Reopen f c sl"
    using Cons.prems(5) by (auto simp: keeps_snapshot_def)
  with Cons.prems have v: "contents_at (snd (store_op x \<sigma>)) q = contents_at \<sigma> q" "q \<in># st_snapshots (snd (store_op x \<sigma>))"
    "q < st_next (snd (store_op x \<sigma>))" "store_ok (snd (store_op x \<sigma>))"
    using store_keeps_view [of \<sigma> x q] by simp_all
  have "contents_at (snd (spec_all store_op xs (snd (store_op x \<sigma>)))) q = contents_at (snd (store_op x \<sigma>)) q
      \<and> q \<in># st_snapshots (snd (spec_all store_op xs (snd (store_op x \<sigma>))))"
    using Cons.prems by (intro Cons.IH v) simp_all
  with v(1) show ?case by (simp add: split_def)
qed simp

lemma get_refines:
  assumes i: "implements fp \<sigma> s"
  shows "\<exists>s'. DB_get k v s = Some (Inr (case contents_at \<sigma> (st_next \<sigma> - 1) k of None \<Rightarrow> (False, v) | Some x \<Rightarrow> (True, x)), s')"
proof -
  obtain w db where s: "s = (w, db)" by fastforce
  have "DB_get k v (w, db) = DB_get_at k (st_next \<sigma> - 1) v (w, db)"
    using i by (simp add: DB_get_def io_bind_def db_get_def implements_def s)
  with get_at_refines [OF i [unfolded s] implements_seqs(4) [OF i [unfolded s]], of k v] show ?thesis by (auto simp: s)
qed

text \<open>A batch of one operation, and the reads before and after it.\<close>

lemma single_write_reads:
  assumes i: "implements fp \<sigma> s" and b: "wb_records b = [x]" and fit: "write_fits [x] \<sigma>"
  shows "\<exists>s1. DB_write fp b s = Some (Inr True, s1)
    \<and> (\<forall>k u. \<exists>a t t1. DB_get k u s = Some (Inr a, t)
        \<and> DB_get k u s1 = Some (Inr (if k = br_key x then if br_type x = Type_TOMBSTONE then (False, u)
            else (True, br_value x) else a), t1))"
proof -
  obtain w db where s: "s = (w, db)" by fastforce
  from write_refines [OF i [unfolded s], of b] b fit obtain s1 where
    r: "DB_write fp b s = Some (Inr True, s1)" "implements fp (store_write [x] \<sigma>) s1" by (auto simp: s)
  have ok: "store_ok \<sigma>" using i by (simp add: implements_def)
  have "\<exists>a t t1. DB_get k u s = Some (Inr a, t) \<and> DB_get k u s1 = Some (Inr (if k = br_key x
      then if br_type x = Type_TOMBSTONE then (False, u) else (True, br_value x) else a), t1)" for k u
    using get_refines [OF i, of k u] get_refines [OF r(2), of k u]
    unfolding store_write_now [OF ok fit] by (cases "k = br_key x") auto
  with r(1) show ?thesis by blast
qed

section \<open>Properties\<close>

text \<open>
  C1: any session with a new database, made of puts, removes, batches, reads at the current number
  or at a snapshot, scans, flushes, compactions, snapshots and reopenings in any order, returns from
  every call, and every answer is the one of the abstract store: the plain log of the operations.
\<close>

theorem session_refines_store:
  assumes "dir \<noteq> []" "0 < base" "fp_ok fp" "fits_all op_fits store_op ops new_store"
  shows "\<exists>w db s'. DB_new dir flushThreshold compactThreshold sliceThreshold base empty_world = Some (Inr db, w)
    \<and> run_all (run_op fp) ops (w, db) = Some (fst (spec_all store_op ops new_store), s')
    \<and> implements fp (snd (spec_all store_op ops new_store)) s'"
proof -
  from new_implements [OF assms(1-3)] obtain w db where
    "DB_new dir flushThreshold compactThreshold sliceThreshold base empty_world = Some (Inr db, w)"
    "implements fp new_store (w, db)" by blast
  with db_sim.run_refines [OF _ assms(4), of fp "(w, db)"] show ?thesis by blast
qed

text \<open>
  C8: an acknowledged put is read back: whatever the put set off (a flush, compactions), the next
  read of its key finds the value, and the read of every other key answers as before.
\<close>

theorem read_your_writes:
  assumes "implements fp \<sigma> s" "write_fits [\<lparr>br_key = k, br_type = Type_VALUE, br_value = v\<rparr>] \<sigma>"
  shows "\<exists>s1. DB_put fp k v s = Some (Inr True, s1)
    \<and> (\<forall>k' u. \<exists>a t t1. DB_get k' u s = Some (Inr a, t)
        \<and> DB_get k' u s1 = Some (Inr (if k' = k then (True, v) else a), t1))"
  using single_write_reads [OF assms(1) single_batches(1) assms(2)] unfolding DB_put_def
  by (simp only: BatchRecord.select_convs Type.distinct if_True if_False refl cong: if_cong)

text \<open>
  An acknowledged remove hides its key from the next read, in whatever level its older versions
  are, and the read of every other key answers as before.
\<close>

theorem remove_hides:
  assumes "implements fp \<sigma> s" "write_fits [\<lparr>br_key = k, br_type = Type_TOMBSTONE, br_value = []\<rparr>] \<sigma>"
  shows "\<exists>s1. DB_remove fp k s = Some (Inr True, s1)
    \<and> (\<forall>k' u. \<exists>a t t1. DB_get k' u s = Some (Inr a, t)
        \<and> DB_get k' u s1 = Some (Inr (if k' = k then (False, u) else a), t1))"
  using single_write_reads [OF assms(1) single_batches(2) assms(2)] unfolding DB_remove_def
  by (simp only: BatchRecord.select_convs Type.distinct if_True if_False refl cong: if_cong)

text \<open>
  C3: a snapshot is isolated: while it is active, no operation in any order, writes of its keys,
  flushes and compactions included, changes what a read at its sequence number answers.
\<close>

theorem snapshot_isolation:
  assumes "implements fp \<sigma> s" "q \<in># st_snapshots \<sigma>" "fits_all op_fits store_op ops \<sigma>"
    and "\<forall>x \<in> set ops. keeps_snapshot q x"
  shows "\<exists>as s'. run_all (run_op fp) ops s = Some (as, s')
    \<and> (\<forall>k v. \<exists>a t t'. DB_get_at k q v s = Some (Inr a, t) \<and> DB_get_at k q v s' = Some (Inr a, t'))"
proof -
  let ?\<sigma> = "snd (spec_all store_op ops \<sigma>)"
  from db_sim.run_refines [OF assms(1,3)] obtain s' where
    r: "run_all (run_op fp) ops s = Some (fst (spec_all store_op ops \<sigma>), s')" "implements fp ?\<sigma> s'" by blast
  obtain w db w' db' where s: "s = (w, db)" "s' = (w', db')" by fastforce
  have "store_ok \<sigma>" using assms(1) by (simp add: implements_def)
  moreover have "q < st_next \<sigma>" using implements_seqs(3) [OF assms(1) [unfolded s] assms(2)] .
  ultimately have v: "contents_at ?\<sigma> q = contents_at \<sigma> q" "q \<in># st_snapshots ?\<sigma>"
    using session_keeps_view [OF _ assms(3,2) _ assms(4)] by simp_all
  have old: "oldest_read \<tau> \<le> q" if "q \<in># st_snapshots \<tau>" for \<tau> using that by (auto simp: oldest_read_def)
  have "\<exists>a t t'. DB_get_at k q u s = Some (Inr a, t) \<and> DB_get_at k q u s' = Some (Inr a, t')" for k u
    using get_at_refines [OF assms(1) [unfolded s] old [OF assms(2)], of k u]
      get_at_refines [OF r(2) [unfolded s] old [OF v(2)], of k u]
    unfolding v(1) s by blast
  with r(1) show ?thesis by blast
qed

section \<open>An example\<close>

definition session_example :: "operation list" where
  "session_example = [Put ''a'' ''x'', Take_snapshot, Remove ''a'', Flush, Compact, Get_at ''a'' 1 [], Get ''a'' [],
     Reopen 0 0 0, Get ''a'' [], Count_snapshots]"

lemmas answer_simps = store_write_def new_store_def contents_at_def found_def read_value_def visible_def eligible_def
  pick_def

lemmas session_simps = answer_simps write_fits_def records_fit_def records_bytes_def encodable_def length_record_bytes
  flush_numbers_def oldest_read_def

lemma session_example_fits: "fits_all op_fits store_op session_example new_store"
  by (simp add: session_example_def session_simps)

theorem session_refines_store_witness:
  "\<exists>w db s'. DB_new [''d''] 100 4 1000 1000 empty_world = Some (Inr db, w)
    \<and> run_all (run_op fp_example) session_example (w, db) = Some ([Acknowledged True, Taken 1, Acknowledged True,
        Finished, Finished, Found True ''x'', Found False [], Finished, Found False [], Counted 0], s')"
proof -
  have "fst (spec_all store_op session_example new_store) = [Acknowledged True, Taken 1, Acknowledged True,
        Finished, Finished, Found True ''x'', Found False [], Finished, Found False [], Counted 0]"
    by (simp add: session_example_def answer_simps word_le_nat_alt)
  with session_refines_store [of "[''d'']" 1000 fp_example session_example 100 4 1000] session_example_fits fp_example_ok
  show ?thesis by auto
qed

text \<open>The state in which the example's snapshot has just been taken.\<close>

lemma example_state:
  "\<exists>s. implements fp_example (snd (spec_all store_op [Put ''a'' ''x'', Take_snapshot] new_store)) s"
proof -
  from new_implements [of "[''d'']" 1000 fp_example 100 4 1000] fp_example_ok obtain s where
    "implements fp_example new_store s" by auto
  moreover have "fits_all op_fits store_op [Put ''a'' ''x'', Take_snapshot] new_store" by (simp add: session_simps)
  ultimately show ?thesis using db_sim.run_refines by blast
qed

theorem read_your_writes_witness:
  "\<exists>s s1 t1. DB_put fp_example ''a'' ''z'' s = Some (Inr True, s1) \<and> DB_get ''a'' [] s1 = Some (Inr (True, ''z''), t1)"
proof -
  from example_state obtain s where i: "implements fp_example (snd (spec_all store_op [Put ''a'' ''x'', Take_snapshot] new_store)) s"
    by blast
  have "write_fits [\<lparr>br_key = ''a'', br_type = Type_VALUE, br_value = ''z''\<rparr>]
      (snd (spec_all store_op [Put ''a'' ''x'', Take_snapshot] new_store))" by (simp add: session_simps)
  from read_your_writes [OF i this] obtain s1 where
    r: "DB_put fp_example ''a'' ''z'' s = Some (Inr True, s1)"
    "\<exists>a t t1. DB_get ''a'' [] s = Some (Inr a, t) \<and> DB_get ''a'' [] s1 = Some (Inr (if ''a'' = ''a'' then (True, ''z'') else a), t1)"
    by blast
  from r(2) obtain t1 where "DB_get ''a'' [] s1 = Some (Inr (True, ''z''), t1)" by auto
  with r(1) show ?thesis by blast
qed

theorem remove_hides_witness:
  "\<exists>s s1 t1. DB_remove fp_example ''a'' s = Some (Inr True, s1) \<and> DB_get ''a'' ''u'' s1 = Some (Inr (False, ''u''), t1)"
proof -
  from example_state obtain s where i: "implements fp_example (snd (spec_all store_op [Put ''a'' ''x'', Take_snapshot] new_store)) s"
    by blast
  have "write_fits [\<lparr>br_key = ''a'', br_type = Type_TOMBSTONE, br_value = []\<rparr>]
      (snd (spec_all store_op [Put ''a'' ''x'', Take_snapshot] new_store))" by (simp add: session_simps)
  from remove_hides [OF i this] obtain s1 where
    r: "DB_remove fp_example ''a'' s = Some (Inr True, s1)"
    "\<exists>a t t1. DB_get ''a'' ''u'' s = Some (Inr a, t) \<and> DB_get ''a'' ''u'' s1 = Some (Inr (if ''a'' = ''a'' then (False, ''u'') else a), t1)"
    by blast
  from r(2) obtain t1 where "DB_get ''a'' ''u'' s1 = Some (Inr (False, ''u''), t1)" by auto
  with r(1) show ?thesis by blast
qed

theorem snapshot_isolation_witness:
  "\<exists>s as s' a t t'. run_all (run_op fp_example) [Remove ''a'', Flush, Compact] s = Some (as, s')
    \<and> DB_get_at ''a'' 1 [] s = Some (Inr a, t) \<and> DB_get_at ''a'' 1 [] s' = Some (Inr a, t')"
proof -
  let ?\<sigma> = "snd (spec_all store_op [Put ''a'' ''x'', Take_snapshot] new_store)"
  from example_state obtain s where i: "implements fp_example ?\<sigma> s" by blast
  have "1 \<in># st_snapshots ?\<sigma>" "fits_all op_fits store_op [Remove ''a'', Flush, Compact] ?\<sigma>"
    by (simp_all add: session_simps)
  moreover have "\<forall>x \<in> set [Remove ''a'', Flush, Compact]. keeps_snapshot 1 x" by (simp add: keeps_snapshot_def)
  ultimately show ?thesis using snapshot_isolation [OF i] by blast
qed

end
