(* ===== verification/Robust.thy ===== *)
theory Robust
  imports DB
begin

text \<open>
  Success under faults. A program of the engine that returns normally in a world with faults returns
  the same value in the nominal world with the same files, and leaves the same files behind: faults
  can make an operation fail or repeat a call, but never succeed with another result. The rules below
  derive this for a program from its parts.
\<close>

section \<open>Worlds with the same files\<close>

definition calm :: "world \<Rightarrow> world" where
  "calm w = w\<lparr>w_policy := None, w_os := sconst OsOk\<rparr>"

lemma calm_fields [simp]:
  "w_files (calm w) = w_files w" "w_dirs (calm w) = w_dirs w" "w_fds (calm w) = w_fds w" "nominal (calm w)"
  by (simp_all add: calm_def nominal_def)

text \<open>\<open>twin w v\<close>: \<open>v\<close> is nominal and has the files, directories and descriptors of \<open>w\<close>.\<close>

definition twin :: "world \<Rightarrow> world \<Rightarrow> bool" where
  "twin w v \<longleftrightarrow> content_of v = content_of w \<and> set (w_dirs v) = set (w_dirs w) \<and> w_fds v = w_fds w \<and> nominal v"

lemma twin_calm: "twin w (calm w)"
  by (simp add: twin_def)

lemma twin_nominal: "twin w v \<Longrightarrow> nominal v"
  by (simp add: twin_def)

lemma twin_frame: "twin w v \<Longrightarrow> w_files w' = w_files w \<Longrightarrow> w_dirs w' = w_dirs w \<Longrightarrow> w_fds w' = w_fds w \<Longrightarrow> twin w' v"
  by (simp add: twin_def)

lemma twin_files:
  "twin w v \<Longrightarrow> content_of w' = content_of w1 \<Longrightarrow> content_of w1 = (content_of w)(p := c) \<Longrightarrow> w_dirs w' = w_dirs w \<Longrightarrow>
   w_fds w' = w_fds w \<Longrightarrow> content_of v' = (content_of v)(p := c) \<Longrightarrow> w_dirs v' = w_dirs v \<Longrightarrow> w_fds v' = w_fds v \<Longrightarrow>
   nominal v' \<Longrightarrow> twin w' v'"
  by (simp add: twin_def)

text \<open>The same for a state with further components.\<close>

definition twins :: "world \<times> 'l \<Rightarrow> world \<times> 'l \<Rightarrow> bool" where
  "twins s t \<longleftrightarrow> twin (fst s) (fst t) \<and> snd t = snd s"

section \<open>Robust programs\<close>

definition robust :: "('s \<Rightarrow> 's \<Rightarrow> bool) \<Rightarrow> ('s, 'a) prog \<Rightarrow> bool" where
  "robust R m \<longleftrightarrow> (\<forall>s t x s'. R s t \<longrightarrow> m s = Some (Inr x, s') \<longrightarrow> (\<exists>t'. m t = Some (Inr x, t') \<and> R s' t'))"

text \<open>A program that never returns normally.\<close>

definition fails :: "('s, 'a) prog \<Rightarrow> bool" where
  "fails m \<longleftrightarrow> (\<forall>s x s'. m s \<noteq> Some (Inr x, s'))"

named_theorems robust_intros

lemma robustI:
  "(\<And>s t x s'. R s t \<Longrightarrow> m s = Some (Inr x, s') \<Longrightarrow> \<exists>t'. m t = Some (Inr x, t') \<and> R s' t') \<Longrightarrow> robust R m"
  unfolding robust_def by blast

lemma robustD: "robust R m \<Longrightarrow> R s t \<Longrightarrow> m s = Some (Inr x, s') \<Longrightarrow> \<exists>t'. m t = Some (Inr x, t') \<and> R s' t'"
  unfolding robust_def by blast

lemma fails_throw [simp]: "fails (io_throw e)"
  by (simp add: fails_def)

lemma fails_bind: "(\<And>x. fails (k x)) \<Longrightarrow> fails (io_bind m k)"
  by (auto simp: fails_def io_bind_def split: option.splits sum.splits)

lemma robust_fails: "fails m \<Longrightarrow> robust R m"
  by (auto simp: fails_def intro: robustI)

lemma robust_ret [robust_intros]: "robust R (io_ret x)"
  by (rule robustI) auto

lemma robust_throw [robust_intros]: "robust R (io_throw e)"
  by (rule robustI) auto

lemma robust_lift [robust_intros]: "robust R (io_lift r)"
  by (rule robustI) auto

lemma robust_defined [robust_intros]: "robust R (io_defined y)"
  by (rule robustI) (auto simp: io_defined_def)

lemma robust_get: "(\<And>s t. R s t \<Longrightarrow> g t = g s) \<Longrightarrow> robust R (io_get g)"
  by (rule robustI) auto

lemma robust_upd: "(\<And>s t. R s t \<Longrightarrow> R (h s) (h t)) \<Longrightarrow> robust R (io_upd h)"
  by (rule robustI) auto

lemma robust_bind_gen:
  assumes "\<And>s t x s'. R s t \<Longrightarrow> m s = Some (Inr x, s') \<Longrightarrow> (\<exists>t'. m t = Some (Inr x, t') \<and> R s' t') \<or> fails (k x)"
    and "\<And>x. robust R (k x)"
  shows "robust R (io_bind m k)"
proof (rule robustI)
  fix s t y s'
  assume r: "R s t" and run: "io_bind m k s = Some (Inr y, s')"
  from run obtain x s1 where x: "m s = Some (Inr x, s1)" "k x s1 = Some (Inr y, s')"
    by (auto simp: io_bind_def split: option.splits sum.splits)
  then have "\<not> fails (k x)" by (auto simp: fails_def)
  with assms(1) [OF r x(1)] obtain t1 where t1: "m t = Some (Inr x, t1)" "R s1 t1" by blast
  from robustD [OF assms(2) t1(2) x(2)] obtain t' where "k x t1 = Some (Inr y, t')" "R s' t'" by blast
  with t1(1) show "\<exists>t'. io_bind m k t = Some (Inr y, t') \<and> R s' t'" by simp
qed

lemma robust_bind [robust_intros]: "robust R m \<Longrightarrow> (\<And>x. robust R (k x)) \<Longrightarrow> robust R (io_bind m k)"
  by (rule robust_bind_gen) (auto dest: robustD)

lemma robust_if [robust_intros]: "(b \<Longrightarrow> robust R m) \<Longrightarrow> (\<not> b \<Longrightarrow> robust R m') \<Longrightarrow> robust R (if b then m else m')"
  by simp

lemma robust_Let [robust_intros]: "(\<And>x. robust R (k x)) \<Longrightarrow> robust R (let x = e in k x)"
  by simp

lemma robust_case_prod [robust_intros]: "(\<And>a b. robust R (k a b)) \<Longrightarrow> robust R (case p of (a, b) \<Rightarrow> k a b)"
  by (cases p) simp

lemma robust_case_option [robust_intros]:
  "robust R m \<Longrightarrow> (\<And>x. robust R (k x)) \<Longrightarrow> robust R (case y of None \<Rightarrow> m | Some x \<Rightarrow> k x)"
  by (cases y) simp_all

lemma robust_case_sum [robust_intros]:
  "(\<And>e. robust R (m e)) \<Longrightarrow> (\<And>x. robust R (k x)) \<Longrightarrow> robust R (case y of Inl e \<Rightarrow> m e | Inr x \<Rightarrow> k x)"
  by (cases y) simp_all

lemma robust_try_rethrow:
  assumes "robust R m" "\<And>e. fails (h e)"
  shows "robust R (io_try m h)"
proof (rule robustI)
  fix s t x s'
  assume r: "R s t" and run: "io_try m h s = Some (Inr x, s')"
  then have "m s = Some (Inr x, s')" using assms(2)
    by (auto simp: io_try_def fails_def split: option.splits sum.splits)
  from robustD [OF assms(1) r this] show "\<exists>t'. io_try m h t = Some (Inr x, t') \<and> R s' t'" by (auto simp: io_try_def)
qed

lemma robust_for [robust_intros]: "(\<And>x. x \<in> set xs \<Longrightarrow> robust R (f x)) \<Longrightarrow> robust R (io_for xs f)"
  by (induction xs) (auto intro!: robust_ret robust_bind simp del: io_apply)

lemma robust_fold [robust_intros]: "(\<And>acc x. robust R (f acc x)) \<Longrightarrow> robust R (io_fold f acc xs)"
  by (induction xs arbitrary: acc) (auto intro!: robust_ret robust_bind simp del: io_apply)

lemma robust_outer [robust_intros]:
  assumes m: "robust twin m"
  shows "robust twins (io_outer m :: (world \<times> 'l, 'a) prog)"
proof (rule robustI)
  fix s t :: "world \<times> 'l" and x s'
  assume r: "twins s t" and run: "io_outer m s = Some (Inr x, s')"
  then obtain w' where w: "m (fst s) = Some (Inr x, w')" "s' = (w', snd s)"
    by (auto simp: io_outer_def split: option.splits prod.splits)
  have "twin (fst s) (fst t)" "snd t = snd s" using r by (simp_all add: twins_def)
  with robustD [OF m _ w(1)] obtain v' where "m (fst t) = Some (Inr x, v')" "twin w' v'" by blast
  with w \<open>snd t = snd s\<close> show "\<exists>t'. io_outer m t = Some (Inr x, t') \<and> twins s' t'"
    by (auto simp: io_outer_def twins_def)
qed

lemma robust_local:
  assumes "robust twins m" "\<And>l w v. twin w v \<Longrightarrow> twin (d l w) (d l v)"
  shows "robust twin (io_local l m d)"
proof (rule robustI)
  fix w v x w'
  assume r: "twin w v" and run: "io_local l m d w = Some (Inr x, w')"
  then obtain w1 l' where m: "m (w, l) = Some (Inr x, (w1, l'))" "w' = d l' w1"
    by (auto simp: io_local_def split: option.splits prod.splits)
  have "twins (w, l) (v, l)" using r by (simp add: twins_def)
  from robustD [OF assms(1) this m(1)] obtain v1 where "m (v, l) = Some (Inr x, (v1, l'))" "twin w1 v1"
    by (auto simp: twins_def)
  with assms(2) m(2) show "\<exists>v'. io_local l m d v = Some (Inr x, v') \<and> twin w' v'" by (auto simp: io_local_def)
qed

section \<open>System calls\<close>

text \<open>A call that gives the same answer and effect on twins whenever the answer is a success.\<close>

definition agrees :: "(world \<Rightarrow> 'a \<times> world) \<Rightarrow> ('a \<Rightarrow> bool) \<Rightarrow> bool" where
  "agrees f ok \<longleftrightarrow> (\<forall>w v x w'. twin w v \<longrightarrow> f w = (x, w') \<longrightarrow> ok x \<longrightarrow> (\<exists>v'. f v = (x, v') \<and> twin w' v'))"

lemma agreesI:
  "(\<And>w v x w'. twin w v \<Longrightarrow> f w = (x, w') \<Longrightarrow> ok x \<Longrightarrow> \<exists>v'. f v = (x, v') \<and> twin w' v') \<Longrightarrow> agrees f ok"
  unfolding agrees_def by blast

lemma agreesD: "agrees f ok \<Longrightarrow> twin w v \<Longrightarrow> f w = (x, w') \<Longrightarrow> ok x \<Longrightarrow> \<exists>v'. f v = (x, v') \<and> twin w' v'"
  unfolding agrees_def by blast

lemma robust_act:
  assumes "agrees f ok" "\<And>x. \<not> ok x \<Longrightarrow> fails (k x)" "\<And>x. ok x \<Longrightarrow> robust twin (k x)"
  shows "robust twin (io_bind (io_act f) k)"
proof (rule robust_bind_gen)
  fix w v x w'
  assume "twin w v" "io_act f w = Some (Inr x, w')"
  moreover from this have "f w = (x, w')" by (auto simp: io_act_def split: prod.splits)
  ultimately show "(\<exists>v'. io_act f v = Some (Inr x, v') \<and> twin w' v') \<or> fails (k x)"
    using agreesD [OF assms(1), of w v x w'] assms(2) [of x] by (cases "ok x") (auto simp: io_act_def)
next
  fix x
  show "robust twin (k x)" using assms(2,3) by (cases "ok x") (auto intro: robust_fails)
qed

lemma robust_outer_act:
  assumes "agrees f ok" "\<And>x. \<not> ok x \<Longrightarrow> fails (k x)" "\<And>x. ok x \<Longrightarrow> robust twins (k x)"
  shows "robust twins (io_bind (io_outer (io_act f)) k)"
proof (rule robust_bind_gen)
  fix s t :: "world \<times> 'b" and x s'
  assume tw: "twins s t" and "io_outer (io_act f) s = Some (Inr x, s')"
  then have f: "f (fst s) = (x, fst s')" "snd s' = snd s"
    by (auto simp: io_outer_def io_act_def split: prod.splits option.splits)
  show "(\<exists>t'. io_outer (io_act f) t = Some (Inr x, t') \<and> twins s' t') \<or> fails (k x)"
  proof (cases "ok x")
    case True
    with agreesD [OF assms(1) _ f(1)] tw obtain v' where "f (fst t) = (x, v')" "twin (fst s') v'"
      by (auto simp: twins_def)
    with f(2) tw show ?thesis by (auto simp: io_outer_def io_act_def twins_def)
  qed (use assms(2) in blast)
next
  fix x
  show "robust twins (k x)" using assms(2,3) by (cases "ok x") (auto intro: robust_fails)
qed

lemma twin_content: "twin w v \<Longrightarrow> content_of v p = content_of w p"
  by (simp add: twin_def)

lemma twin_fresh_fd: "twin w v \<Longrightarrow> fresh_fd (w_fds v) = fresh_fd (w_fds w)"
  by (simp add: twin_def)

text \<open>
  A call on the nominal twin \<open>v\<close> leaves \<open>w_os\<close> as it is, so it is enough to know the files,
  directories and descriptors after it.
\<close>

lemma agrees_fsync: "agrees (fault_fsync fd) (\<lambda>e. e = 0)"
proof (rule agreesI)
  fix w v x w'
  assume tw: "twin w v" and f: "fault_fsync fd w = (x, w')" and "x = 0"
  have "map_of (w_fds w) fd \<noteq> None"
    using f \<open>x = 0\<close> by (auto simp: fault_fsync_def sys_fsync_def EBADF_def split: prod.splits if_splits os_answer.splits
        dest!: os_next_frame consult_frame)
  moreover note fr = fault_fsync_frame [OF f]
  ultimately have "fault_fsync fd v = (0, v)" using tw by (intro nominal_fault_fsync) (simp_all add: twin_def)
  moreover have "twin w' v" using tw fr by (intro twin_frame [OF tw]) simp_all
  ultimately show "\<exists>v'. fault_fsync fd v = (x, v') \<and> twin w' v'" using \<open>x = 0\<close> by blast
qed

lemma twin_close: "twin w v \<Longrightarrow> twin (snd (sys_close fd w)) (snd (sys_close fd v))"
proof -
  assume tw: "twin w v"
  have fr: "w_files (snd (sys_close fd u)) = w_files u \<and> w_dirs (snd (sys_close fd u)) = w_dirs u
      \<and> w_fds (snd (sys_close fd u)) = AList.delete fd (w_fds u)" for u
    using sys_close_frame [of fd u "fst (sys_close fd u)" "snd (sys_close fd u)"] by simp
  have "nominal (snd (sys_close fd v))" using twin_nominal [OF tw] by (auto simp: sys_close_def)
  with tw fr [of w] fr [of v] show ?thesis by (simp add: twin_def)
qed

lemma agrees_close: "agrees (sys_close fd) (\<lambda>e. e = 0)"
proof (rule agreesI)
  fix w v x w'
  assume tw: "twin w v" and f: "sys_close fd w = (x, w')" and "x = 0"
  have "map_of (w_fds w) fd \<noteq> None"
    using f \<open>x = 0\<close> by (auto simp: sys_close_def EBADF_def split: prod.splits if_splits os_answer.splits dest!: os_next_frame)
  then have "fst (sys_close fd v) = 0" using tw twin_nominal [OF tw] by (auto simp: sys_close_def twin_def)
  then show "\<exists>v'. sys_close fd v = (x, v') \<and> twin w' v'"
    using twin_close [OF tw, of fd] f \<open>x = 0\<close> by (intro exI [of _ "snd (sys_close fd v)"]) (simp add: prod_eq_iff)
qed

lemma agrees_rename: "agrees (sys_rename old new) (\<lambda>e. e = 0)"
proof (rule agreesI)
  fix w v x w'
  assume tw: "twin w v" and f: "sys_rename old new w = (x, w')" and x: "x = 0"
  obtain a w1 where os: "os_next w = (a, w1)" by fastforce
  note fr = os_next_frame [OF os]
  from f x os fr obtain c where c: "content_of w old = Some c" "new \<notin> set (w_dirs w)" "w' = set_file new c (del_file old w1)"
    by (auto simp: sys_rename_def ENOENT_def EISDIR_def split: os_answer.splits option.splits if_splits)
  have "sys_rename old new v = (0, set_file new c (del_file old v))"
    using tw c by (simp add: sys_rename_def twin_def)
  moreover have "twin w' (set_file new c (del_file old v))" using tw fr c(3) by (simp add: twin_def)
  ultimately show "\<exists>v'. sys_rename old new v = (x, v') \<and> twin w' v'" using x by blast
qed

lemma agrees_remove: "agrees (sys_remove p) (\<lambda>e. e = 0)"
proof (rule agreesI)
  fix w v x w'
  assume tw: "twin w v" and f: "sys_remove p w = (x, w')" and x: "x = 0"
  obtain a w1 where os: "os_next w = (a, w1)" by fastforce
  note fr = os_next_frame [OF os]
  from f x os fr obtain c where c: "content_of w p = Some c" "w' = del_file p w1"
    by (auto simp: sys_remove_def ENOENT_def split: os_answer.splits option.splits if_splits)
  have "sys_remove p v = (0, del_file p v)" using tw c by (simp add: sys_remove_def twin_def)
  moreover have "twin w' (del_file p v)" using tw fr c(2) by (simp add: twin_def)
  ultimately show "\<exists>v'. sys_remove p v = (x, v') \<and> twin w' v'" using x by blast
qed

lemma agrees_open_dir: "agrees (sys_open_dir p) (\<lambda>r. \<exists>d. r = Inr d)"
proof (rule agreesI)
  fix w v x w'
  assume tw: "twin w v" and f: "sys_open_dir p w = (x, w')" and x: "\<exists>d. x = Inr d"
  obtain a w1 where os: "os_next w = (a, w1)" by fastforce
  note fr = os_next_frame [OF os]
  from f x os fr have c: "p \<in> set (w_dirs w) \<or> content_of w p \<noteq> None" "x = Inr (fresh_fd (w_fds w))"
    "w' = w1\<lparr>w_fds := (fresh_fd (w_fds w), p) # w_fds w\<rparr>"
    by (auto simp: sys_open_dir_def alloc_fd_def split: os_answer.splits if_splits)
  have "sys_open_dir p v = (x, v\<lparr>w_fds := (fresh_fd (w_fds w), p) # w_fds w\<rparr>)"
    using tw c by (auto simp: sys_open_dir_def alloc_fd_def twin_def)
  moreover have "twin w' (v\<lparr>w_fds := (fresh_fd (w_fds w), p) # w_fds w\<rparr>)" using tw fr c(3) by (simp add: twin_def)
  ultimately show "\<exists>v'. sys_open_dir p v = (x, v') \<and> twin w' v'" by blast
qed

lemma agrees_open_write: "agrees (sys_open_write excl trunc p) (\<lambda>r. \<exists>d. r = Inr d)"
proof (rule agreesI)
  fix w v x w'
  assume tw: "twin w v" and f: "sys_open_write excl trunc p w = (x, w')" and x: "\<exists>d. x = Inr d"
  obtain a w1 where os: "os_next w = (a, w1)" by fastforce
  note fr = os_next_frame [OF os]
  let ?open = "\<lambda>u. (if trunc \<or> content_of u p = None then set_file p [] u else u)\<lparr>w_fds := (fresh_fd (w_fds w), p) # w_fds w\<rparr>"
  from f x os fr have c: "p \<notin> set (w_dirs w)" "butlast p \<in> set (w_dirs w)" "\<not> (excl \<and> content_of w p \<noteq> None)"
    "x = Inr (fresh_fd (w_fds w))" "w' = ?open w1"
    by (auto simp: sys_open_write_def alloc_fd_def Let_def split: os_answer.splits if_splits)
  have "sys_open_write excl trunc p v = (x, ?open v)"
    using tw c(1-4) by (auto simp: sys_open_write_def alloc_fd_def Let_def twin_def)
  moreover have "twin w' (?open v)" using tw fr c(5) by (simp add: twin_def)
  ultimately show "\<exists>v'. sys_open_write excl trunc p v = (x, v') \<and> twin w' v'" by blast
qed

lemma agrees_create_directories: "agrees (fs_create_directories p) (\<lambda>e. e = 0)"
proof (rule agreesI)
  fix w v x w'
  assume tw: "twin w v" and f: "fs_create_directories p w = (x, w')" and x: "x = 0"
  obtain a w1 where os: "os_next w = (a, w1)" by fastforce
  note fr = os_next_frame [OF os]
  from f x os fr have c: "\<forall>q \<in> set (prefixes p). content_of w q = None" "w' = mkdirs p w1"
    by (auto simp: fs_create_directories_def EEXIST_def mkdirs_def split: os_answer.splits if_splits)
  have "fs_create_directories p v = (0, mkdirs p v)"
    using tw c by (simp add: fs_create_directories_def mkdirs_def twin_def)
  moreover have "twin w' (mkdirs p v)" using tw fr c(2) by (auto simp: twin_def mkdirs_def)
  ultimately show "\<exists>v'. fs_create_directories p v = (x, v') \<and> twin w' v'" using x by blast
qed

lemma agrees_open_read: "agrees (sys_open_read p) (\<lambda>r. r \<noteq> None)"
proof (rule agreesI)
  fix w v x w'
  assume tw: "twin w v" and f: "sys_open_read p w = (x, w')" and x: "x \<noteq> None"
  obtain a w1 where os: "os_next w = (a, w1)" by fastforce
  note fr = os_next_frame [OF os]
  from f x os fr have "x = content_of w p" "w' = w1" by (auto simp: sys_open_read_def split: os_answer.splits)
  with tw fr have "sys_open_read p v = (x, v)" "twin w' v" by (auto simp: sys_open_read_def twin_def)
  then show "\<exists>v'. sys_open_read p v = (x, v') \<and> twin w' v'" by blast
qed

text \<open>Queries of files and directories.\<close>

lemma robust_query [robust_intros]:
  assumes "\<And>w v. twin w v \<Longrightarrow> g v = g w"
  shows "robust twin (fs_throwing g)"
  unfolding fs_throwing_def
proof (rule robust_act [where ok = "\<lambda>r. \<exists>x. r = Inr x"])
  show "agrees (fs_query g) (\<lambda>r. \<exists>x. r = Inr x)"
  proof (rule agreesI)
    fix w v x w'
    assume tw: "twin w v" and f: "fs_query g w = (x, w')" and x: "\<exists>y. x = Inr y"
    obtain a w1 where os: "os_next w = (a, w1)" by fastforce
    note fr = os_next_frame [OF os]
    from f x os have e: "x = Inr (g w1)" "w' = w1" by (auto simp: fs_query_def split: os_answer.splits)
    have "twin w1 v" using tw fr by (intro twin_frame [OF tw]) simp_all
    moreover from this have "g w1 = g v" using assms by simp
    ultimately show "\<exists>v'. fs_query g v = (x, v') \<and> twin w' v'"
      using twin_nominal [OF tw] e by (simp add: fs_query_def)
  qed
qed (auto intro: robust_ret simp: fails_def split: sum.splits)

lemma twin_queries:
  "twin w v \<Longrightarrow> path_exists p v = path_exists p w" "twin w v \<Longrightarrow> is_regular_file p v = is_regular_file p w"
  "twin w v \<Longrightarrow> file_size p v = file_size p w" "twin w v \<Longrightarrow> is_dir p v = is_dir p w"
  by (simp_all add: twin_def path_exists_def is_regular_file_def file_size_def is_dir_def)

section \<open>Writing\<close>

text \<open>A write through a descriptor whose file is gone, or that is not open, changes no file.\<close>

lemma writeAll_detached:
  assumes "writeAll fd data w = Some (r, w')" "\<forall>p. map_of (w_fds w) fd = Some p \<longrightarrow> content_of w p = None"
  shows "w_files w' = w_files w \<and> w_dirs w' = w_dirs w \<and> w_fds w' = w_fds w
    \<and> (r = Inr () \<longrightarrow> data = [] \<or> map_of (w_fds w) fd \<noteq> None)"
proof -
  let ?P = "\<lambda>fd data w (r, w'). (\<forall>p. map_of (w_fds w) fd = Some p \<longrightarrow> content_of w p = None) \<longrightarrow>
    w_files w' = w_files w \<and> w_dirs w' = w_dirs w \<and> w_fds w' = w_fds w
    \<and> (r = Inr () \<longrightarrow> data = [] \<or> map_of (w_fds w) fd \<noteq> None)"
  have "?P fd data w (r, w')"
  proof (rule writeAll.raw_induct [where P = ?P, OF _ assms(1)])
    fix wa fd data w rw
    assume IH: "\<And>fd data w rw. wa fd data w = Some rw \<Longrightarrow> ?P fd data w rw"
      and eq: "(if data = [] then Some (Inr (), w)
      else case fault_write fd data w of (r, w') \<Rightarrow>
          (case r of
             Inl err \<Rightarrow>
               if err = EINTR then wa fd data w'
               else Some (Inl (system_error err ''write failed''), w')
           | Inr written \<Rightarrow>
               if written = 0 then Some (Inl (runtime_error ''write returned 0''), w')
               else wa fd (drop written data) w')) = Some rw"
    show "?P fd data w rw"
    proof (cases rw, simp only: prod.case, intro impI)
      fix r w'
      assume rw: "rw = (r, w')" and gone: "\<forall>p. map_of (w_fds w) fd = Some p \<longrightarrow> content_of w p = None"
      obtain x w1 where fw: "fault_write fd data w = (x, w1)" by fastforce
      have fr: "w_files w1 = w_files w \<and> w_dirs w1 = w_dirs w \<and> w_fds w1 = w_fds w"
        and x: "\<And>n. x = Inr n \<Longrightarrow> map_of (w_fds w) fd \<noteq> None"
        using fw gone by (auto simp: fault_write_def sys_write_def Let_def split: prod.splits if_splits option.splits os_answer.splits
            dest!: os_next_frame consult_frame)
      show "w_files w' = w_files w \<and> w_dirs w' = w_dirs w \<and> w_fds w' = w_fds w
          \<and> (r = Inr () \<longrightarrow> data = [] \<or> map_of (w_fds w) fd \<noteq> None)"
      proof (cases x)
        case (Inl err)
        then show ?thesis using eq fw rw fr gone IH [of fd data w1 rw] by (auto split: if_splits)
      next
        case (Inr n)
        then show ?thesis using eq fw rw fr gone x [OF Inr] IH [of fd "drop n data" w1 rw] by (auto split: if_splits)
      qed
    qed
  qed
  with assms(2) show ?thesis by simp
qed

lemma robust_writeAll [robust_intros]: "robust twin (writeAll fd data)"
proof (rule robustI)
  fix w v x w'
  assume tw: "twin w v" and run: "writeAll fd data w = Some (Inr x, w')"
  show "\<exists>v'. writeAll fd data v = Some (Inr x, v') \<and> twin w' v'"
  proof (cases "\<exists>p c. open_on w fd p c")
    case True
    then obtain p c where o: "open_on w fd p c" by blast
    from writeAll_outcome [OF run o] have w': "w_files w' = w_files (set_file p (c @ data) w)" "w_dirs w' = w_dirs w" "w_fds w' = w_fds w"
      by auto
    have "open_on v fd p c" using o tw by (simp add: open_on_def twin_def)
    from nominal_writeAll [OF twin_nominal [OF tw] this] have "writeAll fd data v = Some (Inr (), set_file p (c @ data) v)" .
    moreover have "twin w' (set_file p (c @ data) v)" using tw w' by (simp add: twin_def)
    ultimately show ?thesis by simp
  next
    case False
    then have gone: "\<forall>p. map_of (w_fds w) fd = Some p \<longrightarrow> content_of w p = None" by (auto simp: open_on_def)
    note d = writeAll_detached [OF run gone]
    have "writeAll fd data v = Some (Inr (), v)"
    proof (cases "data = []")
      case False
      with d obtain p where p: "map_of (w_fds v) fd = Some p" using tw by (auto simp: twin_def)
      then have "content_of v p = None" using gone tw by (simp add: twin_def)
      with p False twin_nominal [OF tw] show ?thesis
        by (subst writeAll.simps) (simp add: fault_write_def sys_write_def Decision_proceed_def writeAll.simps [of fd "[]"])
    qed (simp add: writeAll.simps)
    moreover have "twin w' v" using d by (intro twin_frame [OF tw]) simp_all
    ultimately show ?thesis by simp
  qed
qed

lemma robust_fw_write [robust_intros]: "robust twins (fw_write data)"
  unfolding fw_write_def by (intro robust_intros robust_get) (auto simp: twins_def)

lemma robust_FileWriter_add [robust_intros]: "robust twins (FileWriter_add r)"
  unfolding FileWriter_add_def by (intro robust_intros)

lemma robust_FileWriter_new [robust_intros]: "robust twin (FileWriter_new p)"
proof -
  have new: "robust twin (io_bind (io_act (FdGuard_setFd (- 1) fd)) (\<lambda>fd'. io_ret (g fd')))" for fd and g :: "int \<Rightarrow> FileWriter"
    by (rule robust_act [where ok = "\<lambda>_. True"]) (auto intro: agreesI robust_ret simp: FdGuard_setFd_def)
  show ?thesis
    unfolding FileWriter_new_def
    by (intro robust_intros robust_act [OF agrees_create_directories] robust_act [OF agrees_open_write] new)
      (auto intro!: new robust_ret simp: fails_def split: sum.splits)
qed

lemma robust_FdGuard_close: "robust twins FdGuard_close"
  unfolding FdGuard_close_def
  by (intro robust_intros robust_get robust_if robust_outer_act [OF agrees_close])
    (auto intro!: robust_upd simp: twins_def)

lemma robust_fw_close [robust_intros]: "robust twins fw_close"
proof (rule robustI)
  fix s t :: "world \<times> FileWriter" and x s'
  assume tw: "twins s t" and run: "fw_close s = Some (Inr x, s')"
  obtain w fw where s: "s = (w, fw)" by fastforce
  from run obtain w' fd' where c: "FdGuard_close (w, fw_dataFile fw) = Some (Inr x, (w', fd'))"
    "s' = (w', fw\<lparr>fw_dataFile := fd'\<rparr>)" by (auto simp: fw_close_def s split: option.splits prod.splits)
  have "twins (w, fw_dataFile fw) (fst t, fw_dataFile fw)" using tw by (simp add: twins_def s)
  from robustD [OF robust_FdGuard_close this c(1)] obtain v' where
    "FdGuard_close (fst t, fw_dataFile fw) = Some (Inr x, (v', fd'))" "twin w' v'" by (auto simp: twins_def)
  with c(2) tw show "\<exists>t'. fw_close t = Some (Inr x, t') \<and> twins s' t'"
    by (cases t) (auto simp: fw_close_def twins_def s)
qed

lemma twin_FdGuard_dtor: "twin w v \<Longrightarrow> twin (FdGuard_dtor fd w) (FdGuard_dtor fd v)"
  using twin_close by (simp add: FdGuard_dtor_def)

lemma robust_finish [robust_intros]: "robust twins FileWriter_finish"
  unfolding FileWriter_finish_def
proof (rule robust_bind)
  fix fw :: FileWriter
  let ?sync = "\<lambda>d. io_outer (io_local d
           (io_bind (io_outer (io_act (fault_fsync d))) (\<lambda>err.
            if err \<noteq> 0 then io_throw (runtime_error ''Failed to fsync dir!'')
            else FdGuard_close))
           FdGuard_dtor) :: unit fw"
  have sync: "robust twins (?sync d)" for d
    by (intro robust_intros robust_local robust_outer_act [OF agrees_fsync]) (auto intro: robust_FdGuard_close twin_FdGuard_dtor)
  show "robust twins (io_bind (io_outer (io_act (fault_fsync (fw_dataFile fw)))) (\<lambda>err.
     if err \<noteq> 0 then io_throw (runtime_error ''Failed to fsync table!'') else
     io_bind fw_close (\<lambda>_.
     io_bind (io_outer (io_act (sys_rename (fw_temporaryPath fw) (fw_path fw)))) (\<lambda>err.
     if err \<noteq> 0 then io_throw (system_error err ''rename failed'') else
     io_bind (io_outer (io_act (sys_open_dir (fw_parentDirectory fw)))) (\<lambda>r.
     case r of
       Inl _ \<Rightarrow> io_throw (runtime_error ''Failed to open dir for reading!'')
     | Inr d \<Rightarrow> ?sync d)))))"
    by (intro robust_outer_act [OF agrees_fsync] robust_outer_act [OF agrees_rename] robust_outer_act [OF agrees_open_dir]
        robust_if robust_bind robust_fw_close)
      (auto intro: sync robust_intros simp: fails_def split: sum.splits)
qed (rule robust_get, simp add: twins_def)

lemma robust_with_FileWriter: "robust twins body \<Longrightarrow> robust twin (with_FileWriter p body)"
  unfolding with_FileWriter_def
  by (intro robust_intros robust_local) (auto simp: FileWriter_dtor_def intro: twin_FdGuard_dtor)

section \<open>Tables and the catalogue\<close>

lemma robust_addRecordToFile [robust_intros]: "robust twin (addRecordToFile fp rs p)"
  unfolding addRecordToFile_def write_table_def write_record_def writeIndex_def writeFooter_def
  by (intro robust_intros robust_with_FileWriter)

lemma robust_Manifest_save [robust_intros]: "robust twin (Manifest_save m)"
  unfolding Manifest_save_def writeManifest_def writeLevel_def writeTable_def writeKey_def
  by (intro robust_intros robust_with_FileWriter)

lemma robust_removeFile [robust_intros]: "robust twin (removeFile p msg)"
  unfolding removeFile_def by (intro robust_act [OF agrees_remove]) (auto intro: robust_intros)

lemma robust_check_regular [robust_intros]: "robust twin (check_regular p msg)"
  unfolding check_regular_def by (intro robust_intros) (auto simp: twin_queries)

lemma robust_SSTableIterator_new [robust_intros]: "robust twin (SSTableIterator_new p)"
  unfolding SSTableIterator_new_def
  by (intro robust_intros robust_act [OF agrees_open_read]) (auto intro!: robust_intros simp: twin_queries)

lemma robust_SSTable_new [robust_intros]: "robust twin (SSTable_new p)"
  unfolding SSTable_new_def readSparseIndex_def
  by (intro robust_intros robust_act [OF agrees_open_read]) (auto intro!: robust_intros simp: twin_queries)

lemma robust_openTableIterators [robust_intros]: "robust twin (openTableIterators ps)"
  by (induction ps) (auto intro!: robust_intros simp del: io_apply)

lemma robust_build [robust_intros]: "robust twin (build fp m p)"
  unfolding build_def by (intro robust_intros) (auto simp: twin_queries)

section \<open>Compaction\<close>

lemma robust_db_get [robust_intros]: "robust twins (db_get f)"
  unfolding db_get_def by (rule robust_get) (auto simp: twins_def)

lemma robust_db_upd [robust_intros]: "robust twins (db_upd f)"
  unfolding db_upd_def by (rule robust_upd) (auto simp: twins_def)

lemma robust_manifest_act [robust_intros]: "robust twins (manifest_act f)"
  by (rule robustI) (auto simp: manifest_act_def twins_def split: prod.splits)

lemma robust_manifest_try [robust_intros]: "robust twins (manifest_try f)"
  by (rule robustI) (auto simp: manifest_try_def twins_def split: prod.splits)

lemma robust_on_manifest [robust_intros]:
  assumes "robust twins f"
  shows "robust twins (on_manifest f)"
proof (rule robustI)
  fix s t :: "world \<times> DB" and x s'
  assume tw: "twins s t" and run: "on_manifest f s = Some (Inr x, s')"
  obtain w db where s: "s = (w, db)" by fastforce
  from run obtain w' m' where c: "f (w, db_manifest db) = Some (Inr x, (w', m'))" "s' = (w', db\<lparr>db_manifest := m'\<rparr>)"
    by (auto simp: on_manifest_def s split: option.splits prod.splits)
  have "twins (w, db_manifest db) (fst t, db_manifest db)" using tw by (simp add: twins_def s)
  from robustD [OF assms this c(1)] obtain v' where "f (fst t, db_manifest db) = Some (Inr x, (v', m'))" "twin w' v'"
    by (auto simp: twins_def)
  with c(2) tw show "\<exists>t'. on_manifest f t = Some (Inr x, t') \<and> twins s' t'"
    by (cases t) (auto simp: on_manifest_def twins_def s)
qed

lemma robust_writeCompactionOutput [robust_intros]: "robust twins (writeCompactionOutput fp dir rs q)"
  unfolding writeCompactionOutput_def compaction_step_def writeCompactionSlice_def by (intro robust_intros)

lemma robust_compactRange [robust_intros]: "robust twins (compactRange fp rem l)"
  unfolding compactRange_def by (intro robust_intros)

lemma robust_compactLevel [robust_intros]: "robust twins (compactLevel fp n)"
  unfolding compactLevel_def selectHigherLevelCompactionTables_def by (intro robust_intros)

lemma robust_maybeCompact: "robust twins (maybeCompact fp)"
proof (rule robustI)
  fix s t :: "world \<times> DB" and x s'
  assume tw: "twins s t" and run: "maybeCompact fp s = Some (Inr x, s')"
  let ?P = "\<lambda>fp s (r :: unit result, s'). \<forall>t x. twins s t \<longrightarrow> r = Inr x \<longrightarrow> (\<exists>t'. maybeCompact fp t = Some (Inr x, t') \<and> twins s' t')"
  have "?P fp s (Inr x, s')"
  proof (rule maybeCompact.raw_induct [where P = ?P, OF _ run])
    fix mc fp s rs
    assume IH: "\<And>fp s rs. mc fp s = Some rs \<Longrightarrow> ?P fp s rs"
      and eq: "(if unat (db_level0CompactionThreshold (snd s)) < length (Manifest_level 0 (db_manifest (snd s)))
      then
        (case compactLevel fp 0 s of
           None \<Rightarrow> None
         | Some (Inl e, s') \<Rightarrow> Some (Inl e, s')
         | Some (Inr _, s') \<Rightarrow> mc fp s')
      else
        case firstOverBudgetLevel (snd s) of
          None \<Rightarrow> Some (Inr (), s)
        | Some overBudgetLevel \<Rightarrow>
            (case compactLevel fp overBudgetLevel s of
               None \<Rightarrow> None
             | Some (Inl e, s') \<Rightarrow> Some (Inl e, s')
             | Some (Inr _, s') \<Rightarrow> mc fp s')) = Some rs"
    have step: "\<exists>t'. (case compactLevel fp n t of None \<Rightarrow> None | Some (Inl e, s') \<Rightarrow> Some (Inl e, s')
        | Some (Inr _, s') \<Rightarrow> maybeCompact fp s') = Some (Inr x, t') \<and> twins s' t'"
      if "(case compactLevel fp n s of None \<Rightarrow> None | Some (Inl e, s') \<Rightarrow> Some (Inl e, s') | Some (Inr _, s') \<Rightarrow> mc fp s')
        = Some (Inr x, s')" "twins s t" for n x s' t
    proof -
      from that(1) obtain y s1 where c: "compactLevel fp n s = Some (Inr y, s1)" "mc fp s1 = Some (Inr x, s')"
        by (auto split: option.splits sum.splits)
      from robustD [OF robust_compactLevel that(2) c(1)] obtain t1 where
        t1: "compactLevel fp n t = Some (Inr y, t1)" "twins s1 t1" by blast
      with IH [OF c(2)] show ?thesis by (cases t1) auto
    qed
    show "?P fp s rs"
    proof (cases rs, simp only: prod.case, intro allI impI)
      fix r s' t x
      assume rs: "rs = (r, s')" "twins s t" "r = Inr x"
      then have db: "snd t = snd s" by (simp add: twins_def)
      show "\<exists>t'. maybeCompact fp t = Some (Inr x, t') \<and> twins s' t'"
      proof (cases "unat (db_level0CompactionThreshold (snd s)) < length (Manifest_level 0 (db_manifest (snd s)))")
        case True
        with eq rs step [of 0 x s' t] show ?thesis by (subst maybeCompact.simps) (simp add: db)
      next
        case False
        show ?thesis
        proof (cases "firstOverBudgetLevel (snd s)")
          case None
          with False eq rs show ?thesis by (subst maybeCompact.simps) (auto simp: db)
        next
          case (Some n)
          with False eq rs step [of n x s' t] show ?thesis by (subst maybeCompact.simps) (simp add: db)
        qed
      qed
    qed
  qed
  with tw show "\<exists>t'. maybeCompact fp t = Some (Inr x, t') \<and> twins s' t'" by blast
qed

section \<open>Programs that only read\<close>

definition quiet :: "'a io \<Rightarrow> bool" where
  "quiet m \<longleftrightarrow> (\<forall>w r w'. m w = Some (r, w') \<longrightarrow> w_files w' = w_files w \<and> w_dirs w' = w_dirs w \<and> w_fds w' = w_fds w)"

named_theorems quiet_intros

lemma quietD: "quiet m \<Longrightarrow> m w = Some (r, w') \<Longrightarrow> w_files w' = w_files w \<and> w_dirs w' = w_dirs w \<and> w_fds w' = w_fds w"
  unfolding quiet_def by blast

lemma quiet_basic [quiet_intros]: "quiet (io_ret x)" "quiet (io_throw e)" "quiet (io_lift r)" "quiet (io_defined y)"
  by (auto simp: quiet_def io_defined_def)

lemma quiet_bind [quiet_intros]: "quiet m \<Longrightarrow> (\<And>x. quiet (k x)) \<Longrightarrow> quiet (io_bind m k)"
  by (fastforce simp: quiet_def io_bind_def split: option.splits sum.splits)

lemma quiet_if [quiet_intros]: "(b \<Longrightarrow> quiet m) \<Longrightarrow> (\<not> b \<Longrightarrow> quiet m') \<Longrightarrow> quiet (if b then m else m')"
  by simp

lemma quiet_Let [quiet_intros]: "(\<And>x. quiet (k x)) \<Longrightarrow> quiet (let x = e in k x)"
  by simp

lemma quiet_cases [quiet_intros]:
  "(\<And>a b. quiet (f a b)) \<Longrightarrow> quiet (case p of (a, b) \<Rightarrow> f a b)"
  "quiet m \<Longrightarrow> (\<And>x. quiet (k x)) \<Longrightarrow> quiet (case y of None \<Rightarrow> m | Some x \<Rightarrow> k x)"
  by (simp_all split: prod.split option.split)

lemma quiet_query [quiet_intros]: "quiet (fs_throwing g)" "quiet (io_act (sys_open_read p))" "quiet (io_act (fs_query g))"
  by (auto simp: quiet_def fs_throwing_def fs_query_def sys_open_read_def io_bind_def io_act_def
      split: prod.splits os_answer.splits dest!: os_next_frame)

lemma quiet_iterator [quiet_intros]: "quiet (SSTableIterator_new p)"
  unfolding SSTableIterator_new_def check_regular_def by (intro quiet_intros)

lemma quiet_SSTable_new [quiet_intros]: "quiet (SSTable_new p)"
  unfolding SSTable_new_def check_regular_def readSparseIndex_def by (intro quiet_intros)

lemma quiet_SSTable_get [quiet_intros]: "quiet (SSTable_get st k q v)"
  unfolding SSTable_get_def by (intro quiet_intros)

lemma quiet_openTableIterators [quiet_intros]: "quiet (openTableIterators ps)"
  by (induction ps) (auto intro!: quiet_intros simp del: io_apply)

end
