(* ===== verification/DBFaults.thy ===== *)
theory DBFaults
  imports DBSystem Robust
begin

text \<open>
  Compaction under faults. The operations run in a world with arbitrary faults, so that they may stop
  at any system call; whatever a compaction leaves on disk, opening the directory again gives a
  database with the records of the one that was interrupted.
\<close>

section \<open>What matters on disk\<close>

lemma temporaries_apart [simp]:
  "temporary_path (sstablePath dir n) \<noteq> walPath dir k" "temporary_path (manifest_path dir) \<noteq> walPath dir k"
  "temporary_path (manifest_path dir) \<noteq> sstablePath dir k"
  by (auto simp: temporary_path_def walPath_def sstablePath_def manifest_path_def butlast_append)

lemma on_disk_frame:
  assumes d: "on_disk fp T bs dir m w" and n: "nominal w'" "dir_ok dir w'"
    and keep: "\<And>p. needed_file dir m p \<Longrightarrow> content_of w' p = content_of w p"
    and wals: "\<And>n. mf_nextTableNumber m < n \<Longrightarrow> content_of w (walPath dir n) = None \<Longrightarrow> content_of w' (walPath dir n) = None"
    and tables: "\<And>n. mf_nextTableNumber m \<le> n \<Longrightarrow> content_of w' (sstablePath dir n) \<noteq> None \<Longrightarrow> dir @ [''sstable''] \<in> set (w_dirs w')"
  shows "on_disk fp T bs dir m w'"
proof -
  have t: "content_of w' (sstablePath dir (tm_number t)) = content_of w (sstablePath dir (tm_number t))"
    if "t \<in> set (all_tables m)" for t using that by (intro keep) (auto simp: needed_file_def)
  then have "catalogue_ok fp T w' dir m"
    using d by (simp add: on_disk_def catalogue_ok_def table_at_def table_file_def)
  moreover have "content_of w' (manifest_path dir) = content_of w (manifest_path dir)"
    "content_of w' (walPath dir (mf_logNumber m)) = content_of w (walPath dir (mf_logNumber m))"
    by (auto intro!: keep simp: needed_file_def)
  moreover have "content_of w' (walPath dir k) = None" if "mf_nextTableNumber m < k" for k
    using wals [of k] that d by (auto simp: on_disk_def)
  ultimately show ?thesis using d n tables by (simp add: on_disk_def)
qed

lemma on_disk_world: "on_disk fp T bs dir m w \<Longrightarrow> nominal w \<and> dir_ok dir w
    \<and> (\<forall>n \<ge> mf_nextTableNumber m. content_of w (sstablePath dir n) \<noteq> None \<longrightarrow> dir @ [''sstable''] \<in> set (w_dirs w))"
  by (simp add: on_disk_def)

lemma on_disk_twin:
  assumes "on_disk fp T bs dir m v" "content_of w = content_of v" "set (w_dirs w) = set (w_dirs v)" "nominal w"
  shows "on_disk fp T bs dir m w"
proof (rule on_disk_frame [OF assms(1,4)])
  note v = on_disk_world [OF assms(1)]
  show "dir_ok dir w" using v by (simp add: dir_ok_def assms(2,3))
  show "dir @ [''sstable''] \<in> set (w_dirs w)" if "mf_nextTableNumber m \<le> n" "content_of w (sstablePath dir n) \<noteq> None" for n
    using v that unfolding assms(2,3) by blast
qed (simp_all add: assms(2))

lemma on_disk_fds: "on_disk fp T bs dir m w \<Longrightarrow> on_disk fp T bs dir m (w\<lparr>w_fds := fds\<rparr>)"
  by (rule on_disk_twin) (auto dest: on_disk_world)

lemma open_on_disk_same: "db_open fp T bs w db \<Longrightarrow> on_disk fp T bs (db_dataDirectory db) (db_manifest db) w"
  using open_on_disk [of fp T bs w db "w_fds w"] by simp

text \<open>A database that is in order is in order in every world with the same files and descriptors.\<close>

lemma db_open_twin:
  assumes "db_open fp T bs v db" "twin w v"
  shows "db_open fp T bs (calm w) db"
proof -
  have c: "content_of v = content_of w" "set (w_dirs v) = set (w_dirs w)" "w_fds v = w_fds w"
    using assms(2) by (simp_all add: twin_def)
  have "catalogue_ok fp T (calm w) dir m = catalogue_ok fp T v dir m" for dir m
    by (simp add: catalogue_ok_def table_at_def table_file_def c)
  then have "db_ready fp T (calm w) db" using assms(1) c
    by (simp add: db_open_def db_ready_def db_inv_def dir_ok_def)
  with assms(1) c show ?thesis
    by (simp add: db_open_def wal_state_def log_open_def open_on_def tables_fresh_def wals_fresh_def stored_def saved_def)
qed

text \<open>
  Only tables with numbers that were not given yet, their temporaries and the temporary of the
  catalogue may have been written.
\<close>

definition orphans_only :: "path \<Rightarrow> u64 \<Rightarrow> world \<Rightarrow> world \<Rightarrow> bool" where
  "orphans_only dir n0 w w' \<longleftrightarrow> dir_ok dir w'
     \<and> (\<forall>p. p \<noteq> temporary_path (manifest_path dir) \<longrightarrow>
          (\<forall>n \<ge> n0. p \<noteq> sstablePath dir n \<and> p \<noteq> temporary_path (sstablePath dir n)) \<longrightarrow> content_of w' p = content_of w p)
     \<and> (\<forall>n \<ge> n0. content_of w' (sstablePath dir n) \<noteq> None \<longrightarrow> dir @ [''sstable''] \<in> set (w_dirs w'))"

lemma orphans_refl:
  "on_disk fp T bs dir m (calm w) \<Longrightarrow> orphans_only dir (mf_nextTableNumber m) w w"
  by (simp add: orphans_only_def on_disk_def dir_ok_def)

lemma orphans_quiet:
  "orphans_only dir n0 w w1 \<Longrightarrow> content_of w2 = content_of w1 \<Longrightarrow> w_dirs w2 = w_dirs w1 \<Longrightarrow> orphans_only dir n0 w w2"
  by (simp add: orphans_only_def dir_ok_def)

lemma needed_not_orphan:
  assumes "on_disk fp T bs dir m w" "needed_file dir m p" "mf_nextTableNumber m \<le> n"
  shows "p \<noteq> sstablePath dir n" "p \<noteq> temporary_path (sstablePath dir n)" "p \<noteq> temporary_path (manifest_path dir)"
proof -
  have "tm_number t < mf_nextTableNumber m" if "t \<in> set (all_tables m)" for t
    using assms(1) that by (auto simp: on_disk_def intro: number_bound)
  then have "\<forall>t \<in> set (all_tables m). tm_number t \<noteq> n" using assms(3) by fastforce
  then show "p \<noteq> sstablePath dir n" "p \<noteq> temporary_path (sstablePath dir n)" "p \<noteq> temporary_path (manifest_path dir)"
    using assms(2) by (auto simp: needed_file_def)
qed

lemma on_disk_orphans:
  assumes d: "on_disk fp T bs dir m (calm w)" and o: "orphans_only dir (mf_nextTableNumber m) w w'"
  shows "on_disk fp T bs dir m (calm w')"
proof (rule on_disk_frame [OF d])
  have same: "content_of w' p = content_of w p"
    if "p \<noteq> temporary_path (manifest_path dir)" "\<And>n. mf_nextTableNumber m \<le> n \<Longrightarrow> p \<noteq> sstablePath dir n \<and> p \<noteq> temporary_path (sstablePath dir n)" for p
    using o that by (simp add: orphans_only_def)
  show "content_of (calm w') p = content_of (calm w) p" if "needed_file dir m p" for p
    using needed_not_orphan [OF d that] same [of p] by auto
  show "content_of (calm w') (walPath dir n) = None" if "content_of (calm w) (walPath dir n) = None" for n
    using that same [of "walPath dir n"] by simp
qed (use o in \<open>auto simp: orphans_only_def dir_ok_def\<close>)

section \<open>Writing a table under faults\<close>

text \<open>A writer program that touches nothing but the temporary file, whatever it is given.\<close>

abbreviation only_writes :: "'a fw \<Rightarrow> bool" where
  "only_writes m \<equiv> emits m (\<lambda>_ _. True)"

named_theorems only_writes_intros

lemma only_writes_basic [only_writes_intros]:
  "only_writes (io_ret x)" "only_writes (io_throw e)" "only_writes (io_lift r)" "only_writes (fw_write data)"
  by (simp_all add: emits_pure emits_weaken [OF emits_write])

lemma only_writes_defined [only_writes_intros]: "only_writes (io_defined y)"
proof (cases y)
  case None
  then show ?thesis by (intro emitsI) simp
next
  case (Some x)
  then show ?thesis by (intro emits_pure [where r = "Inr x"]) simp_all
qed

lemma only_writes_bind [only_writes_intros]: "only_writes m \<Longrightarrow> (\<And>x. only_writes (f x)) \<Longrightarrow> only_writes (io_bind m f)"
  by (rule emits_bind [where R = "\<lambda>_ _. True" and S = "\<lambda>_ _ _. True"]) auto

lemma only_writes_fold [only_writes_intros]: "(\<And>acc x. only_writes (f acc x)) \<Longrightarrow> only_writes (io_fold f acc xs)"
  by (induction xs arbitrary: acc) (auto intro!: only_writes_intros simp del: io_apply)

lemma only_writes_table: "only_writes (write_table fp rs)"
  unfolding write_table_def write_record_def writeIndex_def writeFooter_def FileWriter_add_def Let_def
  by (intro only_writes_intros)

lemma dir_ok_published:
  assumes "dir_ok dir w" "data_file dir p" "data_file dir (temporary_path p)" "made_way p w w'"
    and "\<And>q. q \<noteq> p \<Longrightarrow> q \<noteq> temporary_path p \<Longrightarrow> content_of w' q = content_of w q"
  shows "dir_ok dir w'"
proof (rule dir_ok_files [OF assms(1)])
  show "content_of w' q = None" if "q \<in> data_dirs dir" for q
  proof -
    have "q \<noteq> p" "q \<noteq> temporary_path p" using that data_file_not_dir assms(2,3) by blast+
    then show ?thesis using assms(1,5) that by (simp add: dir_ok_def)
  qed
  show "set (w_dirs w') \<subseteq> set (w_dirs w) \<union> data_dirs dir"
    using assms(4) data_file_parents [OF assms(2)] by (auto simp: made_way_def)
qed

lemma table_orphan:
  assumes o: "orphans_only dir n0 w w1" and n: "n0 \<le> n" and run: "addRecordToFile fp rs (sstablePath dir n) w1 = Some (r, w2)"
  shows "orphans_only dir n0 w w2"
proof (cases "rs = []")
  case True
  with run o show ?thesis by (auto simp: addRecordToFile_def)
next
  case False
  let ?p = "sstablePath dir n"
  have dir: "dir_ok dir w1" using o by (simp add: orphans_only_def)
  from False run have "with_FileWriter ?p (io_bind (write_table fp rs)
      (\<lambda>fileSize. io_bind FileWriter_finish (\<lambda>_. io_ret fileSize))) w1 = Some (r, w2)"
    by (simp add: addRecordToFile_def)
  note out = publication_outcome [OF this _ only_writes_table, simplified]
  have same: "content_of w2 q = content_of w1 q" if "q \<noteq> ?p" "q \<noteq> temporary_path ?p" for q using out that by simp
  have "dir_ok dir w2" using out same by (intro dir_ok_published [OF dir, of ?p]) auto
  moreover have "content_of w2 q = content_of w q"
    if "q \<noteq> temporary_path (manifest_path dir)" "\<forall>n \<ge> n0. q \<noteq> sstablePath dir n \<and> q \<noteq> temporary_path (sstablePath dir n)" for q
    using same [of q] that n o by (auto simp: orphans_only_def)
  moreover have "dir @ [''sstable''] \<in> set (w_dirs w2)" if "n0 \<le> k" "content_of w2 (sstablePath dir k) \<noteq> None" for k
    using out that o by (auto simp: orphans_only_def made_way_def)
  ultimately show ?thesis by (simp add: orphans_only_def)
qed

section \<open>Compaction output under faults\<close>

text \<open>The state of the loop: \<open>k\<close> numbers at most were given, and only such tables were written.\<close>

definition writing :: "path \<Rightarrow> u64 \<Rightarrow> world \<Rightarrow> nat \<Rightarrow> world \<times> Manifest \<Rightarrow> bool" where
  "writing dir n0 w k s \<longleftrightarrow> orphans_only dir n0 w (fst s)
     \<and> unat n0 \<le> unat (mf_nextTableNumber (snd s)) \<and> unat (mf_nextTableNumber (snd s)) \<le> unat n0 + k"

lemma writing_mono: "writing dir n0 w k s \<Longrightarrow> k \<le> j \<Longrightarrow> writing dir n0 w j s"
  by (simp add: writing_def)

lemma slice_writing:
  "triple (writing dir n0 w k) (writeCompactionSlice fp dir rs)
    (\<lambda>_ s. orphans_only dir n0 w (fst s) \<and> (unat n0 + Suc k < 2 ^ 64 \<longrightarrow> writing dir n0 w (Suc k) s))
    (\<lambda>_ s. orphans_only dir n0 w (fst s))"
proof -
  let ?R = "\<lambda>s. orphans_only dir n0 w (fst s) \<and> (unat n0 + Suc k < 2 ^ 64 \<longrightarrow> writing dir n0 w (Suc k) s)"
  have alloc: "unat (n + 1) = unat n + 1" if "unat n \<le> unat n0 + k" "unat n0 + Suc k < 2 ^ 64" for n :: u64
    using next_grows(2) [of n 1] that by simp
  have "triple (writing dir n0 w k) (manifest_act allocateNumber) (\<lambda>n s. n0 \<le> n \<and> ?R s) (\<lambda>_ s. orphans_only dir n0 w (fst s))"
    by (rule tripleI) (auto simp: writing_def manifest_act_def allocateNumber_def alloc word_le_nat_alt)
  moreover have "triple (\<lambda>s. n0 \<le> n \<and> ?R s) (io_outer (addRecordToFile fp rs (sstablePath dir n))) (\<lambda>_. ?R)
      (\<lambda>_ s. orphans_only dir n0 w (fst s))" for n
    by (rule triple_outer, rule tripleI) (auto simp: writing_def intro: table_orphan)
  ultimately show ?thesis
    unfolding writeCompactionSlice_def by (intro triple_bind [where R = "\<lambda>n s. n0 \<le> n \<and> ?R s"] triple_bind [where R = "\<lambda>_. ?R"]) (auto intro!: triple_ret)
qed

lemma triple_fold_upt:
  assumes "\<And>i acc. i < n \<Longrightarrow> triple (J i) (f acc i) (\<lambda>_. J (Suc i)) E"
  shows "triple (J 0) (io_fold f acc [0..<n]) (\<lambda>_. J n) E"
proof -
  have "triple (J k) (io_fold f acc [k..<n]) (\<lambda>_. J n) E" if "k \<le> n" for k acc
    using that
  proof (induction "n - k" arbitrary: k acc)
    case 0
    then have "[k..<n] = []" "J k = J n" by simp_all
    then show ?case using triple_ret [of "\<lambda>_. J n" acc E] by (simp only: io_fold.simps)
  next
    case (Suc d)
    then have "[k..<n] = k # [Suc k..<n]" by (simp add: upt_conv_Cons)
    moreover have "triple (J (Suc k)) (io_fold f acc' [Suc k..<n]) (\<lambda>_. J n) E" for acc'
      using Suc by (intro Suc.hyps(1)) simp_all
    moreover have "triple (J k) (f acc k) (\<lambda>_. J (Suc k)) E" using Suc by (intro assms) simp
    ultimately show ?case by (auto intro: triple_bind simp del: io_apply)
  qed
  then show ?thesis by simp
qed

lemma output_orphans:
  assumes run: "writeCompactionOutput fp dir rs q (w1, m) = Some (r, (w2, m2))"
    and o: "orphans_only dir (mf_nextTableNumber m) w w1" and room: "unat (mf_nextTableNumber m) + length rs < 2 ^ 64"
  shows "orphans_only dir (mf_nextTableNumber m) w w2"
proof -
  let ?n = "mf_nextTableNumber m" and ?O = "\<lambda>s :: world \<times> Manifest. orphans_only dir (mf_nextTableNumber m) w (fst s)"
  have step: "triple (writing dir ?n w i) (compaction_step fp dir rs q acc i) (\<lambda>_. writing dir ?n w (Suc i)) (\<lambda>_. ?O)"
    if "i < length rs" for i acc
  proof -
    have "triple (writing dir ?n w i) (io_bind (writeCompactionSlice fp dir ss) (\<lambda>table. io_ret (g table)))
        (\<lambda>_. writing dir ?n w (Suc i)) (\<lambda>_. ?O)" for ss and g :: "TableMeta \<Rightarrow> TableMeta list \<times> u64 \<times> nat"
      using that room
      by (intro triple_bind [OF triple_conseq [OF slice_writing [of dir ?n w i]], where R = "\<lambda>_. writing dir ?n w (Suc i)"])
        (auto intro!: triple_ret)
    moreover have "triple (writing dir ?n w i) (io_ret x) (\<lambda>_. writing dir ?n w (Suc i)) (\<lambda>_. ?O)"
      for x :: "TableMeta list \<times> u64 \<times> nat"
      by (rule triple_pre [OF _ triple_ret]) (auto intro: writing_mono)
    ultimately show ?thesis
      unfolding compaction_step_def by (cases acc) (auto simp: Let_def simp del: io_apply)
  qed
  have "triple (writing dir ?n w 0) (writeCompactionOutput fp dir rs q) (\<lambda>_. ?O) (\<lambda>_. ?O)"
    unfolding writeCompactionOutput_def
  proof (rule triple_bind [OF triple_fold_upt])
    fix x :: "TableMeta list \<times> u64 \<times> nat"
    have w: "triple (writing dir ?n w (length rs)) (io_bind (writeCompactionSlice fp dir ss) (\<lambda>table. io_ret (g table))) (\<lambda>_. ?O) (\<lambda>_. ?O)"
      for ss and g :: "TableMeta \<Rightarrow> TableMeta list"
      by (intro triple_bind [OF triple_conseq [OF slice_writing [of dir ?n w "length rs"]], where R = "\<lambda>_. ?O"])
        (auto intro!: triple_ret)
    have "triple (writing dir ?n w (length rs)) (io_ret y) (\<lambda>_. ?O) (\<lambda>_. ?O)" for y :: "TableMeta list"
      by (rule triple_pre [OF _ triple_ret]) (simp add: writing_def)
    with w show "triple (writing dir ?n w (length rs)) (case x of (outs, bytes, b) \<Rightarrow>
        if bytes \<noteq> 0 then io_bind (writeCompactionSlice fp dir (drop b rs)) (\<lambda>table. io_ret (outs @ [table]))
        else io_ret outs) (\<lambda>_. ?O) (\<lambda>_. ?O)"
      by (auto split: prod.split simp del: io_apply)
  qed (rule step)
  from triple_any [OF this _ run] o show ?thesis by (simp add: writing_def)
qed

section \<open>The two halves of a compaction\<close>

text \<open>Up to the replacement in the catalogue in memory, and from its publication on.\<close>

definition prepareRange :: "fp \<Rightarrow> u64 list \<Rightarrow> u64 \<Rightarrow> path list db" where
  "prepareRange fp removedTables targetLevel =
     io_bind (db_get id) (\<lambda>db.
     let inputPaths = tablePaths (db_dataDirectory db) removedTables in
     io_bind (io_outer (openTableIterators inputPaths)) (\<lambda>iterators.
     io_bind (io_lift (mergeAll (map RawIt iterators))) (\<lambda>records.
     let records = retainForCompaction records (smallestActiveSnapshot db) in
     io_bind (on_manifest (writeCompactionOutput fp (db_dataDirectory db) records (db_compactionSliceBytes db)))
       (\<lambda>outputTables.
     io_bind (on_manifest (manifest_try (replaceTables removedTables outputTables (ucast targetLevel)))) (\<lambda>_.
     io_ret inputPaths)))))"

definition commitRange :: "u64 list \<Rightarrow> path list \<Rightarrow> unit db" where
  "commitRange removedTables inputPaths =
     io_bind (db_get db_manifest) (\<lambda>manifest.
     io_bind (io_outer (Manifest_save manifest)) (\<lambda>_.
     io_bind (io_outer (io_for inputPaths (\<lambda>p. removeFile p ''remove old sst file failed''))) (\<lambda>_.
     db_upd (\<lambda>db. db\<lparr>db_tableCache :=
       fold (\<lambda>tableNumber. AList.delete tableNumber) removedTables (db_tableCache db)\<rparr>))))"

lemma compactRange_split: "compactRange fp rem l = io_bind (prepareRange fp rem l) (commitRange rem)"
  by (simp only: compactRange_def prepareRange_def commitRange_def Let_def io_bind_assoc io_bind_ret)

lemma robust_prepareRange: "robust twins (prepareRange fp rem l)"
  unfolding prepareRange_def by (intro robust_intros)

lemma removal_outcome:
  assumes "io_for ps (\<lambda>p. removeFile p msg) w = Some (r, w')"
  shows "w_dirs w' = w_dirs w \<and> (\<forall>q. content_of w' q = content_of w q \<or> content_of w' q = None \<and> q \<in> set ps)
    \<and> (r = Inr () \<longrightarrow> (\<forall>q \<in> set ps. content_of w' q = None))"
  using assms
proof (induction ps arbitrary: w)
  case (Cons p ps)
  obtain e w1 where rm: "sys_remove p w = (e, w1)" by fastforce
  have fr: "w_dirs w1 = w_dirs w" "content_of w1 = content_of w \<or> content_of w1 = (content_of w)(p := None)"
    "e = 0 \<Longrightarrow> content_of w1 p = None"
    using rm by (auto simp: sys_remove_def ENOENT_def split: prod.splits os_answer.splits option.splits if_splits dest!: os_next_frame)
  have run: "removeFile p msg w = Some (if e = 0 then Inr () else Inl (system_error e msg), w1)"
    using rm by (simp add: removeFile_def io_bind_def io_act_def)
  show ?case
  proof (cases "e = 0")
    case True
    with Cons.prems run have "io_for ps (\<lambda>p. removeFile p msg) w1 = Some (r, w')"
      by (simp add: io_bind_def)
    note IH = Cons.IH [OF this]
    from fr(3) [OF True] IH have "content_of w' p = None" by metis
    with IH fr(1,2) show ?thesis by (auto split: if_splits)
  next
    case False
    with Cons.prems run fr show ?thesis by (auto simp: io_bind_def split: if_splits)
  qed
qed simp

text \<open>The catalogue is either published or as it was; other files are only removed, and after that.\<close>

lemma save_outcome:
  assumes run: "Manifest_save m w = Some (r, w')" and p: "mf_path m = manifest_path dir" and d: "dir_ok dir w"
  shows "\<forall>q. q \<noteq> manifest_path dir \<and> q \<noteq> temporary_path (manifest_path dir) \<longrightarrow> content_of w' q = content_of w q"
    "content_of w' (manifest_path dir) = content_of w (manifest_path dir)
      \<or> content_of w' (manifest_path dir) = Some (manifest_bytes m)"
    "r = Inr () \<longrightarrow> content_of w' (manifest_path dir) = Some (manifest_bytes m)"
    "set (w_dirs w) \<subseteq> set (w_dirs w')" "dir_ok dir w'"
proof -
  from d have "butlast (manifest_path dir) \<noteq> []" by (simp add: dir_ok_def)
  with produced_file [OF run [unfolded Manifest_save_alt p] _ produces_writeManifest] have
    o: "(\<forall>q. q \<noteq> manifest_path dir \<and> q \<noteq> temporary_path (manifest_path dir) \<longrightarrow> content_of w' q = content_of w q)
      \<and> (content_of w' (manifest_path dir) = content_of w (manifest_path dir)
          \<or> content_of w' (manifest_path dir) = Some (manifest_bytes m))
      \<and> (\<forall>y. r = Inr y \<longrightarrow> content_of w' (manifest_path dir) = Some (manifest_bytes m)) \<and> made_way (manifest_path dir) w w'"
    by blast
  then show "\<forall>q. q \<noteq> manifest_path dir \<and> q \<noteq> temporary_path (manifest_path dir) \<longrightarrow> content_of w' q = content_of w q"
    "content_of w' (manifest_path dir) = content_of w (manifest_path dir)
      \<or> content_of w' (manifest_path dir) = Some (manifest_bytes m)"
    "r = Inr () \<longrightarrow> content_of w' (manifest_path dir) = Some (manifest_bytes m)"
    "set (w_dirs w) \<subseteq> set (w_dirs w')"
    by (simp_all add: made_way_def)
  show "dir_ok dir w'" using o by (intro dir_ok_published [OF d, of "manifest_path dir"]) auto
qed

lemma commit_outcome:
  assumes run: "commitRange rem ps (w, db) = Some (r, (w', db'))" and p: "mf_path (db_manifest db) = manifest_path dir"
    and d: "dir_ok dir w" and ps: "manifest_path dir \<notin> set ps"
  shows "dir_ok dir w'" "set (w_dirs w) \<subseteq> set (w_dirs w')"
    "\<And>q. q \<noteq> manifest_path dir \<Longrightarrow> q \<noteq> temporary_path (manifest_path dir) \<Longrightarrow>
       content_of w' q = content_of w q \<or> content_of w' q = None \<and> q \<in> set ps"
    "content_of w' (manifest_path dir) = Some (manifest_bytes (db_manifest db))
      \<or> (\<forall>q. q \<noteq> temporary_path (manifest_path dir) \<longrightarrow> content_of w' q = content_of w q)"
    "\<And>q. r = Inr () \<Longrightarrow> q \<in> set ps \<Longrightarrow> content_of w' q = None"
    "r = Inr () \<Longrightarrow> content_of w' (manifest_path dir) = Some (manifest_bytes (db_manifest db))"
proof -
  let ?m = "manifest_path dir" and ?rm = "io_for ps (\<lambda>p. removeFile p ''remove old sst file failed'')"
  obtain r1 w1 where save: "Manifest_save (db_manifest db) w = Some (r1, w1)"
    using run by (auto simp: commitRange_def db_get_def io_bind_def io_outer_def split: option.splits)
  note s = save_outcome [OF save p d]
  have "\<exists>w2. w_dirs w2 = w_dirs w1 \<and> w' = w2 \<and> (\<forall>q. content_of w2 q = content_of w1 q \<or> content_of w2 q = None \<and> q \<in> set ps)
      \<and> (r1 \<noteq> Inr () \<longrightarrow> w2 = w1 \<and> r \<noteq> Inr ()) \<and> (r = Inr () \<longrightarrow> (\<forall>q \<in> set ps. content_of w2 q = None))"
  proof (cases r1)
    case (Inl e)
    with run save show ?thesis by (auto simp: commitRange_def db_get_def io_bind_def io_outer_def)
  next
    case (Inr u)
    obtain r2 w2 where rm: "?rm w1 = Some (r2, w2)"
      using run save Inr by (auto simp: commitRange_def db_get_def io_bind_def io_outer_def split: option.splits)
    have "w' = w2" "r = Inr () \<longrightarrow> r2 = Inr ()"
      using run save Inr rm by (auto simp: commitRange_def db_get_def db_upd_def io_bind_def io_outer_def split: sum.splits)
    with removal_outcome [OF rm] Inr show ?thesis by auto
  qed
  then have w': "w_dirs w' = w_dirs w1" "\<And>q. content_of w' q = content_of w1 q \<or> content_of w' q = None \<and> q \<in> set ps"
    "r1 \<noteq> Inr () \<Longrightarrow> w' = w1 \<and> r \<noteq> Inr ()" "r = Inr () \<longrightarrow> (\<forall>q \<in> set ps. content_of w' q = None)" by auto
  have "content_of w' q = None" if "q \<in> data_dirs dir" for q using w'(2) [of q] s(5) that by (auto simp: dir_ok_def)
  then show "dir_ok dir w'" by (rule dir_ok_files [OF s(5)]) (simp_all add: w'(1))
  show "set (w_dirs w) \<subseteq> set (w_dirs w')" using s(4) w'(1) by simp
  show "content_of w' q = content_of w q \<or> content_of w' q = None \<and> q \<in> set ps"
    if "q \<noteq> ?m" "q \<noteq> temporary_path ?m" for q using w'(2) [of q] s(1) that by simp
  show "content_of w' ?m = Some (manifest_bytes (db_manifest db))
      \<or> (\<forall>q. q \<noteq> temporary_path ?m \<longrightarrow> content_of w' q = content_of w q)"
    using s(1-3) w'(2) [of ?m] w'(3) ps by (cases "r1 = Inr ()") (auto, metis)
  show "content_of w' q = None" if "r = Inr ()" "q \<in> set ps" for q using w'(4) that by simp
  show "content_of w' ?m = Some (manifest_bytes (db_manifest db))" if "r = Inr ()"
    using s(3) w'(2) [of ?m] w'(3) ps that by (cases "r1 = Inr ()") auto
qed

section \<open>A compaction that fails\<close>

text \<open>
  Whatever happens in the first half, the directory holds the same database; if it returns, it has
  done what it does without faults.
\<close>

lemma prepare_faulty:
  assumes o: "db_open fp T bs (calm w) db" and sel: "selects (db_manifest db) rem l" and l: "l \<le> 20"
    and room: "unat (mf_nextTableNumber (db_manifest db)) + length (db_records T db) < 2 ^ 64"
    and run: "prepareRange fp rem (of_nat l) (w, db) = Some (r, (w', db'))"
  shows "orphans_only (db_dataDirectory db) (mf_nextTableNumber (db_manifest db)) w w'"
proof -
  let ?dir = "db_dataDirectory db" and ?m = "db_manifest db" and ?q = "smallestActiveSnapshot db"
  let ?ps = "tablePaths ?dir rem" and ?n = "mf_nextTableNumber ?m"
  have ready: "db_ready fp T (calm w) db" using o by (simp add: db_open_def)
  from compaction_output [OF ready sel l room] obtain its out ss w1 where
    its: "openTableIterators ?ps (calm w) = Some (Inr its, calm w)" and merge: "mergeAll (map RawIt its) = Inr out"
    and out: "sorted_records out" "set out = chosen T db rem" .
  obtain x w2 where op: "openTableIterators ?ps w = Some (x, w2)"
    using run by (auto simp: prepareRange_def db_get_def io_bind_def io_outer_def Let_def split: option.splits)
  have o1: "orphans_only ?dir ?n w w"
    using orphans_refl [OF open_on_disk_same [OF o]] .
  have o2: "orphans_only ?dir ?n w w2"
    using quietD [OF quiet_openTableIterators op] by (intro orphans_quiet [OF o1]) simp_all
  show ?thesis
  proof (cases x)
    case (Inl e)
    with run op o2 show ?thesis by (auto simp: prepareRange_def db_get_def io_bind_def io_outer_def Let_def)
  next
    case (Inr its')
    with robustD [OF robust_openTableIterators twin_calm] op its have its': "its' = its" by fastforce
    let ?rs = "retainForCompaction out ?q"
    have "length ?rs \<le> length (db_records T db)" by (rule retained_bound [OF out])
    then have room': "unat ?n + length ?rs < 2 ^ 64" using room by simp
    obtain y w3 m3 where wr: "writeCompactionOutput fp ?dir ?rs (db_compactionSliceBytes db) (w2, ?m) = Some (y, (w3, m3))"
      using run op Inr its' merge
      by (auto simp: prepareRange_def db_get_def io_bind_def io_outer_def on_manifest_def Let_def split: option.splits)
    then have "w' = w3"
      using run op Inr its' merge
      by (auto simp: prepareRange_def db_get_def io_bind_def io_outer_def on_manifest_def manifest_try_def Let_def
          split: option.splits sum.splits prod.splits)
    with output_orphans [OF wr o2 room'] show ?thesis by simp
  qed
qed

lemma prepare_result:
  assumes "prepareRange fp rem l (w, db) = Some (Inr ps, (w', db'))"
  shows "ps = tablePaths (db_dataDirectory db) rem"
  using assms by (auto simp: prepareRange_def db_get_def io_bind_def io_outer_def Let_def split: option.splits sum.splits)

lemma commit_manifest:
  assumes "commitRange rem ps (w, db) = Some (r, (w', db'))"
  shows "db_manifest db' = db_manifest db"
  using assms by (auto simp: commitRange_def db_get_def db_upd_def io_bind_def io_outer_def split: option.splits sum.splits)

lemma orphans_commit:
  assumes o: "orphans_only dir n0 w w1" and d: "dir_ok dir w2" "set (w_dirs w1) \<subseteq> set (w_dirs w2)"
    and c: "\<And>q. q \<noteq> temporary_path (manifest_path dir) \<Longrightarrow> content_of w2 q = content_of w1 q"
  shows "orphans_only dir n0 w w2"
proof -
  have "content_of w2 (sstablePath dir n) = content_of w1 (sstablePath dir n)" for n
    using c [of "sstablePath dir n"] temporaries_apart(3) by metis
  with o d c show ?thesis by (auto simp: orphans_only_def)
qed

text \<open>
  Once the new catalogue is in place, a commit that fails has left the disk of the one that succeeds,
  up to inputs that are still there.
\<close>

lemma committed_disk:
  assumes od: "on_disk fp T bs dir (db_manifest db1) v" and mp: "mf_path (db_manifest db1) = manifest_path dir"
    and tw: "twin w1 v1" and d1: "dir_ok dir w1" and ps: "ps = tablePaths dir rem"
    and cw: "commitRange rem ps (w1, db1) = Some (r, (w', db'))" and cv: "commitRange rem ps (v1, db1) = Some (Inr (), (v, dbv))"
    and pub: "content_of w' (manifest_path dir) = Some (manifest_bytes (db_manifest db1))"
    and orph: "\<And>k. mf_nextTableNumber (db_manifest db1) \<le> k \<Longrightarrow> content_of w1 (sstablePath dir k) \<noteq> None \<Longrightarrow> dir @ [''sstable''] \<in> set (w_dirs w1)"
  shows "on_disk fp T bs dir (db_manifest db1) (calm w')"
proof -
  let ?mp = "manifest_path dir" and ?m = "db_manifest db1"
  have dv: "dir_ok dir v1" using d1 tw by (simp add: twin_def dir_ok_def)
  have np: "?mp \<notin> set ps" "\<And>n. walPath dir n \<notin> set ps" by (auto simp: ps tablePaths_def)
  note cw = commit_outcome [OF cw mp d1 np(1)] and cv = commit_outcome [OF cv mp dv np(1)]
  have same: "content_of v1 q = content_of w1 q" for q using tw by (simp add: twin_def)
  have table: "content_of v (sstablePath dir (tm_number t)) \<noteq> None" if "t \<in> set (all_tables ?m)" for t
    using od that by (auto simp: on_disk_def catalogue_ok_def table_at_def table_file_def)
  show ?thesis
  proof (rule on_disk_frame [OF od])
    fix p
    assume need: "needed_file dir ?m p"
    have "content_of w' p = content_of v p" if "p \<noteq> ?mp" "p \<noteq> temporary_path ?mp" "p \<notin> set ps"
      using that cw(3) [of p] cv(3) [of p] same by auto
    moreover have "sstablePath dir (tm_number t) \<notin> set ps" if "t \<in> set (all_tables ?m)" for t
      using table [OF that] cv(5) [OF refl] by auto
    moreover have "content_of w' ?mp = content_of v ?mp" using pub cv(6) by simp
    ultimately show "content_of (calm w') p = content_of v p"
      using need np(2) by (auto simp: needed_file_def)
  next
    show "content_of (calm w') (walPath dir n) = None" if "content_of v (walPath dir n) = None" for n
      using that cw(3) [of "walPath dir n"] cv(3) [of "walPath dir n"] np(2) same by auto
    show "dir @ [''sstable''] \<in> set (w_dirs (calm w'))"
      if "mf_nextTableNumber ?m \<le> n" "content_of (calm w') (sstablePath dir n) \<noteq> None" for n
      using orph [OF that(1)] that(2) cw(2) cw(3) [of "sstablePath dir n"] by auto
  qed (use cw(1) in \<open>simp_all add: dir_ok_def\<close>)
qed

lemma compactRange_faulty:
  assumes o: "db_open fp T bs (calm w) db" and sel: "selects (db_manifest db) rem l" and l: "l \<le> 20"
    and room: "unat (mf_nextTableNumber (db_manifest db)) + length (db_records T db) < 2 ^ 64"
    and run: "compactRange fp rem (of_nat l) (w, db) = Some (r, (w', db'))"
    and nom: "compactRange fp rem (of_nat l) (calm w, db) = Some (Inr (), (v, dbv))"
    and ov: "db_open fp T' bs v dbv" "db_dataDirectory dbv = db_dataDirectory db"
      "mf_nextTableNumber (db_manifest db) \<le> mf_nextTableNumber (db_manifest dbv)"
  shows "on_disk fp T bs (db_dataDirectory db) (db_manifest db) (calm w')
    \<or> on_disk fp T' bs (db_dataDirectory db) (db_manifest dbv) (calm w')"
proof -
  let ?dir = "db_dataDirectory db" and ?m = "db_manifest db" and ?mp = "manifest_path (db_dataDirectory db)"
  note d = open_on_disk_same [OF o]
  obtain x w1 db1 where prep: "prepareRange fp rem (of_nat l) (w, db) = Some (x, (w1, db1))"
    using run by (auto simp: compactRange_split io_bind_def split: option.splits)
  note orph = prepare_faulty [OF o sel l room prep]
  show ?thesis
  proof (cases x)
    case (Inl e)
    with run prep have "w' = w1" by (simp add: compactRange_split io_bind_def)
    with on_disk_orphans [OF d orph] show ?thesis by simp
  next
    case (Inr ps)
    have com: "commitRange rem ps (w1, db1) = Some (r, (w', db'))"
      using run prep Inr by (simp add: compactRange_split io_bind_def)
    have "twins (w, db) (calm w, db)" by (simp add: twins_def twin_calm)
    from robustD [OF robust_prepareRange this prep [unfolded Inr]] obtain v1 where
      v1: "prepareRange fp rem (of_nat l) (calm w, db) = Some (Inr ps, (v1, db1))" "twin w1 v1"
      by (auto simp: twins_def)
    then have comv: "commitRange rem ps (v1, db1) = Some (Inr (), (v, dbv))"
      using nom by (simp add: compactRange_split io_bind_def)
    have m: "db_manifest dbv = db_manifest db1" by (rule commit_manifest [OF comv])
    have ps: "ps = tablePaths ?dir rem" using prepare_result prep Inr by blast
    have mp: "mf_path (db_manifest db1) = ?mp" using ov m by (simp add: db_open_def db_ready_def)
    have d1: "dir_ok ?dir w1" using orph by (simp add: orphans_only_def)
    have "?mp \<notin> set ps" by (auto simp: ps tablePaths_def)
    note cw = commit_outcome [OF com mp d1 this] and od = open_on_disk_same [OF ov(1), unfolded ov(2) m]
    from cw(4) show ?thesis
    proof
      assume "\<forall>q. q \<noteq> temporary_path ?mp \<longrightarrow> content_of w' q = content_of w1 q"
      then have "orphans_only ?dir (mf_nextTableNumber ?m) w w'"
        using orphans_commit [OF orph cw(1,2)] by blast
      with on_disk_orphans [OF d] show ?thesis by blast
    next
      assume pub: "content_of w' ?mp = Some (manifest_bytes (db_manifest db1))"
      have "on_disk fp T' bs ?dir (db_manifest db1) (calm w')"
      proof (rule committed_disk [OF od mp v1(2) d1 ps com comv pub])
        show "?dir @ [''sstable''] \<in> set (w_dirs w1)"
          if "mf_nextTableNumber (db_manifest db1) \<le> k" "content_of w1 (sstablePath ?dir k) \<noteq> None" for k
        proof -
          have "mf_nextTableNumber ?m \<le> k" using ov(3) that(1) m by simp
          with orph that(2) show ?thesis by (auto simp: orphans_only_def)
        qed
      qed
      with m show ?thesis by simp
    qed
  qed
qed

text \<open>
  What a directory gives when it is opened: a database that answers every read at or above the
  sequence number \<open>q\<^sub>0\<close> as the records \<open>R\<close> do and has no others, whose next write gets the sequence
  number \<open>n\<close>, and which has taken at most the file numbers below \<open>N\<close>.
\<close>

definition disk_records :: "contents \<Rightarrow> Record list list \<Rightarrow> Manifest \<Rightarrow> Record list" where
  "disk_records T bs m = log_records bs @ concat (map (tbl T) (all_tables m))"

definition disk_next :: "Record list list \<Rightarrow> Manifest \<Rightarrow> u64" where
  "disk_next bs m = max (mf_lastSeq m) (getMaxWALSeq (apply_records (concat bs)
     (empty_memtable [] \<lparr>wal_path = [], wal_fd = 0, wal_poisoned = False\<rparr>))) + 1"

definition serves :: "nat \<Rightarrow> u64 \<Rightarrow> Record list \<Rightarrow> Record list \<Rightarrow> Manifest \<Rightarrow> bool" where
  "serves N q0 R S m \<longleftrightarrow> unat (mf_nextTableNumber m) \<le> N \<and> set S \<subseteq> set R
     \<and> (\<forall>k q. q0 \<le> q \<longrightarrow> visible S k q = visible R k q)"

lemma serves_refl [simp]: "serves N q0 R R m \<longleftrightarrow> unat (mf_nextTableNumber m) \<le> N"
  by (simp add: serves_def)

lemma serves_trans: "serves N q0 S X m \<Longrightarrow> set S \<subseteq> set R \<Longrightarrow> (\<And>k q. q0 \<le> q \<Longrightarrow> visible S k q = visible R k q) \<Longrightarrow> serves N q0 R X m"
  by (auto simp: serves_def)

definition recoverable :: "nat \<Rightarrow> fp \<Rightarrow> path \<Rightarrow> u64 \<Rightarrow> u64 \<Rightarrow> Record list \<Rightarrow> u64 \<Rightarrow> world \<Rightarrow> bool" where
  "recoverable N fp dir base q0 R n w \<longleftrightarrow> (\<exists>T bs m. on_disk fp T bs dir m (calm w) \<and> in_budget base m
     \<and> serves N q0 R (disk_records T bs m) m \<and> disk_next bs m = n)"

lemma open_disk:
  assumes "db_open fp T bs w db"
  shows "disk_records T bs (db_manifest db) = db_records T db" "disk_next bs (db_manifest db) = db_nextSeq db"
proof -
  have wal: "wal_state bs w db" and seq: "seqs_ok T db" using assms by (simp_all add: db_open_def)
  then obtain p ww where m: "db_activeMemTable db = apply_records (concat bs) (empty_memtable p ww)"
    by (auto simp: wal_state_def)
  then show "disk_records T bs (db_manifest db) = db_records T db"
    by (simp add: disk_records_def db_records_def sources_def log_records_eq)
  have "getMaxWALSeq (db_activeMemTable db) = getMaxWALSeq (apply_records (concat bs)
      (empty_memtable [] \<lparr>wal_path = [], wal_fd = 0, wal_poisoned = False\<rparr>))"
    unfolding m by (rule max_seq_log)
  with seq show "disk_next bs (db_manifest db) = db_nextSeq db" unfolding seqs_ok_def disk_next_def by metis
qed

lemma recoverable_open:
  assumes o: "db_open fp T bs v db" and d: "on_disk fp T bs (db_dataDirectory db) (db_manifest db) (calm w)"
    and b: "in_budget base (db_manifest db)" and R: "serves N q0 R (db_records T db) (db_manifest db)"
  shows "recoverable N fp (db_dataDirectory db) base q0 R (db_nextSeq db) w"
  unfolding recoverable_def using open_disk [OF o] d b R by metis

lemma recoverable_same:
  assumes o: "db_open fp T bs v db" and d: "on_disk fp T bs (db_dataDirectory db) (db_manifest db) (calm w)"
    and N: "unat (mf_nextTableNumber (db_manifest db)) \<le> N"
  shows "recoverable N fp (db_dataDirectory db) (db_compactionBaseThresholdBytes db) q0 (db_records T db) (db_nextSeq db) w"
  using o N by (intro recoverable_open [OF o d]) (simp_all add: db_open_def)

lemma recoverable_trans:
  assumes "recoverable N fp dir base q0 S n w" "set S \<subseteq> set R" "\<And>k q. q0 \<le> q \<Longrightarrow> visible S k q = visible R k q"
  shows "recoverable N fp dir base q0 R n w"
  using assms serves_trans [OF _ assms(2,3)] unfolding recoverable_def by blast

text \<open>The database that opening the directory gives.\<close>

definition reopened :: "nat \<Rightarrow> fp \<Rightarrow> path \<Rightarrow> u64 \<Rightarrow> u64 \<Rightarrow> Record list \<Rightarrow> u64 \<Rightarrow> world \<Rightarrow> DB \<Rightarrow> bool" where
  "reopened N fp dir base q0 R n w db \<longleftrightarrow> (\<exists>T bs. db_open fp T bs w db \<and> serves N q0 R (db_records T db) (db_manifest db))
     \<and> db_nextSeq db = n \<and> db_dataDirectory db = dir \<and> db_compactionBaseThresholdBytes db = base
     \<and> db_activeSnapshotSequences db = {#} \<and> \<not> db_writeFailed db"

lemma recoverable_reopens:
  assumes r: "recoverable N fp dir base q0 R n w" and b: "0 < base"
  shows "\<exists>w' db. DB_new dir f c s base ((calm w)\<lparr>w_fds := fds\<rparr>) = Some (Inr db, w') \<and> reopened N fp dir base q0 R n w' db"
proof -
  from r obtain T bs m where d: "on_disk fp T bs dir m (calm w)" "in_budget base m"
    "serves N q0 R (disk_records T bs m) m" "disk_next bs m = n"
    by (auto simp: recoverable_def)
  from DB_new_run [OF on_disk_fds [OF d(1)] b d(2)] obtain w' db where
    new: "DB_new dir f c s base ((calm w)\<lparr>w_fds := fds\<rparr>) = Some (Inr db, w')" "db_open fp T bs w' db" "db_manifest db = m"
    "db_activeSnapshotSequences db = {#}" "\<not> db_writeFailed db" "db_dataDirectory db = dir" "db_compactionBaseThresholdBytes db = base"
    by blast
  with open_disk [OF new(2)] d show ?thesis unfolding reopened_def by auto
qed

text \<open>
  One compaction: if it returns, the database is in order as after a compaction without faults; if it
  throws, the directory still gives the records.
\<close>

lemma compactLevel_disk:
  assumes o: "db_open fp T bs (calm w) db" and n: "n \<le> 19" and ne: "Manifest_level n (db_manifest db) \<noteq> []"
    and room: "unat (mf_nextTableNumber (db_manifest db)) + length (db_records T db) < 2 ^ 64"
    and run: "compactLevel fp n (w, db) = Some (r, (w', db'))" and nom: "compactLevel fp n (calm w, db) = Some (Inr (), (v, dbv))"
    and c: "compacted fp T (calm w) db T' v dbv" and ov: "db_open fp T' bs v dbv"
  shows "on_disk fp T bs (db_dataDirectory db) (db_manifest db) (calm w')
    \<or> on_disk fp T' bs (db_dataDirectory db) (db_manifest dbv) (calm w')"
proof -
  have ready: "db_ready fp T (calm w) db" using o by (simp add: db_open_def)
  then have cat: "catalogue_ok fp T (calm w) (db_dataDirectory db) (db_manifest db)" by (simp add: db_ready_def db_inv_def)
  note f = compacted_fields [OF c]
  obtain rem U lo hi cu where p: "picked (db_manifest db) rem (Suc n) U lo hi"
    and sel: "\<forall>v. compactLevel fp n (v, db) = compactRange fp rem (of_nat (Suc n)) (v, db\<lparr>db_compactionCursors := cu\<rparr>)"
    by (rule compactLevel_selection [OF cat ne])
  let ?db = "db\<lparr>db_compactionCursors := cu\<rparr>"
  have c1: "compacted fp T (calm w) db T (calm w) ?db" by (rule compacted_cursors [OF ready])
  have "db_open fp T bs (calm w) ?db"
    using o c1 by (auto simp: db_open_def db_ready_def wal_state_def tables_fresh_def wals_fresh_def seqs_ok_def stored_def
        saved_def snaps_ok_def compacted_def)
  moreover have "selects (db_manifest ?db) rem (Suc n)" using picked_selects [OF cat p] by simp
  moreover have "mf_nextTableNumber (db_manifest db) \<le> mf_nextTableNumber (db_manifest dbv)" using c by (simp add: compacted_def)
  moreover have "db_records T ?db = db_records T db" by (simp add: db_records_def sources_def)
  ultimately show ?thesis
    using compactRange_faulty [of fp T bs w ?db rem "Suc n" r w' db' v dbv T'] n room run nom ov f(3)
    by (simp add: sel del: of_nat_Suc)
qed

lemma compactLevel_faulty:
  assumes o: "db_open fp T bs (calm w) db" and n: "n \<le> 19" and ne: "Manifest_level n (db_manifest db) \<noteq> []"
    and b: "1 \<le> n \<Longrightarrow> unat (db_compactionBaseThresholdBytes db) * 10 ^ (n - 1) < 2 ^ 60"
    and room: "unat (mf_nextTableNumber (db_manifest db)) + length (db_records T db) < 2 ^ 64"
    and run: "compactLevel fp n (w, db) = Some (r, (w', db'))"
    and N: "unat (mf_nextTableNumber (db_manifest db)) + length (db_records T db) \<le> N"
  shows "recoverable N fp (db_dataDirectory db) (db_compactionBaseThresholdBytes db) (smallestActiveSnapshot db)
      (db_records T db) (db_nextSeq db) w'"
    "r = Inr () \<Longrightarrow> \<exists>T' v. db_open fp T' bs (calm w') db' \<and> compacted fp T (calm w) db T' v db'
      \<and> unat (mf_nextTableNumber (db_manifest db')) \<le> unat (mf_nextTableNumber (db_manifest db)) + length (db_records T db)
      \<and> weight T' (db_manifest db') < weight T (db_manifest db)"
proof -
  have ready: "db_ready fp T (calm w) db" and bud: "in_budget (db_compactionBaseThresholdBytes db) (db_manifest db)"
    using o by (simp_all add: db_open_def)
  from compactLevel_run [OF ready n ne room] obtain T' v dbv where
    nom: "compactLevel fp n (calm w, db) = Some (Inr (), (v, dbv))" and c: "compacted fp T (calm w) db T' v dbv"
    and sv: "saved v dbv" and md: "moved_down n (db_manifest db) (db_manifest dbv)"
    and num: "unat (mf_nextTableNumber (db_manifest dbv)) \<le> unat (mf_nextTableNumber (db_manifest db)) + length (db_records T db)"
    "weight T' (db_manifest dbv) < weight T (db_manifest db)"
    by blast
  note f = compacted_fields [OF c]
  have bv: "in_budget (db_compactionBaseThresholdBytes dbv) (db_manifest dbv)"
    using moved_down_in_budget [OF md bud b] f(1) by simp
  have ov: "db_open fp T' bs v dbv" using sv by (intro compacted_open [OF o c _ bv]) simp
  have reads: "visible (db_records T' dbv) k q = visible (db_records T db) k q" if "smallestActiveSnapshot db \<le> q" for k q
    using c that by (simp add: compacted_def)
  from compactLevel_disk [OF o n ne room run nom c ov]
  show "recoverable N fp (db_dataDirectory db) (db_compactionBaseThresholdBytes db) (smallestActiveSnapshot db)
      (db_records T db) (db_nextSeq db) w'"
  proof
    assume "on_disk fp T bs (db_dataDirectory db) (db_manifest db) (calm w')"
    with N show ?thesis by (intro recoverable_same [OF o]) simp_all
  next
    assume "on_disk fp T' bs (db_dataDirectory db) (db_manifest dbv) (calm w')"
    then have "on_disk fp T' bs (db_dataDirectory dbv) (db_manifest dbv) (calm w')" by (simp add: f)
    moreover have "serves N (smallestActiveSnapshot db) (db_records T db) (db_records T' dbv) (db_manifest dbv)"
      using num(1) N reads set_mset_mono [of "mset (db_records T' dbv)" "mset (db_records T db)"] c by (simp add: serves_def compacted_def)
    ultimately show ?thesis using recoverable_open [OF ov _ bv] by (simp add: f)
  qed
  show "\<exists>T' v. db_open fp T' bs (calm w') db' \<and> compacted fp T (calm w) db T' v db'
      \<and> unat (mf_nextTableNumber (db_manifest db')) \<le> unat (mf_nextTableNumber (db_manifest db)) + length (db_records T db)
      \<and> weight T' (db_manifest db') < weight T (db_manifest db)" if "r = Inr ()"
  proof -
    have "twins (w, db) (calm w, db)" by (simp add: twins_def twin_calm)
    from robustD [OF robust_compactLevel this] run that nom have "db' = dbv" "twin w' v" by (fastforce simp: twins_def)+
    with db_open_twin [OF ov] c num show ?thesis by blast
  qed
qed

text \<open>One round of the automatic compaction, when there is something to do.\<close>

lemma maybeCompact_round:
  assumes o: "db_open fp T bs (calm w) db" and left: "numbers_left T db" and uns: "\<not> settled db"
    and N: "unat (mf_nextTableNumber (db_manifest db)) + length (db_records T db) * Suc (weight T (db_manifest db)) \<le> N"
  obtains n where
    "maybeCompact fp (w, db) = (case compactLevel fp n (w, db) of
        None \<Rightarrow> None | Some (Inl e, s') \<Rightarrow> Some (Inl e, s') | Some (Inr _, s') \<Rightarrow> maybeCompact fp s')"
    "\<And>x w1 db1. compactLevel fp n (w, db) = Some (x, (w1, db1)) \<Longrightarrow>
      recoverable N fp (db_dataDirectory db) (db_compactionBaseThresholdBytes db) (smallestActiveSnapshot db)
        (db_records T db) (db_nextSeq db) w1"
    "\<And>w1 db1. compactLevel fp n (w, db) = Some (Inr (), (w1, db1)) \<Longrightarrow>
      \<exists>T1 v. db_open fp T1 bs (calm w1) db1 \<and> compacted fp T (calm w) db T1 v db1 \<and> numbers_left T1 db1
        \<and> weight T1 (db_manifest db1) < weight T (db_manifest db)
        \<and> unat (mf_nextTableNumber (db_manifest db1)) + length (db_records T1 db1) * Suc (weight T1 (db_manifest db1)) \<le> N"
proof -
  have ready: "db_ready fp T (calm w) db" and base: "0 < db_compactionBaseThresholdBytes db"
    and bud: "in_budget (db_compactionBaseThresholdBytes db) (db_manifest db)"
    using o by (simp_all add: db_open_def)
  define n where "n = (if unat (db_level0CompactionThreshold db) < length (Manifest_level 0 (db_manifest db))
    then 0 else the (firstOverBudgetLevel db))"
  from unsettled_level [OF ready bud base uns]
  have n: "n \<le> 19" "Manifest_level n (db_manifest db) \<noteq> []"
    "1 \<le> n \<Longrightarrow> unat (db_compactionBaseThresholdBytes db) * 10 ^ (n - 1) < 2 ^ 60"
    by (simp_all add: n_def)
  have room: "unat (mf_nextTableNumber (db_manifest db)) + length (db_records T db) < 2 ^ 64"
    using left by (simp add: numbers_left_def)
  have "unat (mf_nextTableNumber (db_manifest db)) + length (db_records T db) \<le> N" using N by simp
  note f = compactLevel_faulty [OF o n room _ this]
  show thesis
  proof (rule that [of n])
    show "maybeCompact fp (w, db) = (case compactLevel fp n (w, db) of
        None \<Rightarrow> None | Some (Inl e, s') \<Rightarrow> Some (Inl e, s') | Some (Inr _, s') \<Rightarrow> maybeCompact fp s')"
      using uns by (simp add: maybeCompact_step [of fp w db] flip: n_def)
  next
    fix w1 db1 assume "compactLevel fp n (w, db) = Some (Inr (), (w1, db1))"
    from f(2) [OF _ this refl] obtain T1 v where s: "db_open fp T1 bs (calm w1) db1" "compacted fp T (calm w) db T1 v db1"
      "unat (mf_nextTableNumber (db_manifest db1)) \<le> unat (mf_nextTableNumber (db_manifest db)) + length (db_records T db)"
      "weight T1 (db_manifest db1) < weight T (db_manifest db)" by auto
    have "length (db_records T1 db1) \<le> length (db_records T db)"
      using s(2) by (intro mset_sub_length) (simp add: compacted_def)
    then have "length (db_records T1 db1) * Suc (weight T1 (db_manifest db1)) \<le> length (db_records T db) * weight T (db_manifest db)"
      using s(4) by (intro mult_le_mono) simp_all
    then have "numbers_left T1 db1"
      "unat (mf_nextTableNumber (db_manifest db1)) + length (db_records T1 db1) * Suc (weight T1 (db_manifest db1)) \<le> N"
      using s(3) left N by (simp_all add: numbers_left_def)
    with s show "\<exists>T1 v. db_open fp T1 bs (calm w1) db1 \<and> compacted fp T (calm w) db T1 v db1 \<and> numbers_left T1 db1
        \<and> weight T1 (db_manifest db1) < weight T (db_manifest db)
        \<and> unat (mf_nextTableNumber (db_manifest db1)) + length (db_records T1 db1) * Suc (weight T1 (db_manifest db1)) \<le> N" by blast
  qed (auto intro: f(1))
qed

lemma maybeCompact_faulty:
  assumes "db_open fp T bs (calm w) db" "numbers_left T db" "maybeCompact fp (w, db) = Some (r, (w', db'))"
    "unat (mf_nextTableNumber (db_manifest db)) + length (db_records T db) * Suc (weight T (db_manifest db)) \<le> N"
  shows "recoverable N fp (db_dataDirectory db) (db_compactionBaseThresholdBytes db) (smallestActiveSnapshot db)
    (db_records T db) (db_nextSeq db) w'"
  using assms
proof (induction "weight T (db_manifest db)" arbitrary: T w db rule: less_induct)
  case less
  show ?case
  proof (cases "settled db")
    case True
    with less.prems(3) have "w' = w" by (simp add: maybeCompact_step [of fp w db])
    with recoverable_same [OF less.prems(1) open_on_disk_same [OF less.prems(1)]] less.prems(4) show ?thesis by simp
  next
    case False
    from less.prems(1,2) False less.prems(4) show ?thesis
    proof (rule maybeCompact_round)
      fix n
      assume step: "maybeCompact fp (w, db) = (case compactLevel fp n (w, db) of
          None \<Rightarrow> None | Some (Inl e, s') \<Rightarrow> Some (Inl e, s') | Some (Inr _, s') \<Rightarrow> maybeCompact fp s')"
        and stop: "\<And>x w1 db1. compactLevel fp n (w, db) = Some (x, (w1, db1)) \<Longrightarrow>
          recoverable N fp (db_dataDirectory db) (db_compactionBaseThresholdBytes db) (smallestActiveSnapshot db)
            (db_records T db) (db_nextSeq db) w1"
        and go: "\<And>w1 db1. compactLevel fp n (w, db) = Some (Inr (), (w1, db1)) \<Longrightarrow>
          \<exists>T1 v. db_open fp T1 bs (calm w1) db1 \<and> compacted fp T (calm w) db T1 v db1 \<and> numbers_left T1 db1
            \<and> weight T1 (db_manifest db1) < weight T (db_manifest db)
            \<and> unat (mf_nextTableNumber (db_manifest db1)) + length (db_records T1 db1) * Suc (weight T1 (db_manifest db1)) \<le> N"
      from less.prems(3) step obtain x w1 db1 where c: "compactLevel fp n (w, db) = Some (x, (w1, db1))"
        by (auto split: option.splits)
      show ?thesis
      proof (cases x)
        case (Inl e)
        with less.prems(3) step c have "w' = w1" by simp
        with stop [OF c] show ?thesis by simp
      next
        case (Inr u)
        with go c obtain T1 v where s: "db_open fp T1 bs (calm w1) db1" "compacted fp T (calm w) db T1 v db1"
          "numbers_left T1 db1" "weight T1 (db_manifest db1) < weight T (db_manifest db)"
          "unat (mf_nextTableNumber (db_manifest db1)) + length (db_records T1 db1) * Suc (weight T1 (db_manifest db1)) \<le> N" by auto
        have "maybeCompact fp (w1, db1) = Some (r, (w', db'))" using less.prems(3) step c Inr by simp
        note IH = less.hyps [OF s(4,1,3) this s(5)]
        have "recoverable N fp (db_dataDirectory db) (db_compactionBaseThresholdBytes db) (smallestActiveSnapshot db)
            (db_records T1 db1) (db_nextSeq db) w'" using IH by (simp add: compacted_fields [OF s(2)])
        then show ?thesis
          using s(2) set_mset_mono [of "mset (db_records T1 db1)" "mset (db_records T db)"]
          by (elim recoverable_trans) (simp_all add: compacted_def)
      qed
    qed
  qed
qed

end
