(* ===== verification/DBRecovery.thy ===== *)
theory DBRecovery
  imports DBFaults
begin

text \<open>
  Crash safety of flushes and writes: whatever faults occur, the directory holds the database before
  or after the operation, unless the header of a new log was torn.
\<close>

section \<open>A new log under faults\<close>

text \<open>After the header only the file and its directory are synchronised.\<close>

lemma header_synced:
  assumes "io_bind (io_act (fault_fsync fd)) (\<lambda>err.
      if err \<noteq> 0 then io_throw (system_error err a) else
      io_bind (io_act (sys_open_dir d)) (\<lambda>r.
      case r of
        Inl err \<Rightarrow> io_throw (system_error err b)
      | Inr directoryDescriptor \<Rightarrow>
          io_local directoryDescriptor
            (io_bind (io_outer (io_act (fault_fsync directoryDescriptor))) (\<lambda>err.
             if err \<noteq> 0 then io_throw (system_error err c) else io_ret ()))
            FdGuard_dtor)) w = Some (r, w')"
  shows "w_files w' = w_files w \<and> w_dirs w' = w_dirs w \<and> w_fds w' = w_fds w"
proof -
  obtain e1 w1 where s1: "fault_fsync fd w = (e1, w1)" by fastforce
  note f1 = fault_fsync_frame [OF s1]
  obtain y w2 where s2: "sys_open_dir d w1 = (y, w2)" by fastforce
  note f2 = sys_open_dir_cases [OF s2]
  show ?thesis
  proof (cases "e1 \<noteq> 0 \<or> (\<exists>e. y = Inl e)")
    case True
    with assms s1 s2 f1 f2 show ?thesis by (auto simp: io_bind_def io_act_def split: if_splits)
  next
    case False
    then obtain dd where y: "y = Inr dd" "e1 = 0" by (cases y) auto
    obtain e3 w3 where s3: "fault_fsync dd w2 = (e3, w3)" by fastforce
    note f3 = fault_fsync_frame [OF s3]
    have "w' = FdGuard_dtor dd w3"
      using assms s1 s2 s3 y by (auto simp: io_bind_def io_act_def io_local_def io_outer_def split: if_splits)
    moreover have "0 \<le> dd" "AList.delete dd (w_fds w2) = w_fds w1"
      using f2 y fresh_fd_ge [of "w_fds w1"] delete_fresh [OF fresh_fd_fresh] by auto
    ultimately show ?thesis using FdGuard_dtor_frame [of dd w3] f1 f2 f3 by simp
  qed
qed

lemma header_block:
  assumes o: "open_on w fd p []"
    and run: "io_bind (writeAll fd kWalMagic) (\<lambda>_. io_bind (writeAll fd (put_u8 kWalVersion)) (\<lambda>_.
      io_bind (io_act (fault_fsync fd)) (\<lambda>err.
      if err \<noteq> 0 then io_throw (system_error err a) else
      io_bind (io_act (sys_open_dir d)) (\<lambda>r.
      case r of
        Inl err \<Rightarrow> io_throw (system_error err b)
      | Inr directoryDescriptor \<Rightarrow>
          io_local directoryDescriptor
            (io_bind (io_outer (io_act (fault_fsync directoryDescriptor))) (\<lambda>err.
             if err \<noteq> 0 then io_throw (system_error err c) else io_ret ()))
            FdGuard_dtor)))) w = Some (r, w')"
  shows "\<exists>k. w_files w' = w_files (set_file p (take k wal_header) w) \<and> w_dirs w' = w_dirs w \<and> w_fds w' = w_fds w
    \<and> (r = Inr () \<longrightarrow> take k wal_header = wal_header)"
proof -
  have hdr: "wal_header = kWalMagic @ put_u8 kWalVersion" by (simp add: wal_header_def)
  obtain r1 w1 where w1: "writeAll fd kWalMagic w = Some (r1, w1)"
    using run by (auto simp: io_bind_def split: option.splits)
  from writeAll_outcome [OF w1 o] obtain n where
    n: "w_files w1 = w_files (set_file p (take n kWalMagic) w)" "w_dirs w1 = w_dirs w" "w_fds w1 = w_fds w"
    "r1 = Inr () \<longrightarrow> length kWalMagic \<le> n" by auto
  show ?thesis
  proof (cases r1)
    case (Inl e)
    with run w1 have "w' = w1" "r = Inl e" by (simp_all add: io_bind_def)
    with n show ?thesis
      by (intro exI [of _ "min n (length kWalMagic)"]) (simp add: hdr min_def)
  next
    case (Inr u)
    then have f1: "w_files w1 = w_files (set_file p kWalMagic w)" using n by simp
    have o1: "open_on w1 fd p kWalMagic" using o n(2,3) f1 by (simp add: open_on_def)
    obtain r2 w2 where w2: "writeAll fd (put_u8 kWalVersion) w1 = Some (r2, w2)"
      using run w1 Inr by (auto simp: io_bind_def split: option.splits)
    from writeAll_outcome [OF w2 o1] obtain j where
      j: "w_files w2 = w_files (set_file p (kWalMagic @ take j (put_u8 kWalVersion)) w1)" "w_dirs w2 = w_dirs w1" "w_fds w2 = w_fds w1"
      "r2 = Inr () \<longrightarrow> length (put_u8 kWalVersion) \<le> j" by auto
    have f2: "w_files w2 = w_files (set_file p (take (length kWalMagic + j) wal_header) w)"
      using j(1) f1 by (simp add: hdr set_file_def update_last)
    show ?thesis
    proof (cases r2)
      case r2: (Inl e)
      with run w1 Inr w2 have "w' = w2" "r = Inl e" by (simp_all add: io_bind_def)
      with f2 j n show ?thesis by (intro exI [of _ "length kWalMagic + j"]) simp
    next
      case r2: (Inr v)
      then have f3: "w_files w2 = w_files (set_file p wal_header w)" using f2 j(4) by (simp add: hdr)
      have "w_files w' = w_files w2 \<and> w_dirs w' = w_dirs w2 \<and> w_fds w' = w_fds w2"
        using run w1 Inr w2 r2 by (intro header_synced) (simp add: io_bind_def [of "writeAll _ _"])
      with f3 j n show ?thesis by (intro exI [of _ "length wal_header"]) simp
    qed
  qed
qed

lemma open_log_cases:
  assumes "sys_open_write excl False p w = (r, w')" "content_of w p = None"
  shows "w_dirs w' = w_dirs w \<and> (case r of
      Inl _ \<Rightarrow> w_files w' = w_files w \<and> w_fds w' = w_fds w
    | Inr fd \<Rightarrow> fd = fresh_fd (w_fds w) \<and> w_fds w' = (fd, p) # w_fds w \<and> w_files w' = w_files (set_file p [] w))"
  using assms by (auto simp: sys_open_write_def alloc_fd_def set_file_def Let_def
      split: prod.splits os_answer.splits if_splits dest!: os_next_frame)

lemma create_log_dirs:
  assumes "fs_create_directories d w = (e, w')" "e = 0"
  shows "w_dirs w' = w_dirs (mkdirs d w)"
  using assms by (auto simp: fs_create_directories_def mkdirs_def EEXIST_def split: prod.splits os_answer.splits if_splits dest!: os_next_frame)

text \<open>The creation of a log, after the exclusive open.\<close>

lemma created_log:
  assumes o: "open_on w fd p []"
    and run: "io_bind (io_try
      (io_bind (writeAll fd kWalMagic) (\<lambda>_. io_bind (writeAll fd (put_u8 kWalVersion)) (\<lambda>_.
        io_bind (io_act (fault_fsync fd)) (\<lambda>err.
        if err \<noteq> 0 then io_throw (system_error err a) else
        io_bind (io_act (sys_open_dir d)) (\<lambda>r.
        case r of
          Inl err \<Rightarrow> io_throw (system_error err b)
        | Inr directoryDescriptor \<Rightarrow>
            io_local directoryDescriptor
              (io_bind (io_outer (io_act (fault_fsync directoryDescriptor))) (\<lambda>err.
               if err \<noteq> 0 then io_throw (system_error err c) else io_ret ()))
              FdGuard_dtor)))))
      (\<lambda>e. io_bind (io_act (sys_close fd)) (\<lambda>_. io_throw e))) (\<lambda>_. io_ret x) w = Some (r, w')"
  shows "\<exists>k. w_files w' = w_files (set_file p (take k wal_header) w) \<and> w_dirs w' = w_dirs w
    \<and> (\<forall>y. r = Inr y \<longrightarrow> y = x \<and> w_fds w' = w_fds w \<and> take k wal_header = wal_header)"
proof -
  let ?body = "io_bind (writeAll fd kWalMagic) (\<lambda>_. io_bind (writeAll fd (put_u8 kWalVersion)) (\<lambda>_.
    io_bind (io_act (fault_fsync fd)) (\<lambda>err.
    if err \<noteq> 0 then io_throw (system_error err a) else
    io_bind (io_act (sys_open_dir d)) (\<lambda>r.
    case r of
      Inl err \<Rightarrow> io_throw (system_error err b)
    | Inr directoryDescriptor \<Rightarrow>
        io_local directoryDescriptor
          (io_bind (io_outer (io_act (fault_fsync directoryDescriptor))) (\<lambda>err.
           if err \<noteq> 0 then io_throw (system_error err c) else io_ret ()))
          FdGuard_dtor))))"
  obtain rb wd where body: "?body w = Some (rb, wd)"
    using run by (auto simp: io_bind_def [of "io_try _ _"] io_try_def split: option.splits)
  from header_block [OF o body] obtain k where
    k: "w_files wd = w_files (set_file p (take k wal_header) w)" "w_dirs wd = w_dirs w" "w_fds wd = w_fds w"
    "rb = Inr () \<longrightarrow> take k wal_header = wal_header" by blast
  show ?thesis
  proof (cases rb)
    case rb: (Inl err)
    have "r = Inl err" "w' = snd (sys_close fd wd)"
      using run body rb by (simp_all add: io_bind_def [of "io_try _ _"] io_try_def io_bind_def [of "io_act _"] io_act_def split: prod.splits)
    with k sys_close_frame [of fd wd "fst (sys_close fd wd)" "snd (sys_close fd wd)"] show ?thesis by auto
  next
    case rb: (Inr u)
    have "r = Inr x" "w' = wd"
      using run body rb by (simp_all add: io_bind_def [of "io_try _ _"] io_try_def)
    with k rb show ?thesis by (intro exI [of _ k]) simp
  qed
qed

text \<open>
  A new log has a prefix of its header; only if the writer is returned may it be used, and then the
  header is complete, or it is empty because the exclusive open was refused for no reason.
\<close>

lemma WALFileWriter_new_faulty:
  assumes run: "WALFileWriter_new p w = Some (r, w')" and p: "butlast p \<noteq> []" and none: "content_of w p = None"
  shows "made_way p w w'" "\<And>q. q \<noteq> p \<Longrightarrow> content_of w' q = content_of w q"
    "content_of w' p = None \<or> (\<exists>k. content_of w' p = Some (take k wal_header))"
    "\<And>ww. r = Inr ww \<Longrightarrow> ww = writer_at p w \<and> w_fds w' = (fresh_fd (w_fds w), p) # w_fds w
       \<and> w_dirs w' = w_dirs (mkdirs (butlast p) w) \<and> (content_of w' p = Some [] \<or> content_of w' p = Some wal_header)"
proof -
  let ?G = "made_way p w w' \<and> (\<forall>q. q \<noteq> p \<longrightarrow> content_of w' q = content_of w q)
    \<and> (content_of w' p = None \<or> (\<exists>k. content_of w' p = Some (take k wal_header)))
    \<and> (\<forall>ww. r = Inr ww \<longrightarrow> ww = writer_at p w \<and> w_fds w' = (fresh_fd (w_fds w), p) # w_fds w
       \<and> w_dirs w' = w_dirs (mkdirs (butlast p) w) \<and> (content_of w' p = Some [] \<or> content_of w' p = Some wal_header))"
  obtain e wa where mk: "fs_create_directories (butlast p) w = (e, wa)" by fastforce
  note ga = create_directories_frame [OF mk]
  have ?G
  proof (cases "e = 0")
    case False
    with run mk p ga none show ?thesis by (auto simp: WALFileWriter_new_def io_bind_def io_act_def Let_def)
  next
    case e: True
    note dirs = create_log_dirs [OF mk e]
    obtain x wb where ob: "sys_open_write True False p wa = (x, wb)" by fastforce
    have na: "content_of wa p = None" using ga none by simp
    note gb = open_log_cases [OF ob na]
    show ?thesis
    proof (cases x)
      case (Inl err)
      obtain y wc where oc: "sys_open_write False False p wb = (y, wc)" by fastforce
      have "content_of wb p = None" using gb na Inl by simp
      note gc = open_log_cases [OF oc this]
      have "w' = (if err = EEXIST then wc else wb)" "r = Inr ww \<Longrightarrow> err = EEXIST \<and> y = Inr (wal_fd ww) \<and> ww = \<lparr>wal_path = p, wal_fd = wal_fd ww, wal_poisoned = False\<rparr>" for ww
        using run mk p e ob Inl oc by (auto simp: WALFileWriter_new_def io_bind_def io_act_def Let_def split: if_splits sum.splits)
      with ga gb gc Inl na none dirs show ?thesis
        by (auto simp: made_way_def writer_at_def set_file_def update_conv' split: sum.splits if_splits intro: exI [of _ 0])
    next
      case (Inr fd)
      then have ub: "w_dirs wb = w_dirs wa" "fd = fresh_fd (w_fds w)" "w_fds wb = (fd, p) # w_fds w"
        "w_files wb = w_files (set_file p [] w)"
        using gb ga by (simp_all add: set_file_def)
      have o: "open_on wb fd p []" using ub by (simp add: open_on_def)
      have "\<exists>k. w_files w' = w_files (set_file p (take k wal_header) wb) \<and> w_dirs w' = w_dirs wb
        \<and> (\<forall>y. r = Inr y \<longrightarrow> y = \<lparr>wal_path = p, wal_fd = fd, wal_poisoned = False\<rparr> \<and> w_fds w' = w_fds wb \<and> take k wal_header = wal_header)"
        using run mk p e ob Inr
        by (intro created_log [OF o]) (simp add: WALFileWriter_new_def io_bind_def [of "io_act _"] io_bind_def [of "io_bind _ _"] io_act_def Let_def)
      with ub ga dirs show ?thesis by (auto simp: made_way_def writer_at_def)
    qed
  qed
  then show "made_way p w w'" "\<And>q. q \<noteq> p \<Longrightarrow> content_of w' q = content_of w q"
    "content_of w' p = None \<or> (\<exists>k. content_of w' p = Some (take k wal_header))"
    "\<And>ww. r = Inr ww \<Longrightarrow> ww = writer_at p w \<and> w_fds w' = (fresh_fd (w_fds w), p) # w_fds w
       \<and> w_dirs w' = w_dirs (mkdirs (butlast p) w) \<and> (content_of w' p = Some [] \<or> content_of w' p = Some wal_header)"
    by auto
qed

lemma MemTable_dtor_frame:
  "w_files (MemTable_dtor m w) = w_files w \<and> w_dirs (MemTable_dtor m w) = w_dirs w"
  using sys_close_frame [of "wal_fd (mt_walWriter m)" w "fst (sys_close (wal_fd (mt_walWriter m)) w)"
      "snd (sys_close (wal_fd (mt_walWriter m)) w)"]
  by (simp add: MemTable_dtor_def WALFileWriter_dtor_def)

lemma restore_fresh:
  assumes "restoreFromWAL (w, m) = Some (r, (w', m'))" "m = empty_memtable p ww"
    and "content_of w p = Some [] \<or> content_of w p = Some wal_header"
  shows "w_files w' = w_files w \<and> w_dirs w' = w_dirs w \<and> w_fds w' = w_fds w
    \<and> (r = Inr True \<longrightarrow> content_of w p = Some wal_header \<and> m' = m)"
proof -
  obtain c w1 where rd: "sys_open_read p w = (c, w1)" by fastforce
  have fr: "w_files w1 = w_files w \<and> w_dirs w1 = w_dirs w \<and> w_fds w1 = w_fds w" "c = None \<or> c = content_of w p"
    using rd by (auto simp: sys_open_read_def split: prod.splits os_answer.splits dest!: os_next_frame)
  have parse: "parseWALRecords wal_header = Inr ([], length wal_header)"
    using parse_incomplete_tail [of "[]" "[]"] by (simp add: wal_frames_def batches_ok_def wal_entries_def)
  have "mt_logPath m = p" by (simp add: assms(2) empty_memtable_def)
  consider "c = None" | "c = Some []" | "c = Some wal_header" "content_of w p = Some wal_header" using fr(2) assms(3) by auto
  then show ?thesis
  proof cases
    case 1
    with assms(1) rd fr \<open>mt_logPath m = p\<close> show ?thesis
      by (auto simp: restoreFromWAL_def io_bind_def io_outer_def io_act_def)
  next
    case 2
    with assms(1) rd fr \<open>mt_logPath m = p\<close> show ?thesis
      by (auto simp: restoreFromWAL_def io_bind_def io_outer_def io_act_def kWalHeaderSize_def kWalMagic_def)
  next
    case 3
    with assms(1) rd fr \<open>mt_logPath m = p\<close> parse wal_header_check [of "[]"] show ?thesis
      by (auto simp: restoreFromWAL_def io_bind_def io_outer_def io_act_def)
  qed
qed

lemma MemTable_new_faulty:
  assumes run: "MemTable_new p w = Some (r, w')" and p: "butlast p \<noteq> []" and none: "content_of w p = None"
  shows "made_way p w w'" "\<And>q. q \<noteq> p \<Longrightarrow> content_of w' q = content_of w q"
    "content_of w' p = None \<or> (\<exists>k. content_of w' p = Some (take k wal_header))"
    "\<And>m. r = Inr m \<Longrightarrow> m = empty_memtable p (writer_at p w) \<and> w_fds w' = (fresh_fd (w_fds w), p) # w_fds w
       \<and> w_dirs w' = w_dirs (mkdirs (butlast p) w) \<and> content_of w' p = Some wal_header"
proof -
  obtain x w1 where new: "WALFileWriter_new p w = Some (x, w1)"
    using run by (auto simp: MemTable_new_def io_bind_def split: option.splits)
  note n = WALFileWriter_new_faulty [OF new p none]
  have g: "w_files w' = w_files w1 \<and> w_dirs w' = w_dirs w1 \<and> (\<forall>m. r = Inr m \<longrightarrow> x = Inr (writer_at p w)
      \<and> w_fds w' = w_fds w1 \<and> m = empty_memtable p (writer_at p w) \<and> content_of w1 p = Some wal_header)"
  proof (cases x)
    case (Inl e)
    with run new show ?thesis by (auto simp: MemTable_new_def io_bind_def)
  next
    case (Inr ww)
    note ww = n(4) [OF Inr]
    let ?m0 = "empty_memtable p ww"
    have m0: "\<lparr>mt_table = [], mt_logPath = p, mt_walWriter = ww, mt_currentSizeBytes = 0, mt_currentSeq = 0\<rparr> = ?m0"
      by (simp add: empty_memtable_def)
    obtain y w2 m2 where rs: "restoreFromWAL (w1, ?m0) = Some (y, (w2, m2))"
      using run new Inr by (auto simp: MemTable_new_def io_bind_def Let_def m0 split: option.splits)
    from restore_fresh [OF rs refl] ww have
      f: "w_files w2 = w_files w1 \<and> w_dirs w2 = w_dirs w1 \<and> w_fds w2 = w_fds w1"
      "y = Inr True \<longrightarrow> content_of w1 p = Some wal_header \<and> m2 = ?m0" by blast+
    show ?thesis
    proof (cases "y = Inr True")
      case True
      with run new Inr rs have "r = Inr m2" "w' = w2" by (simp_all add: MemTable_new_def io_bind_def Let_def m0)
      with f True ww Inr show ?thesis by simp
    next
      case False
      then have "w' = MemTable_dtor m2 w2 \<and> (\<exists>e. r = Inl e)"
        using run new Inr rs by (cases y) (auto simp: MemTable_new_def io_bind_def Let_def m0)
      with f MemTable_dtor_frame [of m2 w2] show ?thesis by auto
    qed
  qed
  show "made_way p w w'" using n(1) g by (simp add: made_way_def)
  show "content_of w' q = content_of w q" if "q \<noteq> p" for q using n(2) [OF that] g by simp
  show "content_of w' p = None \<or> (\<exists>k. content_of w' p = Some (take k wal_header))" using n(3) g by simp
  show "m = empty_memtable p (writer_at p w) \<and> w_fds w' = (fresh_fd (w_fds w), p) # w_fds w
       \<and> w_dirs w' = w_dirs (mkdirs (butlast p) w) \<and> content_of w' p = Some wal_header" if "r = Inr m" for m
    using g n(4) that by auto
qed

section \<open>A flush that fails\<close>

text \<open>Programs that keep a property of the state, whether they return or throw.\<close>

definition keeps :: "('s \<Rightarrow> bool) \<Rightarrow> ('s, 'a) prog \<Rightarrow> bool" where
  "keeps I m \<longleftrightarrow> (\<forall>s r s'. I s \<longrightarrow> m s = Some (r, s') \<longrightarrow> I s')"

named_theorems keeps_intros

lemma keepsD: "keeps I m \<Longrightarrow> I s \<Longrightarrow> m s = Some (r, s') \<Longrightarrow> I s'"
  unfolding keeps_def by blast

lemma keeps_basic [keeps_intros]: "keeps I (io_ret x)" "keeps I (io_throw e)" "keeps I (io_lift r)" "keeps I (io_get g)"
  by (auto simp: keeps_def)

lemma keeps_bind [keeps_intros]: "keeps I m \<Longrightarrow> (\<And>x. keeps I (k x)) \<Longrightarrow> keeps I (io_bind m k)"
proof -
  assume m: "keeps I m" and k: "\<And>x. keeps I (k x)"
  have "I s'" if i: "I s" and run: "io_bind m k s = Some (r, s')" for s r s'
  proof -
    from run obtain x s1 where x: "m s = Some (x, s1)" by (auto simp: io_bind_def split: option.splits)
    have "I s1" by (rule keepsD [OF m i x])
    then show ?thesis using run x keepsD [OF k] by (cases x) (auto simp: io_bind_def)
  qed
  then show ?thesis unfolding keeps_def by blast
qed

lemma keeps_if [keeps_intros]: "(b \<Longrightarrow> keeps I m) \<Longrightarrow> (\<not> b \<Longrightarrow> keeps I m') \<Longrightarrow> keeps I (if b then m else m')"
  by simp

lemma keeps_Let [keeps_intros]: "(\<And>x. keeps I (k x)) \<Longrightarrow> keeps I (let x = e in k x)"
  by simp

lemma keeps_cases [keeps_intros]:
  "(\<And>a b. keeps I (k a b)) \<Longrightarrow> keeps I (case p of (a, b) \<Rightarrow> k a b)"
  "(\<And>e. keeps I (f e)) \<Longrightarrow> (\<And>x. keeps I (g x)) \<Longrightarrow> keeps I (case y of Inl e \<Rightarrow> f e | Inr x \<Rightarrow> g x)"
  "keeps I h \<Longrightarrow> (\<And>x. z = Some x \<Longrightarrow> keeps I (j x)) \<Longrightarrow> keeps I (case z of None \<Rightarrow> h | Some x \<Rightarrow> j x)"
  "keeps I m \<Longrightarrow> keeps I m' \<Longrightarrow> keeps I (case b of True \<Rightarrow> m | False \<Rightarrow> m')"
  by (simp_all split: prod.split sum.split option.split bool.split)

lemma keeps_outer: "(\<And>l. keeps (\<lambda>w. I (w, l)) m) \<Longrightarrow> keeps I (io_outer m)"
  by (fastforce simp: keeps_def io_outer_def split: option.splits prod.splits)

lemma keeps_quiet: "quiet m \<Longrightarrow> (\<And>w w'. I w \<Longrightarrow> w_files w' = w_files w \<Longrightarrow> w_dirs w' = w_dirs w \<Longrightarrow> I w') \<Longrightarrow> keeps I m"
  unfolding keeps_def by (metis quietD)

text \<open>The table of the flush is an orphan until the catalogue names it.\<close>

definition filling :: "path \<Rightarrow> u64 \<Rightarrow> world \<Rightarrow> world \<times> DB \<Rightarrow> bool" where
  "filling dir n w s \<longleftrightarrow> orphans_only dir n w (fst s) \<and> db_dataDirectory (snd s) = dir"

lemma filling_world: "filling dir n w (w', db) \<longleftrightarrow> orphans_only dir n w w' \<and> db_dataDirectory db = dir"
  by (simp add: filling_def)

lemma filling_quiet [keeps_intros]: "quiet m \<Longrightarrow> keeps (filling dir n w) (io_outer m)"
  by (rule keeps_outer, rule keeps_quiet) (auto simp: filling_world intro: orphans_quiet)

lemma filling_manifest [keeps_intros]:
  "keeps (filling dir n w) (on_manifest (manifest_act f))" "keeps (filling dir n w) (on_manifest (manifest_try g))"
  "keeps (filling dir n w) (db_get h)"
  by (auto simp: keeps_def filling_def on_manifest_def manifest_act_def manifest_try_def db_get_def split: prod.splits)

lemma filling_directory [keeps_intros]: "keeps (filling dir n w) (io_outer (create_directories (dir @ [''sstable''])))"
proof (rule keeps_outer)
  fix db
  have "orphans_only dir n w w2" if "orphans_only dir n w w1" "fs_create_directories (dir @ [''sstable'']) w1 = (e, w2)" for w1 w2 e
  proof -
    from create_directories_frame [of "sstablePath dir n" w1 e w2] that(2)
    have f: "w_files w2 = w_files w1" "made_way (sstablePath dir n) w1 w2" by simp_all
    have "dir_ok dir w1" using that(1) by (simp add: orphans_only_def)
    then have "dir_ok dir w2" by (rule dir_ok_published [of dir w1 "sstablePath dir n"]) (simp_all add: f)
    then show ?thesis by (rule orphans_commit [OF that(1)]) (use f in \<open>auto simp: made_way_def\<close>)
  qed
  then show "keeps (\<lambda>u. filling dir n w (u, db)) (create_directories (dir @ [''sstable'']))"
    by (auto simp: keeps_def filling_world create_directories_def io_bind_def io_act_def split: prod.splits if_splits)
qed

lemma filling_build [keeps_intros]: "keeps (filling dir n w) (io_outer (build fp m (sstablePath dir n)))"
proof (rule keeps_outer)
  fix db
  have "keeps (\<lambda>u. filling dir n w (u, db)) (addRecordToFile fp rs (sstablePath dir n))" for rs
    by (auto simp: keeps_def filling_world intro: table_orphan)
  moreover have "keeps (\<lambda>u. filling dir n w (u, db)) (fs_throwing g)" for g :: "world \<Rightarrow> bool"
    by (rule keeps_quiet [OF quiet_query(1)]) (auto simp: filling_world intro: orphans_quiet)
  ultimately show "keeps (\<lambda>u. filling dir n w (u, db)) (build fp m (sstablePath dir n))"
    unfolding build_def by (intro keeps_intros)
qed

lemma fillFlush_orphans:
  assumes run: "fillFlush fp (w, db) = Some (r, (w', db'))"
    and o: "orphans_only (db_dataDirectory db) (mf_nextTableNumber (db_manifest db)) w w"
  shows "orphans_only (db_dataDirectory db) (mf_nextTableNumber (db_manifest db)) w w'"
proof -
  let ?dir = "db_dataDirectory db" and ?n = "mf_nextTableNumber (db_manifest db)"
  let ?p = "sstablePath ?dir ?n"
  let ?rest = "
     io_bind (io_outer (fs_throwing (path_exists (butlast ?p)))) (\<lambda>found.
     io_bind (if \<not> found then io_outer (create_directories (butlast ?p)) else io_ret ()) (\<lambda>_.
     io_bind (on_manifest (manifest_act allocateNumber)) (\<lambda>nextWALNumber.
     io_bind (on_manifest (manifest_act (\<lambda>m. ((), setLogNumber nextWALNumber m)))) (\<lambda>_.
     io_bind (db_get db_activeMemTable) (\<lambda>memTable.
     io_bind (io_outer (build fp memTable ?p)) (\<lambda>(minKey, maxKey).
     io_bind (io_outer (fs_throwing (file_size ?p))) (\<lambda>fileSize.
     io_bind (on_manifest (manifest_try (addTable ?n fileSize minKey maxKey 0))) (\<lambda>_.
     io_bind (db_get db_nextSeq) (\<lambda>nextSeq.
     io_bind (on_manifest (manifest_act (\<lambda>m. ((), setLastSeq (nextSeq - 1) m)))) (\<lambda>_.
     io_ret (?dir, nextWALNumber)))))))))))"
  have k: "keeps (filling ?dir ?n w) ?rest"
    unfolding path_lasts by (intro keeps_intros quiet_intros)
  have "fillFlush fp (w, db) = ?rest (w, db\<lparr>db_manifest := (db_manifest db)\<lparr>mf_nextTableNumber := ?n + 1\<rparr>\<rparr>)"
    by (simp add: fillFlush_def on_manifest_def manifest_act_def allocateNumber_def db_get_def io_bind_def [of "on_manifest _"]
        io_bind_def [of "io_get _"] Let_def)
  then have e: "?rest (w, db\<lparr>db_manifest := (db_manifest db)\<lparr>mf_nextTableNumber := ?n + 1\<rparr>\<rparr>) = Some (r, (w', db'))"
    using run by (rule trans [OF sym])
  have "filling ?dir ?n w (w, db\<lparr>db_manifest := (db_manifest db)\<lparr>mf_nextTableNumber := ?n + 1\<rparr>\<rparr>)"
    unfolding filling_world using o by simp
  then have "filling ?dir ?n w (w', db')" using e by (rule keepsD [OF k])
  then show ?thesis by (simp add: filling_world)
qed

lemma robust_create_directories [robust_intros]: "robust twin (create_directories p)"
  unfolding create_directories_def by (intro robust_act [OF agrees_create_directories]) (auto intro: robust_intros)

lemma robust_fillFlush: "robust twins (fillFlush fp)"
  unfolding fillFlush_def by (intro robust_intros) (auto simp: twin_queries)

lemma flush_files_filled:
  "flush_files fp w db = publish (manifest_path (db_dataDirectory db)) (manifest_bytes (flushed_manifest fp db)) (filled fp w db)"
  by (simp add: flush_files_def filled_def Let_def)

lemma on_disk_no_log:
  assumes "on_disk fp T [] dir m w"
  shows "on_disk fp T [] dir m (del_file (walPath dir (mf_logNumber m)) w)"
proof -
  have "catalogue_ok fp T (del_file (walPath dir (mf_logNumber m)) w) dir m"
    using assms by (simp add: on_disk_def catalogue_ok_def table_at_def table_file_def)
  then show ?thesis using assms dir_ok_del_file [of dir w] by (simp add: on_disk_def)
qed

text \<open>
  The worlds after the new catalogue was published: of the other files only the old log may be gone,
  and the new log may have a part of its header.
\<close>

definition published :: "fp \<Rightarrow> DB \<Rightarrow> world \<Rightarrow> world \<Rightarrow> bool" where
  "published fp db w1 u \<longleftrightarrow> dir_ok (db_dataDirectory db) u \<and> set (w_dirs w1) \<subseteq> set (w_dirs u)
     \<and> content_of u (manifest_path (db_dataDirectory db)) = Some (manifest_bytes (flushed_manifest fp db))
     \<and> (\<forall>q. q \<noteq> manifest_path (db_dataDirectory db) \<longrightarrow> q \<noteq> temporary_path (manifest_path (db_dataDirectory db)) \<longrightarrow>
          q \<noteq> flushed_wal db \<longrightarrow> q \<noteq> db_walFilePath db \<longrightarrow> content_of u q = content_of w1 q)
     \<and> (content_of u (flushed_wal db) = None \<or> (\<exists>k. content_of u (flushed_wal db) = Some (take k wal_header)))"

text \<open>
  The log has only a part of its header; everything else is as it should be, and without this file
  the database could be opened.
\<close>

definition torn_log :: "nat \<Rightarrow> fp \<Rightarrow> path \<Rightarrow> u64 \<Rightarrow> u64 \<Rightarrow> Record list \<Rightarrow> u64 \<Rightarrow> world \<Rightarrow> bool" where
  "torn_log N fp dir base q0 R n w \<longleftrightarrow> (\<exists>T m k. k < kWalHeaderSize
     \<and> content_of w (walPath dir (mf_logNumber m)) = Some (take k wal_header)
     \<and> on_disk fp T [] dir m (calm (del_file (walPath dir (mf_logNumber m)) w)) \<and> in_budget base m
     \<and> serves N q0 R (disk_records T [] m) m \<and> disk_next [] m = n)"

definition kept :: "nat \<Rightarrow> fp \<Rightarrow> path \<Rightarrow> u64 \<Rightarrow> u64 \<Rightarrow> Record list \<Rightarrow> u64 \<Rightarrow> world \<Rightarrow> bool" where
  "kept N fp dir base q0 R n w \<longleftrightarrow> recoverable N fp dir base q0 R n w \<or> torn_log N fp dir base q0 R n w"

lemma kept_trans:
  assumes "kept N fp dir base q0 S n w" "set S \<subseteq> set R" "\<And>k q. q0 \<le> q \<Longrightarrow> visible S k q = visible R k q"
  shows "kept N fp dir base q0 R n w"
  using assms(1) serves_trans [OF _ assms(2,3)] unfolding kept_def recoverable_def torn_log_def by blast

lemma flush_next_number:
  assumes o: "db_open fp T bs (calm w) db" and ne: "MemTable_size (db_activeMemTable db) \<noteq> 0"
    and room: "unat (mf_nextTableNumber (db_manifest db)) + 2 < 2 ^ 64"
  shows "mf_nextTableNumber (flushed_manifest fp db) = mf_nextTableNumber (db_manifest db) + 2"
    "mf_logNumber (flushed_manifest fp db) = mf_nextTableNumber (db_manifest db) + 1"
    "unat (mf_nextTableNumber (db_manifest db) + 2) = unat (mf_nextTableNumber (db_manifest db)) + 2"
    "unat (mf_nextTableNumber (db_manifest db) + 1) = unat (mf_nextTableNumber (db_manifest db)) + 1"
  using flush_db_fields [OF o ne room] by (simp_all add: flush_db_def)

lemma flushed_disk:
  assumes o: "db_open fp T bs (calm w) db" and ne: "MemTable_size (db_activeMemTable db) \<noteq> 0"
    and room: "unat (mf_nextTableNumber (db_manifest db)) + 2 < 2 ^ 64"
    and orph: "orphans_only (db_dataDirectory db) (mf_nextTableNumber (db_manifest db)) w w1"
    and tw: "twin w1 (filled fp (calm w) db)" and pub: "published fp db w1 u"
    and hdr: "content_of u (flushed_wal db) = None \<or> content_of u (flushed_wal db) = Some wal_header"
  shows "on_disk fp (T(mf_nextTableNumber (db_manifest db) := mt_records (db_activeMemTable db))) [] (db_dataDirectory db)
    (flushed_manifest fp db) (calm u)"
proof -
  let ?dir = "db_dataDirectory db" and ?n = "mf_nextTableNumber (db_manifest db)" and ?fm = "flushed_manifest fp db"
  let ?mp = "manifest_path (db_dataDirectory db)"
  let ?T = "T(?n := mt_records (db_activeMemTable db))" and ?v = "flush_world fp (calm w) db" and ?dbv = "flush_db fp (calm w) db"
  note ov = flush_open(1) [OF o ne room]
  have f: "db_manifest ?dbv = ?fm" "db_dataDirectory ?dbv = ?dir" "db_nextSeq ?dbv = db_nextSeq db"
    "db_compactionBaseThresholdBytes ?dbv = db_compactionBaseThresholdBytes db" by (simp_all add: flush_db_def)
  have log: "db_walFilePath db = walPath ?dir (mf_logNumber (db_manifest db))" "db_walFilePath ?dbv = flushed_wal db"
    "db_walFilePath ?dbv = walPath ?dir (mf_logNumber ?fm)"
    using o ov f by (simp_all add: db_open_def wal_state_def) (simp add: flush_db_def)
  have od: "on_disk fp ?T [] ?dir ?fm ?v" using open_on_disk_same [OF ov] by (simp add: f)
  have lg: "walPath ?dir (mf_logNumber ?fm) = flushed_wal db" using log by simp
  define vv where "vv = (if content_of u (flushed_wal db) = None then del_file (flushed_wal db) ?v else ?v)"
  have odv: "on_disk fp ?T [] ?dir ?fm vv" using od on_disk_no_log [OF od] by (simp add: vv_def lg)
  have dir: "?dir \<noteq> []" using open_dir [OF o] by simp
  have cv: "content_of ?v q = (if q = db_walFilePath db then None else if q = flushed_wal db then Some wal_header
      else if q = ?mp then Some (manifest_bytes ?fm) else if q = temporary_path ?mp then None else content_of w1 q)" for q
    using flush_world_props(3) [OF o, of q] tw by (simp add: flush_files_filled twin_def)
  have wn: "db_walFilePath db \<noteq> flushed_wal db" "\<And>k. sstablePath ?dir k \<noteq> flushed_wal db" "\<And>k. sstablePath ?dir k \<noteq> db_walFilePath db"
    "flushed_wal db \<noteq> ?mp" "db_walFilePath db \<noteq> ?mp" "flushed_wal db \<noteq> temporary_path ?mp" "db_walFilePath db \<noteq> temporary_path ?mp"
    using flushed_wal_fresh(2) [OF o room] wal_neq_sstable [symmetric] temporaries_apart(2) [symmetric]
    by (auto simp: log(1) flushed_wal_def)
  have u: "dir_ok ?dir u" "set (w_dirs w1) \<subseteq> set (w_dirs u)" "content_of u ?mp = Some (manifest_bytes ?fm)"
    "\<And>q. q \<noteq> ?mp \<Longrightarrow> q \<noteq> temporary_path ?mp \<Longrightarrow> q \<noteq> flushed_wal db \<Longrightarrow> q \<noteq> db_walFilePath db \<Longrightarrow> content_of u q = content_of w1 q"
    using pub by (simp_all add: published_def)
  note num = flush_next_number [OF o ne room]
  show "on_disk fp ?T [] ?dir ?fm (calm u)"
  proof (rule on_disk_frame [OF odv])
    show "content_of (calm u) p = content_of vv p" if need: "needed_file ?dir ?fm p" for p
    proof -
      consider "p = ?mp" | "p = flushed_wal db" | k where "p = sstablePath ?dir k"
        using need by (auto simp: needed_file_def lg)
      then show ?thesis
        using hdr wn u(3) u(4) [of p] by cases (auto simp: vv_def cv)
    qed
    show "content_of (calm u) (walPath ?dir k) = None" if "mf_nextTableNumber ?fm < k" "content_of vv (walPath ?dir k) = None" for k
    proof -
      have "k \<noteq> ?n + 1" "k \<noteq> mf_logNumber (db_manifest db)"
        using that(1) num o by (auto simp: word_less_nat_alt word_le_nat_alt db_open_def wals_fresh_def)
      then have "walPath ?dir k \<noteq> flushed_wal db" "walPath ?dir k \<noteq> db_walFilePath db"
        by (simp_all add: flushed_wal_def log(1))
      with that(2) u(4) [of "walPath ?dir k"] show ?thesis by (auto simp: vv_def cv split: if_splits)
    qed
    show "?dir @ [''sstable''] \<in> set (w_dirs (calm u))"
      if "mf_nextTableNumber ?fm \<le> k" "content_of (calm u) (sstablePath ?dir k) \<noteq> None" for k
    proof -
      have "?n \<le> k" using that(1) num by (simp add: word_le_nat_alt)
      moreover have "content_of w1 (sstablePath ?dir k) \<noteq> None" using that(2) u(4) [of "sstablePath ?dir k"] wn by auto
      ultimately show ?thesis using orph u(2) by (auto simp: orphans_only_def)
    qed
  qed (use u(1) in \<open>simp_all add: dir_ok_def\<close>)
qed

lemma flushed_recoverable:
  assumes o: "db_open fp T bs (calm w) db" and ne: "MemTable_size (db_activeMemTable db) \<noteq> 0"
    and room: "unat (mf_nextTableNumber (db_manifest db)) + 2 < 2 ^ 64"
    and orph: "orphans_only (db_dataDirectory db) (mf_nextTableNumber (db_manifest db)) w w1"
    and tw: "twin w1 (filled fp (calm w) db)" and pub: "published fp db w1 u"
    and N: "unat (mf_nextTableNumber (db_manifest db)) + 2 \<le> N"
  shows "kept N fp (db_dataDirectory db) (db_compactionBaseThresholdBytes db) (smallestActiveSnapshot db)
      (db_records T db) (db_nextSeq db) u"
proof -
  let ?dir = "db_dataDirectory db" and ?n = "mf_nextTableNumber (db_manifest db)" and ?fm = "flushed_manifest fp db"
  let ?T = "T(?n := mt_records (db_activeMemTable db))" and ?dbv = "flush_db fp (calm w) db" and ?p = "flushed_wal db"
  note ov = flush_open(1) [OF o ne room]
  have f: "db_manifest ?dbv = ?fm" by (simp add: flush_db_def)
  have lg: "walPath ?dir (mf_logNumber ?fm) = ?p" using ov by (simp add: db_open_def wal_state_def flush_db_def)
  have n: "disk_next [] ?fm = db_nextSeq db" using open_disk(2) [OF ov] by (simp add: flush_db_def)
  have v: "visible (disk_records ?T [] ?fm) k q = visible (db_records T db) k q" for k q
    using open_disk(1) [OF ov] flush_reads [OF o ne room] by (simp add: f)
  have "set (disk_records ?T [] ?fm) = set (db_records T db)" using open_disk(1) [OF ov] flush_records [OF o ne] by (simp add: f)
  moreover have "unat (mf_nextTableNumber ?fm) \<le> N" using flush_next_number [OF o ne room] N by simp
  ultimately have sv: "serves N (smallestActiveSnapshot db) (db_records T db) (disk_records ?T [] ?fm) ?fm"
    using v by (simp add: serves_def)
  have bud: "in_budget (db_compactionBaseThresholdBytes db) ?fm" using ov by (simp add: db_open_def flush_db_def)
  note disk = flushed_disk [OF o ne room orph tw]
  show ?thesis
  proof (cases "content_of u ?p = None \<or> content_of u ?p = Some wal_header")
    case True
    from disk [OF pub True] n sv bud show ?thesis unfolding kept_def recoverable_def by blast
  next
    case False
    with pub obtain k where k: "content_of u ?p = Some (take k wal_header)" "k < kWalHeaderSize"
      by (auto simp: published_def not_less)
    have "published fp db w1 (del_file ?p u)"
      using pub dir_ok_del_file [of ?dir u] by (auto simp: published_def flushed_wal_def)
    from disk [OF this] have "on_disk fp ?T [] ?dir ?fm (calm (del_file ?p u))" by simp
    with k n sv bud lg show ?thesis unfolding kept_def torn_log_def by metis
  qed
qed

text \<open>The change of the log: if it returns, it has done what it does without faults.\<close>

lemma twin_MemTable_new:
  assumes tw: "twin w v" and none: "content_of w p = None" and c: "creatable v p"
    and run: "MemTable_new p w = Some (Inr m, w')"
  shows "\<exists>v'. MemTable_new p v = Some (Inr m, v') \<and> twin w' v'"
proof -
  have p: "butlast p \<noteq> []" using c by (simp add: creatable_def)
  note f = MemTable_new_faulty [OF run p none]
  have m: "m = empty_memtable p (writer_at p v)" using f(4) [OF refl] tw by (simp add: writer_at_def twin_def)
  have "content_of v p = None" using none tw by (simp add: twin_def)
  from MemTable_create [OF twin_nominal [OF tw] c this] have
    "MemTable_new p v = Some (Inr m, set_file p wal_header (attach p v))" by (simp add: m)
  moreover have "content_of w' = (content_of w)(p \<mapsto> wal_header)"
  proof
    fix q
    show "content_of w' q = ((content_of w)(p \<mapsto> wal_header)) q" using f(2) [of q] f(4) [OF refl] by (cases "q = p") simp_all
  qed
  then have "twin w' (set_file p wal_header (attach p v))"
    using tw f(4) [OF refl] by (simp add: twin_def attach_def)
  ultimately show ?thesis by blast
qed

lemma twin_MemTable_dtor: "twin w v \<Longrightarrow> twin (MemTable_dtor m w) (MemTable_dtor m v)"
  using twin_close by (simp add: MemTable_dtor_def WALFileWriter_dtor_def)

lemma switchLog_unfold:
  "switchLog dir n (w, db) = (case MemTable_new (walPath dir n) w of
     None \<Rightarrow> None
   | Some (Inl e, w1) \<Rightarrow> Some (Inl e, (w1, db))
   | Some (Inr m, w1) \<Rightarrow>
       (case removeFile (db_walFilePath db) ''remove wal file failed'' (MemTable_dtor (db_activeMemTable db) w1) of
          None \<Rightarrow> None
        | Some (y, w2) \<Rightarrow> Some (y, (w2, db\<lparr>db_activeMemTable := m, db_walFilePath := walPath dir n\<rparr>))))"
  by (simp add: switchLog_def replace_memTable_def db_get_def db_upd_def io_bind_def io_outer_def Let_def
      split: option.split sum.split)

lemma twin_switchLog:
  assumes tw: "twin w v" and none: "content_of w (walPath dir n) = None" and c: "dir_ok dir v"
    and run: "switchLog dir n (w, db) = Some (Inr x, (w', db'))"
  shows "\<exists>v'. switchLog dir n (v, db) = Some (Inr x, (v', db')) \<and> twin w' v'"
proof -
  let ?rm = "removeFile (db_walFilePath db) ''remove wal file failed''"
  obtain m w1 where mt: "MemTable_new (walPath dir n) w = Some (Inr m, w1)"
    and rm: "?rm (MemTable_dtor (db_activeMemTable db) w1) = Some (Inr x, w')"
    and db': "db' = db\<lparr>db_activeMemTable := m, db_walFilePath := walPath dir n\<rparr>"
    using run unfolding switchLog_unfold by (auto split: option.splits sum.splits)
  from twin_MemTable_new [OF tw none dir_ok_creatable [OF c] mt] obtain v1 where
    v1: "MemTable_new (walPath dir n) v = Some (Inr m, v1)" "twin w1 v1" by blast
  from robustD [OF robust_removeFile twin_MemTable_dtor [OF v1(2)] rm] obtain v' where
    "?rm (MemTable_dtor (db_activeMemTable db) v1) = Some (Inr x, v')" "twin w' v'" by blast
  with v1(1) db' show ?thesis
    by (auto simp: switchLog_unfold)
qed

text \<open>On every outcome it only makes the new log and removes the old one.\<close>

lemma switchLog_outcome:
  assumes run: "switchLog (db_dataDirectory db) (mf_nextTableNumber (db_manifest db) + 1)
      (w, db\<lparr>db_manifest := flushed_manifest fp db\<rparr>) = Some (r, (w', db'))"
    and none: "content_of w (flushed_wal db) = None" and pub: "published fp db w1 w"
    and dirs: "db_walFilePath db = walPath (db_dataDirectory db) k"
  shows "published fp db w1 w'"
proof -
  let ?dir = "db_dataDirectory db" and ?p = "flushed_wal db" and ?old = "db_walFilePath db"
  let ?rm = "removeFile ?old ''remove wal file failed''"
  have dir: "dir_ok ?dir w" using pub by (simp add: published_def)
  then have bp: "butlast ?p \<noteq> []" by (simp add: flushed_wal_def dir_ok_def)
  obtain x u where mt: "MemTable_new ?p w = Some (x, u)"
    using run unfolding switchLog_unfold by (auto simp flip: flushed_wal_def split: option.splits)
  note f = MemTable_new_faulty [OF mt bp none]
  have "dir_ok ?dir u"
  proof (rule dir_ok_files [OF dir])
    have d: "data_file ?dir ?p" by (simp add: flushed_wal_def)
    show "set (w_dirs u) \<subseteq> set (w_dirs w) \<union> data_dirs ?dir" using f(1) data_file_parents [OF d] by (auto simp: made_way_def)
    show "content_of u q = None" if "q \<in> data_dirs ?dir" for q
      using f(2) [of q] dir data_file_not_dir [OF d] that by (auto simp: dir_ok_def)
  qed
  then have pu: "published fp db w1 u"
    using pub f(1-3) by (auto simp: published_def made_way_def flushed_wal_def)
  show ?thesis
  proof (cases x)
    case (Inl e)
    with run mt have "w' = u"
      by (auto simp: switchLog_unfold simp flip: flushed_wal_def)
    with pu show ?thesis by simp
  next
    case (Inr m)
    let ?u = "MemTable_dtor (db_activeMemTable db) u"
    obtain y u' where rm: "?rm ?u = Some (y, u')" and w': "w' = u'"
      using run mt Inr by (auto simp: switchLog_unfold simp flip: flushed_wal_def split: option.splits)
    have "io_for [?old] (\<lambda>p. removeFile p ''remove wal file failed'') ?u = Some (y, u')"
      using rm by (cases y) (simp_all add: io_bind_def)
    from removal_outcome [OF this] have
      g: "w_dirs u' = w_dirs u" "\<And>q. content_of u' q = content_of u q \<or> content_of u' q = None \<and> q = ?old"
      using MemTable_dtor_frame [of "db_activeMemTable db" u] by auto
    have "content_of u' q = None" if "q \<in> data_dirs ?dir" for q using g(2) [of q] \<open>dir_ok ?dir u\<close> that by (auto simp: dir_ok_def)
    then have "dir_ok ?dir u'" by (rule dir_ok_files [OF \<open>dir_ok ?dir u\<close>]) (simp_all add: g(1))
    moreover have "content_of u' (manifest_path ?dir) = content_of u (manifest_path ?dir)"
      using g(2) [of "manifest_path ?dir"] dirs by (auto simp: walPath_def manifest_path_def)
    ultimately show ?thesis
      unfolding w' using pu g unfolding published_def by metis
  qed
qed

lemma fillFlush_done:
  assumes o: "db_open fp T bs (calm w) db" and ne: "MemTable_size (db_activeMemTable db) \<noteq> 0"
    and fill: "fillFlush fp (w, db) = Some (Inr y, (w1, db1))"
  shows "y = (db_dataDirectory db, mf_nextTableNumber (db_manifest db) + 1)" "db1 = db\<lparr>db_manifest := flushed_manifest fp db\<rparr>"
    "twin w1 (filled fp (calm w) db)"
proof -
  have "twins (w, db) (calm w, db)" by (simp add: twins_def twin_calm)
  from robustD [OF robust_fillFlush this fill] fillFlush_run [OF o ne]
  show "y = (db_dataDirectory db, mf_nextTableNumber (db_manifest db) + 1)" "db1 = db\<lparr>db_manifest := flushed_manifest fp db\<rparr>"
    "twin w1 (filled fp (calm w) db)" by (auto simp: twins_def)
qed

text \<open>Saving the catalogue does not make the new log.\<close>

lemma flush_log_absent:
  assumes o: "db_open fp T bs (calm w) db" and ne: "MemTable_size (db_activeMemTable db) \<noteq> 0" and room: "room_for T db 0"
    and orph: "orphans_only (db_dataDirectory db) (mf_nextTableNumber (db_manifest db)) w w1"
    and save: "Manifest_save (flushed_manifest fp db) w1 = Some (z, w2)"
  shows "content_of w2 (flushed_wal db) = None"
proof -
  have room2: "unat (mf_nextTableNumber (db_manifest db)) + 2 < 2 ^ 64" using room by (simp add: room_for_def flush_numbers_def)
  have d1: "dir_ok (db_dataDirectory db) w1" using orph by (simp add: orphans_only_def)
  have "content_of w1 (flushed_wal db) = None"
    using orph flushed_wal_fresh(1) [OF o room2] by (simp add: orphans_only_def flushed_wal_def)
  then show ?thesis using save_outcome(1) [OF save flush_saved(3) [OF o ne] d1] by (simp add: flushed_wal_def)
qed

text \<open>The compactions after a flush.\<close>

lemma flush_switched:
  assumes o: "db_open fp T bs (calm w) db" and ne: "MemTable_size (db_activeMemTable db) \<noteq> 0" and room: "room_for T db 0"
    and tw: "twin w2 (flush_files fp (calm w) db)" and none: "content_of w2 (flushed_wal db) = None"
    and sw: "switchLog (db_dataDirectory db) (mf_nextTableNumber (db_manifest db) + 1) (w2, db\<lparr>db_manifest := flushed_manifest fp db\<rparr>)
      = Some (Inr x, (w3, db3))"
  defines "T' \<equiv> T(mf_nextTableNumber (db_manifest db) := mt_records (db_activeMemTable db))"
  shows "db3 = flush_db fp (calm w) db" "db_open fp T' [] (calm w3) db3" "numbers_left T' db3"
proof -
  have room2: "unat (mf_nextTableNumber (db_manifest db)) + 2 < 2 ^ 64" using room by (simp add: room_for_def flush_numbers_def)
  from twin_switchLog [OF tw none [unfolded flushed_wal_def] flush_saved(2) [OF o ne] sw] switchLog_run [OF o ne room2]
  have db3: "db3 = flush_db fp (calm w) db" and tw3: "twin w3 (flush_world fp (calm w) db)" by auto
  from db3 show "db3 = flush_db fp (calm w) db" .
  show "db_open fp T' [] (calm w3) db3" unfolding db3 T'_def by (rule db_open_twin [OF flush_open(1) [OF o ne room2] tw3])
  show "numbers_left T' db3" unfolding db3 T'_def by (rule flush_numbers_left(1) [OF o ne room])
qed

lemma flush_tail_faulty:
  assumes o: "db_open fp T bs (calm w) db" and ne: "MemTable_size (db_activeMemTable db) \<noteq> 0" and room: "room_for T db 0"
    and tw: "twin w2 (flush_files fp (calm w) db)" and none: "content_of w2 (flushed_wal db) = None"
    and sw: "switchLog (db_dataDirectory db) (mf_nextTableNumber (db_manifest db) + 1) (w2, db\<lparr>db_manifest := flushed_manifest fp db\<rparr>)
      = Some (Inr x, (w3, db3))"
    and mc: "maybeCompact fp (w3, db3) = Some (r, (w', db'))"
    and N: "unat (mf_nextTableNumber (db_manifest db)) + flush_numbers (length (db_records T db)) \<le> N"
  shows "recoverable N fp (db_dataDirectory db) (db_compactionBaseThresholdBytes db) (smallestActiveSnapshot db)
      (db_records T db) (db_nextSeq db) w'"
proof -
  let ?T = "T(mf_nextTableNumber (db_manifest db) := mt_records (db_activeMemTable db))"
  have room2: "unat (mf_nextTableNumber (db_manifest db)) + 2 < 2 ^ 64" using room by (simp add: room_for_def flush_numbers_def)
  note sw' = flush_switched [OF o ne room tw none sw] and db3 = flush_switched(1) [OF o ne room tw none sw]
  have "unat (mf_nextTableNumber (db_manifest db3)) + length (db_records ?T db3) * Suc (weight ?T (db_manifest db3)) \<le> N"
    unfolding db3 using flush_numbers_left(2) [OF o ne room] N by linarith
  from maybeCompact_faulty [OF sw'(2,3) mc this]
  have rec: "recoverable N fp (db_dataDirectory db3) (db_compactionBaseThresholdBytes db3) (smallestActiveSnapshot db3)
      (db_records ?T db3) (db_nextSeq db3) w'" .
  have "db_dataDirectory db3 = db_dataDirectory db" "db_compactionBaseThresholdBytes db3 = db_compactionBaseThresholdBytes db"
    "smallestActiveSnapshot db3 = smallestActiveSnapshot db" "db_nextSeq db3 = db_nextSeq db"
    by (simp_all add: db3 flush_db_def smallestActiveSnapshot_def)
  with rec have "recoverable N fp (db_dataDirectory db) (db_compactionBaseThresholdBytes db) (smallestActiveSnapshot db)
      (db_records ?T db3) (db_nextSeq db) w'" by simp
  moreover have "set (db_records ?T db3) = set (db_records T db)" unfolding db3 by (rule flush_records [OF o ne])
  ultimately show ?thesis by (elim recoverable_trans) (simp_all add: db3 flush_reads [OF o ne room2])
qed

text \<open>From the publication of the catalogue on.\<close>

lemma flush_commit_faulty:
  assumes o: "db_open fp T bs (calm w) db" and ne: "MemTable_size (db_activeMemTable db) \<noteq> 0" and room: "room_for T db 0"
    and orph: "orphans_only (db_dataDirectory db) (mf_nextTableNumber (db_manifest db)) w w1"
    and tw: "twin w1 (filled fp (calm w) db)" and save: "Manifest_save (flushed_manifest fp db) w1 = Some (z, w2)"
    and pub: "content_of w2 (manifest_path (db_dataDirectory db)) = Some (manifest_bytes (flushed_manifest fp db))"
    and run: "io_bind (io_outer (Manifest_save (flushed_manifest fp db))) (\<lambda>_.
      io_bind (switchLog (db_dataDirectory db) (mf_nextTableNumber (db_manifest db) + 1)) (\<lambda>_. maybeCompact fp))
      (w1, db\<lparr>db_manifest := flushed_manifest fp db\<rparr>) = Some (r, (w', db'))"
    and N: "unat (mf_nextTableNumber (db_manifest db)) + flush_numbers (length (db_records T db)) \<le> N"
  shows "kept N fp (db_dataDirectory db) (db_compactionBaseThresholdBytes db) (smallestActiveSnapshot db)
      (db_records T db) (db_nextSeq db) w'"
proof -
  let ?dir = "db_dataDirectory db" and ?n = "mf_nextTableNumber (db_manifest db)" and ?fm = "flushed_manifest fp db"
  have room2: "unat ?n + 2 < 2 ^ 64" using room by (simp add: room_for_def flush_numbers_def)
  have d1: "dir_ok ?dir w1" using orph by (simp add: orphans_only_def)
  note s = save_outcome [OF save flush_saved(3) [OF o ne] d1]
  note none = flush_log_absent [OF o ne room orph save]
  have p2: "published fp db w1 w2" using pub s none by (simp add: published_def)
  have "unat (mf_nextTableNumber (db_manifest db)) + 2 \<le> N" using N by (simp add: flush_numbers_def)
  note rec = flushed_recoverable [OF o ne room2 orph tw _ this]
  show ?thesis
  proof (cases z)
    case (Inl e)
    with run save have "w' = w2" by (simp add: io_bind_def io_outer_def)
    with rec [OF p2] show ?thesis by simp
  next
    case z: (Inr u)
    obtain q w3 db3 where sw: "switchLog ?dir (?n + 1) (w2, db\<lparr>db_manifest := ?fm\<rparr>) = Some (q, (w3, db3))"
      using run save z by (auto simp: io_bind_def io_outer_def split: option.splits)
    have "db_walFilePath db = walPath ?dir (mf_logNumber (db_manifest db))" using o by (simp add: db_open_def wal_state_def)
    note p3 = switchLog_outcome [OF sw none p2 this]
    show ?thesis
    proof (cases q)
      case (Inl e)
      with run save z sw have "w' = w3" by (simp add: io_bind_def io_outer_def)
      with rec [OF p3] show ?thesis by simp
    next
      case (Inr u')
      then have mc: "maybeCompact fp (w3, db3) = Some (r, (w', db'))" using run save z sw by (simp add: io_bind_def io_outer_def)
      from robustD [OF robust_Manifest_save tw save [unfolded z]] flush_saved(1) [OF o ne]
      have "twin w2 (flush_files fp (calm w) db)" by auto
      from flush_tail_faulty [OF o ne room this none sw [unfolded Inr] mc N] show ?thesis by (simp add: kept_def)
    qed
  qed
qed

lemma flush_body_faulty:
  assumes o: "db_open fp T bs (calm w) db" and ne: "MemTable_size (db_activeMemTable db) \<noteq> 0" and room: "room_for T db 0"
    and run: "flush_body fp (w, db) = Some (r, (w', db'))"
    and N: "unat (mf_nextTableNumber (db_manifest db)) + flush_numbers (length (db_records T db)) \<le> N"
  shows "kept N fp (db_dataDirectory db) (db_compactionBaseThresholdBytes db) (smallestActiveSnapshot db)
      (db_records T db) (db_nextSeq db) w'"
proof -
  let ?dir = "db_dataDirectory db" and ?n = "mf_nextTableNumber (db_manifest db)" and ?fm = "flushed_manifest fp db"
  let ?mp = "manifest_path (db_dataDirectory db)"
  let ?goal = "\<lambda>u. kept N fp ?dir (db_compactionBaseThresholdBytes db) (smallestActiveSnapshot db) (db_records T db) (db_nextSeq db) u"
  note d = open_on_disk_same [OF o]
  have same: "?goal u" if "orphans_only ?dir ?n w u" for u
    using recoverable_same [OF o on_disk_orphans [OF d that]] N by (simp add: kept_def)
  obtain x w1 db1 where fill: "fillFlush fp (w, db) = Some (x, (w1, db1))"
    using run by (auto simp: flush_body_split io_bind_def split: option.splits)
  note orph = fillFlush_orphans [OF fill orphans_refl [OF d]]
  show ?thesis
  proof (cases x)
    case (Inl e)
    with run fill have "w' = w1" by (simp add: flush_body_split io_bind_def)
    with same [OF orph] show ?thesis by simp
  next
    case (Inr y)
    note y = fillFlush_done(1,2) [OF o ne fill [unfolded Inr]] and tw = fillFlush_done(3) [OF o ne fill [unfolded Inr]]
    have rest: "io_bind (io_outer (Manifest_save ?fm)) (\<lambda>_. io_bind (switchLog ?dir (?n + 1)) (\<lambda>_. maybeCompact fp))
        (w1, db\<lparr>db_manifest := ?fm\<rparr>) = Some (r, (w', db'))"
      using run fill Inr y by (simp add: flush_body_split io_bind_def [of "fillFlush fp"] db_get_def io_bind_def [of "io_get _"])
    then obtain z w2 where save: "Manifest_save ?fm w1 = Some (z, w2)"
      by (auto simp: io_bind_def io_outer_def split: option.splits)
    have d1: "dir_ok ?dir w1" using orph by (simp add: orphans_only_def)
    note s = save_outcome [OF save flush_saved(3) [OF o ne] d1]
    show ?thesis
    proof (cases "content_of w2 ?mp = Some (manifest_bytes ?fm)")
      case False
      then have "z \<noteq> Inr ()" "content_of w2 ?mp = content_of w1 ?mp" using s(2,3) by auto
      then have "content_of w2 q = content_of w1 q" if "q \<noteq> temporary_path ?mp" for q
        using s(1) that by (cases "q = ?mp") simp_all
      from orphans_commit [OF orph s(5,4) this] have "?goal w2" by (rule same)
      moreover have "w' = w2" using rest save \<open>z \<noteq> Inr ()\<close> by (cases z) (auto simp: io_bind_def io_outer_def)
      ultimately show ?thesis by simp
    next
      case True
      from flush_commit_faulty [OF o ne room orph tw save this rest N] show ?thesis .
    qed
  qed
qed

lemma flush_faulty:
  assumes o: "db_open fp T bs (calm w) db" and room: "room_for T db 0"
    and run: "flush fp (w, db) = Some (r, (w', db'))"
    and N: "unat (mf_nextTableNumber (db_manifest db)) + flush_numbers (length (db_records T db)) \<le> N"
  shows "kept N fp (db_dataDirectory db) (db_compactionBaseThresholdBytes db) (smallestActiveSnapshot db)
      (db_records T db) (db_nextSeq db) w'"
proof (cases "MemTable_size (db_activeMemTable db) = 0")
  case True
  then have "w' = w" using run by (simp add: flush_def db_get_def io_bind_def)
  with recoverable_same [OF o open_on_disk_same [OF o]] N show ?thesis by (simp add: kept_def)
next
  case False
  then obtain r1 db1 where "flush_body fp (w, db) = Some (r1, (w', db1))"
    using run by (auto simp: flush_def db_get_def db_upd_def io_bind_def io_try_def split: option.splits sum.splits)
  from flush_body_faulty [OF o False room this N] show ?thesis .
qed

end
