(* ===== verification/Returns.thy ===== *)
theory Returns
  imports Robust
begin

text \<open>
  Termination under faults. The only loop of the file primitives without a bound of its own is the
  retry loop of \<open>writeAll\<close>, so a program of the engine returns, normally or by an exception, in every
  world that does not interrupt its writes forever, provided it does not run into undefined
  behaviour. Only the Bloom filter has some, so the programs that build a table need a usable size of
  its filter, and those that search one need a usable stored filter. The rules below derive this for a
  program from its parts.
\<close>

section \<open>The write loop\<close>

text \<open>
  The operating system does not interrupt calls forever, and the fault policy never injects an
  interruption into a write, now or later.
\<close>

definition not_interrupted_forever :: "os_answer stream \<Rightarrow> bool" where
  "not_interrupted_forever s \<longleftrightarrow> (\<forall>m. \<exists>n \<ge> m. s !! n \<noteq> OsErr EINTR)"

lemma not_interrupted_forever_stl:
  "not_interrupted_forever s \<Longrightarrow> not_interrupted_forever (stl s)"
  unfolding not_interrupted_forever_def
  by (metis Suc_le_D Suc_le_mono snth.simps(2))

coinductive never_interrupts :: "Policy \<Rightarrow> bool" where
  "(\<And>fd n. errnoValue (policy_decision p Op_Write fd n) \<noteq> EINTR) \<Longrightarrow>
   (\<And>op fd n. never_interrupts (policy_after p op fd n)) \<Longrightarrow> never_interrupts p"

inductive_cases never_interruptsE: "never_interrupts p"

definition patient :: "world \<Rightarrow> bool" where
  "patient w \<longleftrightarrow> (\<forall>p. w_policy w = Some p \<longrightarrow> never_interrupts p) \<and> not_interrupted_forever (w_os w)"

lemma never_interrupts_failNth:
  assumes "errno \<noteq> EINTR"
  shows "never_interrupts (failNth op n errno)"
proof -
  have "never_interrupts (failNth_from k op n errno)" for k
    by (coinduction arbitrary: k)
      (use assms in \<open>auto simp: Decision_fail_def Decision_proceed_def EINTR_def\<close>)
  then show ?thesis by (simp add: failNth_def)
qed

lemma never_interrupts_failEvery:
  assumes "errno \<noteq> EINTR"
  shows "never_interrupts (failEvery op errno)"
  by (coinduction) (use assms in \<open>auto simp: Decision_fail_def Decision_proceed_def EINTR_def\<close>)

lemma patient_os_next: "os_next w = (a, w') \<Longrightarrow> patient w \<Longrightarrow> patient w'"
  using not_interrupted_forever_stl by (auto simp: os_next_def patient_def)

lemma patient_consult:
  "consult op fd n w = (d, w') \<Longrightarrow> patient w \<Longrightarrow>
   patient w' \<and> (op = Op_Write \<longrightarrow> errnoValue d \<noteq> EINTR)"
  by (auto simp: consult_def patient_def Decision_proceed_def EINTR_def split: option.splits elim!: never_interruptsE)

lemma patient_files [simp]:
  "patient (set_file p c w) = patient w" "patient (del_file p w) = patient w"
  "patient (w\<lparr>w_fds := fds\<rparr>) = patient w" "patient (w\<lparr>w_dirs := dirs\<rparr>) = patient w"
  by (simp_all add: patient_def)

lemma patient_write:
  assumes "patient w" "fault_write fd data w = (r, w')"
  shows "patient w'" "r = Inl EINTR \<Longrightarrow> shd (w_os w) = OsErr EINTR \<and> w_os w' = stl (w_os w)"
proof -
  obtain d w1 where c: "consult Op_Write fd (length data) w = (d, w1)" by fastforce
  from patient_consult [OF c assms(1)] have w1: "patient w1" "errnoValue d \<noteq> EINTR" by simp_all
  obtain a w2 where n: "os_next w1 = (a, w2)" by fastforce
  have "patient w2" by (rule patient_os_next [OF n w1(1)])
  then show "patient w'" using assms(2) c n w1
    by (auto simp: fault_write_def sys_write_def Let_def split: if_splits option.splits os_answer.splits)
  show "shd (w_os w) = OsErr EINTR \<and> w_os w' = stl (w_os w)" if "r = Inl EINTR"
    using assms(2) c n w1 consult_frame [OF c] that
    by (auto simp: fault_write_def sys_write_def os_next_def EBADF_def EINTR_def EIO_def Let_def
        split: if_splits option.splits os_answer.splits)
qed

lemma writeAll_step:
  assumes "data \<noteq> []" "fault_write fd data w = (r, w')"
  shows "writeAll fd data w =
    (case r of
       Inl err \<Rightarrow> if err = EINTR then writeAll fd data w' else Some (Inl (system_error err ''write failed''), w')
     | Inr k \<Rightarrow> if k = 0 then Some (Inl (runtime_error ''write returned 0''), w')
               else writeAll fd (drop k data) w')"
  using assms by (simp add: writeAll.simps)

text \<open>
  \<open>writeAll\<close> returns (normally or by an exception) on every input, provided its writes are not
  interrupted forever: every other answer ends the loop or shortens the data.
\<close>

lemma writeAll_returns:
  assumes "patient w"
  shows "\<exists>r w'. writeAll fd data w = Some (r, w') \<and> patient w'"
  using assms
proof (induction data arbitrary: w rule: length_induct)
  case (1 data)
  have "\<exists>r w'. writeAll fd data w = Some (r, w') \<and> patient w'" if "patient w" "w_os w !! n \<noteq> OsErr EINTR" for n w
    using that
  proof (induction n arbitrary: w)
    case (0 w)
    show ?case
    proof (cases "data = []")
      case False
      obtain r w' where fw: "fault_write fd data w = (r, w')" by fastforce
      note p = patient_write [OF "0"(1) fw]
      from p "0"(2) have r: "r \<noteq> Inl EINTR" by auto
      have shorter: "\<exists>r w''. writeAll fd (drop k data) w' = Some (r, w'') \<and> patient w''" if "0 < k" for k
        using "1.IH" False p(1) that by simp
      with writeAll_step [OF False fw] r p(1) show ?thesis by (cases r) auto
    qed (simp add: writeAll.simps "0")
  next
    case (Suc n w)
    show ?case
    proof (cases "data = []")
      case False
      obtain r w' where fw: "fault_write fd data w = (r, w')" by fastforce
      note p = patient_write [OF Suc.prems(1) fw]
      have shorter: "\<exists>r w''. writeAll fd (drop k data) w' = Some (r, w'') \<and> patient w''" if "0 < k" for k
        using "1.IH" False p(1) that by simp
      moreover have "\<exists>r w''. writeAll fd data w' = Some (r, w'') \<and> patient w''" if "r = Inl EINTR"
        using Suc p that by simp
      ultimately show ?thesis using writeAll_step [OF False fw] shorter p(1) by (cases r) auto
    qed (simp add: writeAll.simps Suc)
  qed
  moreover from "1.prems" obtain n where "w_os w !! n \<noteq> OsErr EINTR"
    unfolding patient_def not_interrupted_forever_def by blast
  ultimately show ?case using "1.prems" by blast
qed

section \<open>Programs that end\<close>

text \<open>A program that returns from every state in which \<open>P\<close> holds, and leaves \<open>P\<close> true.\<close>

definition ends :: "('s \<Rightarrow> bool) \<Rightarrow> ('s, 'a) prog \<Rightarrow> bool" where
  "ends P m \<longleftrightarrow> (\<forall>s. P s \<longrightarrow> (\<exists>r s'. m s = Some (r, s') \<and> P s'))"

abbreviation patiently :: "(world, 'a) prog \<Rightarrow> bool" where
  "patiently \<equiv> ends patient"

abbreviation patiently2 :: "(world \<times> 'l, 'a) prog \<Rightarrow> bool" where
  "patiently2 \<equiv> ends (\<lambda>s. patient (fst s))"

named_theorems ends_intros

lemma endsI: "(\<And>s. P s \<Longrightarrow> \<exists>r s'. m s = Some (r, s') \<and> P s') \<Longrightarrow> ends P m"
  by (simp add: ends_def)

lemma endsD: "ends P m \<Longrightarrow> P s \<Longrightarrow> \<exists>r s'. m s = Some (r, s') \<and> P s'"
  by (simp add: ends_def)

lemma ends_ret [ends_intros]: "ends P (io_ret x)"
  by (rule endsI) simp

lemma ends_throw [ends_intros]: "ends P (io_throw e)"
  by (rule endsI) simp

lemma ends_lift [ends_intros]: "ends P (io_lift r)"
  by (rule endsI) simp

lemma ends_defined: "\<exists>x. y = Some x \<Longrightarrow> ends P (io_defined y)"
  by (rule endsI) auto

lemma ends_get [ends_intros]: "ends P (io_get g)"
  by (rule endsI) simp

lemma ends_upd: "(\<And>s. P s \<Longrightarrow> P (h s)) \<Longrightarrow> ends P (io_upd h)"
  by (rule endsI) simp

lemma ends_act: "(\<And>s x s'. f s = (x, s') \<Longrightarrow> P s \<Longrightarrow> P s') \<Longrightarrow> ends P (io_act f)"
  by (rule endsI) (auto simp: io_act_def split: prod.splits)

lemma ends_bind [ends_intros]:
  assumes "ends P m" "\<And>x. ends P (k x)"
  shows "ends P (io_bind m k)"
proof (rule endsI)
  fix s assume "P s"
  with endsD [OF assms(1)] obtain r s1 where m: "m s = Some (r, s1)" "P s1" by blast
  show "\<exists>r s'. io_bind m k s = Some (r, s') \<and> P s'"
    using m endsD [OF assms(2) m(2)] by (cases r) auto
qed

lemma ends_try [ends_intros]:
  assumes "ends P m" "\<And>e. ends P (h e)"
  shows "ends P (io_try m h)"
proof (rule endsI)
  fix s assume "P s"
  with endsD [OF assms(1)] obtain r s1 where m: "m s = Some (r, s1)" "P s1" by blast
  show "\<exists>r s'. io_try m h s = Some (r, s') \<and> P s'"
    using m endsD [OF assms(2) m(2)] by (cases r) (auto simp: io_try_def)
qed

lemma ends_if [ends_intros]: "(b \<Longrightarrow> ends P m) \<Longrightarrow> (\<not> b \<Longrightarrow> ends P m') \<Longrightarrow> ends P (if b then m else m')"
  by simp

lemma ends_Let [ends_intros]: "ends P (k e) \<Longrightarrow> ends P (let x = e in k x)"
  by simp

lemma ends_case_prod [ends_intros]: "(\<And>a b. ends P (k a b)) \<Longrightarrow> ends P (case p of (a, b) \<Rightarrow> k a b)"
  by (cases p) simp

lemma ends_case_option [ends_intros]:
  "ends P m \<Longrightarrow> (\<And>x. ends P (k x)) \<Longrightarrow> ends P (case y of None \<Rightarrow> m | Some x \<Rightarrow> k x)"
  by (cases y) simp_all

lemma ends_case_sum [ends_intros]:
  "(\<And>e. ends P (m e)) \<Longrightarrow> (\<And>x. ends P (k x)) \<Longrightarrow> ends P (case y of Inl e \<Rightarrow> m e | Inr x \<Rightarrow> k x)"
  by (cases y) simp_all

lemma ends_case_bool [ends_intros]: "ends P m \<Longrightarrow> ends P k \<Longrightarrow> ends P (case b of True \<Rightarrow> m | False \<Rightarrow> k)"
  by (cases b) simp_all

lemma ends_for [ends_intros]: "(\<And>x. ends P (f x)) \<Longrightarrow> ends P (io_for xs f)"
  by (induction xs) (auto intro!: ends_ret ends_bind simp del: io_apply)

lemma ends_fold [ends_intros]: "(\<And>acc x. ends P (f acc x)) \<Longrightarrow> ends P (io_fold f acc xs)"
  by (induction xs arbitrary: acc) (auto intro!: ends_ret ends_bind simp del: io_apply)

lemma ends_outer [ends_intros]: "patiently m \<Longrightarrow> patiently2 (io_outer m)"
  unfolding ends_def io_outer_def by (fastforce split: option.splits)

lemma ends_local:
  assumes "patiently2 m" "\<And>l w. patient w \<Longrightarrow> patient (d l w)"
  shows "patiently (io_local l m d)"
proof (rule endsI)
  fix w assume "patient w"
  with endsD [OF assms(1), of "(w, l)"] obtain r w' l' where "m (w, l) = Some (r, (w', l'))" "patient w'" by auto
  with assms(2) show "\<exists>r w'. io_local l m d w = Some (r, w') \<and> patient w'" by (simp add: io_local_def)
qed

section \<open>System calls\<close>

lemma patient_calls:
  "sys_fsync fd w = (x1, w') \<Longrightarrow> patient w \<Longrightarrow> patient w'"
  "sys_close fd w = (x2, w') \<Longrightarrow> patient w \<Longrightarrow> patient w'"
  "sys_rename old new w = (x3, w') \<Longrightarrow> patient w \<Longrightarrow> patient w'"
  "sys_remove p w = (x4, w') \<Longrightarrow> patient w \<Longrightarrow> patient w'"
  "sys_ftruncate fd n w = (x5, w') \<Longrightarrow> patient w \<Longrightarrow> patient w'"
  "sys_open_write excl trunc p w = (x6, w') \<Longrightarrow> patient w \<Longrightarrow> patient w'"
  "sys_open_dir p w = (x7, w') \<Longrightarrow> patient w \<Longrightarrow> patient w'"
  "fs_query g w = (x8, w') \<Longrightarrow> patient w \<Longrightarrow> patient w'"
  "fs_create_directories p w = (x9, w') \<Longrightarrow> patient w \<Longrightarrow> patient w'"
  "sys_open_read p w = (x10, w') \<Longrightarrow> patient w \<Longrightarrow> patient w'"
  by (auto simp: sys_fsync_def sys_close_def sys_rename_def sys_remove_def sys_ftruncate_def sys_open_write_def
      sys_open_dir_def fs_query_def fs_create_directories_def sys_open_read_def alloc_fd_def Let_def
      split: prod.splits os_answer.splits option.splits if_splits dest: patient_os_next)

lemma patient_fsync: "fault_fsync fd w = (x, w') \<Longrightarrow> patient w \<Longrightarrow> patient w'"
  by (auto simp: fault_fsync_def split: prod.splits if_splits dest: patient_consult patient_calls(1))

lemma patient_dtor: "patient w \<Longrightarrow> patient (FdGuard_dtor fd w)"
  using patient_calls(2) [of fd w] by (cases "sys_close fd w") (simp add: FdGuard_dtor_def)

lemma patient_setFd: "FdGuard_setFd fd0 fd w = (x, w') \<Longrightarrow> patient w \<Longrightarrow> patient w'"
  using patient_dtor [of w fd0] by (auto simp: FdGuard_setFd_def FdGuard_dtor_def)

lemma ends_calls [ends_intros]:
  "patiently (io_act (sys_fsync fd))" "patiently (io_act (sys_close fd))" "patiently (io_act (sys_rename old new))"
  "patiently (io_act (sys_remove p))" "patiently (io_act (sys_ftruncate fd n))" "patiently (io_act (sys_open_write excl trunc p))"
  "patiently (io_act (sys_open_dir p))" "patiently (io_act (fs_query g))" "patiently (io_act (fs_create_directories p))"
  "patiently (io_act (sys_open_read p))" "patiently (io_act (fault_fsync fd))" "patiently (io_act (FdGuard_setFd fd0 fd))"
  "patiently (io_act (fault_write fd data))"
  by (rule ends_act, blast intro: patient_calls patient_fsync patient_setFd patient_write(1))+

lemma ends_throwing [ends_intros]: "patiently (fs_throwing g)"
  unfolding fs_throwing_def by (intro ends_intros)

text \<open>An operation on a member of the state.\<close>

lemma ends_member:
  fixes f :: "(world \<times> 'm, 'a) prog" and m :: "(world \<times> 'l, 'a) prog"
  assumes "patiently2 f" "\<And>w l. m (w, l) = (case f (w, get l) of None \<Rightarrow> None | Some (r, (w', x)) \<Rightarrow> Some (r, (w', put x l)))"
  shows "patiently2 m"
proof (rule endsI)
  fix s :: "world \<times> 'l" assume "patient (fst s)"
  with endsD [OF assms(1), of "(fst s, get (snd s))"] obtain r w' x where
    "f (fst s, get (snd s)) = Some (r, (w', x))" "patient w'" by auto
  then show "\<exists>r s'. m s = Some (r, s') \<and> patient (fst s')" by (cases s) (simp add: assms(2))
qed

section \<open>Files\<close>

lemma ends_writeAll [ends_intros]: "patiently (writeAll fd data)"
  by (rule endsI) (rule writeAll_returns)

lemma ends_fw_write [ends_intros]: "patiently2 (fw_write data)"
  unfolding fw_write_def by (intro ends_intros)

lemma ends_FileWriter_add [ends_intros]: "patiently2 (FileWriter_add r)"
  unfolding FileWriter_add_def by (intro ends_intros)

lemma ends_FileWriter_new [ends_intros]: "patiently (FileWriter_new p)"
  unfolding FileWriter_new_def by (intro ends_intros)

lemma ends_FdGuard_close [ends_intros]: "patiently2 FdGuard_close"
  unfolding FdGuard_close_def by (intro ends_intros ends_upd) auto

lemma ends_fw_close [ends_intros]: "patiently2 fw_close"
  by (rule ends_member [OF ends_FdGuard_close, where get = fw_dataFile and put = "\<lambda>fd fw. fw\<lparr>fw_dataFile := fd\<rparr>"])
    (simp add: fw_close_def)

lemma ends_finish [ends_intros]: "patiently2 FileWriter_finish"
  unfolding FileWriter_finish_def by (intro ends_intros ends_local patient_dtor)

lemma ends_with_FileWriter [ends_intros]: "patiently2 body \<Longrightarrow> patiently (with_FileWriter p body)"
  unfolding with_FileWriter_def by (intro ends_intros ends_local) (simp_all add: FileWriter_dtor_def patient_dtor)

lemma ends_removeFile [ends_intros]: "patiently (removeFile p msg)"
  unfolding removeFile_def by (intro ends_intros)

section \<open>The log\<close>

lemma ends_WALFileWriter_new [ends_intros]: "patiently (WALFileWriter_new p)"
  unfolding WALFileWriter_new_def by (intro ends_intros ends_local patient_dtor)

lemma ends_WALFileWriter_write [ends_intros]: "patiently2 (WALFileWriter_write data)"
  unfolding WALFileWriter_write_def by (intro ends_intros ends_upd) auto

lemma ends_on_walWriter [ends_intros]: "patiently2 f \<Longrightarrow> patiently2 (on_walWriter f)"
  by (rule ends_member [where get = mt_walWriter and put = "\<lambda>x m. m\<lparr>mt_walWriter := x\<rparr>"]) (simp_all add: on_walWriter_def)

lemma ends_applyBatch [ends_intros]: "patiently2 (applyBatch rs)"
  unfolding applyBatch_def by (intro ends_intros ends_upd) auto

lemma ends_restoreFromWAL [ends_intros]: "patiently2 restoreFromWAL"
  unfolding restoreFromWAL_def WALFileWriter_truncate_def by (intro ends_intros ends_upd) auto

lemma patient_MemTable_dtor: "patient w \<Longrightarrow> patient (MemTable_dtor m w)"
  using patient_dtor by (simp add: MemTable_dtor_def WALFileWriter_dtor_def FdGuard_dtor_def)

lemma ends_MemTable_new [ends_intros]: "patiently (MemTable_new p)"
  unfolding MemTable_new_def
proof (rule ends_bind [OF ends_WALFileWriter_new], rule endsI)
  fix ww w assume w: "patient w"
  let ?restore = "io_bind restoreFromWAL (\<lambda>ok. if \<not> ok then io_throw (runtime_error ''Failed to restore from wal'') else io_ret ())"
  let ?start = "\<lparr>mt_table = [], mt_logPath = p, mt_walWriter = ww, mt_currentSizeBytes = 0, mt_currentSeq = 0\<rparr>"
  have "patiently2 ?restore" by (intro ends_intros)
  from endsD [OF this, of "(w, ?start)"] w obtain r w' m' where "?restore (w, ?start) = Some (r, (w', m'))" "patient w'" by auto
  then show "\<exists>r s'. (let m0 = ?start in case ?restore (w, m0) of None \<Rightarrow> None
      | Some (Inl e, (w', m)) \<Rightarrow> Some (Inl e, MemTable_dtor m w') | Some (Inr _, (w', m)) \<Rightarrow> Some (Inr m, w')) = Some (r, s') \<and> patient s'"
    by (cases r) (simp_all add: patient_MemTable_dtor)
qed

section \<open>Tables and the catalogue\<close>

text \<open>
  The filter of a table is well formed when its size computation was shown to be; then every
  addition to it is defined.
\<close>

lemma add_bytes_wf:
  assumes "bloom_wf (tb_bloomFilter tb)"
  obtains tb' where "add_bytes (start_block tb r) r n = Some tb'" "bloom_wf (tb_bloomFilter tb')"
proof -
  have "tb_bloomFilter (start_block tb r) = tb_bloomFilter tb" by (simp add: start_block_def)
  then show thesis using bloom_add [OF assms, of "rec_key r"] that by (simp add: add_bytes_def)
qed

lemma ends_write_records: "bloom_wf (tb_bloomFilter tb) \<Longrightarrow> patiently2 (io_fold write_record tb rs)"
proof (induction rs arbitrary: tb)
  case (Cons r rs)
  have "patiently2 (io_bind (io_defined (add_bytes (start_block tb r) r n)) (\<lambda>tb'. io_fold write_record tb' rs))" for n
  proof -
    from Cons.prems obtain tb' where tb': "add_bytes (start_block tb r) r n = Some tb'" "bloom_wf (tb_bloomFilter tb')"
      by (rule add_bytes_wf)
    have "io_defined (Some tb') = (io_ret tb' :: _ fw)" by (rule ext) simp
    then show ?thesis unfolding tb'(1) by (simp only: io_bind_ret Cons.IH [OF tb'(2)])
  qed
  then have "patiently2 (io_bind (FileWriter_add r) (\<lambda>n. io_bind (io_defined (add_bytes (start_block tb r) r n))
      (\<lambda>tb'. io_fold write_record tb' rs)))"
    by (intro ends_bind [OF ends_FileWriter_add])
  then have "patiently2 (io_bind (write_record tb r) (\<lambda>tb'. io_fold write_record tb' rs))"
    unfolding write_record_def [of tb r] Let_def io_bind_assoc .
  then show ?case by (simp only: io_fold.simps)
qed (simp only: io_fold.simps ends_ret)

lemma ends_addRecordToFile:
  assumes "rs \<noteq> [] \<Longrightarrow> filter_fits fp (length rs)"
  shows "patiently (addRecordToFile fp rs p)"
proof (cases "rs = []")
  case False
  have fold: "patiently2 (io_fold write_record \<lparr>tb_bloomFilter = forEntries fp (length rs) (kBloomFalsePositiveProbability fp),
      tb_indices = [], tb_recordsSize = 0, tb_currentBlockSize = 0, tb_fileSize = 0\<rparr> rs)"
    using assms [OF False] by (intro ends_write_records) simp
  show ?thesis unfolding addRecordToFile_def write_table_def writeIndex_def writeFooter_def
    by (intro ends_if ends_throw ends_with_FileWriter ends_bind [OF ends_bind [OF fold]] ends_intros)
qed (simp only: addRecordToFile_def simp_thms if_True ends_throw)

lemma ends_build: "fp_ok fp \<Longrightarrow> length (mt_table m) \<le> 2 ^ 40 \<Longrightarrow> patiently (build fp m p)"
  unfolding build_def Let_def by (intro ends_intros ends_addRecordToFile filter_fits) simp_all

lemma ends_check_regular [ends_intros]: "patiently (check_regular p msg)"
  unfolding check_regular_def by (intro ends_intros)

lemma ends_SSTable_new [ends_intros]: "patiently (SSTable_new p)"
  unfolding SSTable_new_def readSparseIndex_def by (intro ends_intros)

lemma ends_SSTable_get: "bloom_wf (st_bloomFilter st) \<Longrightarrow> patiently (SSTable_get st k q v)"
  unfolding SSTable_get_def by (intro ends_intros ends_defined mightContain_wf)

lemma ends_SSTableIterator_new [ends_intros]: "patiently (SSTableIterator_new p)"
  unfolding SSTableIterator_new_def by (intro ends_intros)

lemma ends_openTableIterators [ends_intros]: "patiently (openTableIterators ps)"
  by (induction ps) (auto intro!: ends_intros simp del: io_apply)

lemma ends_Manifest_new [ends_intros]: "patiently (Manifest_new p)"
  unfolding Manifest_new_def by (intro ends_intros)

lemma ends_Manifest_save [ends_intros]: "patiently (Manifest_save m)"
  unfolding Manifest_save_def writeManifest_def writeLevel_def writeTable_def writeKey_def by (intro ends_intros)

section \<open>The database\<close>

lemma ends_db_get [ends_intros]: "patiently2 (db_get f)"
  unfolding db_get_def by (intro ends_intros)

lemma ends_db_upd [ends_intros]: "patiently2 (db_upd f)"
  unfolding db_upd_def by (rule ends_upd) auto

lemma ends_manifest_act [ends_intros]: "patiently2 (manifest_act f)"
  by (rule endsI) (auto simp: manifest_act_def split: prod.split)

lemma ends_manifest_try [ends_intros]: "patiently2 (manifest_try f)"
  by (rule endsI) (auto simp: manifest_try_def split: prod.split)

lemma ends_on_manifest [ends_intros]: "patiently2 f \<Longrightarrow> patiently2 (on_manifest f)"
  by (rule ends_member [where get = db_manifest and put = "\<lambda>m db. db\<lparr>db_manifest := m\<rparr>"])
    (simp_all add: on_manifest_def)

lemma ends_on_memTable [ends_intros]: "patiently2 f \<Longrightarrow> patiently2 (on_memTable f)"
  by (rule ends_member [where get = db_activeMemTable and put = "\<lambda>m db. db\<lparr>db_activeMemTable := m\<rparr>"])
    (simp_all add: on_memTable_def)

lemma ends_create_directories [ends_intros]: "patiently (create_directories p)"
  unfolding create_directories_def by (intro ends_intros)

lemma ends_fs_remove [ends_intros]: "patiently (io_act (fs_remove p))"
  by (rule ends_act) (auto simp: fs_remove_def split: prod.splits dest: patient_calls(4))

lemma ends_sweeps [ends_intros]:
  "patiently (cleanupOrphanedTemps_loop ps)" "patiently (cleanupOldWALFiles_loop n ps)" "patiently (cleanupUntrackedSSTables_loop ts ps)"
  by (induction ps) (auto intro!: ends_intros simp del: io_apply split: bool.split)

lemma ends_for_directory [ends_intros]: "(\<And>ps. patiently (body ps)) \<Longrightarrow> patiently (for_directory d body)"
  unfolding for_directory_def by (intro ends_intros)

lemma ends_DB_new [ends_intros]: "patiently (DB_new dir f c s base)"
  unfolding DB_new_def ensureDataDirectory_def cleanupOrphanedTemps_def cleanupUntrackedSSTables_def cleanupOldWALFiles_def
  by (intro ends_intros)

lemma ends_DB_scan [ends_intros]: "patiently2 (DB_scan start stop q)"
  unfolding DB_scan_def by (intro ends_intros)

lemma ends_replace_memTable [ends_intros]: "patiently2 (replace_memTable p)"
  unfolding replace_memTable_def by (intro ends_intros ends_upd) (auto simp: patient_MemTable_dtor)

section \<open>Reads\<close>

text \<open>
  A lookup needs a usable filter: a file whose filter section has no bit, or overflows the word
  count, is opened without complaint (\<open>fromBytes\<close>), and then the lookup is undefined. The filter
  that opening a file with the content \<open>c\<close> loads:
\<close>

definition stored_filter :: "string \<Rightarrow> BloomFilter result" where
  "stored_filter c =
     rbind (readFooter (c, 0)) (\<lambda>(footer, input).
     rbind (validateFooter footer (of_nat (length c))) (\<lambda>_.
     rbind (read_or (unat (ft_bloomSize footer)) ''Corrupt SSTable Bloom filter'' (seekg (unat (ft_recordsSize footer)) input))
       (\<lambda>(bloomBytes, _). fromBytes bloomBytes)))"

text \<open>
  The filters that a read of the database may consult, those of the cached tables and those in the
  files of the other tables of the catalogue, have a word. Everything else in the files may be
  damaged.
\<close>

definition usable_filter :: "world \<Rightarrow> DB \<Rightarrow> TableMeta \<Rightarrow> bool" where
  "usable_filter w db t =
     (case map_of (db_tableCache db) (tm_number t) of
        Some st \<Rightarrow> bloom_wf (st_bloomFilter st)
      | None \<Rightarrow>
          (case content_of w (sstablePath (db_dataDirectory db) (tm_number t)) of
             None \<Rightarrow> True
           | Some c \<Rightarrow> (case stored_filter c of Inl _ \<Rightarrow> True | Inr bf \<Rightarrow> bf_words bf \<noteq> [])))"

definition filters_usable :: "world \<Rightarrow> DB \<Rightarrow> bool" where
  "filters_usable w db \<longleftrightarrow> list_all (usable_filter w db) (concat (mf_levels (db_manifest db)))"

lemma calm_reads:
  "fs_throwing g (calm w) = Some (Inr (g (calm w)), calm w)" "sys_open_read p (calm w) = (content_of w p, calm w)"
  by (rule nominal_fs_throwing, simp, simp add: sys_open_read_def os_next_def calm_def)

lemma SSTable_new_filter:
  assumes "SSTable_new p w = Some (Inr st, w')"
  shows "\<exists>c. content_of w p = Some c \<and> stored_filter c = Inr (st_bloomFilter st)"
proof -
  from robustD [OF robust_SSTable_new twin_calm assms] obtain v where "SSTable_new p (calm w) = Some (Inr st, v)" by blast
  then show ?thesis
    by (auto simp: calm_reads SSTable_new_def check_regular_def stored_filter_def file_size_def io_bind_def io_act_def is_regular_file_def
        split: option.splits sum.splits if_splits prod.splits)
qed

lemma SSTable_new_usable:
  assumes "usable_filter w db t" "map_of (db_tableCache db) (tm_number t) = None"
    and "SSTable_new (sstablePath (db_dataDirectory db) (tm_number t)) w = Some (Inr st, w')"
  shows "bloom_wf (st_bloomFilter st)"
proof -
  from SSTable_new_filter [OF assms(3)] obtain c where c: "content_of w (sstablePath (db_dataDirectory db) (tm_number t)) = Some c"
    "stored_filter c = Inr (st_bloomFilter st)" by blast
  then obtain data where "fromBytes data = Inr (st_bloomFilter st)"
    by (auto simp: stored_filter_def split: prod.splits)
  moreover have "bf_words (st_bloomFilter st) \<noteq> []" using assms(1,2) c by (simp add: usable_filter_def)
  ultimately show ?thesis using fromBytes_wf by blast
qed

abbreviation reading :: "Manifest \<Rightarrow> (world \<times> DB, 'a) prog \<Rightarrow> bool" where
  "reading m \<equiv> ends (\<lambda>s. patient (fst s) \<and> filters_usable (fst s) (snd s) \<and> db_manifest (snd s) = m)"

lemma filters_usable_files: "w_files w' = w_files w \<Longrightarrow> filters_usable w' db = filters_usable w db"
  unfolding filters_usable_def usable_filter_def [abs_def] by (erule ssubst) (rule refl)

lemma filters_usable_cached:
  assumes "filters_usable w db" "bloom_wf (st_bloomFilter st)"
  shows "filters_usable w (db\<lparr>db_tableCache := (n, st) # db_tableCache db\<rparr>)"
proof -
  have "usable_filter w db t \<Longrightarrow> usable_filter w (db\<lparr>db_tableCache := (n, st) # db_tableCache db\<rparr>) t" for t
    using assms(2) by (auto simp: usable_filter_def split: option.split)
  with assms(1) show ?thesis by (simp add: filters_usable_def list_all_iff)
qed

lemma reading_db_get [ends_intros]: "reading m (db_get f)"
  unfolding db_get_def by (intro ends_intros)

lemma reading_get_manifest: "reading m (k (f m)) \<Longrightarrow> reading m (io_bind (db_get (\<lambda>db. f (db_manifest db))) k)"
  unfolding ends_def db_get_def by simp

lemma reading_searchTable:
  assumes t: "t \<in> set (concat (mf_levels m))"
  shows "reading m (searchTable (tm_number t) k q v)"
proof (rule endsI)
  fix s :: "world \<times> DB"
  obtain w db where s: "s = (w, db)" by fastforce
  assume "patient (fst s) \<and> filters_usable (fst s) (snd s) \<and> db_manifest (snd s) = m"
  with s t have p: "patient w" and u: "filters_usable w db" and m: "db_manifest db = m" and ut: "usable_filter w db t"
    by (auto simp: filters_usable_def list_all_iff)
  let ?n = "tm_number t" and ?goal = "\<exists>r s'. searchTable (tm_number t) k q v s = Some (r, s')
    \<and> patient (fst s') \<and> filters_usable (fst s') (snd s') \<and> db_manifest (snd s') = m"
  have get: "\<exists>r w'. SSTable_get st k q v u = Some (r, w') \<and> patient w' \<and> w_files w' = w_files u"
    if "bloom_wf (st_bloomFilter st)" "patient u" for st u
    using endsD [OF ends_SSTable_get [OF that(1)] that(2)] quietD [OF quiet_SSTable_get] by meson
  have same: "filters_usable w' db" if "w_files w' = w_files w" for w'
    using filters_usable_files [of w' w db] u that by simp
  show ?goal
  proof (cases "map_of (db_tableCache db) ?n")
    case (Some st)
    then have "bloom_wf (st_bloomFilter st)" using ut by (simp add: usable_filter_def)
    from get [OF this p] obtain r w' where "SSTable_get st k q v w = Some (r, w')" "patient w'" "w_files w' = w_files w" by blast
    with same [of w'] Some s m show ?thesis by (simp add: searchTable_def db_get_def io_bind_def io_outer_def)
  next
    case None
    let ?p = "sstablePath (db_dataDirectory db) ?n"
    from endsD [OF ends_SSTable_new p] obtain r w1 where new: "SSTable_new ?p w = Some (r, w1)" and p1: "patient w1" by blast
    from quietD [OF quiet_SSTable_new new] have f1: "w_files w1 = w_files w" by simp
    show ?thesis
    proof (cases r)
      case (Inl e)
      with same [OF f1] new None s p1 m show ?thesis by (simp add: searchTable_def db_get_def io_bind_def io_outer_def)
    next
      case (Inr st)
      note wf = SSTable_new_usable [OF ut None new [unfolded Inr]]
      from get [OF wf p1] obtain r2 w2 where g: "SSTable_get st k q v w1 = Some (r2, w2)" "patient w2" "w_files w2 = w_files w1" by blast
      have "searchTable ?n k q v s = (case r2 of Inl e \<Rightarrow> Some (Inl e, (w2, db))
          | Inr x \<Rightarrow> Some (Inr x, (w2, db\<lparr>db_tableCache := (?n, st) # db_tableCache db\<rparr>)))"
        using g(1) new None s Inr by (simp add: searchTable_def db_get_def db_upd_def io_bind_def io_outer_def split: sum.split)
      moreover have f2: "filters_usable w2 db" using g(3) f1 by (intro same) simp
      ultimately show ?thesis using filters_usable_cached [OF f2 wf, of ?n] g(2) m by (cases r2) auto
    qed
  qed
qed

lemma reading_search_level0:
  "set ts \<subseteq> set (concat (mf_levels m)) \<Longrightarrow> reading m (search_level0 ts k q v)"
  by (induction ts arbitrary: v) (auto intro!: ends_intros reading_searchTable simp del: io_apply set_concat)

lemma getTableMeta_in:
  assumes "getTableMeta l k m = Inr (Some t)"
  shows "t \<in> set (concat (mf_levels m))"
proof -
  let ?level = "mf_levels m ! unat l" and ?pos = "partition_point (\<lambda>table. \<not> tm_minKey table > k) (mf_levels m ! unat l)"
  have l: "unat l < length (mf_levels m)" "?pos \<noteq> 0" "t = ?level ! (?pos - 1)"
    using assms by (auto simp: getTableMeta_def Let_def split: if_splits)
  have "?pos \<le> length ?level" by (simp add: partition_point_def length_takeWhile_le)
  with l(2) have "?pos - 1 < length ?level" by linarith
  with l(3) have "t \<in> set ?level" by (simp del: One_nat_def)
  with l(1) show ?thesis by auto
qed

lemma reading_search_levels: "reading m (search_levels ns k q v)"
proof (induction ns arbitrary: v)
  case (Cons n ns)
  have "reading m (case found of None \<Rightarrow> search_levels ns k q v
      | Some t \<Rightarrow> io_bind (searchTable (tm_number t) k q v) (\<lambda>(result, value).
          if result \<noteq> Result_ABSENT then io_ret (result, value) else search_levels ns k q value))"
    if "getTableMeta (of_nat n) k m = Inr found" for found
    using that getTableMeta_in by (cases found) (auto intro!: ends_intros reading_searchTable Cons simp del: io_apply set_concat)
  then have "reading m (io_bind (io_lift (getTableMeta (of_nat n) k m)) (\<lambda>found. case found of None \<Rightarrow> search_levels ns k q v
      | Some t \<Rightarrow> io_bind (searchTable (tm_number t) k q v) (\<lambda>(result, value).
          if result \<noteq> Result_ABSENT then io_ret (result, value) else search_levels ns k q value)))"
    unfolding ends_def by (cases "getTableMeta (of_nat n) k m") simp_all
  then show ?case unfolding search_levels.simps by (rule reading_get_manifest)
qed (simp add: ends_ret del: io_apply)

lemma reading_DB_get_at: "reading m (DB_get_at k q v)"
proof -
  have "reading m (search_level0 (Manifest_level 0 m) k q v)" for v
    by (rule reading_search_level0) (auto simp: Manifest_level_def intro!: bexI [OF _ nth_mem])
  then have "reading m (searchSSTables k q v)" for v
    unfolding searchSSTables_def
    by (intro reading_get_manifest [where f = "Manifest_level 0"] ends_bind [where m = "search_level0 _ _ _ _"])
      (auto intro!: ends_intros reading_search_levels simp del: io_apply)
  then show ?thesis unfolding DB_get_at_def by (intro ends_intros)
qed

section \<open>Compactions\<close>

text \<open>
  The records that a compaction of the given tables writes. The size computation of the filter was
  shown for up to \<open>2 ^ 40\<close> records in a table.
\<close>

definition compaction_records :: "path list \<Rightarrow> u64 \<Rightarrow> world \<Rightarrow> Record list" where
  "compaction_records ps oldest w =
     (case openTableIterators ps (calm w) of
        Some (Inr its, _) \<Rightarrow>
          (case mergeAll (map RawIt its) of Inr records \<Rightarrow> retainForCompaction records oldest | Inl _ \<Rightarrow> [])
      | _ \<Rightarrow> [])"

lemma ends_writeCompactionOutput:
  assumes "fp_ok fp" "length rs \<le> 2 ^ 40"
  shows "patiently2 (writeCompactionOutput fp dir rs n)"
proof -
  have "patiently2 (writeCompactionSlice fp dir s)" if "length s \<le> length rs" for s
    unfolding writeCompactionSlice_def using assms that
    by (intro ends_intros ends_addRecordToFile filter_fits) simp_all
  then show ?thesis unfolding writeCompactionOutput_def compaction_step_def by (intro ends_intros) simp_all
qed

lemma compactRange_returns:
  assumes p: "patient w" and fp: "fp_ok fp"
    and small: "length (compaction_records (tablePaths (db_dataDirectory db) rem) (smallestActiveSnapshot db) w) \<le> 2 ^ 40"
  shows "\<exists>r w' db'. compactRange fp rem l (w, db) = Some (r, (w', db')) \<and> patient w'"
proof -
  let ?ps = "tablePaths (db_dataDirectory db) rem" and ?q = "smallestActiveSnapshot db"
  let ?rest = "\<lambda>rs. io_bind (on_manifest (writeCompactionOutput fp (db_dataDirectory db) rs (db_compactionSliceBytes db)))
      (\<lambda>outputTables.
     io_bind (on_manifest (manifest_try (replaceTables rem outputTables (ucast l)))) (\<lambda>_.
     io_bind (db_get db_manifest) (\<lambda>manifest.
     io_bind (io_outer (Manifest_save manifest)) (\<lambda>_.
     io_bind (io_outer (io_for ?ps (\<lambda>p. removeFile p ''remove old sst file failed''))) (\<lambda>_.
     db_upd (\<lambda>db. db\<lparr>db_tableCache :=
       fold (\<lambda>tableNumber. AList.delete tableNumber) rem (db_tableCache db)\<rparr>))))))"
  from endsD [OF ends_openTableIterators p] obtain r w1 where
    op: "openTableIterators ?ps w = Some (r, w1)" and p1: "patient w1" by blast
  have run: "compactRange fp rem l (w, db) = (case r of Inl e \<Rightarrow> Some (Inl e, (w1, db)) | Inr its \<Rightarrow>
      (case mergeAll (map RawIt its) of Inl e \<Rightarrow> Some (Inl e, (w1, db)) | Inr rs \<Rightarrow> ?rest (retainForCompaction rs ?q) (w1, db)))"
    using op by (simp add: compactRange_def db_get_def io_bind_def io_outer_def Let_def split: sum.split)
  show ?thesis
  proof (cases "\<exists>its rs. r = Inr its \<and> mergeAll (map RawIt its) = Inr rs")
    case True
    then obtain its rs where r: "r = Inr its" "mergeAll (map RawIt its) = Inr rs" by blast
    from robustD [OF robust_openTableIterators twin_calm op [unfolded r(1)]] r(2)
    have "compaction_records ?ps ?q w = retainForCompaction rs ?q" by (auto simp: compaction_records_def)
    with small have "patiently2 (?rest (retainForCompaction rs ?q))"
      by (intro ends_intros ends_writeCompactionOutput [OF fp]) simp
    from endsD [OF this, of "(w1, db)"] p1 r run show ?thesis by auto
  qed (use run p1 in \<open>auto split: sum.splits\<close>)
qed

text \<open>A manual compaction of level 0 writes these records.\<close>

definition level0_records :: "world \<Rightarrow> DB \<Rightarrow> Record list" where
  "level0_records w db =
     (if Manifest_level 0 (db_manifest db) = [] then []
      else compaction_records (tablePaths (db_dataDirectory db) (selectLevelZeroCompactionTables (db_manifest db)))
        (smallestActiveSnapshot db) w)"

lemma DB_compact_returns:
  assumes "patient w" "fp_ok fp" "length (level0_records w db) \<le> 2 ^ 40"
  shows "\<exists>r w' db'. DB_compact fp (w, db) = Some (r, (w', db')) \<and> patient w'"
proof (cases "Manifest_level 0 (db_manifest db) = []")
  case False
  with assms(3) compactRange_returns [OF assms(1,2), of db "selectLevelZeroCompactionTables (db_manifest db)" 1] show ?thesis
    by (simp add: DB_compact_def compactLevel_def level0_records_def db_get_def io_bind_def)
qed (use assms(1) in \<open>simp add: DB_compact_def compactLevel_def db_get_def io_bind_def\<close>)

end
