(* ===== verification/DBCrash.thy ===== *)
theory DBCrash
  imports DBRecovery Returns
begin

text \<open>
  Crash safety and termination of the database operations under faults. A crash is a run in which
  every system call from some point on fails; what was written before stays on the disk.
\<close>

section \<open>A write that fails\<close>

lemma twin_logged:
  assumes "w_files w1 = w_files (set_file (db_walFilePath db) (c @ encodeWALFrame (batch_payload rs)) w)"
    "w_dirs w1 = w_dirs w" "w_fds w1 = w_fds w" "rs \<noteq> []"
  shows "twin w1 (logged rs c (calm w) db)"
  using assms by (simp add: twin_def logged_def)

text \<open>
  The log ends in a part of a frame that recovery takes for a damaged one; without this part the
  database could be opened.
\<close>

definition torn_append :: "nat \<Rightarrow> fp \<Rightarrow> path \<Rightarrow> u64 \<Rightarrow> u64 \<Rightarrow> Record list \<Rightarrow> u64 \<Rightarrow> world \<Rightarrow> bool" where
  "torn_append N fp dir base q0 R n w \<longleftrightarrow> (\<exists>T bs m t. incomplete t \<and> looks_committed t
     \<and> content_of w (walPath dir (mf_logNumber m)) = Some (wal_header @ wal_frames bs @ t)
     \<and> on_disk fp T bs dir m (calm (set_file (walPath dir (mf_logNumber m)) (wal_header @ wal_frames bs) w)) \<and> in_budget base m
     \<and> serves N q0 R (disk_records T bs m) m \<and> disk_next bs m = n)"

text \<open>The same for a given part \<open>t\<close>.\<close>

definition torn_tail :: "string \<Rightarrow> nat \<Rightarrow> fp \<Rightarrow> path \<Rightarrow> u64 \<Rightarrow> u64 \<Rightarrow> Record list \<Rightarrow> u64 \<Rightarrow> world \<Rightarrow> bool" where
  "torn_tail t N fp dir base q0 R n w \<longleftrightarrow> incomplete t \<and> looks_committed t \<and> (\<exists>T bs m.
     content_of w (walPath dir (mf_logNumber m)) = Some (wal_header @ wal_frames bs @ t)
     \<and> on_disk fp T bs dir m (calm (set_file (walPath dir (mf_logNumber m)) (wal_header @ wal_frames bs) w)) \<and> in_budget base m
     \<and> serves N q0 R (disk_records T bs m) m \<and> disk_next bs m = n)"

lemma torn_append_tail: "torn_append N fp dir base q0 R n w \<longleftrightarrow> (\<exists>t. torn_tail t N fp dir base q0 R n w)"
  unfolding torn_append_def torn_tail_def by blast

lemma torn_on_disk:
  assumes d: "on_disk fp T bs dir m (calm w)" and log: "content_of w (walPath dir (mf_logNumber m)) = Some (wal_header @ wal_frames bs)"
    and w1: "w_files w1 = w_files (set_file (walPath dir (mf_logNumber m)) (wal_header @ wal_frames bs @ t) w)" "w_dirs w1 = w_dirs w"
    and t: "incomplete t" "\<not> looks_committed t"
  shows "on_disk fp T bs dir m (calm w1)"
proof -
  let ?p = "walPath dir (mf_logNumber m)"
  have c: "content_of w1 q = (if q = ?p then Some (wal_header @ wal_frames bs @ t) else content_of w q)" for q
    using w1(1) by simp
  have "catalogue_ok fp T (calm w1) dir m"
    using d by (simp add: on_disk_def catalogue_ok_def table_at_def table_file_def c)
  moreover have "dir_ok dir (calm w1)"
  proof (rule dir_ok_files [of dir "calm w"])
    show dw: "dir_ok dir (calm w)" using d by (simp add: on_disk_def)
    have "data_file dir ?p" by simp
    from data_file_not_dir [OF this] dw show "content_of (calm w1) q = None" if "q \<in> data_dirs dir" for q
      using that by (auto simp: c dir_ok_def)
  qed (simp add: w1(2))
  moreover have "\<forall>n > mf_nextTableNumber m. content_of (calm w1) (walPath dir n) = None"
    using d log by (auto simp: on_disk_def c)
  ultimately show ?thesis using d t by (auto simp: on_disk_def c w1(2))
qed

text \<open>The number from which on reads are kept once the records \<open>rs\<close> were given their numbers.\<close>

definition oldest_after :: "Record list \<Rightarrow> DB \<Rightarrow> u64" where
  "oldest_after rs db = smallestActiveSnapshot (db\<lparr>db_nextSeq := db_nextSeq db + of_nat (length rs)\<rparr>)"

lemma oldest_applied: "smallestActiveSnapshot (applied rs db) = oldest_after rs db"
  by (simp add: oldest_after_def smallestActiveSnapshot_def)

lemma applied_recoverable:
  assumes o: "db_open fp T bs (calm w) db" and fit: "batch_fits T db b"
    and rs: "rs = number_records (db_nextSeq db) (wb_records b)"
    and N: "unat (mf_nextTableNumber (db_manifest db)) \<le> N"
  defines "bs1 \<equiv> if rs = [] then bs else bs @ [rs]"
  shows "kept N fp (db_dataDirectory db) (db_compactionBaseThresholdBytes db) (oldest_after rs db) (db_records T (applied rs db)) n u
      \<Longrightarrow> kept N fp (db_dataDirectory db) (db_compactionBaseThresholdBytes db) (oldest_after rs db) (db_records T db @ rs) n u"
    "twin w1 (logged rs (wal_header @ wal_frames bs) (calm w) db) \<Longrightarrow>
      recoverable N fp (db_dataDirectory db) (db_compactionBaseThresholdBytes db) (oldest_after rs db) (db_records T db @ rs)
        (db_nextSeq db + of_nat (length rs)) w1"
proof -
  let ?v = "logged rs (wal_header @ wal_frames bs) (calm w) db"
  have o1: "db_open fp T bs1 ?v (applied rs db)" unfolding bs1_def rs by (rule applied_open [OF o fit])
  then have inv1: "db_inv fp T ?v (applied rs db)" by (simp add: db_open_def db_ready_def)
  have "unat (db_nextSeq db) + length (wb_records b) < 2 ^ 64" using fit by (simp add: batch_fits_def Let_def)
  then have set: "set (db_records T (applied rs db)) = set (db_records T db @ rs)" using applied_records(2) [OF o rs] by simp
  then have vis: "visible (db_records T (applied rs db)) k q = visible (db_records T db @ rs) k q" for k q
    using db_records_unique [OF inv1] by (rule visible_set_cong)
  show "kept N fp (db_dataDirectory db) (db_compactionBaseThresholdBytes db) (oldest_after rs db) (db_records T db @ rs) n u"
    if "kept N fp (db_dataDirectory db) (db_compactionBaseThresholdBytes db) (oldest_after rs db) (db_records T (applied rs db)) n u"
    using that by (rule kept_trans) (simp_all add: vis set)
  assume tw: "twin w1 ?v"
  have "on_disk fp T bs1 (db_dataDirectory (applied rs db)) (db_manifest (applied rs db)) (calm w1)"
    by (rule on_disk_twin [OF open_on_disk_same [OF o1]]) (use tw in \<open>simp_all add: twin_def\<close>)
  moreover have "in_budget (db_compactionBaseThresholdBytes db) (db_manifest (applied rs db))" using o by (simp add: db_open_def)
  ultimately show "recoverable N fp (db_dataDirectory db) (db_compactionBaseThresholdBytes db) (oldest_after rs db) (db_records T db @ rs)
        (db_nextSeq db + of_nat (length rs)) w1"
    using recoverable_open [OF o1] vis set N by (simp add: serves_def)
qed

lemma applied_ready:
  assumes o: "db_open fp T bs (calm w) db" and fit: "batch_fits T db b"
    and rs: "rs = number_records (db_nextSeq db) (wb_records b)"
    and tw: "twin w1 (logged rs (wal_header @ wal_frames bs) (calm w) db)"
  shows "db_open fp T (if rs = [] then bs else bs @ [rs]) (calm w1) (applied rs db)" "room_for T (applied rs db) 0"
    "flush_numbers (length (db_records T (applied rs db))) \<le> flush_numbers (length (db_records T db) + length rs)"
proof -
  have "db_open fp T (if rs = [] then bs else bs @ [rs]) (logged rs (wal_header @ wal_frames bs) (calm w) db) (applied rs db)"
    unfolding rs by (rule applied_open [OF o fit])
  then show o1: "db_open fp T (if rs = [] then bs else bs @ [rs]) (calm w1) (applied rs db)" using tw by (rule db_open_twin)
  then have inv1: "db_inv fp T (calm w1) (applied rs db)" by (simp add: db_open_def db_ready_def)
  have seqs: "unat (db_nextSeq db) + length (wb_records b) < 2 ^ 64" and room: "room_for T db (length rs)"
    using fit rs by (simp_all add: batch_fits_def Let_def)
  have "length (db_records T (applied rs db)) \<le> length (db_records T db @ rs)"
    using db_records_distinct [OF inv1] applied_records(2) [OF o rs seqs] by (intro mset_sub_length mset_distinct_sub) simp_all
  then show "flush_numbers (length (db_records T (applied rs db))) \<le> flush_numbers (length (db_records T db) + length rs)"
    by (intro flush_numbers_mono) simp
  with room show "room_for T (applied rs db) 0" by (simp add: room_for_def)
qed

lemma write_acknowledged:
  assumes o: "db_open fp T bs (calm w) db" and fit: "batch_fits T db b"
    and rs: "rs = number_records (db_nextSeq db) (wb_records b)"
    and tw: "twin w1 (logged rs (wal_header @ wal_frames bs) (calm w) db)"
    and run: "(if size_bytes (db_activeMemTable (applied rs db)) > db_flushThresholdBytes (applied rs db)
        then flush fp (w1, applied rs db) else Some (Inr (), (w1, applied rs db))) = Some (r, (w', db'))"
    and N: "unat (mf_nextTableNumber (db_manifest db)) + flush_numbers (length (db_records T db) + length rs) \<le> N"
  shows "kept N fp (db_dataDirectory db) (db_compactionBaseThresholdBytes db) (oldest_after rs db) (db_records T db @ rs)
      (db_nextSeq db + of_nat (length rs)) w'"
proof (cases "size_bytes (db_activeMemTable (applied rs db)) > db_flushThresholdBytes (applied rs db)")
  case False
  with run have "w' = w1" by simp
  with applied_recoverable(2) [OF o fit rs _ tw] N show ?thesis by (simp add: kept_def)
next
  case True
  have "unat (mf_nextTableNumber (db_manifest (applied rs db))) + flush_numbers (length (db_records T (applied rs db))) \<le> N"
    using applied_ready(3) [OF o fit rs tw] N by simp
  from flush_faulty [OF applied_ready(1,2) [OF o fit rs tw], of r w' db' N] this run True have
    "kept N fp (db_dataDirectory db) (db_compactionBaseThresholdBytes db) (oldest_after rs db) (db_records T (applied rs db))
      (db_nextSeq db + of_nat (length rs)) w'"
    by (simp add: oldest_applied)
  with N show ?thesis by (intro applied_recoverable(1) [OF o fit rs]) simp_all
qed

lemma write_refused:
  assumes o: "db_open fp T bs (calm w) db" and fit: "batch_fits T db b"
    and rs: "rs = number_records (db_nextSeq db) (wb_records b)" "rs \<noteq> []"
    and w1: "w_files w1 = w_files (set_file (db_walFilePath db) ((wal_header @ wal_frames bs) @ take n (encodeWALFrame (batch_payload rs))) w)"
      "w_dirs w1 = w_dirs w" "w_fds w1 = w_fds w"
    and N: "unat (mf_nextTableNumber (db_manifest db)) \<le> N"
  shows "recoverable N fp (db_dataDirectory db) (db_compactionBaseThresholdBytes db) (smallestActiveSnapshot db) (db_records T db) (db_nextSeq db) w1
    \<or> recoverable N fp (db_dataDirectory db) (db_compactionBaseThresholdBytes db) (oldest_after rs db) (db_records T db @ rs)
      (db_nextSeq db + of_nat (length rs)) w1
    \<or> n < length (encodeWALFrame (batch_payload rs)) \<and> torn_tail (take n (encodeWALFrame (batch_payload rs))) N fp (db_dataDirectory db)
      (db_compactionBaseThresholdBytes db) (smallestActiveSnapshot db) (db_records T db) (db_nextSeq db) w1"
proof -
  let ?f = "encodeWALFrame (batch_payload rs)" and ?p = "db_walFilePath db"
  have rf: "records_fit (db_records T db @ rs)" using fit rs by (simp add: batch_fits_def Let_def)
  have "batches_ok [rs]" by (rule records_fit_batch [OF records_fit_sub [OF rf]]) simp
  then have len: "length (batch_payload rs) < 2 ^ 64" by (simp add: batches_ok_def)
  have wal: "wal_state bs (calm w) db" using o by (simp add: db_open_def)
  then have p: "?p = walPath (db_dataDirectory db) (mf_logNumber (db_manifest db))" by (simp add: wal_state_def)
  have log: "content_of w ?p = Some (wal_header @ wal_frames bs)"
    using wal wal_state_path [OF wal] p by (simp add: wal_state_def log_open_def open_on_def)
  consider "length ?f \<le> n" | "n < length ?f" "looks_committed (take n ?f)" | "n < length ?f" "\<not> looks_committed (take n ?f)" by linarith
  then show ?thesis
  proof cases
    case 1
    then have "w_files w1 = w_files (set_file ?p ((wal_header @ wal_frames bs) @ ?f) w)" using w1(1) by simp
    from twin_logged [OF this w1(2,3) rs(2)] applied_recoverable(2) [OF o fit rs(1) N] show ?thesis by blast
  next
    case 2
    let ?t = "take n ?f" and ?w = "set_file ?p (wal_header @ wal_frames bs) w1"
    have c: "content_of ?w q = content_of w q" for q using w1(1) log by simp
    have "on_disk fp T bs (db_dataDirectory db) (db_manifest db) (calm ?w)"
      by (rule on_disk_twin [OF open_on_disk_same [OF o]]) (simp_all add: c w1(2) fun_eq_iff del: file_set_file)
    moreover have "content_of w1 ?p = Some (wal_header @ wal_frames bs @ ?t)" using w1(1) by simp
    moreover have "incomplete ?t" by (rule cut_frame_incomplete [OF len 2(1)])
    moreover have "in_budget (db_compactionBaseThresholdBytes db) (db_manifest db)" using o by (simp add: db_open_def)
    ultimately have "torn_tail ?t N fp (db_dataDirectory db) (db_compactionBaseThresholdBytes db) (smallestActiveSnapshot db) (db_records T db) (db_nextSeq db) w1"
      unfolding torn_tail_def using open_disk [OF o] 2(2) p N serves_refl by metis
    with 2(1) show ?thesis by blast
  next
    case 3
    have "incomplete (take n ?f)" by (rule cut_frame_incomplete [OF len 3(1)])
    with 3(2) w1 log have "on_disk fp T bs (db_dataDirectory db) (db_manifest db) (calm w1)"
      unfolding p by (intro torn_on_disk [OF open_on_disk_same [OF o]]) simp_all
    then show ?thesis using recoverable_same [OF o _ N] by blast
  qed
qed

lemma DB_write_unfold:
  assumes "\<not> db_writeFailed db"
  shows "DB_write fp b (w, db) =
    (case applyBatch (number_records (db_nextSeq db) (wb_records b)) (w, db_activeMemTable db) of
       None \<Rightarrow> None
     | Some (Inl e, (w1, m)) \<Rightarrow> Some (Inl e, (w1, db\<lparr>db_nextSeq := db_nextSeq db + of_nat (length (wb_records b)), db_activeMemTable := m\<rparr>))
     | Some (Inr ok, (w1, m)) \<Rightarrow>
         let db1 = db\<lparr>db_nextSeq := db_nextSeq db + of_nat (length (wb_records b)), db_activeMemTable := m\<rparr> in
         if \<not> ok then Some (Inr False, (w1, db1))
         else
           (case (if size_bytes (db_activeMemTable db1) > db_flushThresholdBytes db1 then flush fp (w1, db1) else Some (Inr (), (w1, db1))) of
              None \<Rightarrow> None
            | Some (_, s') \<Rightarrow> Some (Inr True, s')))"
  using assms
  by (auto simp: DB_write_def db_get_def db_upd_def on_memTable_def io_bind_def io_try_def Let_def split: option.split sum.split prod.split)

lemma DB_write_faulty:
  assumes o: "db_open fp T bs (calm w) db" and fit: "batch_fits T db b"
    and run: "DB_write fp b (w, db) = Some (r, (w', db'))"
  defines "rs \<equiv> number_records (db_nextSeq db) (wb_records b)"
  assumes N: "unat (mf_nextTableNumber (db_manifest db)) + flush_numbers (length (db_records T db) + length rs) \<le> N"
  defines "before \<equiv> recoverable N fp (db_dataDirectory db) (db_compactionBaseThresholdBytes db) (smallestActiveSnapshot db)
      (db_records T db) (db_nextSeq db) w'"
    and "after \<equiv> recoverable N fp (db_dataDirectory db) (db_compactionBaseThresholdBytes db) (oldest_after rs db) (db_records T db @ rs)
      (db_nextSeq db + of_nat (length rs)) w'"
  shows "r = Inr True \<and> kept N fp (db_dataDirectory db) (db_compactionBaseThresholdBytes db) (oldest_after rs db) (db_records T db @ rs)
      (db_nextSeq db + of_nat (length rs)) w'
    \<or> r = Inr False \<and> (before \<or> after \<or> (\<exists>k < length (encodeWALFrame (batch_payload rs)).
      torn_tail (take k (encodeWALFrame (batch_payload rs))) N fp (db_dataDirectory db) (db_compactionBaseThresholdBytes db)
      (smallestActiveSnapshot db) (db_records T db) (db_nextSeq db) w'))"
proof (cases "db_writeFailed db")
  case True
  then have "r = Inr False" "w' = w" using run by (simp_all add: DB_write_def db_get_def io_bind_def)
  moreover have "unat (mf_nextTableNumber (db_manifest db)) \<le> N" using N by simp
  ultimately show ?thesis using recoverable_same [OF o open_on_disk_same [OF o]] unfolding before_def by blast
next
  case nf: False
  have rs: "rs = number_records (db_nextSeq db) (wb_records b)" by (simp add: rs_def)
  have wal: "wal_state bs (calm w) db" using o by (simp add: db_open_def)
  then have lo: "log_open w (db_activeMemTable db) (wal_header @ wal_frames bs)" "\<not> poisoned (db_activeMemTable db)"
    and p: "mt_logPath (db_activeMemTable db) = db_walFilePath db"
    using wal_state_path [OF wal] by (simp_all add: wal_state_def log_open_def open_on_def)
  have ack: ?thesis if ab: "applyBatch rs (w, db_activeMemTable db) = Some (Inr True, (w1, apply_records rs (db_activeMemTable db)))"
    and tw: "twin w1 (logged rs (wal_header @ wal_frames bs) (calm w) db)" for w1
  proof -
    have "db\<lparr>db_nextSeq := db_nextSeq db + of_nat (length (wb_records b)), db_activeMemTable := apply_records rs (db_activeMemTable db)\<rparr>
        = applied rs db" "db_flushThresholdBytes (applied rs db) = db_flushThresholdBytes db" by (simp_all add: applied_def rs)
    then obtain x where "r = Inr True" "(if size_bytes (db_activeMemTable (applied rs db)) > db_flushThresholdBytes (applied rs db)
        then flush fp (w1, applied rs db) else Some (Inr (), (w1, applied rs db))) = Some (x, (w', db'))"
      using run ab by (auto simp: DB_write_unfold [OF nf] rs [symmetric] Let_def split: option.splits if_splits)
    with write_acknowledged [OF o fit rs tw _ N] show ?thesis by blast
  qed
  show ?thesis
  proof (cases "rs = []")
    case True
    with ack [of w] show ?thesis by (simp add: applyBatch_def apply_records_def logged_def twin_calm)
  next
    case False
    from lo(1) False show ?thesis
    proof (cases rule: applyBatch_outcome)
      case (ok w1)
      from twin_logged [OF ok(3) [unfolded p] ok(4,5) False] ack [OF ok(1)] show ?thesis by blast
    next
      case (failed n w1)
      then have "r = Inr False" "w' = w1" using run by (auto simp: DB_write_unfold [OF nf] rs [symmetric] Let_def)
      moreover have "unat (mf_nextTableNumber (db_manifest db)) \<le> N" using N by simp
      ultimately show ?thesis using write_refused [OF o fit rs False failed(2) [unfolded p] failed(3,4)]
        unfolding before_def after_def by blast
    qed
  qed
qed

section \<open>Opening a damaged log\<close>

text \<open>What opening the directory does after a crash: the descriptors are gone and the faults are over.\<close>

definition reopens :: "nat \<Rightarrow> fp \<Rightarrow> path \<Rightarrow> u64 \<Rightarrow> u64 \<Rightarrow> Record list \<Rightarrow> u64 \<Rightarrow> world \<Rightarrow> bool" where
  "reopens N fp dir base q0 R n w \<longleftrightarrow> (\<forall>f c s fds. \<exists>w' db.
     DB_new dir f c s base ((calm w)\<lparr>w_fds := fds\<rparr>) = Some (Inr db, w') \<and> reopened N fp dir base q0 R n w' db)"

definition refuses :: "string \<Rightarrow> path \<Rightarrow> world \<Rightarrow> bool" where
  "refuses message dir w \<longleftrightarrow> (\<forall>f c s base fds. \<exists>w'.
     DB_new dir f c s base ((calm w)\<lparr>w_fds := fds\<rparr>) = Some (Inl (runtime_error message), w'))"

lemma reopens_new:
  "reopens N fp dir base q0 R n w \<Longrightarrow> \<exists>w' db. DB_new dir f c s base ((calm w)\<lparr>w_fds := fds\<rparr>) = Some (Inr db, w')"
  unfolding reopens_def by blast

lemma refuses_new:
  "refuses message dir w \<Longrightarrow> \<exists>w'. DB_new dir f c s base ((calm w)\<lparr>w_fds := fds\<rparr>) = Some (Inl (runtime_error message), w')"
  unfolding refuses_def by blast

lemma recoverable_reopen: "recoverable N fp dir base q0 R n w \<Longrightarrow> 0 < base \<Longrightarrow> reopens N fp dir base q0 R n w"
  unfolding reopens_def using recoverable_reopens by blast

lemma DB_new_rejects:
  assumes n: "dir_ok dir (calm w)"
    and m: "\<And>v. content_of v (manifest_path dir) = content_of w (manifest_path dir) \<Longrightarrow> nominal v \<Longrightarrow> dir_ok dir v \<Longrightarrow>
      Manifest_new (manifest_path dir) v = Some (Inr m, v)"
    and c: "content_of w (walPath dir (mf_logNumber m)) = Some c"
    and bad: "length c < kWalHeaderSize \<and> message = ''Invalid WAL file format''
      \<or> (\<exists>s. c = wal_header @ s \<and> parseWALRecords c = Inl (runtime_error message))"
  shows "refuses message dir w"
  unfolding refuses_def
proof (intro allI)
  fix f' c' s' base fds
  let ?w = "(calm w)\<lparr>w_fds := fds\<rparr>" and ?p = "walPath dir (mf_logNumber m)"
  have "dir_ok dir ?w" using n by (simp add: dir_ok_def)
  moreover have "Manifest_new (manifest_path dir) v = Some (Inr m, v)"
    if "content_of v (manifest_path dir) = content_of ?w (manifest_path dir)" "nominal v" "dir_ok dir v" for v
    using that by (intro m) simp_all
  ultimately obtain v where v: "nominal v" "dir_ok dir v" "content_of v ?p = content_of ?w ?p"
    "DB_new dir f' c' s' base ?w = io_bind (MemTable_new ?p) (\<lambda>mem. io_ret (opened dir f' c' s' base m mem)) v"
    using DB_new_swept [of dir ?w m] by (auto simp: needed_file_def)
  from MemTable_rejects [OF v(1) dir_ok_creatable [OF v(2)] _ bad, of "mf_logNumber m"] v(3) c obtain w' where
    "MemTable_new ?p v = Some (Inl (runtime_error message), w')" by auto
  with v(4) show "\<exists>w'. DB_new dir f' c' s' base ?w = Some (Inl (runtime_error message), w')" by (simp add: io_bind_def)
qed

lemma dir_ok_log:
  assumes d: "dir_ok dir v" and dirs: "w_dirs w = w_dirs v" and c: "\<And>q. q \<noteq> walPath dir n \<Longrightarrow> content_of w q = content_of v q"
  shows "dir_ok dir w"
proof (rule dir_ok_files [OF d])
  fix q assume q: "q \<in> data_dirs dir"
  have "data_file dir (walPath dir n)" by simp
  from data_file_not_dir [OF this] q have "q \<noteq> walPath dir n" by metis
  with c [of q] d q show "content_of w q = None" by (simp add: dir_ok_def)
qed (simp add: dirs)

text \<open>Reading the catalogue depends on its file only.\<close>

lemma Manifest_new_nominal:
  assumes "nominal u" "dir_ok dir u"
  shows "Manifest_new (manifest_path dir) u = Some (case content_of u (manifest_path dir) of
    None \<Rightarrow> Inr (empty_manifest (manifest_path dir)) | Some c \<Rightarrow> readManifest (manifest_path dir) (c, 0), u)"
proof -
  have "path_exists (manifest_path dir) u = (content_of u (manifest_path dir) \<noteq> None)"
    using assms(2) by (simp add: path_exists_def dir_ok_def)
  with assms(1) show ?thesis
    by (cases "content_of u (manifest_path dir)")
      (simp_all add: Manifest_new_def io_bind_def io_act_def fs_query_def sys_open_read_def empty_manifest_def)
qed

lemma Manifest_new_content:
  assumes "Manifest_new (manifest_path dir) (calm w) = Some (Inr m, calm w)" "dir_ok dir (calm w)"
    and "content_of u (manifest_path dir) = content_of w (manifest_path dir)" "nominal u" "dir_ok dir u"
  shows "Manifest_new (manifest_path dir) u = Some (Inr m, u)"
  using assms(1,3) Manifest_new_nominal [OF assms(4,5)] Manifest_new_nominal [OF _ assms(2)] by simp

lemma short_log_refused:
  assumes d: "dir_ok dir (calm w)" and m: "Manifest_new (manifest_path dir) (calm w) = Some (Inr m, calm w)"
    and c: "content_of w (walPath dir (mf_logNumber m)) = Some c" "length c < kWalHeaderSize"
  shows "refuses ''Invalid WAL file format'' dir w"
  by (rule DB_new_rejects [OF d Manifest_new_content [OF m d] c(1)]) (use c(2) in simp_all)

text \<open>A directory that differs from a sound one only in its log.\<close>

lemma log_differs:
  assumes d: "on_disk fp T bs dir m (calm v)" and dirs: "w_dirs w = w_dirs v"
    and c: "\<And>q. q \<noteq> walPath dir (mf_logNumber m) \<Longrightarrow> content_of w q = content_of v q"
  shows "dir_ok dir (calm w)" "Manifest_new (manifest_path dir) (calm w) = Some (Inr m, calm w)"
proof -
  show ok: "dir_ok dir (calm w)"
  proof (rule dir_ok_log [where v = "calm v" and n = "mf_logNumber m"])
    show "dir_ok dir (calm v)" using on_disk_world [OF d] by blast
    show "w_dirs (calm w) = w_dirs (calm v)" using dirs by simp
    show "content_of (calm w) q = content_of (calm v) q" if "q \<noteq> walPath dir (mf_logNumber m)" for q using c [OF that] by simp
  qed
  have "manifest_path dir \<noteq> walPath dir (mf_logNumber m)" by simp
  from c [OF this] have "content_of (calm w) (manifest_path dir) = content_of (calm v) (manifest_path dir)" by simp
  from on_disk_manifest [OF d this _ ok] show "Manifest_new (manifest_path dir) (calm w) = Some (Inr m, calm w)" by simp
qed

lemma torn_log_refused:
  assumes t: "torn_log N fp dir base q0 R n w" and b: "0 < base"
  shows "refuses ''Invalid WAL file format'' dir w"
    and "\<exists>l k. k < kWalHeaderSize \<and> content_of w (walPath dir l) = Some (take k wal_header)
      \<and> reopens N fp dir base q0 R n (del_file (walPath dir l) w)"
proof -
  from t obtain T m k where k: "k < kWalHeaderSize" "content_of w (walPath dir (mf_logNumber m)) = Some (take k wal_header)"
    and d: "on_disk fp T [] dir m (calm (del_file (walPath dir (mf_logNumber m)) w))" (is "on_disk _ _ _ _ _ (calm ?v)")
    and rest: "in_budget base m" "serves N q0 R (disk_records T [] m) m" "disk_next [] m = n"
    unfolding torn_log_def by blast
  have "recoverable N fp dir base q0 R n ?v" unfolding recoverable_def using d rest by blast
  then have "reopens N fp dir base q0 R n ?v" using b by (rule recoverable_reopen)
  with k show "\<exists>l k. k < kWalHeaderSize \<and> content_of w (walPath dir l) = Some (take k wal_header)
      \<and> reopens N fp dir base q0 R n (del_file (walPath dir l) w)" by blast
  show "refuses ''Invalid WAL file format'' dir w"
    using k(1) by (intro short_log_refused [OF log_differs [OF d] k(2)]) simp_all
qed

lemma torn_tail_refused:
  assumes t: "torn_tail t N fp dir base q0 R n w" and b: "0 < base"
  shows "refuses ''Corrupt WAL frame before a committed batch'' dir w"
    and "\<exists>l c. content_of w (walPath dir l) = Some (c @ t) \<and> reopens N fp dir base q0 R n (set_file (walPath dir l) c w)"
proof -
  from t obtain T bs m where t: "incomplete t" "looks_committed t"
    "content_of w (walPath dir (mf_logNumber m)) = Some (wal_header @ wal_frames bs @ t)"
    and d: "on_disk fp T bs dir m (calm (set_file (walPath dir (mf_logNumber m)) (wal_header @ wal_frames bs) w))" (is "on_disk _ _ _ _ _ (calm ?v)")
    and rest: "in_budget base m" "serves N q0 R (disk_records T bs m) m" "disk_next bs m = n"
    unfolding torn_tail_def by blast
  have "recoverable N fp dir base q0 R n ?v" unfolding recoverable_def using d rest by blast
  then have "reopens N fp dir base q0 R n ?v" using b by (rule recoverable_reopen)
  with t(3) show "\<exists>l c. content_of w (walPath dir l) = Some (c @ t) \<and> reopens N fp dir base q0 R n (set_file (walPath dir l) c w)"
    by (metis append.assoc)
  have "batches_ok bs" using d by (simp add: on_disk_def)
  from parse_incomplete_tail [OF this t(1)] t(2) show "refuses ''Corrupt WAL frame before a committed batch'' dir w"
    using Manifest_new_content [OF log_differs(2,1) [OF d]] log_differs(1) [OF d]
    by (intro DB_new_rejects [OF _ _ t(3)]) simp_all
qed

lemma torn_append_refused:
  "torn_append N fp dir base q0 R n w \<Longrightarrow> 0 < base \<Longrightarrow> refuses ''Corrupt WAL frame before a committed batch'' dir w"
  using torn_tail_refused(1) unfolding torn_append_tail by blast

section \<open>Every operation returns\<close>

text \<open>A compaction reads at most as many records as the database has.\<close>

lemma selection_small:
  assumes o: "db_open fp T bs (calm w) db" and sel: "selects (db_manifest db) rem l"
  shows "length (compaction_records (tablePaths (db_dataDirectory db) rem) (smallestActiveSnapshot db) w) \<le> 2 ^ 40"
proof -
  have ready: "db_ready fp T (calm w) db" using o by (simp add: db_open_def)
  from selection_merged [OF this sel] obtain its out where
    "openTableIterators (tablePaths (db_dataDirectory db) rem) (calm w) = Some (Inr its, calm w)" "mergeAll (map RawIt its) = Inr out"
    and out: "sorted_records out" "set out = chosen T db rem" "out \<noteq> []" .
  then have "compaction_records (tablePaths (db_dataDirectory db) rem) (smallestActiveSnapshot db) w
      = retainForCompaction out (smallestActiveSnapshot db)"
    by (simp add: compaction_records_def)
  moreover have "length (db_records T db) \<le> 2 ^ 40" using ready by (simp add: db_ready_def records_fit_def)
  ultimately show ?thesis using retained_bound(2) [OF out(1,2), of "smallestActiveSnapshot db"] by simp
qed

lemma compactLevel_returns:
  assumes o: "db_open fp T bs (calm w) db" and p: "patient w"
  shows "\<exists>x w' db'. compactLevel fp n (w, db) = Some (x, (w', db')) \<and> patient w'"
proof (cases "Manifest_level n (db_manifest db) = []")
  case True
  then show ?thesis using p
    by (cases "n = 0") (simp_all add: compactLevel_def selectHigherLevelCompactionTables_def db_get_def io_bind_def)
next
  case ne: False
  have ready: "db_ready fp T (calm w) db" using o by (simp add: db_open_def)
  then have cat: "catalogue_ok fp T (calm w) (db_dataDirectory db) (db_manifest db)" and fp: "fp_ok fp"
    by (simp_all add: db_ready_def db_inv_def)
  obtain rem U lo hi cu where pick: "picked (db_manifest db) rem (Suc n) U lo hi"
    and sel: "\<forall>v. compactLevel fp n (v, db) = compactRange fp rem (of_nat (Suc n)) (v, db\<lparr>db_compactionCursors := cu\<rparr>)"
    by (rule compactLevel_selection [OF cat ne])
  have same: "smallestActiveSnapshot (db\<lparr>db_compactionCursors := cu\<rparr>) = smallestActiveSnapshot db"
    "db_dataDirectory (db\<lparr>db_compactionCursors := cu\<rparr>) = db_dataDirectory db" by (simp_all add: smallestActiveSnapshot_def)
  from selection_small [OF o picked_selects [OF cat pick]]
  have "\<exists>x w' db'. compactRange fp rem (of_nat (Suc n)) (w, db\<lparr>db_compactionCursors := cu\<rparr>) = Some (x, (w', db')) \<and> patient w'"
    by (intro compactRange_returns [OF p fp]) (simp only: same)
  then show ?thesis by (simp add: sel del: of_nat_Suc)
qed

lemma maybeCompact_returns:
  assumes "db_open fp T bs (calm w) db" "numbers_left T db" "patient w"
  shows "\<exists>r s. maybeCompact fp (w, db) = Some (r, s)"
  using assms
proof (induction "weight T (db_manifest db)" arbitrary: T w db rule: less_induct)
  case less
  show ?case
  proof (cases "settled db")
    case True
    then show ?thesis by (simp add: maybeCompact_step [of fp w db])
  next
    case False
    from less.prems(1,2) False obtain n where
      step: "maybeCompact fp (w, db) = (case compactLevel fp n (w, db) of
          None \<Rightarrow> None | Some (Inl e, s') \<Rightarrow> Some (Inl e, s') | Some (Inr _, s') \<Rightarrow> maybeCompact fp s')"
      and go: "\<And>w1 db1. compactLevel fp n (w, db) = Some (Inr (), (w1, db1)) \<Longrightarrow>
          \<exists>T1 v. db_open fp T1 bs (calm w1) db1 \<and> compacted fp T (calm w) db T1 v db1 \<and> numbers_left T1 db1
            \<and> weight T1 (db_manifest db1) < weight T (db_manifest db)
            \<and> unat (mf_nextTableNumber (db_manifest db1)) + length (db_records T1 db1) * Suc (weight T1 (db_manifest db1))
              \<le> unat (mf_nextTableNumber (db_manifest db)) + length (db_records T db) * Suc (weight T (db_manifest db))"
      by (rule maybeCompact_round [OF _ _ _ order_refl]) (rule that)
    from compactLevel_returns [OF less.prems(1,3)] obtain x w1 db1 where
      c: "compactLevel fp n (w, db) = Some (x, (w1, db1))" "patient w1" by blast
    show ?thesis
    proof (cases x)
      case (Inr u)
      with go c(1) obtain T1 where "db_open fp T1 bs (calm w1) db1" "numbers_left T1 db1"
        "weight T1 (db_manifest db1) < weight T (db_manifest db)" by auto
      with less.hyps c(2) have "\<exists>r s. maybeCompact fp (w1, db1) = Some (r, s)" by blast
      with step c(1) Inr show ?thesis by simp
    qed (use step c(1) in simp)
  qed
qed

text \<open>The first part of a flush, which works on the MemTable \<open>mem\<close>.\<close>

abbreviation flushing :: "MemTable \<Rightarrow> (world \<times> DB, 'a) prog \<Rightarrow> bool" where
  "flushing mem \<equiv> ends (\<lambda>s. patient (fst s) \<and> db_activeMemTable (snd s) = mem)"

lemma flushing_outer: "patiently m \<Longrightarrow> flushing mem (io_outer m)"
  unfolding ends_def io_outer_def by (fastforce split: option.splits)

lemma flushing_manifest: "flushing mem (on_manifest (manifest_act f))" "flushing mem (on_manifest (manifest_try g))"
  by (auto intro!: endsI simp: on_manifest_def manifest_act_def manifest_try_def split: prod.split)

lemma flushing_get: "flushing mem (db_get f)"
  by (rule endsI) (simp add: db_get_def)

lemma flushing_get_mem: "flushing mem (k mem) \<Longrightarrow> flushing mem (io_bind (db_get db_activeMemTable) k)"
  unfolding ends_def db_get_def by simp

lemma fillFlush_returns:
  assumes o: "db_open fp T bs (calm w) db" and p: "patient w"
  shows "\<exists>x w' db'. fillFlush fp (w, db) = Some (x, (w', db')) \<and> patient w'"
proof -
  let ?mem = "db_activeMemTable db"
  have "fp_ok fp" "records_fit (db_records T db)" using o by (simp_all add: db_open_def db_ready_def)
  then have b: "patiently (build fp ?mem p)" for p
    by (intro ends_build) (simp_all add: records_fit_def db_records_def sources_def mt_records_def)
  have "flushing ?mem (fillFlush fp)"
    unfolding fillFlush_def Let_def
    by (rule flushing_get_mem ends_bind ends_ret flushing_get flushing_manifest flushing_outer ends_if ends_case_prod b
        ends_throwing ends_create_directories)+
  from endsD [OF this, of "(w, db)"] p show ?thesis by auto
qed

lemma flush_body_returns:
  assumes o: "db_open fp T bs (calm w) db" and ne: "MemTable_size (db_activeMemTable db) \<noteq> 0" and room: "room_for T db 0"
    and p: "patient w"
  shows "\<exists>r s. flush_body fp (w, db) = Some (r, s)"
proof -
  let ?dir = "db_dataDirectory db" and ?n = "mf_nextTableNumber (db_manifest db)" and ?fm = "flushed_manifest fp db"
  from fillFlush_returns [OF o p] obtain x w1 db1 where fill: "fillFlush fp (w, db) = Some (x, (w1, db1))" and p1: "patient w1" by blast
  show ?thesis
  proof (cases x)
    case (Inl e)
    with fill show ?thesis by (simp add: flush_body_split io_bind_def)
  next
    case x: (Inr y)
    note y = fillFlush_done [OF o ne fill [unfolded x]]
    from endsD [OF ends_Manifest_save p1, of ?fm] obtain z w2 where save: "Manifest_save ?fm w1 = Some (z, w2)" and p2: "patient w2" by auto
    have "patiently2 (switchLog ?dir (?n + 1))" unfolding switchLog_def by (intro ends_intros)
    from endsD [OF this, of "(w2, db\<lparr>db_manifest := ?fm\<rparr>)"] p2 obtain q w3 db3 where
      sw: "switchLog ?dir (?n + 1) (w2, db\<lparr>db_manifest := ?fm\<rparr>) = Some (q, (w3, db3))" and p3: "patient w3" by auto
    have run: "flush_body fp (w, db) = (case z of Inl e \<Rightarrow> Some (Inl e, (w2, db\<lparr>db_manifest := ?fm\<rparr>))
        | Inr _ \<Rightarrow> (case q of Inl e \<Rightarrow> Some (Inl e, (w3, db3)) | Inr _ \<Rightarrow> maybeCompact fp (w3, db3)))"
      using fill x y(1,2) save sw
      by (simp add: flush_body_split io_bind_def [of "fillFlush fp"] db_get_def io_bind_def io_outer_def split: sum.split)
    show ?thesis
    proof (cases "\<exists>u u'. z = Inr u \<and> q = Inr u'")
      case True
      then obtain u u' where zq: "z = Inr u" "q = Inr u'" by blast
      note none = flush_log_absent [OF o ne room fillFlush_orphans [OF fill orphans_refl [OF open_on_disk_same [OF o]]] save]
      from robustD [OF robust_Manifest_save y(3) save [unfolded zq]] flush_saved(1) [OF o ne]
      have "twin w2 (flush_files fp (calm w) db)" by auto
      from flush_switched(2,3) [OF o ne room this none sw [unfolded zq]] p3 have "\<exists>r s. maybeCompact fp (w3, db3) = Some (r, s)"
        by (rule maybeCompact_returns)
      with run zq show ?thesis by simp
    qed (use run in \<open>auto split: sum.splits\<close>)
  qed
qed

lemma flush_returns:
  assumes "db_open fp T bs (calm w) db" "room_for T db 0" "patient w"
  shows "\<exists>r s. flush fp (w, db) = Some (r, s)"
proof (cases "MemTable_size (db_activeMemTable db) = 0")
  case False
  from flush_body_returns [OF assms(1) False assms(2,3)] obtain r s where "flush_body fp (w, db) = Some (r, s)" by blast
  with False show ?thesis by (cases r) (simp_all add: flush_def db_get_def db_upd_def io_bind_def io_try_def split: prod.split)
qed (simp add: flush_def db_get_def io_bind_def)

lemma write_outcome:
  assumes o: "db_open fp T bs (calm w) db" and fit: "batch_fits T db b"
    and run: "DB_write fp b (w, db) = Some (r, (w', db'))"
  defines "rs \<equiv> number_records (db_nextSeq db) (wb_records b)"
  assumes N: "unat (mf_nextTableNumber (db_manifest db)) + flush_numbers (length (db_records T db) + length rs) \<le> N"
  defines "after \<equiv> reopens N fp (db_dataDirectory db) (db_compactionBaseThresholdBytes db) (oldest_after rs db) (db_records T db @ rs)
      (db_nextSeq db + of_nat (length rs))"
    and "before \<equiv> reopens N fp (db_dataDirectory db) (db_compactionBaseThresholdBytes db) (smallestActiveSnapshot db)
      (db_records T db) (db_nextSeq db)"
    and "frame \<equiv> encodeWALFrame (batch_payload rs)"
  shows "r = Inr True \<and> (after w' \<or> refuses ''Invalid WAL file format'' (db_dataDirectory db) w'
        \<and> (\<exists>n k. k < kWalHeaderSize \<and> content_of w' (walPath (db_dataDirectory db) n) = Some (take k wal_header)
          \<and> after (del_file (walPath (db_dataDirectory db) n) w')))
    \<or> r = Inr False \<and> (before w' \<or> after w' \<or> refuses ''Corrupt WAL frame before a committed batch'' (db_dataDirectory db) w'
        \<and> (\<exists>n c k. k < length frame \<and> content_of w' (walPath (db_dataDirectory db) n) = Some (c @ take k frame)
          \<and> before (set_file (walPath (db_dataDirectory db) n) c w')))"
proof -
  have b: "0 < db_compactionBaseThresholdBytes db" using o by (simp add: db_open_def)
  from DB_write_faulty [OF o fit run N [unfolded rs_def]] show ?thesis
    unfolding rs_def [symmetric] frame_def [symmetric]
  proof (elim disjE conjE exE)
    assume "r = Inr True" "kept N fp (db_dataDirectory db) (db_compactionBaseThresholdBytes db) (oldest_after rs db) (db_records T db @ rs)
      (db_nextSeq db + of_nat (length rs)) w'"
    then show ?thesis
      unfolding kept_def after_def using recoverable_reopen [OF _ b] torn_log_refused [OF _ b] by meson
  next
    fix k assume "r = Inr False" "k < length frame" "torn_tail (take k frame) N fp (db_dataDirectory db)
      (db_compactionBaseThresholdBytes db) (smallestActiveSnapshot db) (db_records T db) (db_nextSeq db) w'"
    then show ?thesis unfolding before_def using torn_tail_refused [OF _ b] by meson
  qed (use recoverable_reopen [OF _ b] in \<open>simp_all add: after_def before_def\<close>)
qed

lemma compact_recoverable:
  assumes o: "db_open fp T bs (calm w) db"
    and room: "unat (mf_nextTableNumber (db_manifest db)) + length (db_records T db) < 2 ^ 64"
    and run: "DB_compact fp (w, db) = Some (r, (w', db'))"
    and N: "unat (mf_nextTableNumber (db_manifest db)) + length (db_records T db) \<le> N"
  shows "recoverable N fp (db_dataDirectory db) (db_compactionBaseThresholdBytes db) (smallestActiveSnapshot db)
    (db_records T db) (db_nextSeq db) w'"
proof (cases "Manifest_level 0 (db_manifest db) = []")
  case True
  then have "w' = w" using run by (simp add: DB_compact_def compactLevel_def db_get_def io_bind_def)
  then show ?thesis using recoverable_same [OF o open_on_disk_same [OF o]] N by simp
next
  case False
  show ?thesis by (rule compactLevel_faulty(1) [OF o _ False _ room run [unfolded DB_compact_def] N]) simp_all
qed

section \<open>Properties\<close>

text \<open>Worlds with a fault policy, for examples.\<close>

lemma calm_faulty [simp]: "nominal w \<Longrightarrow> calm (w\<lparr>w_policy := p\<rparr>) = w"
  by (cases w) (simp add: calm_def nominal_def)

lemma patient_faulty:
  assumes "nominal w" "never_interrupts p"
  shows "patient (w\<lparr>w_policy := Some p\<rparr>)"
proof -
  have "\<forall>m. \<exists>n \<ge> m. sconst OsOk !! n \<noteq> OsErr EINTR" by auto
  with assms show ?thesis by (simp add: patient_def nominal_def not_interrupted_forever_def)
qed

lemma EIO_not_EINTR [simp]: "EIO \<noteq> EINTR"
  by (simp add: EIO_def EINTR_def)

lemma failing_append:
  assumes "\<not> poisoned m" "ops \<noteq> []" "w_policy w = Some (failNth Op_Write 1 EIO)"
  shows "\<exists>w'. applyBatch ops (w, m) = Some (Inr False, (w', poison m))"
  using assms
  by (simp add: applyBatch_def on_walWriter_def WALFileWriter_write_def io_bind_def io_try_def io_outer_def io_act_def Let_def
      fault_write_def consult_def failNth_def Decision_fail_def EIO_def poison_def)

lemma example_new:
  "\<exists>w db. DB_new [''d''] 100 4 1000 1000 empty_world = Some (Inr db, w) \<and> db_open fp_example (\<lambda>_. []) [] w db
    \<and> batch_fits (\<lambda>_. []) db (WriteBatch_put ''a'' ''x'' WriteBatch_new) \<and> \<not> db_writeFailed db \<and> db_dataDirectory db = [''d'']
    \<and> db_compactionBaseThresholdBytes db = 1000"
proof -
  let ?T = "\<lambda>_. [] :: Record list" and ?b = "WriteBatch_put ''a'' ''x'' WriteBatch_new"
  from new_database [of "[''d'']" 1000 fp_example 100 4 1000 ?T] fp_example_ok obtain w db where
    d: "DB_new [''d''] 100 4 1000 1000 empty_world = Some (Inr db, w)" "db_open fp_example ?T [] w db"
    "db_records ?T db = []" "db_nextSeq db = 1" "\<not> db_writeFailed db" "db_dataDirectory db = [''d'']"
    "db_manifest db = empty_manifest (manifest_path [''d''])" "db_compactionBaseThresholdBytes db = 1000" by auto
  have rs: "number_records (db_nextSeq db) (wb_records ?b) = [\<lparr>rec_key = ''a'', rec_seq = 1, rec_type = Type_VALUE, rec_value = ''x''\<rparr>]"
    by (simp add: d WriteBatch_put_def WriteBatch_new_def)
  have "records_fit (number_records (db_nextSeq db) (wb_records ?b))"
    unfolding rs by (simp add: records_fit_def records_bytes_def encodable_def length_record_bytes)
  then have "batch_fits ?T db ?b"
    unfolding batch_fits_def Let_def rs by (simp add: d room_for_def flush_numbers_def empty_manifest_def)
  with d show ?thesis by blast
qed

text \<open>
  C4: crash safety of writes. Take a database in order and let any system calls of a write fail, at
  any point and in any way (also all from some point on, which is what a crash leaves). A write that
  returns does not throw. If it answers true, opening the directory afterwards gives a database with
  the old records and all of the batch, and the next sequence number after it. If it answers false,
  opening gives the database without the batch, or with all of it, and never a part. There are two
  exceptions, in which the directory cannot be opened until a log is mended by hand. Nothing is lost
  in either. After an acknowledged write a new log may hold a part of its header and nothing else, and
  without that file the directory opens with the whole batch. After a refused write the log may end in
  a proper part of the frame of this very batch, and without that part, and nothing else of the log,
  the directory opens as it was before the write.
\<close>

theorem write_crash_safe:
  assumes o: "db_open fp T bs (calm w) db" and fit: "batch_fits T db b"
    and run: "DB_write fp b (w, db) = Some (r, (w', db'))"
  defines "rs \<equiv> number_records (db_nextSeq db) (wb_records b)"
  defines "N \<equiv> unat (mf_nextTableNumber (db_manifest db)) + flush_numbers (length (db_records T db) + length rs)"
  defines "after \<equiv> reopens N fp (db_dataDirectory db) (db_compactionBaseThresholdBytes db) (oldest_after rs db) (db_records T db @ rs)
      (db_nextSeq db + of_nat (length rs))"
    and "before \<equiv> reopens N fp (db_dataDirectory db) (db_compactionBaseThresholdBytes db) (smallestActiveSnapshot db)
      (db_records T db) (db_nextSeq db)"
    and "frame \<equiv> encodeWALFrame (batch_payload rs)"
  shows "r = Inr True \<and> (after w' \<or> refuses ''Invalid WAL file format'' (db_dataDirectory db) w'
        \<and> (\<exists>n k. k < kWalHeaderSize \<and> content_of w' (walPath (db_dataDirectory db) n) = Some (take k wal_header)
          \<and> after (del_file (walPath (db_dataDirectory db) n) w')))
    \<or> r = Inr False \<and> (before w' \<or> after w' \<or> refuses ''Corrupt WAL frame before a committed batch'' (db_dataDirectory db) w'
        \<and> (\<exists>n c k. k < length frame \<and> content_of w' (walPath (db_dataDirectory db) n) = Some (c @ take k frame)
          \<and> before (set_file (walPath (db_dataDirectory db) n) c w')))"
  using write_outcome [OF o fit run] unfolding after_def before_def N_def rs_def frame_def by simp

theorem write_crash_safe_witness:
  "\<exists>w db w' db'. DB_new [''d''] 100 4 1000 1000 empty_world = Some (Inr db, w)
    \<and> DB_write fp_example (WriteBatch_put ''a'' ''x'' WriteBatch_new) (w\<lparr>w_policy := Some (failNth Op_Write 1 EIO)\<rparr>, db)
      = Some (Inr False, (w', db'))
    \<and> (\<exists>w2 db2. DB_new [''d''] 100 4 1000 1000 ((calm w')\<lparr>w_fds := []\<rparr>) = Some (Inr db2, w2)
      \<or> DB_new [''d''] 100 4 1000 1000 ((calm w')\<lparr>w_fds := []\<rparr>)
        = Some (Inl (runtime_error ''Corrupt WAL frame before a committed batch''), w2))"
proof -
  let ?b = "WriteBatch_put ''a'' ''x'' WriteBatch_new"
  from example_new obtain w db where d: "DB_new [''d''] 100 4 1000 1000 empty_world = Some (Inr db, w)"
    "db_open fp_example (\<lambda>_. []) [] w db" "batch_fits (\<lambda>_. []) db ?b" "\<not> db_writeFailed db" "db_dataDirectory db = [''d'']"
    "db_compactionBaseThresholdBytes db = 1000" by blast
  let ?w = "w\<lparr>w_policy := Some (failNth Op_Write 1 EIO)\<rparr>"
  have n: "nominal w" and p: "\<not> poisoned (db_activeMemTable db)" using d(2) by (auto simp: db_open_def db_ready_def wal_state_def)
  then have o: "db_open fp_example (\<lambda>_. []) [] (calm ?w) db" using d(2) by simp
  have "number_records (db_nextSeq db) (wb_records ?b) \<noteq> []" by (simp add: WriteBatch_put_def WriteBatch_new_def)
  from failing_append [OF p this, of ?w] obtain w' db' where run: "DB_write fp_example ?b (?w, db) = Some (Inr False, (w', db'))"
    by (auto simp: DB_write_unfold [OF d(4)] Let_def)
  from write_crash_safe [OF o d(3) run] d(5,6) have "\<exists>w2 db2. DB_new [''d''] 100 4 1000 1000 ((calm w')\<lparr>w_fds := []\<rparr>) = Some (Inr db2, w2)
      \<or> DB_new [''d''] 100 4 1000 1000 ((calm w')\<lparr>w_fds := []\<rparr>)
        = Some (Inl (runtime_error ''Corrupt WAL frame before a committed batch''), w2)"
    by (auto dest!: reopens_new [of _ _ _ _ _ _ _ _ 100 4 1000 "[]"] refuses_new [of _ _ _ 100 4 1000 1000 "[]"])
  with d(1) run show ?thesis by blast
qed

text \<open>A database with one record, flushed into a table.\<close>

lemma example_flushed:
  obtains T bs w db where "db_open fp_example T bs w db" "nominal w" "smallestActiveSnapshot db = 1" "db_nextSeq db = 2"
    "unat (mf_nextTableNumber (db_manifest db)) + length (db_records T db) < 2 ^ 64"
    "read_value (db_records T db) ''a'' 1 = Some ''x''"
proof -
  let ?\<sigma> = "snd (spec_all store_op [Put ''a'' ''x'', Flush] new_store)"
  from new_implements [of "[''d'']" 1000 fp_example 100 4 1000] fp_example_ok obtain s0 where
    "implements fp_example new_store s0" by auto
  moreover have "fits_all op_fits store_op [Put ''a'' ''x'', Flush] new_store" by (simp add: session_simps)
  ultimately obtain w db where "implements fp_example ?\<sigma> (w, db)" using db_sim.run_refines by (metis surj_pair)
  then obtain T bs where i: "db_open fp_example T bs w db" "same_reads T ?\<sigma> db" "db_nextSeq db = st_next ?\<sigma>"
    "unat (mf_nextTableNumber (db_manifest db)) \<le> st_numbers ?\<sigma>" "smallestActiveSnapshot db = oldest_read ?\<sigma>"
    "length (db_records T db) \<le> length (st_log ?\<sigma>)" by (rule implementsE)
  have "op_fits Compact ?\<sigma>" by (simp add: session_simps)
  then have "unat (mf_nextTableNumber (db_manifest db)) + length (db_records T db) < 2 ^ 64" using i(4,6) by simp
  moreover have "smallestActiveSnapshot db = 1" "db_nextSeq db = 2" using i(3,5) by (simp_all add: session_simps)
  moreover have "read_value (st_log ?\<sigma>) ''a'' 1 = Some ''x''" "oldest_read ?\<sigma> = 1"
    by (simp_all add: session_simps read_value_def)
  then have "read_value (db_records T db) ''a'' 1 = Some ''x''" using i(2) by (simp add: same_reads_def read_value_def)
  moreover have "nominal w" using i(1) by (simp add: db_open_def db_ready_def)
  ultimately show thesis using i(1) that by blast
qed

text \<open>
  C5: crash safety of compaction. Whatever system calls of a compaction fail, at any point, opening
  the directory afterwards gives a database that answers every read at or above the oldest active
  snapshot as before, with the same next sequence number: the inputs are removed only after the
  catalogue that no longer names them has been published, and outputs it does not name yet are swept.
\<close>

theorem compaction_crash_safe:
  assumes "db_open fp T bs (calm w) db"
    and "unat (mf_nextTableNumber (db_manifest db)) + length (db_records T db) < 2 ^ 64"
    and "DB_compact fp (w, db) = Some (r, (w', db'))"
  defines "N \<equiv> unat (mf_nextTableNumber (db_manifest db)) + length (db_records T db)"
  shows "reopens N fp (db_dataDirectory db) (db_compactionBaseThresholdBytes db) (smallestActiveSnapshot db)
    (db_records T db) (db_nextSeq db) w'"
  by (rule recoverable_reopen [OF compact_recoverable [OF assms(1-3)]]) (use assms(1) in \<open>simp_all add: N_def db_open_def\<close>)

theorem compaction_crash_safe_witness:
  "\<exists>w db r w' db' T w2 db2. DB_compact fp_example (w\<lparr>w_policy := Some (failEvery Op_Fsync EIO)\<rparr>, db) = Some (r, (w', db'))
    \<and> DB_new (db_dataDirectory db) 0 4 1000 (db_compactionBaseThresholdBytes db) ((calm w')\<lparr>w_fds := []\<rparr>) = Some (Inr db2, w2)
    \<and> read_value (db_records T db2) ''a'' 1 = Some ''x'' \<and> db_nextSeq db2 = 2"
proof -
  obtain T bs w db where i: "db_open fp_example T bs w db" "nominal w" "smallestActiveSnapshot db = 1" "db_nextSeq db = 2"
    "unat (mf_nextTableNumber (db_manifest db)) + length (db_records T db) < 2 ^ 64"
    "read_value (db_records T db) ''a'' 1 = Some ''x''" by (rule example_flushed)
  let ?w = "w\<lparr>w_policy := Some (failEvery Op_Fsync EIO)\<rparr>"
  have o: "db_open fp_example T bs (calm ?w) db" using i(1,2) by simp
  have p: "patient ?w" by (rule patient_faulty [OF i(2)]) (simp add: never_interrupts_failEvery)
  from compactLevel_returns [OF o p, of 0] obtain x w' db' where run: "DB_compact fp_example (?w, db) = Some (x, (w', db'))"
    unfolding DB_compact_def by blast
  from compaction_crash_safe [OF o i(5) run] i(3,4) obtain T2 w2 db2 where
    new: "DB_new (db_dataDirectory db) 0 4 1000 (db_compactionBaseThresholdBytes db) ((calm w')\<lparr>w_fds := []\<rparr>) = Some (Inr db2, w2)"
    "visible (db_records T2 db2) ''a'' 1 = visible (db_records T db) ''a'' 1" "db_nextSeq db2 = 2"
    unfolding reopens_def reopened_def serves_def by fastforce
  then have "read_value (db_records T2 db2) ''a'' 1 = Some ''x''" using i(6) by (simp add: read_value_def)
  with run new show ?thesis by blast
qed

text \<open>
  C34: a log whose header is cut short, which a flush leaves when it fails after it has made the new
  log file, makes the directory unusable, although nothing was ever written to that log: the
  constructor throws on every directory whose catalogue can be read and names such a log, whatever
  the tables, the temporary files and the other logs hold.
\<close>

theorem short_log_rejected:
  assumes "dir_ok dir (calm w)" "Manifest_new (manifest_path dir) (calm w) = Some (Inr m, calm w)"
    and "content_of w (walPath dir (mf_logNumber m)) = Some content" "length content < kWalHeaderSize"
  shows "\<exists>w'. DB_new dir flushThreshold compactThreshold sliceThreshold base ((calm w)\<lparr>w_fds := fds\<rparr>)
    = Some (Inl (runtime_error ''Invalid WAL file format''), w')"
  by (rule refuses_new [OF short_log_refused [OF assms]])

text \<open>An example with a damaged table beside the short log.\<close>

theorem short_log_rejected_witness:
  "\<exists>w'. DB_new [''d''] 100 4 1000 1000 (set_file (walPath [''d''] 0) ''LS'' (set_file (sstablePath [''d''] 7) ''damaged'' empty_world))
    = Some (Inl (runtime_error ''Invalid WAL file format''), w')"
proof -
  let ?m = "empty_manifest (manifest_path [''d''])"
  let ?w = "set_file (walPath [''d''] 0) ''LS'' (set_file (sstablePath [''d''] 7) ''damaged'' empty_world)"
  have m: "mf_logNumber ?m = 0" by (simp add: empty_manifest_def)
  have e: "calm ?w = ?w" "?w\<lparr>w_fds := []\<rparr> = ?w"
    by (simp_all add: calm_def set_file_def empty_world_def)
  have "dir_ok [''d''] ?w"
  proof (rule dir_ok_files)
    show "dir_ok [''d''] empty_world" using empty_directory [of "[''d'']"] by simp
    have "data_file [''d''] (walPath [''d''] 0)" "data_file [''d''] (sstablePath [''d''] 7)" by simp_all
    then show "content_of ?w q = None" if "q \<in> data_dirs [''d'']" for q
      using data_file_not_dir that by (auto simp: empty_world_def)
  qed simp
  moreover from this have "Manifest_new (manifest_path [''d'']) ?w = Some (Inr ?m, ?w)"
    by (subst Manifest_new_nominal) (simp_all add: empty_world_def nominal_def)
  ultimately show ?thesis
    using short_log_rejected [of "[''d'']" ?w ?m "''LS''" 100 4 1000 1000 "[]"]
    by (simp add: m e kWalHeaderSize_def kWalMagic_def)
qed

text \<open>
  C16: the operations return, normally or by an exception, whatever system calls fail, unless signals
  interrupt their writes forever. Openings and scans do so from every state of the database and every
  content of the disk, also a damaged one. A read does so if the Bloom filters of the tables of the
  catalogue are usable: well formed in the cache, with at least one word in a file. Without that it may
  divide by zero or read out of bounds, which is undefined; nothing else in the files need be sound. A manual compaction does so on a host whose
  floating-point arithmetic is as assumed, if it writes at most \<open>2 ^ 40\<close> records.
\<close>

theorem operations_return:
  assumes p: "patient w"
  shows "(\<exists>r w'. DB_new dir f c s base w = Some (r, w'))
    \<and> (\<exists>r w' db'. DB_scan a b q (w, db) = Some (r, (w', db')))
    \<and> (filters_usable w db \<longrightarrow> (\<exists>r w' db'. DB_get k v (w, db) = Some (r, (w', db')))
        \<and> (\<exists>r w' db'. DB_get_at k q v (w, db) = Some (r, (w', db'))))
    \<and> (fp_ok fp \<and> length (level0_records w db) \<le> 2 ^ 40
        \<longrightarrow> (\<exists>r w' db'. DB_compact fp (w, db) = Some (r, (w', db'))))"
proof (intro conjI impI)
  show "\<exists>r w'. DB_new dir f c s base w = Some (r, w')" using endsD [OF ends_DB_new p] by blast
  show "\<exists>r w' db'. DB_scan a b q (w, db) = Some (r, (w', db'))" using endsD [OF ends_DB_scan [of a b q], of "(w, db)"] p by auto
next
  assume u: "filters_usable w db"
  have "reading (db_manifest db) (DB_get k v)" unfolding DB_get_def by (intro ends_intros reading_DB_get_at)
  from endsD [OF this, of "(w, db)"] p u show "\<exists>r w' db'. DB_get k v (w, db) = Some (r, (w', db'))" by auto
  from endsD [OF reading_DB_get_at [of "db_manifest db" k q v], of "(w, db)"] p u
  show "\<exists>r w' db'. DB_get_at k q v (w, db) = Some (r, (w', db'))" by auto
next
  assume "fp_ok fp \<and> length (level0_records w db) \<le> 2 ^ 40"
  then show "\<exists>r w' db'. DB_compact fp (w, db) = Some (r, (w', db'))" using DB_compact_returns [OF p] by blast
qed

text \<open>The conditions hold in every database in order, and an example has a flushed table.\<close>

lemma open_usable:
  assumes o: "db_open fp T bs (calm w) db"
  shows "filters_usable w db" "fp_ok fp" "length (level0_records w db) \<le> 2 ^ 40"
proof -
  let ?m = "db_manifest db" and ?dir = "db_dataDirectory db"
  have cat: "catalogue_ok fp T (calm w) ?dir ?m" and cache: "cache_ok fp T db"
    using o by (simp_all add: db_open_def db_ready_def db_inv_def)
  show "fp_ok fp" using o by (simp add: db_open_def db_ready_def)
  have words: "bf_words bf \<noteq> []" if "bloom_wf bf" for bf
    using that wordCountFor_zero [of "bf_bitCount bf"] by (auto simp: bloom_wf_def unat_eq_zero)
  have "usable_filter w db t" if t: "t \<in> set (all_tables ?m)" for t
  proof -
    let ?p = "sstablePath ?dir (tm_number t)"
    from cat t have f: "table_ok fp (tbl T t)" "content_of w ?p = Some (sst_image fp (tbl T t))"
      by (auto simp: catalogue_ok_def table_at_def table_file_def)
    note wf = table_ok_bloom(2) [OF f(1)]
    have "stored_filter (sst_image fp (tbl T t)) = Inr (sst_bloom fp (tbl T t))"
      using SSTable_new_filter [OF SSTable_open [OF _ _ f(1), of "calm w" ?p]] f(2) by (simp add: sst_of_def)
    moreover have "st_bloomFilter st = sst_bloom fp (tbl T t)" if "map_of (db_tableCache db) (tm_number t) = Some st" for st
    proof -
      from t have "tm_number t \<in> tm_number ` set (all_tables ?m)" by blast
      with cache that have "st = sst_of (sstablePath ?dir (tm_number t)) fp (T (tm_number t))" unfolding cache_ok_def by blast
      then show ?thesis by (simp add: sst_of_def tbl_def)
    qed
    ultimately show ?thesis using f(2) wf words [OF wf] by (simp add: usable_filter_def split: option.split)
  qed
  then show "filters_usable w db" by (simp add: filters_usable_def list_all_iff all_tables_def)
  show "length (level0_records w db) \<le> 2 ^ 40"
  proof (cases "Manifest_level 0 ?m = []")
    case False
    then obtain lo hi where "picked ?m (selectLevelZeroCompactionTables ?m) 1 (set (Manifest_level 0 ?m)) lo hi"
      using level_zero_picked by blast
    from selection_small [OF o picked_selects [OF cat this]] False show ?thesis by (simp add: level0_records_def)
  qed (simp add: level0_records_def)
qed

theorem operations_return_witness:
  "\<exists>T bs w db r w' db' r2 w2 db2. db_open fp_example T bs w db \<and> read_value (db_records T db) ''a'' 1 = Some ''x''
    \<and> DB_get ''a'' [] (w\<lparr>w_policy := Some (failEvery Op_Fsync EIO)\<rparr>, db) = Some (r, (w', db'))
    \<and> DB_compact fp_example (w\<lparr>w_policy := Some (failEvery Op_Fsync EIO)\<rparr>, db) = Some (r2, (w2, db2))"
proof -
  obtain T bs w db where i: "db_open fp_example T bs w db" "nominal w"
    "read_value (db_records T db) ''a'' 1 = Some ''x''" by (rule example_flushed)
  let ?w = "w\<lparr>w_policy := Some (failEvery Op_Fsync EIO)\<rparr>"
  have "db_open fp_example T bs (calm ?w) db" using i(1,2) by simp
  note u = open_usable [OF this]
  have "patient ?w" by (rule patient_faulty [OF i(2)]) (simp add: never_interrupts_failEvery)
  note ret = operations_return [OF this]
  from ret u(1) obtain r w' db' where "DB_get ''a'' [] (?w, db) = Some (r, (w', db'))" by meson
  moreover from ret u(2,3) obtain r2 w2 db2 where "DB_compact fp_example (?w, db) = Some (r2, (w2, db2))" by meson
  ultimately show ?thesis using i(1,3) by blast
qed

text \<open>
  C15: a write returns, whatever system calls fail, unless signals interrupt its writes forever: also
  when it flushes, and when the flush starts a series of compactions.
\<close>

theorem write_returns:
  assumes o: "db_open fp T bs (calm w) db" and fit: "batch_fits T db b" and p: "patient w"
  shows "\<exists>r w' db'. DB_write fp b (w, db) = Some (r, (w', db'))"
proof (cases "db_writeFailed db")
  case True
  then show ?thesis by (simp add: DB_write_def db_get_def io_bind_def)
next
  case nf: False
  define rs where "rs = number_records (db_nextSeq db) (wb_records b)"
  have wal: "wal_state bs (calm w) db" using o by (simp add: db_open_def)
  then have lo: "log_open w (db_activeMemTable db) (wal_header @ wal_frames bs)" and lp: "mt_logPath (db_activeMemTable db) = db_walFilePath db"
    using wal_state_path [OF wal] by (simp_all add: wal_state_def log_open_def open_on_def)
  note patiently = endsD [OF ends_applyBatch, of "(w, db_activeMemTable db)" rs]
  have ack: ?thesis if ab: "applyBatch rs (w, db_activeMemTable db) = Some (Inr True, (w1, apply_records rs (db_activeMemTable db)))"
    and tw: "twin w1 (logged rs (wal_header @ wal_frames bs) (calm w) db)" for w1
  proof -
    have "patient w1" using patiently p ab by simp
    from flush_returns [OF applied_ready(1,2) [OF o fit rs_def tw] this] have "\<exists>r s. flush fp (w1, applied rs db) = Some (r, s)" .
    moreover have "db\<lparr>db_nextSeq := db_nextSeq db + of_nat (length (wb_records b)), db_activeMemTable := apply_records rs (db_activeMemTable db)\<rparr>
        = applied rs db" by (simp add: applied_def rs_def)
    ultimately show ?thesis using ab by (auto simp: DB_write_unfold [OF nf] rs_def [symmetric] Let_def)
  qed
  show ?thesis
  proof (cases "rs = []")
    case True
    with ack [of w] show ?thesis by (simp add: applyBatch_def apply_records_def logged_def twin_calm)
  next
    case False
    from lo False show ?thesis
    proof (cases rule: applyBatch_outcome)
      case (ok w1)
      from twin_logged [OF ok(3) [unfolded lp] ok(4,5) False] ack [OF ok(1)] show ?thesis by blast
    next
      case (failed n w1)
      then show ?thesis by (auto simp: DB_write_unfold [OF nf] rs_def [symmetric] Let_def)
    qed
  qed
qed

theorem write_returns_witness:
  "\<exists>w db r w' db'. DB_new [''d''] 100 4 1000 1000 empty_world = Some (Inr db, w)
    \<and> DB_write fp_example (WriteBatch_put ''a'' ''x'' WriteBatch_new) (w\<lparr>w_policy := Some (failNth Op_Fsync 2 EIO)\<rparr>, db)
      = Some (r, (w', db'))"
proof -
  from example_new obtain w db where d: "DB_new [''d''] 100 4 1000 1000 empty_world = Some (Inr db, w)"
    "db_open fp_example (\<lambda>_. []) [] w db" "batch_fits (\<lambda>_. []) db (WriteBatch_put ''a'' ''x'' WriteBatch_new)" by blast
  let ?w = "w\<lparr>w_policy := Some (failNth Op_Fsync 2 EIO)\<rparr>"
  have n: "nominal w" using d(2) by (simp add: db_open_def db_ready_def)
  then have o: "db_open fp_example (\<lambda>_. []) [] (calm ?w) db" using d(2) by simp
  from write_returns [OF o d(3) patient_faulty [OF n never_interrupts_failNth [OF EIO_not_EINTR]]] d(1) show ?thesis by blast
qed

end
