(* ===== verification/DBReopening.thy ===== *)
theory DBReopening
  imports DBCrash
begin

text \<open>
  Opening a directory while system calls fail. Recovery removes only files the database does not need,
  and of the log it cuts only what is no part of it, so a process that dies while it opens the
  directory, any number of times, loses nothing.
\<close>

section \<open>Sweeping under faults\<close>

text \<open>What opening has done before it reaches the log.\<close>

definition trimmed :: "path \<Rightarrow> Manifest \<Rightarrow> world \<Rightarrow> world \<Rightarrow> bool" where
  "trimmed dir m w0 w \<longleftrightarrow> dir_ok dir w \<and> set (w_dirs w0) \<subseteq> set (w_dirs w)
     \<and> (\<forall>p. content_of w p = content_of w0 p \<or> content_of w p = None \<and> \<not> needed_file dir m p)"

lemma trimmed_refl: "dir_ok dir w \<Longrightarrow> trimmed dir m w w"
  by (simp add: trimmed_def)

lemma trimmed_quiet: "quiet prog \<Longrightarrow> keeps (trimmed dir m w0) prog"
  by (rule keeps_quiet) (auto simp: trimmed_def dir_ok_def)

lemmas trimmed_queries [keeps_intros] = quiet_query [THEN trimmed_quiet]

lemma trimmed_del:
  assumes "trimmed dir m w0 w" "w_files w' = w_files w \<or> w_files w' = w_files (del_file p w)" "w_dirs w' = w_dirs w"
    "\<not> needed_file dir m p"
  shows "trimmed dir m w0 w'"
proof -
  have c: "content_of w' q = content_of w q \<or> content_of w' q = None \<and> \<not> needed_file dir m q" for q
    using assms(2,4) by (cases "q = p") auto
  have d: "dir_ok dir w" using assms(1) by (simp add: trimmed_def)
  then have "content_of w' q = None" if "q \<in> data_dirs dir" for q using c [of q] that by (auto simp: dir_ok_def)
  with d have "dir_ok dir w'" by (rule dir_ok_files) (simp_all add: assms(3))
  with assms c show ?thesis unfolding trimmed_def by metis
qed

lemma remove_frame:
  assumes "sys_remove p w = (e, w')"
  shows "(w_files w' = w_files w \<or> w_files w' = w_files (del_file p w)) \<and> w_dirs w' = w_dirs w"
  using assms by (auto simp: sys_remove_def del_file_def split: prod.splits os_answer.splits option.splits dest!: os_next_frame)

lemma trimmed_sys_remove:
  assumes "\<not> needed_file dir m p" "trimmed dir m w0 w" "sys_remove p w = (e, w')"
  shows "trimmed dir m w0 w'"
  using remove_frame [OF assms(3)] trimmed_del [OF assms(2) _ _ assms(1)] by simp

lemma trimmed_remove:
  assumes "\<not> needed_file dir m p"
  shows "keeps (trimmed dir m w0) (removeFile p msg)" "keeps (trimmed dir m w0) (io_act (fs_remove p))"
proof -
  have "keeps (trimmed dir m w0) (io_act (sys_remove p))"
    unfolding keeps_def io_act_def using trimmed_sys_remove [OF assms] by (auto split: prod.splits)
  then show "keeps (trimmed dir m w0) (removeFile p msg)" unfolding removeFile_def by (intro keeps_intros)
  show "keeps (trimmed dir m w0) (io_act (fs_remove p))"
    unfolding keeps_def io_act_def fs_remove_def using trimmed_sys_remove [OF assms] by (auto split: prod.splits)
qed

lemma trimmed_ensure: "keeps (trimmed dir m w0) (ensureDataDirectory dir)"
proof -
  have "trimmed dir m w0 w'" if t: "trimmed dir m w0 w" and "fs_create_directories dir w = (e, w')" for w w' e
  proof -
    from create_directories_frame [of "dir @ [''x'']" w e w'] that(2)
    have f: "w_files w' = w_files w" "made_way (dir @ [''x'']) w w'" by simp_all
    have "dir_ok dir w'"
      by (rule dir_ok_files) (use t f in \<open>auto simp: trimmed_def dir_ok_def made_way_def data_dirs_def\<close>)
    with t f show ?thesis by (auto simp: trimmed_def made_way_def)
  qed
  then have "keeps (trimmed dir m w0) (io_act (fs_create_directories dir))"
    by (auto simp: keeps_def io_act_def split: prod.splits)
  then show ?thesis
    unfolding ensureDataDirectory_def create_directories_def by (intro keeps_intros)
qed

lemma trimmed_temps:
  "\<forall>p \<in> set ps. butlast p = dir @ [''sstable''] \<Longrightarrow> keeps (trimmed dir m w0) (cleanupOrphanedTemps_loop ps)"
proof (induction ps)
  case (Cons p ps)
  have "\<not> needed_file dir m p" if "extension (last p) = ''.tmp''" using needed_not_temp [of dir m p] Cons.prems that by auto
  then have "extension (last p) = ''.tmp'' \<Longrightarrow> keeps (trimmed dir m w0) (io_act (fs_remove p))" by (intro trimmed_remove)
  with Cons show ?case
    by (cases "extension (last p) = ''.tmp''") (auto intro!: keeps_intros simp del: io_apply)
qed (simp add: keeps_basic del: io_apply)

lemma trimmed_tables:
  "\<forall>p \<in> set ps. butlast p = dir @ [''sstable''] \<Longrightarrow> keeps (trimmed dir m w0) (cleanupUntrackedSSTables_loop (allTableNumbers m) ps)"
proof (induction ps)
  case (Cons p ps)
  have "\<not> needed_file dir m p" if "untracked (allTableNumbers m) p" using needed_tracked [of dir m p] Cons.prems that by auto
  then have "keeps (trimmed dir m w0) (removeFile p msg)"
    if "extension (last p) = ''.sst''" "parseNumberedFile (last p) kSSTablePrefix kSSTableSuffix = Some n" "n \<notin> set (allTableNumbers m)" for msg n
    using that by (intro trimmed_remove) (auto simp: untracked_def)
  with Cons show ?case
    by (auto intro!: keeps_intros simp del: io_apply)
qed (simp add: keeps_basic del: io_apply)

lemma trimmed_wals:
  "\<forall>p \<in> set ps. butlast p = dir @ [''wal''] \<Longrightarrow> keeps (trimmed dir m w0) (cleanupOldWALFiles_loop (mf_logNumber m) ps)"
proof (induction ps)
  case (Cons p ps)
  have "\<not> needed_file dir m p" if "parseNumberedFile (last p) kWalPrefix kWalSuffix = Some n" "n < mf_logNumber m" for n
    using needed_log_current [of dir m p n] Cons.prems that by auto
  then have "keeps (trimmed dir m w0) (removeFile p msg)"
    if "parseNumberedFile (last p) kWalPrefix kWalSuffix = Some n" "n < mf_logNumber m" for n msg using that by (intro trimmed_remove)
  with Cons show ?case
    by (auto intro!: keeps_intros simp del: io_apply)
qed (simp add: keeps_basic del: io_apply)

lemma keeps_entries:
  assumes "\<And>w w'. I w \<Longrightarrow> w_files w' = w_files w \<Longrightarrow> w_dirs w' = w_dirs w \<Longrightarrow> I w'" "\<And>e. keeps I (k (Inl e))"
    and body: "\<And>ps. \<forall>p \<in> set ps. butlast p = d \<Longrightarrow> keeps I (k (Inr ps))"
  shows "keeps I (io_bind (io_act (fs_query (dir_entries d))) k)"
proof -
  have "I w'" if i: "I w" and run: "io_bind (io_act (fs_query (dir_entries d))) k w = Some (r, w')" for w r w'
  proof -
    obtain x w1 where x: "fs_query (dir_entries d) w = (x, w1)" by fastforce
    have "I w1" using assms(1) [OF i] quietD [OF quiet_query(3), of "dir_entries d" w "Inr x" w1] x by (simp add: io_act_def)
    moreover have "k x w1 = Some (r, w')" using run x by (simp add: io_bind_def io_act_def)
    moreover have "keeps I (k x)"
      using x assms(2) body by (cases x) (auto simp: fs_query_def dir_entries_def split: prod.splits os_answer.splits)
    ultimately show ?thesis using keepsD by metis
  qed
  then show ?thesis unfolding keeps_def by blast
qed

lemma trimmed_loop:
  assumes "\<And>ps. \<forall>p \<in> set ps. butlast p = d \<Longrightarrow> keeps (trimmed dir m w0) (body ps)"
  shows "keeps (trimmed dir m w0) (io_bind (io_act (fs_query (dir_entries d))) (\<lambda>entries. case entries of Inl _ \<Rightarrow> io_ret () | Inr ps \<Rightarrow> body ps))"
  by (rule keeps_entries) (auto simp: trimmed_def dir_ok_def keeps_basic assms simp del: io_apply)

lemma trimmed_sweeps:
  "keeps (trimmed dir m w0) (cleanupOrphanedTemps (dir @ [''sstable'']))"
  "keeps (trimmed dir m w0) (cleanupUntrackedSSTables (dir @ [''sstable'']) (allTableNumbers m))"
  "keeps (trimmed dir m w0) (cleanupOldWALFiles (dir @ [''wal'']) (mf_logNumber m))"
  unfolding cleanupOrphanedTemps_def cleanupUntrackedSSTables_def cleanupOldWALFiles_def for_directory_def
  by (rule trimmed_loop, simp add: trimmed_temps trimmed_tables trimmed_wals | rule keeps_intros)+

text \<open>The catalogue is read as it is or not at all.\<close>

lemma agrees_query:
  assumes "\<And>w v. twin w v \<Longrightarrow> g v = g w"
  shows "agrees (fs_query g) (\<lambda>r. \<exists>x. r = Inr x)"
proof (rule agreesI)
  fix w v x w'
  assume tw: "twin w v" and f: "fs_query g w = (x, w')" and ok: "\<exists>y. x = Inr y"
  from f ok have "w_files w' = w_files w \<and> w_dirs w' = w_dirs w \<and> w_fds w' = w_fds w" "x = Inr (g w')"
    by (auto simp: fs_query_def split: prod.splits os_answer.splits dest!: os_next_frame)
  with twin_frame [OF tw] have tw': "twin w' v" "x = Inr (g w')" by blast+
  then have "fs_query g v = (x, v)" using assms [OF tw'(1)] twin_nominal [OF tw] by (simp add: fs_query_def)
  with tw' show "\<exists>v'. fs_query g v = (x, v') \<and> twin w' v'" by blast
qed

lemma robust_Manifest_new [robust_intros]: "robust twin (Manifest_new p)"
  unfolding Manifest_new_def
proof (rule robust_act [OF agrees_query], goal_cases)
  case (3 x)
  have "robust twin (io_bind (io_act (sys_open_read p)) (\<lambda>input. case input of
      None \<Rightarrow> io_throw (ios_failure ''MANIFEST exists but cannot be opened!'')
    | Some content \<Rightarrow> io_lift (readManifest p (content, 0))))"
    by (rule robust_act [OF agrees_open_read]) (auto intro!: robust_intros)
  with 3 show ?case by (auto intro: robust_ret split: bool.split)
qed (auto simp: twin_queries split: sum.split)

lemma quiet_Manifest_new: "quiet (Manifest_new p)"
  unfolding Manifest_new_def
  by (intro quiet_intros) (auto intro!: quiet_intros split: sum.split bool.split)

section \<open>The log\<close>

text \<open>
  What the log may be when the records \<open>bs\<close> were acknowledged and one append, or the creation of the
  file, was interrupted.
\<close>

definition log_state :: "Record list list \<Rightarrow> string option \<Rightarrow> bool" where
  "log_state bs c \<longleftrightarrow> c = None \<and> bs = [] \<or> (\<exists>k. c = Some (take k wal_header) \<and> bs = [])
     \<or> (\<exists>t. c = Some (wal_header @ wal_frames bs @ t) \<and> incomplete t)"

definition sound_but_log :: "(string option \<Rightarrow> bool) \<Rightarrow> fp \<Rightarrow> contents \<Rightarrow> Record list list \<Rightarrow> path \<Rightarrow> Manifest \<Rightarrow> world \<Rightarrow> bool" where
  "sound_but_log L fp T bs dir m w \<longleftrightarrow> L (content_of w (walPath dir (mf_logNumber m)))
     \<and> on_disk fp T bs dir m (calm (set_file (walPath dir (mf_logNumber m)) (wal_header @ wal_frames bs) w))"

definition log_complete :: "Record list list \<Rightarrow> string option \<Rightarrow> bool" where
  "log_complete bs c \<longleftrightarrow> c = None \<and> bs = [] \<or> (\<exists>t. c = Some (wal_header @ wal_frames bs @ t) \<and> incomplete t \<and> \<not> looks_committed t)"

lemma log_complete_whole [simp]: "log_complete bs (Some (wal_header @ wal_frames bs))"
  by (simp add: log_complete_def exI [of _ "[]"])

lemma on_disk_log: "on_disk fp T bs dir m w \<Longrightarrow> log_complete bs (content_of w (walPath dir (mf_logNumber m)))"
  by (auto simp: on_disk_def log_complete_def)

lemma on_disk_relog:
  assumes d: "on_disk fp T bs dir m w" and n: "nominal u" "w_dirs u = w_dirs w"
    and c: "\<And>q. q \<noteq> walPath dir (mf_logNumber m) \<Longrightarrow> content_of u q = content_of w q"
    and log: "log_complete bs (content_of u (walPath dir (mf_logNumber m)))"
  shows "on_disk fp T bs dir m u"
proof -
  let ?p = "walPath dir (mf_logNumber m)"
  have o: "content_of u (sstablePath dir k) = content_of w (sstablePath dir k)" for k by (intro c) simp
  have "content_of u (manifest_path dir) = content_of w (manifest_path dir)" by (intro c) simp
  moreover have "catalogue_ok fp T u dir m" using d by (simp add: on_disk_def catalogue_ok_def table_at_def table_file_def o)
  moreover have "dir_ok dir u" by (rule dir_ok_log [OF _ n(2) c]) (use on_disk_world [OF d] in simp_all)
  moreover have "content_of u (walPath dir k) = None" if "mf_nextTableNumber m < k" for k
  proof -
    have "k \<noteq> mf_logNumber m" "content_of w (walPath dir k) = None" using d that by (auto simp: on_disk_def)
    then show ?thesis using c [of "walPath dir k"] by simp
  qed
  ultimately show ?thesis using d n log by (auto simp: on_disk_def log_complete_def o)
qed

lemma log_state_complete: "log_complete bs c \<Longrightarrow> log_state bs c"
  by (auto simp: log_complete_def log_state_def)

lemma log_state_cases:
  assumes "log_state bs c"
  obtains (complete) "log_complete bs c" | (header) k where "k < kWalHeaderSize" "c = Some (take k wal_header)" "bs = []"
    | (tail) t where "c = Some (wal_header @ wal_frames bs @ t)" "incomplete t" "looks_committed t"
proof -
  have "take k wal_header = wal_header @ wal_frames [] @ []" if "\<not> k < kWalHeaderSize" for k
    using that by (simp add: wal_frames_def)
  then have "log_complete [] (Some (take k wal_header))" if "\<not> k < kWalHeaderSize" for k
    using that log_complete_whole [of "[]"] by simp
  with assms that show thesis unfolding log_state_def log_complete_def by metis
qed

definition retained :: "nat \<Rightarrow> fp \<Rightarrow> path \<Rightarrow> u64 \<Rightarrow> u64 \<Rightarrow> Record list \<Rightarrow> u64 \<Rightarrow> world \<Rightarrow> bool" where
  "retained N fp dir base q0 R n w \<longleftrightarrow> kept N fp dir base q0 R n w \<or> torn_append N fp dir base q0 R n w"

lemma retained_iff:
  "retained N fp dir base q0 R n w \<longleftrightarrow> (\<exists>T bs m. sound_but_log (log_state bs) fp T bs dir m w \<and> in_budget base m
     \<and> serves N q0 R (disk_records T bs m) m \<and> disk_next bs m = n)" (is "?l \<longleftrightarrow> ?r")
proof
  have whole: "sound_but_log (log_state bs) fp T bs dir m w" if "on_disk fp T bs dir m (calm w)" for T bs m
    unfolding sound_but_log_def using on_disk_log [OF that] log_state_complete
    by (auto intro: on_disk_relog [OF that])
  assume ?l
  then consider "recoverable N fp dir base q0 R n w" | "torn_log N fp dir base q0 R n w" | "torn_append N fp dir base q0 R n w"
    by (auto simp: retained_def kept_def)
  then show ?r
  proof cases
    case 1
    with whole show ?thesis unfolding recoverable_def by blast
  next
    case 2
    then obtain T m k where k: "content_of w (walPath dir (mf_logNumber m)) = Some (take k wal_header)"
      and d: "on_disk fp T [] dir m (calm (del_file (walPath dir (mf_logNumber m)) w))" (is "on_disk _ _ _ _ _ ?v")
      and rest: "in_budget base m" "serves N q0 R (disk_records T [] m) m" "disk_next [] m = n" unfolding torn_log_def by blast
    have "on_disk fp T [] dir m (calm (set_file (walPath dir (mf_logNumber m)) (wal_header @ wal_frames []) w))"
      by (rule on_disk_relog [OF d]) auto
    with k rest show ?thesis unfolding sound_but_log_def log_state_def by blast
  next
    case 3
    then show ?thesis unfolding torn_append_def sound_but_log_def log_state_def by blast
  qed
next
  assume ?r
  then obtain T bs m where s: "sound_but_log (log_state bs) fp T bs dir m w"
    and rest: "in_budget base m" "serves N q0 R (disk_records T bs m) m" "disk_next bs m = n" by blast
  let ?p = "walPath dir (mf_logNumber m)"
  from s have d: "on_disk fp T bs dir m (calm (set_file ?p (wal_header @ wal_frames bs) w))"
    and log: "log_state bs (content_of w ?p)" by (simp_all add: sound_but_log_def)
  from log show ?l
  proof (cases rule: log_state_cases)
    case complete
    then have "on_disk fp T bs dir m (calm w)" by (intro on_disk_relog [OF d]) auto
    with rest show ?thesis unfolding retained_def kept_def recoverable_def by blast
  next
    case (header k)
    then have "on_disk fp T [] dir m (calm (del_file ?p w))"
      using on_disk_relog [OF d, of "calm (del_file ?p w)"] by (auto simp: log_complete_def)
    with header rest show ?thesis unfolding retained_def kept_def torn_log_def by blast
  next
    case (tail t)
    with d rest show ?thesis unfolding retained_def torn_append_def by blast
  qed
qed

section \<open>Opening the log under faults\<close>

lemma open_existing_cases:
  assumes "sys_open_write excl False p w = (r, w')" "content_of w p = Some c"
  shows "w_files w' = w_files w \<and> w_dirs w' = w_dirs w \<and> (\<forall>fd. r = Inr fd \<longrightarrow> \<not> excl \<and> w_fds w' = (fd, p) # w_fds w)"
  using assms by (auto simp: sys_open_write_def alloc_fd_def Let_def split: prod.splits os_answer.splits if_splits dest!: os_next_frame)

lemma WALFileWriter_new_existing:
  assumes run: "WALFileWriter_new p w = Some (r, w')" and p: "butlast p \<noteq> []" and c: "content_of w p = Some c"
  shows "made_way p w w' \<and> w_files w' = w_files w \<and> (\<forall>ww. r = Inr ww \<longrightarrow> map_of (w_fds w') (wal_fd ww) = Some p)"
proof -
  obtain e wa where mk: "fs_create_directories (butlast p) w = (e, wa)" by fastforce
  note ga = create_directories_frame [OF mk]
  obtain x wb where ob: "sys_open_write True False p wa = (x, wb)" by fastforce
  have ca: "content_of wa p = Some c" using ga c by simp
  note gb = open_existing_cases [OF ob ca]
  obtain y wc where oc: "sys_open_write False False p wb = (y, wc)" by fastforce
  have cb: "content_of wb p = Some c" using gb ca by simp
  note gc = open_existing_cases [OF oc cb]
  show ?thesis using run p mk ob oc ga gb gc
    by (cases x; cases y) (auto simp: WALFileWriter_new_def io_bind_def io_act_def Let_def made_way_def split: if_splits)
qed

lemma restore_faulty:
  assumes run: "restoreFromWAL (w, m) = Some (r, (w', m'))" and p: "mt_logPath m = p" "map_of (w_fds w) (wal_fd (mt_walWriter m)) = Some p"
    and c: "content_of w p = Some c"
  shows "w_dirs w' = w_dirs w \<and> (\<forall>q. q \<noteq> p \<longrightarrow> content_of w' q = content_of w q) \<and> (content_of w' p = Some c
    \<or> (\<exists>recs good. kWalHeaderSize \<le> length c \<and> parseWALRecords c = Inr (recs, good)
        \<and> content_of w' p = Some (take good c @ replicate (good - length c) (char_of (0::nat)))))"
proof -
  obtain x w1 where rd: "sys_open_read p w = (x, w1)" by fastforce
  have fr: "w_files w1 = w_files w \<and> w_dirs w1 = w_dirs w \<and> w_fds w1 = w_fds w" "x = None \<or> x = Some c"
    using rd c by (auto simp: sys_open_read_def split: prod.splits os_answer.splits dest!: os_next_frame)
  have tr: "w_dirs w2 = w_dirs w \<and> (\<forall>q. q \<noteq> p \<longrightarrow> content_of w2 q = content_of w q) \<and> (content_of w2 p = Some c
      \<or> content_of w2 p = Some (take good c @ replicate (good - length c) (char_of (0::nat))))"
    if "sys_ftruncate (wal_fd (mt_walWriter m)) good w1 = (e, w2)" for e w2 good
    using that fr p c by (auto simp: sys_ftruncate_def split: prod.splits os_answer.splits dest!: os_next_frame)
  show ?thesis
  proof (cases "x = Some c \<and> (\<exists>recs good. parseWALRecords c = Inr (recs, good)) \<and> kWalHeaderSize \<le> length c")
    case False
    with run p rd fr c show ?thesis
      by (cases x; cases "parseWALRecords c")
        (auto simp: restoreFromWAL_def io_bind_def io_outer_def io_act_def split: if_splits)
  next
    case True
    then obtain recs good where t: "x = Some c" "parseWALRecords c = Inr (recs, good)" "kWalHeaderSize \<le> length c" by blast
    obtain e w2 where ft: "sys_ftruncate (wal_fd (mt_walWriter m)) good w1 = (e, w2)" by fastforce
    have keep: "mt_walWriter (fold (\<lambda>(k, entry). applyToMemory k entry) recs m) = mt_walWriter m"
      by (induction recs arbitrary: m) (auto simp: applyToMemory_def Let_def)
    have "w' = w1 \<or> w' = w2"
      using run p rd t ft keep
      by (auto simp: restoreFromWAL_def io_bind_def io_outer_def io_act_def WALFileWriter_truncate_def split: if_splits)
    with tr [OF ft] fr t c show ?thesis by auto
  qed
qed

lemma MemTable_new_existing:
  assumes run: "MemTable_new p w = Some (r, w')" and p: "butlast p \<noteq> []" and c: "content_of w p = Some c"
  shows "made_way p w w' \<and> (\<forall>q. q \<noteq> p \<longrightarrow> content_of w' q = content_of w q) \<and> (content_of w' p = Some c
    \<or> (\<exists>recs good. kWalHeaderSize \<le> length c \<and> parseWALRecords c = Inr (recs, good)
        \<and> content_of w' p = Some (take good c @ replicate (good - length c) (char_of (0::nat)))))"
proof -
  obtain x w1 where new: "WALFileWriter_new p w = Some (x, w1)"
    using run by (auto simp: MemTable_new_def io_bind_def split: option.splits)
  note n = WALFileWriter_new_existing [OF new p c]
  show ?thesis
  proof (cases x)
    case (Inl e)
    with run new n c show ?thesis by (auto simp: MemTable_new_def io_bind_def)
  next
    case (Inr ww)
    let ?m0 = "\<lparr>mt_table = [], mt_logPath = p, mt_walWriter = ww, mt_currentSizeBytes = 0, mt_currentSeq = 0\<rparr>"
    obtain y w2 m2 where rs: "restoreFromWAL (w1, ?m0) = Some (y, (w2, m2))"
      using run new Inr by (auto simp: MemTable_new_def io_bind_def Let_def split: option.splits)
    have "content_of w1 p = Some c" using n c by simp
    from restore_faulty [OF rs _ _ this] n Inr have
      f: "w_dirs w2 = w_dirs w1 \<and> (\<forall>q. q \<noteq> p \<longrightarrow> content_of w2 q = content_of w1 q) \<and> (content_of w2 p = Some c
        \<or> (\<exists>recs good. kWalHeaderSize \<le> length c \<and> parseWALRecords c = Inr (recs, good)
            \<and> content_of w2 p = Some (take good c @ replicate (good - length c) (char_of (0::nat)))))" by simp
    have "w_files w' = w_files w2 \<and> w_dirs w' = w_dirs w2"
      using run new Inr rs MemTable_dtor_frame [of m2 w2]
      by (auto simp: MemTable_new_def io_bind_def Let_def split: sum.splits if_splits)
    with f n show ?thesis by (simp add: made_way_def)
  qed
qed

text \<open>Contents of the log that the constructor of the MemTable leaves among themselves.\<close>

definition replayable :: "(string option \<Rightarrow> bool) \<Rightarrow> Record list list \<Rightarrow> bool" where
  "replayable L bs \<longleftrightarrow> (\<forall>p w r w'. MemTable_new p w = Some (r, w') \<longrightarrow> butlast p \<noteq> [] \<longrightarrow> batches_ok bs \<longrightarrow> L (content_of w p) \<longrightarrow>
     made_way p w w' \<and> (\<forall>q. q \<noteq> p \<longrightarrow> content_of w' q = content_of w q) \<and> L (content_of w' p))"

lemma replayableD:
  assumes "replayable L bs" "MemTable_new p w = Some (r, w')" "butlast p \<noteq> []" "batches_ok bs" "L (content_of w p)"
  shows "made_way p w w'" "q \<noteq> p \<Longrightarrow> content_of w' q = content_of w q" "L (content_of w' p)"
  using assms unfolding replayable_def by blast+

lemma replayable_complete:
  "replayable (\<lambda>c. \<exists>t. c = Some (wal_header @ wal_frames bs @ t) \<and> incomplete t \<and> \<not> looks_committed t) bs" (is "replayable ?L bs")
  unfolding replayable_def
proof (intro allI impI)
  fix p :: path and w r w'
  assume run: "MemTable_new p w = Some (r, w')" "butlast p \<noteq> []" and b: "batches_ok bs" and log: "?L (content_of w p)"
  from log obtain t where t: "content_of w p = Some (wal_header @ wal_frames bs @ t)" "incomplete t" "\<not> looks_committed t" by blast
  note e = MemTable_new_existing [OF run t(1)]
  moreover have "?L (content_of w' p)"
  proof -
    have "?L (Some (wal_header @ wal_frames bs))" by (simp add: exI [of _ "[]"])
    with e parse_incomplete_tail [OF b t(2)] t show ?thesis by fastforce
  qed
  ultimately show "made_way p w w' \<and> (\<forall>q. q \<noteq> p \<longrightarrow> content_of w' q = content_of w q) \<and> ?L (content_of w' p)" by blast
qed

lemma opened_log_state:
  assumes run: "MemTable_new p w = Some (r, w')" and p: "butlast p \<noteq> []" and b: "batches_ok bs" and log: "log_state bs (content_of w p)"
  shows "made_way p w w'" "\<And>q. q \<noteq> p \<Longrightarrow> content_of w' q = content_of w q" "log_state bs (content_of w' p)"
proof -
  let ?G = "made_way p w w' \<and> (\<forall>q. q \<noteq> p \<longrightarrow> content_of w' q = content_of w q) \<and> log_state bs (content_of w' p)"
  have ?G
  proof (cases "content_of w p")
    case None
    with MemTable_new_faulty [OF run p None] log show ?thesis by (auto simp: log_state_def)
  next
    case (Some c)
    note e = MemTable_new_existing [OF run p Some]
    have "log_state bs (Some (take good c @ replicate (good - length c) (char_of (0::nat))))"
      if good: "kWalHeaderSize \<le> length c" "parseWALRecords c = Inr (recs, good)" for recs good
      using log unfolding Some
    proof (cases rule: log_state_cases)
      case complete
      then obtain t where t: "c = wal_header @ wal_frames bs @ t" "incomplete t" "\<not> looks_committed t" by (auto simp: log_complete_def)
      then have "good = length (wal_header @ wal_frames bs)" using parse_incomplete_tail [OF b t(2)] good(2) by simp
      then have "take good c @ replicate (good - length c) (char_of (0::nat)) = wal_header @ wal_frames bs" using t(1) by simp
      then show ?thesis by (simp add: log_state_complete)
    next
      case (tail t)
      then show ?thesis using parse_incomplete_tail [OF b tail(2)] good(2) by simp
    qed (use good(1) in simp)
    with e log Some show ?thesis by auto
  qed
  then show "made_way p w w'" "\<And>q. q \<noteq> p \<Longrightarrow> content_of w' q = content_of w q" "log_state bs (content_of w' p)" by blast+
qed

lemma replayable_log_state: "replayable (log_state bs) bs"
  unfolding replayable_def using opened_log_state by blast

section \<open>Opening the directory\<close>

lemma sound_dir: "sound_but_log L fp T bs dir m w \<Longrightarrow> dir_ok dir w"
  unfolding sound_but_log_def
  by (rule dir_ok_log [of _ "calm (set_file (walPath dir (mf_logNumber m)) (wal_header @ wal_frames bs) w)" _ "mf_logNumber m"])
    (auto dest: on_disk_world)

lemma sound_frame:
  assumes s: "sound_but_log L fp T bs dir m w" and u: "dir_ok dir u" "set (w_dirs w) \<subseteq> set (w_dirs u)"
    and c: "\<And>q. q \<noteq> walPath dir (mf_logNumber m) \<Longrightarrow> content_of u q = content_of w q \<or> content_of u q = None \<and> \<not> needed_file dir m q"
    and log: "L (content_of u (walPath dir (mf_logNumber m)))"
  shows "sound_but_log L fp T bs dir m u"
proof -
  let ?p = "walPath dir (mf_logNumber m)"
  let ?whole = "set_file ?p (wal_header @ wal_frames bs)"
  have d: "on_disk fp T bs dir m (calm (?whole w))" using s by (simp add: sound_but_log_def)
  have "on_disk fp T bs dir m (calm (?whole u))"
  proof (rule on_disk_frame [OF d])
    show "dir_ok dir (calm (?whole u))" by (rule dir_ok_log [OF u(1), where n = "mf_logNumber m"]) simp_all
    show "content_of (calm (?whole u)) q = content_of (calm (?whole w)) q" if "needed_file dir m q" for q
      using c [of q] that by auto
    show "content_of (calm (?whole u)) (walPath dir k) = None"
      if "mf_nextTableNumber m < k" "content_of (calm (?whole w)) (walPath dir k) = None" for k
      using c [of "walPath dir k"] that by (auto split: if_splits)
    show "dir @ [''sstable''] \<in> set (w_dirs (calm (?whole u)))"
      if "mf_nextTableNumber m \<le> k" "content_of (calm (?whole u)) (sstablePath dir k) \<noteq> None" for k
    proof -
      have "content_of (calm (?whole w)) (sstablePath dir k) \<noteq> None" using that(2) c [of "sstablePath dir k"] by auto
      with on_disk_world [OF d] that(1) u(2) show ?thesis by auto
    qed
  qed simp
  with log show ?thesis by (simp add: sound_but_log_def)
qed

lemma keeps_sound:
  assumes "\<And>w0. keeps (trimmed dir m w0) prog"
  shows "keeps (sound_but_log L fp T bs dir m) prog"
proof -
  have "sound_but_log L fp T bs dir m w'" if s: "sound_but_log L fp T bs dir m w" and run: "prog w = Some (r, w')" for w r w'
  proof -
    from keepsD [OF assms trimmed_refl [OF sound_dir [OF s]] run] have t: "trimmed dir m w w'" .
    then have "content_of w' (walPath dir (mf_logNumber m)) = content_of w (walPath dir (mf_logNumber m))"
      by (auto simp: trimmed_def needed_file_def)
    with s have "L (content_of w' (walPath dir (mf_logNumber m)))" by (simp add: sound_but_log_def)
    with t show ?thesis by (intro sound_frame [OF s]) (auto simp: trimmed_def)
  qed
  then show ?thesis unfolding keeps_def by blast
qed

lemma sound_MemTable_new:
  assumes L: "replayable L bs"
  shows "keeps (sound_but_log L fp T bs dir m) (MemTable_new (walPath dir (mf_logNumber m)))"
proof -
  let ?p = "walPath dir (mf_logNumber m)"
  have "sound_but_log L fp T bs dir m w'" if s: "sound_but_log L fp T bs dir m w" and run: "MemTable_new ?p w = Some (r, w')" for w r w'
  proof -
    have "batches_ok bs" "L (content_of w ?p)" using s by (simp_all add: sound_but_log_def on_disk_def)
    with replayableD [OF L run] have l: "made_way ?p w w'" "\<And>q. q \<noteq> ?p \<Longrightarrow> content_of w' q = content_of w q"
      "L (content_of w' ?p)" by simp_all
    have dw: "dir_ok dir w" by (rule sound_dir [OF s])
    have "data_file dir ?p" by simp
    then have "content_of w' q = None" if "q \<in> data_dirs dir" for q
      using data_file_not_dir [of dir ?p] that l(2) [of q] dw by (auto simp: dir_ok_def)
    then have "dir_ok dir w'"
      by (rule dir_ok_files [OF dw]) (use l(1) in \<open>auto simp: made_way_def data_dirs_def\<close>)
    with l show ?thesis by (intro sound_frame [OF s]) (auto simp: made_way_def)
  qed
  then show ?thesis unfolding keeps_def by blast
qed

lemma keeps_bind_result:
  assumes m: "keeps I m" "\<And>s x s'. I s \<Longrightarrow> m s = Some (Inr x, s') \<Longrightarrow> x = y" and k: "keeps I (k y)"
  shows "keeps I (io_bind m k)"
proof -
  have "I s'" if i: "I s" and run: "io_bind m k s = Some (r, s')" for s r s'
  proof -
    from run obtain x s1 where x: "m s = Some (x, s1)" by (auto simp: io_bind_def split: option.splits)
    have "I s1" by (rule keepsD [OF m(1) i x])
    then show ?thesis using run x m(2) [OF i] keepsD [OF k] by (cases x) (auto simp: io_bind_def)
  qed
  then show ?thesis unfolding keeps_def by blast
qed

lemma DB_new_sound:
  assumes L: "replayable L bs"
  shows "keeps (sound_but_log L fp T bs dir m) (DB_new dir f c s b)"
proof -
  let ?I = "sound_but_log L fp T bs dir m"
  have man: "keeps ?I (Manifest_new (manifest_path dir))" by (intro keeps_sound trimmed_quiet quiet_Manifest_new)
  have same: "m' = m" if s: "?I w" and run: "Manifest_new (manifest_path dir) w = Some (Inr m', w')" for w m' w'
  proof -
    from robustD [OF robust_Manifest_new twin_calm run] obtain v where v: "Manifest_new (manifest_path dir) (calm w) = Some (Inr m', v)" by blast
    have d: "on_disk fp T bs dir m (calm (set_file (walPath dir (mf_logNumber m)) (wal_header @ wal_frames bs) w))"
      using s by (simp add: sound_but_log_def)
    have "dir_ok dir (calm w)" using sound_dir [OF s] by (simp add: dir_ok_def)
    then have "Manifest_new (manifest_path dir) (calm w) = Some (Inr m, calm w)" by (intro on_disk_manifest [OF d]) simp_all
    with v show ?thesis by simp
  qed
  show ?thesis
    unfolding DB_new_def manifest_path_def [symmetric] Let_def Manifest_logNumber_def
    by (rule keeps_bind [OF keeps_sound [OF trimmed_ensure]], rule keeps_bind_result [OF man same], assumption, assumption)
      (intro keeps_bind keeps_sound [OF trimmed_sweeps(1)] keeps_sound [OF trimmed_sweeps(2)] keeps_sound [OF trimmed_sweeps(3)]
        sound_MemTable_new [OF L] keeps_basic)
qed

text \<open>
  Opening keeps what a crash has left, whatever system calls fail and however it ends; so do any
  number of openings, each by a new process.
\<close>

inductive openings :: "path \<Rightarrow> world \<Rightarrow> world \<Rightarrow> bool" for dir where
  no_opening: "openings dir w w"
| one_opening: "DB_new dir f c s b (w\<lparr>w_fds := [], w_policy := policy, w_os := os\<rparr>) = Some (r, w1) \<Longrightarrow>
    openings dir w1 w2 \<Longrightarrow> openings dir w w2"

lemma sound_world:
  assumes s: "sound_but_log L fp T bs dir m w" and u: "content_of u = content_of w" "w_dirs u = w_dirs w"
  shows "sound_but_log L fp T bs dir m u"
  by (rule sound_frame [OF s]) (use s sound_dir [OF s] in \<open>simp_all add: u dir_ok_def sound_but_log_def\<close>)

lemma openings_sound:
  assumes "openings dir w w'" "replayable L bs" "sound_but_log L fp T bs dir m w"
  shows "sound_but_log L fp T bs dir m w'"
  using assms
proof (induction rule: openings.induct)
  case (one_opening f c s b os policy w r w1 w2)
  have "sound_but_log L fp T bs dir m (w\<lparr>w_fds := [], w_policy := policy, w_os := os\<rparr>)"
    by (rule sound_world [OF one_opening.prems(2)]) simp_all
  from keepsD [OF DB_new_sound [OF one_opening.prems(1)] this one_opening.hyps(1)] one_opening show ?case by blast
qed

lemma retained_openings: "openings dir w w' \<Longrightarrow> retained N fp dir base q0 R n w \<Longrightarrow> retained N fp dir base q0 R n w'"
  unfolding retained_iff using openings_sound [OF _ replayable_log_state] by metis

text \<open>A directory whose log is there, perhaps with a part of a frame that is recognised as such.\<close>

lemma complete_openings:
  assumes d: "on_disk fp T bs dir m (calm w)" and log: "content_of w (walPath dir (mf_logNumber m)) \<noteq> None"
    and op: "openings dir w w'"
  shows "on_disk fp T bs dir m (calm w')"
proof -
  let ?p = "walPath dir (mf_logNumber m)" and ?whole = "set_file (walPath dir (mf_logNumber m)) (wal_header @ wal_frames bs)"
  let ?L = "\<lambda>c. \<exists>t. c = Some (wal_header @ wal_frames bs @ t) \<and> incomplete t \<and> \<not> looks_committed t"
  have "?L (content_of w ?p)" using on_disk_log [OF d] log by (simp add: log_complete_def)
  moreover have "on_disk fp T bs dir m (calm (?whole w))" by (rule on_disk_relog [OF d]) simp_all
  ultimately have "sound_but_log ?L fp T bs dir m w" unfolding sound_but_log_def by blast
  from openings_sound [OF op replayable_complete this] have
    s: "?L (content_of w' ?p)" "on_disk fp T bs dir m (calm (?whole w'))" unfolding sound_but_log_def by blast+
  from s(1) have "log_complete bs (content_of w' ?p)" unfolding log_complete_def by blast
  then show ?thesis by (intro on_disk_relog [OF s(2)]) simp_all
qed

lemma retained_opened:
  assumes r: "retained N fp dir base q0 R n w" and b: "0 < base" and new: "DB_new dir f c s base ((calm w)\<lparr>w_fds := fds\<rparr>) = Some (Inr db, w')"
  shows "reopened N fp dir base q0 R n w' db"
proof -
  have "\<not> refuses message dir w" for message
    using new unfolding refuses_def by (metis Inl_Inr_False Pair_inject option.inject)
  with r torn_log_refused(1) [OF _ b] torn_append_refused [OF _ b] have "recoverable N fp dir base q0 R n w"
    unfolding retained_def kept_def by metis
  then have "reopens N fp dir base q0 R n w" using b by (rule recoverable_reopen)
  with new show ?thesis unfolding reopens_def by (metis Inr_inject Pair_inject option.inject)
qed

section \<open>Property\<close>

text \<open>
  C7: opening is idempotent under crashes. Open the directory of a database in order any number of
  times, each time with any system calls failing and whether or not the constructor throws, and let
  the process die. The next opening without faults succeeds and gives a database with the same records
  and the same next sequence number.
\<close>

theorem interrupted_openings_harmless:
  assumes o: "db_open fp T bs w db" and op: "openings (db_dataDirectory db) w w'"
  shows "\<exists>w2 db2. DB_new (db_dataDirectory db) flushThreshold compactThreshold sliceThreshold (db_compactionBaseThresholdBytes db)
      ((calm w')\<lparr>w_fds := []\<rparr>) = Some (Inr db2, w2)
    \<and> db_open fp T bs w2 db2 \<and> db_records T db2 = db_records T db \<and> db_nextSeq db2 = db_nextSeq db"
proof -
  let ?dir = "db_dataDirectory db" and ?m = "db_manifest db"
  have b: "0 < db_compactionBaseThresholdBytes db" "in_budget (db_compactionBaseThresholdBytes db) ?m"
    using o by (simp_all add: db_open_def)
  have "wal_state bs w db" using o by (simp add: db_open_def)
  then have log: "content_of w (walPath ?dir (mf_logNumber ?m)) \<noteq> None"
    using wal_state_path by (fastforce simp: wal_state_def log_open_def open_on_def)
  have "on_disk fp T bs ?dir ?m (calm w)" by (rule on_disk_twin [OF open_on_disk_same [OF o]]) simp_all
  from DB_new_run [OF on_disk_fds [OF complete_openings [OF this log op]] b, of flushThreshold compactThreshold sliceThreshold "[]"]
  obtain w2 db2 where new: "DB_new ?dir flushThreshold compactThreshold sliceThreshold (db_compactionBaseThresholdBytes db)
      ((calm w')\<lparr>w_fds := []\<rparr>) = Some (Inr db2, w2)" "db_open fp T bs w2 db2" "db_manifest db2 = ?m" by blast
  have "db_records T db2 = db_records T db" "db_nextSeq db2 = db_nextSeq db"
    using open_disk [OF o] open_disk [OF new(2)] new(3) by simp_all
  with new show ?thesis by blast
qed

theorem interrupted_openings_harmless_witness:
  "\<exists>w db r w1 w2 db2. DB_new [''d''] 100 4 1000 1000 (w\<lparr>w_fds := [], w_policy := Some (failEvery Op_Fsync EIO)\<rparr>) = Some (r, w1)
    \<and> DB_new [''d''] 100 4 1000 1000 ((calm w1)\<lparr>w_fds := []\<rparr>) = Some (Inr db2, w2) \<and> db_open fp_example (\<lambda>_. []) [] w db
    \<and> db_nextSeq db2 = db_nextSeq db"
proof -
  from example_new obtain w db where o: "db_open fp_example (\<lambda>_. []) [] w db" "db_dataDirectory db = [''d'']"
    "db_compactionBaseThresholdBytes db = 1000" by blast
  let ?w = "w\<lparr>w_fds := [], w_policy := Some (failEvery Op_Fsync EIO)\<rparr>"
  have "nominal (w\<lparr>w_fds := []\<rparr>)" using o(1) by (simp add: db_open_def db_ready_def)
  then have "patient ?w" using patient_faulty [of "w\<lparr>w_fds := []\<rparr>"] by (simp add: never_interrupts_failEvery)
  from endsD [OF ends_DB_new this] obtain r w1 where
    run: "DB_new [''d''] 100 4 1000 1000 ?w = Some (r, w1)" by blast
  have "?w = w\<lparr>w_fds := [], w_policy := Some (failEvery Op_Fsync EIO), w_os := w_os w\<rparr>" by simp
  with run have "openings [''d''] w w1" using openings.intros by metis
  from interrupted_openings_harmless [OF o(1), of w1 100 4 1000] this run show ?thesis unfolding o(2,3) using o(1) by blast
qed

end
