(* ===== verification/DBSessions.thy ===== *)
theory DBSessions
  imports DBReopening
begin

text \<open>
  Sessions with crashes. At any operation that changes the disk the process may die: any of its system
  calls fail, the process ends, and a new one opens the directory, perhaps after others that died while
  they opened it. A session with such crashes refines
  the abstract store of DBSystem, where a crash drops the snapshots and keeps either everything or
  everything but the operation that was under way.
\<close>

section \<open>Traces\<close>

inductive trace :: "('s \<Rightarrow> 'e \<Rightarrow> 's \<Rightarrow> bool) \<Rightarrow> 's \<Rightarrow> 'e list \<Rightarrow> 's \<Rightarrow> bool" for step where
  trace_nil: "trace step s [] s"
| trace_cons: "step s e s1 \<Longrightarrow> trace step s1 es s2 \<Longrightarrow> trace step s (e # es) s2"

inductive_cases trace_nilE: "trace step s [] s'"
inductive_cases trace_consE: "trace step s (e # es) s'"

text \<open>
  A specification with preconditions: as long as the events are admitted, every event of the
  implementation is one of the specification.
\<close>

definition left_contract :: "('a \<Rightarrow> 'e \<Rightarrow> 'a \<Rightarrow> bool) \<Rightarrow> ('a \<Rightarrow> 'e \<Rightarrow> bool) \<Rightarrow> 'a \<Rightarrow> 'e list \<Rightarrow> bool" where
  "left_contract spec admits a es \<longleftrightarrow> (\<exists>es1 e es2 a1. es = es1 @ e # es2 \<and> trace spec a es1 a1 \<and> \<not> admits a1 e)"

lemma left_contract_cons: "spec a e a1 \<Longrightarrow> left_contract spec admits a1 es \<Longrightarrow> left_contract spec admits a (e # es)"
  unfolding left_contract_def by (metis append_Cons trace_cons)

lemma left_contract_simps:
  "\<not> left_contract spec admits a []"
  "left_contract spec admits a (e # es) \<longleftrightarrow> \<not> admits a e \<or> (\<exists>a1. spec a e a1 \<and> left_contract spec admits a1 es)"
proof -
  show "\<not> left_contract spec admits a []" by (simp add: left_contract_def)
  show "left_contract spec admits a (e # es) \<longleftrightarrow> \<not> admits a e \<or> (\<exists>a1. spec a e a1 \<and> left_contract spec admits a1 es)" (is "?l \<longleftrightarrow> ?r")
  proof
    assume ?l
    then obtain es1 f es2 a1 where l: "e # es = es1 @ f # es2" "trace spec a es1 a1" "\<not> admits a1 f"
      unfolding left_contract_def by blast
    then show ?r by (cases es1) (auto simp: left_contract_def elim!: trace_nilE trace_consE)
  next
    assume ?r
    then show ?l by (metis append_Nil left_contract_cons left_contract_def trace_nil)
  qed
qed

locale trace_refinement =
  fixes step :: "'s \<Rightarrow> 'e \<Rightarrow> 's \<Rightarrow> bool"
    and spec :: "'a \<Rightarrow> 'e \<Rightarrow> 'a \<Rightarrow> bool"
    and admits :: "'a \<Rightarrow> 'e \<Rightarrow> bool"
    and rel :: "'a \<Rightarrow> 's \<Rightarrow> bool"
  assumes step_refines: "rel a s \<Longrightarrow> admits a e \<Longrightarrow> step s e s' \<Longrightarrow> \<exists>a'. spec a e a' \<and> rel a' s'"
begin

lemma trace_refines:
  "trace step s es s' \<Longrightarrow> rel a s \<Longrightarrow> (\<exists>a'. trace spec a es a' \<and> rel a' s') \<or> left_contract spec admits a es"
proof (induction arbitrary: a rule: trace.induct)
  case (trace_nil s)
  then show ?case by (blast intro: trace.trace_nil)
next
  case (trace_cons s e s1 es s2)
  show ?case
  proof (cases "admits a e")
    case True
    from step_refines [OF trace_cons.prems this trace_cons.hyps(1)] obtain a1 where a1: "spec a e a1" "rel a1 s1" by blast
    from trace_cons.IH [OF a1(2)] a1(1) show ?thesis by (blast intro: trace.trace_cons left_contract_cons)
  next
    case False
    then have "left_contract spec admits a (e # es)" unfolding left_contract_def by (metis append_Nil trace.trace_nil)
    then show ?thesis ..
  qed
qed

end

section \<open>Sessions\<close>

datatype mutation = Writing WriteBatch | Flushing | Compacting

fun as_operation :: "mutation \<Rightarrow> operation" where
  "as_operation (Writing b) = Write b"
| "as_operation Flushing = Flush"
| "as_operation Compacting = Compact"

text \<open>
  A mutation in a world with faults: whether the caller was told that it succeeded, and what it
  leaves behind.
\<close>

fun attempt :: "fp \<Rightarrow> mutation \<Rightarrow> world \<times> DB \<Rightarrow> (bool \<times> world \<times> DB) option" where
  "attempt fp (Writing b) s = map_option (map_prod (\<lambda>r. r = Inr True) id) (DB_write fp b s)"
| "attempt fp Flushing s = map_option (map_prod (\<lambda>r. r = Inr ()) id) (flush fp s)"
| "attempt fp Compacting s = map_option (map_prod (\<lambda>r. r = Inr ()) id) (DB_compact fp s)"

datatype event = Did operation answer | Crashed mutation bool

inductive session_step :: "fp \<Rightarrow> world \<times> DB \<Rightarrow> event \<Rightarrow> world \<times> DB \<Rightarrow> bool" for fp where
  did: "run_op fp x s = Some (a, s') \<Longrightarrow> session_step fp s (Did x a) s'"
| crashed: "attempt fp m (w\<lparr>w_policy := policy, w_os := os\<rparr>, db) = Some (acknowledged, (w1, db1)) \<Longrightarrow>
    openings (db_dataDirectory db) w1 w2 \<Longrightarrow>
    DB_new (db_dataDirectory db) flushThreshold compactThreshold sliceThreshold (db_compactionBaseThresholdBytes db)
      ((calm w2)\<lparr>w_fds := []\<rparr>) = Some (Inr db2, w3) \<Longrightarrow>
    session_step fp (w, db) (Crashed m acknowledged) (w3, db2)"

inductive_cases session_stepE: "session_step fp s e s'"

text \<open>
  The store after a crash: the snapshots are gone, and an operation that was not acknowledged has
  happened or not.
\<close>

definition crashed_store :: "mutation \<Rightarrow> store \<Rightarrow> store" where
  "crashed_store m \<sigma> = (snd (store_op (as_operation m) \<sigma>))\<lparr>st_snapshots := {#}\<rparr>"

definition reverted_store :: "mutation \<Rightarrow> store \<Rightarrow> store" where
  "reverted_store m \<sigma> = \<sigma>\<lparr>st_snapshots := {#}, st_numbers := st_numbers (snd (store_op (as_operation m) \<sigma>))\<rparr>"

inductive store_step :: "store \<Rightarrow> event \<Rightarrow> store \<Rightarrow> bool" where
  spec_did: "store_op x \<sigma> = (a, \<sigma>') \<Longrightarrow> store_step \<sigma> (Did x a) \<sigma>'"
| spec_done: "store_step \<sigma> (Crashed m acknowledged) (crashed_store m \<sigma>)"
| spec_undone: "store_step \<sigma> (Crashed m False) (reverted_store m \<sigma>)"

inductive_simps store_step_did: "store_step \<sigma> (Did x a) \<sigma>'"
inductive_simps store_step_crashed: "store_step \<sigma> (Crashed m b) \<sigma>'"

fun event_fits :: "store \<Rightarrow> event \<Rightarrow> bool" where
  "event_fits \<sigma> (Did x a) = op_fits x \<sigma>"
| "event_fits \<sigma> (Crashed m b) = op_fits (as_operation m) \<sigma>"

section \<open>A crash refines the store\<close>

lemma reopened_implements:
  assumes r: "reopened N fp dir base q0 R n w db" and n: "n = st_next \<sigma>" and N: "N \<le> st_numbers \<sigma>"
    and sub: "set R \<subseteq> set (st_log \<sigma>)" and q0: "q0 \<le> st_next \<sigma> - 1"
    and reads: "\<And>k q. st_next \<sigma> - 1 \<le> q \<Longrightarrow> visible R k q = visible (st_log \<sigma>) k q"
    and \<sigma>: "store_ok \<sigma>" "st_snapshots \<sigma> = {#}"
  shows "implements fp \<sigma> (w, db)"
proof -
  from r obtain T bs where o: "db_open fp T bs w db" and s: "serves N q0 R (db_records T db) (db_manifest db)"
    and f: "db_nextSeq db = n" "db_activeSnapshotSequences db = {#}" "\<not> db_writeFailed db" by (auto simp: reopened_def)
  have "mset (db_records T db) \<subseteq># mset (st_log \<sigma>)"
    using s sub by (intro mset_distinct_sub [OF open_distinct [OF o]]) (auto simp: serves_def)
  moreover have "oldest_read \<sigma> = st_next \<sigma> - 1" by (simp add: oldest_read_def \<sigma>)
  ultimately have "same_reads T \<sigma> db" using s reads q0 by (auto simp: same_reads_def serves_def)
  then show ?thesis using f s n N \<sigma> by (intro implements_intro [OF o]) (simp_all add: serves_def)
qed

text \<open>Whatever a crash has left is what the database is opened with, after any openings that were interrupted.\<close>

lemma retained_reopened:
  assumes "retained N fp dir base q0 R n w" "openings dir w w1" "0 < base"
    "DB_new dir f c s base ((calm w1)\<lparr>w_fds := fds\<rparr>) = Some (Inr db, w2)"
  shows "reopened N fp dir base q0 R n w2 db"
  by (rule retained_opened [OF retained_openings [OF assms(2,1)] assms(3,4)])

lemma calm_crashed [simp]: "nominal w \<Longrightarrow> calm (w\<lparr>w_policy := policy, w_os := os\<rparr>) = w"
  by (cases w) (simp add: calm_def nominal_def)

lemma quiet_crash:
  assumes i: "implements fp \<sigma> (w, db)" and r: "\<And>T bs. db_open fp T bs w db \<Longrightarrow> length (db_records T db) \<le> length (st_log \<sigma>) \<Longrightarrow>
      reopened (st_numbers \<sigma>') fp dir base (smallestActiveSnapshot db) (db_records T db) (db_nextSeq db) w2 db2"
    and \<sigma>': "st_log \<sigma>' = st_log \<sigma>" "st_next \<sigma>' = st_next \<sigma>" "st_snapshots \<sigma>' = {#}"
  shows "implements fp \<sigma>' (w2, db2)"
proof -
  from i obtain T bs where o: "db_open fp T bs w db" "same_reads T \<sigma> db" and f: "db_nextSeq db = st_next \<sigma>"
    "smallestActiveSnapshot db = oldest_read \<sigma>" "length (db_records T db) \<le> length (st_log \<sigma>)" "store_ok \<sigma>"
    by (rule implementsE)
  have old: "oldest_read \<sigma> \<le> st_next \<sigma> - 1" by (rule implements_seqs(4) [OF i])
  show ?thesis
  proof (rule reopened_implements [OF r [OF o(1) f(3)]])
    show "set (db_records T db) \<subseteq> set (st_log \<sigma>')" using o(2) \<sigma>' set_mset_mono by (fastforce simp: same_reads_def)
    show "visible (db_records T db) k q = visible (st_log \<sigma>') k q" if "st_next \<sigma>' - 1 \<le> q" for k q
      using o(2) that old \<sigma>' by (auto simp: same_reads_def)
    show "store_ok \<sigma>'" using f(4) \<sigma>' by (simp add: store_ok_def)
  qed (use f old \<sigma>' in simp_all)
qed

lemma flush_crash:
  assumes i: "implements fp \<sigma> (w, db)" and fit: "op_fits Flush \<sigma>"
    and run: "flush fp (w\<lparr>w_policy := policy, w_os := os\<rparr>, db) = Some (r, (w1, db1))"
    and op: "openings (db_dataDirectory db) w1 w2"
    and new: "DB_new (db_dataDirectory db) f c sl (db_compactionBaseThresholdBytes db) ((calm w2)\<lparr>w_fds := []\<rparr>) = Some (Inr db2, w3)"
  shows "implements fp (crashed_store Flushing \<sigma>) (w3, db2)"
proof (rule quiet_crash [OF i])
  fix T bs assume o: "db_open fp T bs w db" and len: "length (db_records T db) \<le> length (st_log \<sigma>)"
  have n: "nominal w" and b: "0 < db_compactionBaseThresholdBytes db" using o by (simp_all add: db_open_def db_ready_def)
  have nu: "unat (mf_nextTableNumber (db_manifest db)) \<le> st_numbers \<sigma>" using i by (simp add: implements_def)
  with flush_numbers_mono [OF len] fit have room: "room_for T db 0"
    and N: "unat (mf_nextTableNumber (db_manifest db)) + flush_numbers (length (db_records T db)) \<le> st_numbers (crashed_store Flushing \<sigma>)"
    by (simp_all add: room_for_def crashed_store_def)
  have "db_open fp T bs (calm (w\<lparr>w_policy := policy, w_os := os\<rparr>)) db" using o n by simp
  then have "kept (st_numbers (crashed_store Flushing \<sigma>)) fp (db_dataDirectory db) (db_compactionBaseThresholdBytes db)
    (smallestActiveSnapshot db) (db_records T db) (db_nextSeq db) w1" by (rule flush_faulty [OF _ room run N])
  from retained_reopened [OF _ op b new] this
  show "reopened (st_numbers (crashed_store Flushing \<sigma>)) fp (db_dataDirectory db) (db_compactionBaseThresholdBytes db)
    (smallestActiveSnapshot db) (db_records T db) (db_nextSeq db) w3 db2" by (simp add: retained_def)
qed (simp_all add: crashed_store_def)

lemma compact_crash:
  assumes i: "implements fp \<sigma> (w, db)" and fit: "op_fits Compact \<sigma>"
    and run: "DB_compact fp (w\<lparr>w_policy := policy, w_os := os\<rparr>, db) = Some (r, (w1, db1))"
    and op: "openings (db_dataDirectory db) w1 w2"
    and new: "DB_new (db_dataDirectory db) f c sl (db_compactionBaseThresholdBytes db) ((calm w2)\<lparr>w_fds := []\<rparr>) = Some (Inr db2, w3)"
  shows "implements fp (crashed_store Compacting \<sigma>) (w3, db2)"
proof (rule quiet_crash [OF i])
  fix T bs assume o: "db_open fp T bs w db" and len: "length (db_records T db) \<le> length (st_log \<sigma>)"
  have n: "nominal w" and b: "0 < db_compactionBaseThresholdBytes db" using o by (simp_all add: db_open_def db_ready_def)
  have nu: "unat (mf_nextTableNumber (db_manifest db)) \<le> st_numbers \<sigma>" using i by (simp add: implements_def)
  with len fit have room: "unat (mf_nextTableNumber (db_manifest db)) + length (db_records T db) < 2 ^ 64"
    and N: "unat (mf_nextTableNumber (db_manifest db)) + length (db_records T db) \<le> st_numbers (crashed_store Compacting \<sigma>)"
    by (simp_all add: crashed_store_def)
  have "db_open fp T bs (calm (w\<lparr>w_policy := policy, w_os := os\<rparr>)) db" using o n by simp
  then have "recoverable (st_numbers (crashed_store Compacting \<sigma>)) fp (db_dataDirectory db) (db_compactionBaseThresholdBytes db)
    (smallestActiveSnapshot db) (db_records T db) (db_nextSeq db) w1" by (rule compact_recoverable [OF _ room run N])
  from retained_reopened [OF _ op b new] this
  show "reopened (st_numbers (crashed_store Compacting \<sigma>)) fp (db_dataDirectory db) (db_compactionBaseThresholdBytes db)
    (smallestActiveSnapshot db) (db_records T db) (db_nextSeq db) w3 db2" by (simp add: retained_def kept_def)
qed (simp_all add: crashed_store_def)

lemma write_crash:
  assumes i: "implements fp \<sigma> (w, db)" and fit: "write_fits (wb_records b) \<sigma>"
    and run: "DB_write fp b (w\<lparr>w_policy := policy, w_os := os\<rparr>, db) = Some (r, (w1, db1))"
    and op: "openings (db_dataDirectory db) w1 w2"
    and new: "DB_new (db_dataDirectory db) f c sl (db_compactionBaseThresholdBytes db) ((calm w2)\<lparr>w_fds := []\<rparr>) = Some (Inr db2, w3)"
  shows "implements fp (crashed_store (Writing b) \<sigma>) (w3, db2)
    \<or> r = Inr False \<and> implements fp (reverted_store (Writing b) \<sigma>) (w3, db2)"
proof -
  from i obtain T bs where o: "db_open fp T bs w db" and sr: "same_reads T \<sigma> db" and f: "db_nextSeq db = st_next \<sigma>"
    "db_activeSnapshotSequences db = st_snapshots \<sigma>" "unat (mf_nextTableNumber (db_manifest db)) \<le> st_numbers \<sigma>"
    "smallestActiveSnapshot db = oldest_read \<sigma>" "length (db_records T db) \<le> length (st_log \<sigma>)" and so: "store_ok \<sigma>"
    by (rule implementsE)
  let ?rs = "number_records (db_nextSeq db) (wb_records b)" and ?\<sigma> = "store_write (wb_records b) \<sigma>"
  let ?dir = "db_dataDirectory db" and ?base = "db_compactionBaseThresholdBytes db" and ?N = "st_numbers ?\<sigma>"
  have n: "nominal w" and base: "0 < ?base" using o by (simp_all add: db_open_def db_ready_def)
  then have o': "db_open fp T bs (calm (w\<lparr>w_policy := policy, w_os := os\<rparr>)) db" using o by simp
  note fits = write_admitted [OF sr f(1,3,5) fit]
  have N: "unat (mf_nextTableNumber (db_manifest db)) + flush_numbers (length (db_records T db) + length ?rs) \<le> ?N" using fits(2) by simp
  have sub: "set (db_records T db) \<subseteq> set (st_log \<sigma>)" using sr set_mset_mono by (fastforce simp: same_reads_def)
  have old: "oldest_read \<sigma> \<le> st_next \<sigma> - 1" by (rule implements_seqs(4) [OF i])
  consider (finished) "reopened ?N fp ?dir ?base (oldest_after ?rs db) (db_records T db @ ?rs) (db_nextSeq db + of_nat (length ?rs)) w3 db2"
    | (undone) "r = Inr False" "reopened ?N fp ?dir ?base (smallestActiveSnapshot db) (db_records T db) (db_nextSeq db) w3 db2"
    using DB_write_faulty [OF o' fits(1) run N] retained_reopened [OF _ op base new] unfolding retained_def kept_def torn_append_tail
    by blast
  then show ?thesis
  proof cases
    case finished
    let ?\<sigma>' = "crashed_store (Writing b) \<sigma>"
    have \<sigma>': "st_log ?\<sigma>' = st_log \<sigma> @ ?rs" "st_next ?\<sigma>' = db_nextSeq db + of_nat (length ?rs)" "st_numbers ?\<sigma>' = ?N"
      "st_snapshots ?\<sigma>' = {#}" by (simp_all add: crashed_store_def store_write_def f)
    have ok: "store_ok ?\<sigma>" by (rule store_write_ok [OF so fit])
    have "unat (st_next \<sigma>) + length (wb_records b) < 2 ^ 64" using fit by (simp add: write_fits_def Let_def)
    from seq_pred_mono [OF implements_seqs(1) [OF i] next_grows(1) [OF this]] old
    have grow: "oldest_read \<sigma> \<le> st_next ?\<sigma>' - 1" by (simp add: \<sigma>' f)
    have "implements fp ?\<sigma>' (w3, db2)"
    proof (rule reopened_implements [OF finished])
      show "oldest_after ?rs db \<le> st_next ?\<sigma>' - 1"
        using grow f(1,2) by (cases "st_snapshots \<sigma> = {#}") (simp_all add: oldest_after_def smallestActiveSnapshot_def oldest_read_def \<sigma>')
      show "visible (db_records T db @ ?rs) k q = visible (st_log ?\<sigma>') k q" if "st_next ?\<sigma>' - 1 \<le> q" for k q
        using sr that grow by (auto simp: same_reads_def visible_append_gen \<sigma>')
      show "store_ok ?\<sigma>'" using ok by (simp add: crashed_store_def store_ok_def)
    qed (use sub \<sigma>' in auto)
    then show ?thesis ..
  next
    case undone
    have "implements fp (reverted_store (Writing b) \<sigma>) (w3, db2)"
      by (rule reopened_implements [OF undone(2)])
        (use sub sr old f so in \<open>auto simp: reverted_store_def same_reads_def store_ok_def\<close>)
    with undone(1) show ?thesis by simp
  qed
qed

lemma session_step_refines:
  assumes i: "implements fp \<sigma> s" and fit: "event_fits \<sigma> e" and st: "session_step fp s e s'"
  shows "\<exists>\<sigma>'. store_step \<sigma> e \<sigma>' \<and> implements fp \<sigma>' s'"
  using st
proof (cases rule: session_step.cases)
  case (did x a)
  with op_refines [OF i, of x] fit show ?thesis by (auto simp: store_step_did prod_eq_iff)
next
  case (crashed m os policy w db ack w1 db1 w2 f c sl db2 w3)
  note i = i [unfolded crashed(1)] and new = crashed(5,6)
  show ?thesis
  proof (cases m)
    case (Writing b)
    with crashed(4) obtain r where "DB_write fp b (w\<lparr>w_policy := policy, w_os := os\<rparr>, db) = Some (r, (w1, db1))" "ack = (r = Inr True)"
      by auto
    with write_crash [OF i _ this(1) new] fit crashed(2,3) Writing show ?thesis by (auto simp: store_step_crashed)
  next
    case Flushing
    with crashed(4) obtain r where "flush fp (w\<lparr>w_policy := policy, w_os := os\<rparr>, db) = Some (r, (w1, db1))" by auto
    with flush_crash [OF i _ this new] fit crashed(2,3) Flushing show ?thesis by (auto simp: store_step_crashed)
  next
    case Compacting
    with crashed(4) obtain r where "DB_compact fp (w\<lparr>w_policy := policy, w_os := os\<rparr>, db) = Some (r, (w1, db1))" by auto
    with compact_crash [OF i _ this new] fit crashed(2,3) Compacting show ?thesis by (auto simp: store_step_crashed)
  qed
qed

interpretation crash_sim: trace_refinement "session_step fp" store_step event_fits "implements fp"
  by unfold_locales (rule session_step_refines)

text \<open>
  A compaction in which no system call can make anything durable is such a crash.
\<close>

lemma crash_happens:
  assumes i: "implements fp \<sigma> s" and fit: "op_fits Compact \<sigma>"
  shows "\<exists>b s'. session_step fp s (Crashed Compacting b) s'"
proof -
  obtain w db where s: "s = (w, db)" by fastforce
  from i s obtain T bs where o: "db_open fp T bs w db" and f: "unat (mf_nextTableNumber (db_manifest db)) \<le> st_numbers \<sigma>"
    "length (db_records T db) \<le> length (st_log \<sigma>)" by (auto elim: implementsE)
  let ?w = "w\<lparr>w_policy := Some (failEvery Op_Fsync EIO), w_os := w_os w\<rparr>"
  have n: "nominal w" using o by (simp add: db_open_def db_ready_def)
  have o': "db_open fp T bs (calm ?w) db" using o n by simp
  have "?w = w\<lparr>w_policy := Some (failEvery Op_Fsync EIO)\<rparr>" by simp
  then have p: "patient ?w" by (simp add: patient_faulty [OF n] never_interrupts_failEvery)
  from compactLevel_returns [OF o' p, of 0] obtain x w' db' where run: "DB_compact fp (?w, db) = Some (x, (w', db'))"
    unfolding DB_compact_def by blast
  have room: "unat (mf_nextTableNumber (db_manifest db)) + length (db_records T db) < 2 ^ 64" using fit f by simp
  from recoverable_reopen [OF compact_recoverable [OF o' room run]] o obtain db2 w2 where
    "DB_new (db_dataDirectory db) 0 0 0 (db_compactionBaseThresholdBytes db) ((calm w')\<lparr>w_fds := []\<rparr>) = Some (Inr db2, w2)"
    unfolding reopens_def db_open_def by blast
  moreover from run have "attempt fp Compacting (?w, db) = Some (x = Inr (), (w', db'))" by simp
  ultimately show ?thesis unfolding s using session_step.crashed no_opening by blast
qed

section \<open>Keys that are not written\<close>

fun written_keys :: "operation \<Rightarrow> string set" where
  "written_keys (Put k v) = {k}"
| "written_keys (Remove k) = {k}"
| "written_keys (Write b) = br_key ` set (wb_records b)"
| "written_keys _ = {}"

fun event_keys :: "event \<Rightarrow> string set" where
  "event_keys (Did x a) = written_keys x"
| "event_keys (Crashed m b) = written_keys (as_operation m)"

definition current :: "store \<Rightarrow> string \<Rightarrow> string option" where
  "current \<sigma> k = contents_at \<sigma> (st_next \<sigma> - 1) k"

lemma store_frame [simp]:
  "current (\<sigma>\<lparr>st_snapshots := a\<rparr>) = current \<sigma>" "current (\<sigma>\<lparr>st_numbers := n\<rparr>) = current \<sigma>"
  "store_ok (\<sigma>\<lparr>st_snapshots := a\<rparr>) = store_ok \<sigma>" "store_ok (\<sigma>\<lparr>st_numbers := n\<rparr>) = store_ok \<sigma>"
  by (simp_all add: current_def contents_at_def store_ok_def fun_eq_iff)

lemma number_records_keys: "rec_key ` set (number_records n brs) = br_key ` set brs"
  by (induction brs arbitrary: n) simp_all

lemma current_write:
  assumes ok: "store_ok \<sigma>" and fit: "write_fits brs \<sigma>" and k: "k \<notin> br_key ` set brs"
  shows "current (store_write brs \<sigma>) k = current \<sigma> k"
proof -
  let ?n = "st_next \<sigma>" and ?m = "st_next (store_write brs \<sigma>)"
  have seqs: "unat ?n + length brs < 2 ^ 64" using fit by (simp add: write_fits_def Let_def)
  have "\<forall>r \<in> set (number_records ?n brs). rec_key r \<noteq> k" using k number_records_keys [of ?n brs] by auto
  then have none: "filter (eligible k q) (number_records ?n brs) = []" for q by (auto simp: filter_empty_conv eligible_def)
  have "eligible k (?m - 1) x = eligible k (?n - 1) x" if "x \<in> set (st_log \<sigma>)" for x
  proof -
    have n: "0 < ?n" "rec_seq x < ?n" using ok that by (simp_all add: store_ok_def)
    then have "rec_seq x \<le> ?n - 1" using seq_pred by simp
    moreover have "?n - 1 \<le> ?m - 1" using seq_pred_mono [OF n(1) next_grows(1) [OF seqs]] by (simp add: store_write_def)
    ultimately show ?thesis by (auto simp: eligible_def)
  qed
  then have "visible (st_log \<sigma>) k (?m - 1) = visible (st_log \<sigma>) k (?n - 1)"
    unfolding visible_def by (metis (mono_tags, lifting) filter_cong)
  then show ?thesis using none by (simp add: current_def contents_at_def read_value_def store_write_def visible_append_gen)
qed

lemma op_keeps:
  assumes "store_ok \<sigma>" "op_fits x \<sigma>" "k \<notin> written_keys x"
  shows "current (snd (store_op x \<sigma>)) k = current \<sigma> k \<and> store_ok (snd (store_op x \<sigma>))"
  using assms by (cases x) (simp_all add: current_write store_write_ok)

lemma event_keeps:
  assumes ok: "store_ok \<sigma>" and fit: "event_fits \<sigma> e" and k: "k \<notin> event_keys e" and st: "store_step \<sigma> e \<sigma>'"
  shows "current \<sigma>' k = current \<sigma> k \<and> store_ok \<sigma>'"
proof (cases e)
  case (Did x a)
  with op_keeps [OF ok, of x k] fit k st show ?thesis by (auto simp: store_step_did)
next
  case (Crashed m b)
  have "current (reverted_store m \<sigma>) k = current \<sigma> k" "store_ok (reverted_store m \<sigma>) = store_ok \<sigma>"
    by (simp_all add: reverted_store_def)
  then show ?thesis using op_keeps [OF ok, of "as_operation m" k] fit k st Crashed ok
    by (auto simp: store_step_crashed crashed_store_def)
qed

lemma trace_keeps:
  assumes "trace store_step \<sigma> es \<sigma>'" "store_ok \<sigma>" "\<not> left_contract store_step event_fits \<sigma> es"
    "\<forall>e \<in> set es. k \<notin> event_keys e"
  shows "current \<sigma>' k = current \<sigma> k"
  using assms
proof (induction rule: trace.induct)
  case (trace_cons \<sigma> e \<sigma>1 es \<sigma>2)
  have "event_fits \<sigma> e" using trace_cons.prems(2) unfolding left_contract_def by (metis append_Nil trace_nil)
  from event_keeps [OF trace_cons.prems(1) this _ trace_cons.hyps(1), of k] trace_cons.prems(3)
  have "current \<sigma>1 k = current \<sigma> k" "store_ok \<sigma>1" by simp_all
  moreover have "\<not> left_contract store_step event_fits \<sigma>1 es"
    using trace_cons.prems(2) left_contract_cons trace_cons.hyps(1) by metis
  ultimately show ?case using trace_cons.IH trace_cons.prems(3) by simp
qed simp

section \<open>Properties\<close>

text \<open>
  C2: sessions with crashes refine the store. Start with a new database and let the client do any
  operations, and let the process die in any write, flush or compaction, at any of its system calls and
  any number of times, and again while the directory is opened, until an opening succeeds. Then there is a run of the
  abstract store with the same answers, in which an acknowledged operation has happened and an
  unacknowledged one has happened as a whole or not at all, and the database at the end implements it;
  unless the session went beyond the stated limits of counters and sizes.
\<close>

theorem crash_sessions_refine_store:
  assumes "dir \<noteq> []" "0 < base" "fp_ok fp"
    and new: "DB_new dir flushThreshold compactThreshold sliceThreshold base empty_world = Some (Inr db, w)"
    and run: "trace (session_step fp) (w, db) es s'"
  shows "(\<exists>\<sigma>. trace store_step new_store es \<sigma> \<and> implements fp \<sigma> s') \<or> left_contract store_step event_fits new_store es"
proof -
  from new_implements [OF assms(1-3), of flushThreshold compactThreshold sliceThreshold] new
  have "implements fp new_store (w, db)" by simp
  from crash_sim.trace_refines [OF run this] show ?thesis .
qed

theorem crash_sessions_refine_store_witness:
  "\<exists>db w s1 s2 b \<sigma>. DB_new [''d''] 100 4 1000 1000 empty_world = Some (Inr db, w)
    \<and> trace (session_step fp_example) (w, db) [Did (Put ''a'' ''x'') (Acknowledged True), Crashed Compacting b] s1
    \<and> implements fp_example \<sigma> s1 \<and> st_log \<sigma> = [\<lparr>rec_key = ''a'', rec_seq = 1, rec_type = Type_VALUE, rec_value = ''x''\<rparr>]"
proof -
  let ?put = "Put ''a'' ''x''"
  from new_implements [of "[''d'']" 1000 fp_example 100 4 1000] fp_example_ok obtain db w where
    new: "DB_new [''d''] 100 4 1000 1000 empty_world = Some (Inr db, w)" and i: "implements fp_example new_store (w, db)" by auto
  have fit: "op_fits ?put new_store" by (simp add: session_simps)
  from op_refines [OF i fit] obtain s1 where s1: "run_op fp_example ?put (w, db) = Some (Acknowledged True, s1)"
    "implements fp_example (snd (store_op ?put new_store)) s1" by auto
  have "op_fits Compact (snd (store_op ?put new_store))" by (simp add: session_simps)
  from crash_happens [OF s1(2) this] obtain b s2 where s2: "session_step fp_example s1 (Crashed Compacting b) s2" by blast
  let ?es = "[Did ?put (Acknowledged True), Crashed Compacting b]"
  have run: "trace (session_step fp_example) (w, db) ?es s2" using s1(1) s2 by (blast intro: trace.intros session_step.did)
  have "\<not> left_contract store_step event_fits new_store ?es"
    by (simp add: left_contract_simps store_step_did store_step_crashed session_simps)
  then obtain \<sigma> where "trace store_step new_store ?es \<sigma>" "implements fp_example \<sigma> s2"
    using crash_sessions_refine_store [OF _ _ fp_example_ok new run] by auto
  moreover from this(1) have "st_log \<sigma> = [\<lparr>rec_key = ''a'', rec_seq = 1, rec_type = Type_VALUE, rec_value = ''x''\<rparr>]"
    by (auto elim!: trace_consE trace_nilE simp: store_step_did store_step_crashed crashed_store_def reverted_store_def session_simps)
  ultimately show ?thesis using new run by blast
qed

text \<open>
  C6: durability. Whatever happens in a session, with crashes in any operations and whatever system
  calls fail, a key that none of its operations writes reads as before.
\<close>

theorem crashes_keep_other_keys:
  assumes i: "implements fp \<sigma> s" and run: "trace (session_step fp) s es s'"
    and fit: "\<not> left_contract store_step event_fits \<sigma> es" and k: "\<forall>e \<in> set es. k \<notin> event_keys e"
  shows "\<exists>a t t'. DB_get k v s = Some (Inr a, t) \<and> DB_get k v s' = Some (Inr a, t')"
proof -
  from crash_sim.trace_refines [OF run i] fit obtain \<sigma>' where t: "trace store_step \<sigma> es \<sigma>'" "implements fp \<sigma>' s'" by blast
  have "store_ok \<sigma>" using i by (simp add: implements_def)
  from trace_keeps [OF t(1) this fit k] have "contents_at \<sigma>' (st_next \<sigma>' - 1) k = contents_at \<sigma> (st_next \<sigma> - 1) k"
    by (simp add: current_def)
  with get_refines [OF i, of k v] get_refines [OF t(2), of k v] show ?thesis by auto
qed

theorem crashes_keep_other_keys_witness:
  "\<exists>s1 s2 b t t'. session_step fp_example s1 (Crashed Compacting b) s2
    \<and> DB_get ''a'' [] s1 = Some (Inr (True, ''x''), t) \<and> DB_get ''a'' [] s2 = Some (Inr (True, ''x''), t')"
proof -
  let ?\<sigma> = "snd (spec_all store_op [Put ''a'' ''x'', Flush] new_store)"
  from new_implements [of "[''d'']" 1000 fp_example 100 4 1000] fp_example_ok obtain s0 where
    "implements fp_example new_store s0" by auto
  moreover have "fits_all op_fits store_op [Put ''a'' ''x'', Flush] new_store" by (simp add: session_simps)
  ultimately obtain s1 where i: "implements fp_example ?\<sigma> s1" using db_sim.run_refines by metis
  have fit: "op_fits Compact ?\<sigma>" by (simp add: session_simps)
  from crash_happens [OF i fit] obtain b s2 where s2: "session_step fp_example s1 (Crashed Compacting b) s2" by blast
  then have run: "trace (session_step fp_example) s1 [Crashed Compacting b] s2" by (blast intro: trace.intros)
  have "\<not> left_contract store_step event_fits ?\<sigma> [Crashed Compacting b]" using fit by (simp add: left_contract_simps)
  from crashes_keep_other_keys [OF i run this, of "''a''" "[]"] obtain a t t' where
    "DB_get ''a'' [] s1 = Some (Inr a, t)" "DB_get ''a'' [] s2 = Some (Inr a, t')" by auto
  moreover from get_refines [OF i, of "''a''" "[]"] this(1) have "a = (True, ''x'')"
    by (auto simp: session_simps read_value_def contents_at_def)
  ultimately show ?thesis using s2 by blast
qed

end
