(* ===== verification/DBLostLog.thy ===== *)
theory DBLostLog
  imports DBCrash
begin

text \<open>
  A flush that fails while it builds its table has already changed the log number of the catalogue in
  memory. The database refuses writes from then on, but not compactions, and a compaction saves this
  catalogue. The next opening then takes the log, which holds acknowledged records, for an old one.
\<close>

section \<open>A flush that fails while it builds the table\<close>

text \<open>Two calls succeed and all others fail.\<close>

definition failing_from_third :: "os_answer stream" where
  "failing_from_third = OsOk ## OsOk ## sconst (OsErr EIO)"

definition failed_flush_db :: "DB \<Rightarrow> DB" where
  "failed_flush_db db = db\<lparr>db_manifest := (db_manifest db)\<lparr>mf_nextTableNumber := mf_nextTableNumber (db_manifest db) + 2,
     mf_logNumber := mf_nextTableNumber (db_manifest db) + 1\<rparr>, db_writeFailed := True\<rparr>"

lemma EIO_pos: "EIO \<noteq> 0"
  by (simp add: EIO_def)

lemma os_refuses:
  assumes "w_os w = sconst (OsErr EIO)"
  shows "fs_query f w = (Inl EIO, w)" "fs_create_directories p w = (EIO, w)"
proof -
  have "w\<lparr>w_os := sconst (OsErr EIO)\<rparr> = w" using assms by (cases w) simp
  then have "os_next w = (OsErr EIO, w)" using assms by (simp add: os_next_def EIO_pos)
  then show "fs_query f w = (Inl EIO, w)" "fs_create_directories p w = (EIO, w)"
    by (simp_all add: fs_query_def fs_create_directories_def)
qed

lemma os_grants:
  assumes "w_os w = OsOk ## s"
  shows "fs_query f w = (Inr (f (w\<lparr>w_os := s\<rparr>)), w\<lparr>w_os := s\<rparr>)"
    "\<forall>q \<in> set (prefixes p). content_of w q = None \<Longrightarrow> fs_create_directories p w = (0, mkdirs p (w\<lparr>w_os := s\<rparr>))"
proof -
  have "os_next w = (OsOk, w\<lparr>w_os := s\<rparr>)" using assms by (simp add: os_next_def)
  then show "fs_query f w = (Inr (f (w\<lparr>w_os := s\<rparr>)), w\<lparr>w_os := s\<rparr>)"
    "\<forall>q \<in> set (prefixes p). content_of w q = None \<Longrightarrow> fs_create_directories p w = (0, mkdirs p (w\<lparr>w_os := s\<rparr>))"
    by (simp_all add: fs_query_def fs_create_directories_def mkdirs_def)
qed

lemma build_refused:
  assumes "mt_table m \<noteq> []" "butlast p \<noteq> []" "w_os w = sconst (OsErr EIO) \<or> w_os w = OsOk ## sconst (OsErr EIO)"
  shows "\<exists>e w'. build fp m p w = Some (Inl e, w') \<and> w_files w' = w_files w"
  using assms(3)
proof
  assume "w_os w = sconst (OsErr EIO)"
  then show ?thesis by (simp add: build_def fs_throwing_def io_bind_def io_act_def os_refuses)
next
  assume ok: "w_os w = OsOk ## sconst (OsErr EIO)"
  from assms(1,2) show ?thesis
    by (simp add: build_def addRecordToFile_def with_FileWriter_def FileWriter_new_def fs_throwing_def io_bind_def io_act_def
        Let_def EIO_pos os_grants(1) [OF ok] os_refuses)
qed

lemma fillFlush_refused:
  assumes n: "nominal w" and d: "dir_ok (db_dataDirectory db) w" and ne: "MemTable_size (db_activeMemTable db) \<noteq> 0"
  shows "\<exists>e w1. fillFlush fp (w\<lparr>w_os := failing_from_third\<rparr>, db)
      = Some (Inl e, (w1, (failed_flush_db db)\<lparr>db_writeFailed := db_writeFailed db\<rparr>)) \<and> w_files w1 = w_files w"
proof -
  let ?dir = "db_dataDirectory db @ [''sstable'']" and ?n = "mf_nextTableNumber (db_manifest db)"
  let ?db = "(failed_flush_db db)\<lparr>db_writeFailed := db_writeFailed db\<rparr>"
  let ?w1 = "w\<lparr>w_os := OsOk ## sconst (OsErr EIO)\<rparr>"
  define w2 where "w2 = (if path_exists ?dir w then ?w1 else mkdirs ?dir (w\<lparr>w_os := sconst (OsErr EIO)\<rparr>))"
  have first: "fs_query f (w\<lparr>w_os := failing_from_third\<rparr>) = (Inr (f ?w1), ?w1)" for f :: "world \<Rightarrow> bool"
    using os_grants(1) [of "w\<lparr>w_os := failing_from_third\<rparr>" "OsOk ## sconst (OsErr EIO)" f] by (simp add: failing_from_third_def)
  have "\<forall>q \<in> set (prefixes ?dir). content_of ?w1 q = None"
    using d by (auto simp: dir_ok_def data_dirs_def)
  from os_grants(2) [OF _ this] have second: "fs_create_directories ?dir ?w1 = (0, mkdirs ?dir (w\<lparr>w_os := sconst (OsErr EIO)\<rparr>))"
    by simp
  have w2: "w_files w2 = w_files w" "w_os w2 = sconst (OsErr EIO) \<or> w_os w2 = OsOk ## sconst (OsErr EIO)"
    by (simp_all add: w2_def mkdirs_def)
  have "mt_table (db_activeMemTable db) \<noteq> []" using ne by (auto simp: MemTable_size_def)
  from build_refused [OF this _ w2(2), of "sstablePath (db_dataDirectory db) ?n" fp] obtain e w3 where
    "build fp (db_activeMemTable db) (sstablePath (db_dataDirectory db) ?n) w2 = Some (Inl e, w3)" "w_files w3 = w_files w2"
    by auto
  then have "fillFlush fp (w\<lparr>w_os := failing_from_third\<rparr>, db) = Some (Inl e, (w3, ?db))"
    using first second
    by (cases "path_exists ?dir w")
      (simp_all add: fillFlush_def on_manifest_def manifest_act_def allocateNumber_def setLogNumber_def db_get_def io_bind_def
        io_outer_def Let_def fs_throwing_def io_act_def create_directories_def w2_def failed_flush_db_def path_exists_def)
  with w2(1) \<open>w_files w3 = w_files w2\<close> show ?thesis by auto
qed

lemma flush_refused:
  assumes o: "db_open fp T bs w db" and ne: "MemTable_size (db_activeMemTable db) \<noteq> 0"
  shows "\<exists>e w1. flush fp (w\<lparr>w_os := failing_from_third\<rparr>, db) = Some (Inl e, (w1, failed_flush_db db))
    \<and> content_of w1 = content_of w \<and> dir_ok (db_dataDirectory db) w1"
proof -
  let ?w = "w\<lparr>w_os := failing_from_third\<rparr>"
  have "nominal w" "dir_ok (db_dataDirectory db) w" using open_dir [OF o] by simp_all
  from fillFlush_refused [OF this ne] obtain e w1 where
    fill: "fillFlush fp (?w, db) = Some (Inl e, (w1, (failed_flush_db db)\<lparr>db_writeFailed := db_writeFailed db\<rparr>))"
    and same: "w_files w1 = w_files w" by blast
  have "on_disk fp T bs (db_dataDirectory db) (db_manifest db) (calm ?w)"
    by (rule on_disk_twin [OF open_on_disk_same [OF o]]) simp_all
  from fillFlush_orphans [OF fill orphans_refl [OF this]] have "dir_ok (db_dataDirectory db) w1" by (simp add: orphans_only_def)
  moreover have "flush fp (?w, db) = Some (Inl e, (w1, failed_flush_db db))"
    using ne fill by (simp add: flush_def flush_body_split io_bind_def io_try_def db_get_def db_upd_def failed_flush_db_def)
  ultimately show ?thesis using same by auto
qed

section \<open>The compaction after it\<close>

lemma failed_flush_fields [simp]:
  "mf_nextTableNumber (db_manifest (failed_flush_db db)) = mf_nextTableNumber (db_manifest db) + 2"
  "mf_logNumber (db_manifest (failed_flush_db db)) = mf_nextTableNumber (db_manifest db) + 1"
  "mf_lastSeq (db_manifest (failed_flush_db db)) = mf_lastSeq (db_manifest db)"
  "mf_path (db_manifest (failed_flush_db db)) = mf_path (db_manifest db)"
  "Manifest_level i (db_manifest (failed_flush_db db)) = Manifest_level i (db_manifest db)"
  "all_tables (db_manifest (failed_flush_db db)) = all_tables (db_manifest db)"
  "mf_levels (db_manifest (failed_flush_db db)) = mf_levels (db_manifest db)"
  "db_records T (failed_flush_db db) = db_records T db" "db_dataDirectory (failed_flush_db db) = db_dataDirectory db"
  "db_activeMemTable (failed_flush_db db) = db_activeMemTable db" "db_tableCache (failed_flush_db db) = db_tableCache db"
  "db_nextSeq (failed_flush_db db) = db_nextSeq db"
  "db_compactionBaseThresholdBytes (failed_flush_db db) = db_compactionBaseThresholdBytes db"
  by (simp_all add: failed_flush_db_def Manifest_level_def all_tables_def db_records_def sources_def)

lemma failed_flush_ready:
  assumes o: "db_open fp T bs w db" and c: "content_of w1 = content_of w" "dir_ok (db_dataDirectory db) w1"
    and room: "unat (mf_nextTableNumber (db_manifest db)) + 2 < 2 ^ 64"
  shows "db_ready fp T (calm w1) (failed_flush_db db)" "tables_fresh (calm w1) (failed_flush_db db)"
    "in_budget (db_compactionBaseThresholdBytes db) (db_manifest (failed_flush_db db))"
proof -
  let ?n = "mf_nextTableNumber (db_manifest db)"
  have gr: "?n < ?n + 2" using next_grows(2) [of ?n 2] room by (simp add: word_less_nat_alt)
  have rdy: "db_ready fp T w db" and fr: "tables_fresh w db" and bud: "in_budget (db_compactionBaseThresholdBytes db) (db_manifest db)"
    using o by (simp_all add: db_open_def)
  have cat: "catalogue_ok fp T w (db_dataDirectory db) (db_manifest db)" using rdy by (simp add: db_ready_def db_inv_def)
  have below: "x < ?n + 2" if "x < ?n" for x using that gr by (rule order_less_trans)
  have "numbers_ok (db_manifest (failed_flush_db db))"
    using cat below unfolding catalogue_ok_def numbers_ok_def by simp
  with cat have "catalogue_ok fp T (calm w1) (db_dataDirectory db) (db_manifest (failed_flush_db db))"
    by (simp add: catalogue_ok_def levels_inv_def layers_ok_def table_at_def table_file_def c)
  moreover have "cache_ok fp T (failed_flush_db db)"
    using rdy below by (auto simp: db_ready_def db_inv_def cache_ok_def)
  ultimately show "db_ready fp T (calm w1) (failed_flush_db db)"
    using rdy c(2) by (auto simp: db_ready_def db_inv_def dir_ok_def)
  show "tables_fresh (calm w1) (failed_flush_db db)"
    using fr gr by (auto simp: tables_fresh_def c)
  show "in_budget (db_compactionBaseThresholdBytes db) (db_manifest (failed_flush_db db))"
    using bud by (simp add: in_budget_def)
qed

lemma log_records_Nil [simp]: "log_records [] = []"
  by (simp add: log_records_def apply_records_def mt_records_def empty_memtable_def)

text \<open>The log that the saved catalogue names does not exist.\<close>

lemma compacted_on_disk:
  assumes o: "db_open fp T bs w db" and c: "content_of w1 = content_of w"
    and fr: "tables_fresh (calm w1) (failed_flush_db db)"
    and room: "unat (mf_nextTableNumber (db_manifest db)) + 2 < 2 ^ 64"
    and com: "compacted fp T (calm w1) (failed_flush_db db) T' v dbv" and sv: "saved v dbv"
  shows "on_disk fp T' [] (db_dataDirectory db) (db_manifest dbv) v"
proof -
  let ?n = "mf_nextTableNumber (db_manifest db)" and ?m = "db_manifest dbv"
  have u: "unat (?n + 1) = unat ?n + 1" "unat (?n + 2) = unat ?n + 2"
    using next_grows(2) [of ?n 1] next_grows(2) [of ?n 2] room by simp_all
  note f = compacted_fields [OF com, simplified]
  have rdy: "db_ready fp T' v dbv" and frv: "tables_fresh v dbv"
    and m: "mf_logNumber ?m = ?n + 1" "mf_lastSeq ?m = mf_lastSeq (db_manifest db)" "?n + 2 \<le> mf_nextTableNumber ?m"
    and logs: "content_of v (walPath (db_dataDirectory db) k) = content_of w (walPath (db_dataDirectory db) k)" for k
    using com fr c by (simp_all add: compacted_def same_logs_def)
  have wals: "content_of w (walPath (db_dataDirectory db) k) = None" if "?n < k" for k
    using o that by (simp add: db_open_def wals_fresh_def)
  have sub: "set (concat (map (tbl T') (all_tables ?m))) \<subseteq> set (concat (map (tbl T) (all_tables (db_manifest db))))"
    using set_mset_mono [OF compacted_tables [OF com]] by simp
  have "\<forall>t \<in> set (all_tables ?m). \<forall>r \<in> set (tbl T' t). rec_seq r \<le> mf_lastSeq ?m" "mf_lastSeq ?m \<noteq> -1"
  proof -
    have seq: "\<forall>r \<in> set (concat (map (tbl T) (all_tables (db_manifest db)))). rec_seq r \<le> mf_lastSeq (db_manifest db)"
      using o by (auto simp: db_open_def seqs_ok_def)
    show "\<forall>t \<in> set (all_tables ?m). \<forall>r \<in> set (tbl T' t). rec_seq r \<le> mf_lastSeq ?m"
    proof (intro ballI)
      fix t r
      assume "t \<in> set (all_tables ?m)" "r \<in> set (tbl T' t)"
      then have "r \<in> set (concat (map (tbl T') (all_tables ?m)))" by auto
      with sub seq show "rec_seq r \<le> mf_lastSeq ?m" unfolding m(2) by blast
    qed
    have "\<not> (-1 :: u64) < x" for x by (simp add: not_less)
    then show "mf_lastSeq ?m \<noteq> -1" using open_lastSeq [OF o] unfolding m(2) by metis
  qed
  moreover have "records_fit (concat (map (tbl T') (all_tables ?m)))"
  proof (rule records_fit_sub)
    show "records_fit (db_records T' dbv)" using rdy by (simp only: db_ready_def)
    show "mset (concat (map (tbl T') (all_tables ?m))) \<subseteq># mset (db_records T' dbv)" by (simp add: db_records_def sources_def)
  qed
  moreover have "mf_logNumber ?m \<le> mf_nextTableNumber ?m" using m(3) u unfolding m(1) word_le_nat_alt by linarith
  moreover have "content_of v (walPath (db_dataDirectory db) k) = None" if "mf_nextTableNumber ?m < k" for k
    unfolding logs using that m(3) u unfolding word_le_nat_alt word_less_nat_alt by (intro wals) (simp add: word_less_nat_alt)
  moreover have "content_of v (walPath (db_dataDirectory db) (mf_logNumber ?m)) = None"
    unfolding logs m(1) using u by (intro wals) (simp add: word_less_nat_alt)
  moreover have "content_of v (sstablePath (db_dataDirectory db) k) = None" if "mf_nextTableNumber ?m \<le> k" for k
    using frv that by (simp add: tables_fresh_def f(3))
  moreover have "nominal v" "dir_ok (db_dataDirectory db) v" "fp_ok fp" "catalogue_ok fp T' v (db_dataDirectory db) ?m"
    "mf_path ?m = manifest_path (db_dataDirectory db)"
    using rdy by (simp_all add: db_ready_def db_inv_def f(3))
  moreover have "content_of v (manifest_path (db_dataDirectory db)) = Some (manifest_bytes ?m)" using sv by (simp add: saved_def f(3))
  ultimately show ?thesis unfolding on_disk_def by (simp add: batches_ok_def)
qed

section \<open>Property\<close>

text \<open>
  C33: acknowledged writes can be lost without a crash. Take a database in order with a table on level 0
  and records in its log, and let a flush fail when it begins to write the new table. The flush throws
  and later writes are refused, as they should be; but if the caller compacts and closes the database,
  which both succeed, then after the next opening no record of the log can be read any more.
\<close>

theorem compact_after_failed_flush_loses_log:
  assumes o: "db_open fp T bs w db" and ne: "MemTable_size (db_activeMemTable db) \<noteq> 0"
    and lev: "Manifest_level 0 (db_manifest db) \<noteq> []"
    and room: "unat (mf_nextTableNumber (db_manifest db)) + 2 + length (db_records T db) < 2 ^ 64"
    and k: "k \<notin> rec_key ` set (concat (map (tbl T) (all_tables (db_manifest db))))"
  shows "\<exists>e w1 db1 w2 db2 w3 db3 s. flush fp (w\<lparr>w_os := failing_from_third\<rparr>, db) = Some (Inl e, (w1, db1))
    \<and> DB_compact fp (calm w1, db1) = Some (Inr (), (w2, db2))
    \<and> DB_new (db_dataDirectory db) f c sl (db_compactionBaseThresholdBytes db) (w2\<lparr>w_fds := []\<rparr>) = Some (Inr db3, w3)
    \<and> DB_get k v (w3, db3) = Some (Inr (False, v), s)"
proof -
  let ?base = "db_compactionBaseThresholdBytes db"
  from flush_refused [OF o ne] obtain e w1 where
    fl: "flush fp (w\<lparr>w_os := failing_from_third\<rparr>, db) = Some (Inl e, (w1, failed_flush_db db))"
    and w1: "content_of w1 = content_of w" "dir_ok (db_dataDirectory db) w1" by blast
  have r2: "unat (mf_nextTableNumber (db_manifest db)) + 2 < 2 ^ 64" using room by simp
  note rdy = failed_flush_ready [OF o w1 r2]
  have "unat (mf_nextTableNumber (db_manifest db) + 2) = unat (mf_nextTableNumber (db_manifest db)) + 2"
    using next_grows(2) [of _ 2] r2 by simp
  with compactLevel_run [OF rdy(1), of 0] lev room obtain T' v2 dbv where
    com: "compactLevel fp 0 (calm w1, failed_flush_db db) = Some (Inr (), (v2, dbv))" "compacted fp T (calm w1) (failed_flush_db db) T' v2 dbv"
    "saved v2 dbv" "moved_down 0 (db_manifest (failed_flush_db db)) (db_manifest dbv)" by auto
  have bud: "in_budget ?base (db_manifest dbv)" using moved_down_in_budget [OF com(4) rdy(3)] by simp
  have base: "0 < ?base" using o by (simp add: db_open_def)
  from DB_new_run [OF on_disk_fds [OF compacted_on_disk [OF o w1(1) rdy(2) r2 com(2,3)]] base bud] obtain w3 db3 where
    new: "DB_new (db_dataDirectory db) f c sl ?base (v2\<lparr>w_fds := []\<rparr>) = Some (Inr db3, w3)" "db_open fp T' [] w3 db3"
    "db_records T' db3 = log_records [] @ concat (map (tbl T') (all_tables (db_manifest dbv)))" by blast
  have "set (concat (map (tbl T') (all_tables (db_manifest dbv)))) \<subseteq> set (concat (map (tbl T) (all_tables (db_manifest db))))"
    using set_mset_mono [OF compacted_tables [OF com(2)]] by simp
  then have "k \<notin> rec_key ` set (concat (map (tbl T') (all_tables (db_manifest dbv))))" using k by blast
  then have "k \<notin> rec_key ` set (db_records T' db3)" by (simp add: new(3))
  then have "read_value (db_records T' db3) k q = None" for q by (simp add: read_value_def visible_absent_key)
  moreover have "db_inv fp T' w3 db3" "nominal w3" using new(2) by (simp_all add: db_open_def db_ready_def)
  from DB_get_at_correct [OF this, of k "db_nextSeq db3 - 1" v] calculation obtain db4 where
    "DB_get_at k (db_nextSeq db3 - 1) v (w3, db3) = Some (Inr (False, v), (w3, db4))" by auto
  ultimately have "DB_get k v (w3, db3) = Some (Inr (False, v), (w3, db4))"
    by (simp add: DB_get_def io_bind_def db_get_def)
  with fl com(1) new(1) show ?thesis unfolding DB_compact_def by blast
qed

text \<open>A database with \<open>a\<close> in a table and \<open>b\<close> in the log.\<close>

lemma example_rest:
  assumes o: "db_open fp T bs w db" and rs: "set (db_records T db) \<subseteq> set xs" "length xs \<le> 1" "records_fit (xs @ number_records (db_nextSeq db) (wb_records b))"
    and n: "unat (mf_nextTableNumber (db_manifest db)) \<le> 2" "unat (db_nextSeq db) \<le> 2" "length (wb_records b) \<le> 1"
  shows "batch_fits T db b"
proof -
  let ?rs = "number_records (db_nextSeq db) (wb_records b)"
  have sub: "mset (db_records T db) \<subseteq># mset xs" using rs(1) open_distinct [OF o] by (intro mset_distinct_sub)
  then have "records_fit (db_records T db @ ?rs)" by (intro records_fit_sub [OF rs(3)]) simp
  moreover have "length (db_records T db) \<le> 1" using mset_sub_length [OF sub] rs(2) by simp
  then have "flush_numbers (length (db_records T db) + length ?rs) \<le> flush_numbers 2" using n(3) by (intro flush_numbers_mono) simp
  then have "room_for T db (length ?rs)" using n(1) by (simp add: room_for_def flush_numbers_def)
  ultimately show ?thesis using n by (simp add: batch_fits_def Let_def)
qed

lemma flush_db_manifest: "db_manifest (flush_db fp w db) = flushed_manifest fp db"
  by (simp add: flush_db_def)

lemma open_unique: "db_open fp T bs w db \<Longrightarrow> unique_versions (db_records T db)"
  by (auto simp: db_open_def db_ready_def intro: db_records_unique)

lemma example_table_and_log:
  "\<exists>T bs w db. db_open fp_example T bs w db \<and> MemTable_size (db_activeMemTable db) \<noteq> 0 \<and> Manifest_level 0 (db_manifest db) \<noteq> []
    \<and> unat (mf_nextTableNumber (db_manifest db)) + 2 + length (db_records T db) < 2 ^ 64
    \<and> rec_key ` set (concat (map (tbl T) (all_tables (db_manifest db)))) \<subseteq> {''a''}
    \<and> read_value (db_records T db) ''b'' (db_nextSeq db - 1) = Some ''y''"
proof -
  let ?a = "WriteBatch_put ''a'' ''x'' WriteBatch_new" and ?b = "WriteBatch_put ''b'' ''y'' WriteBatch_new"
  let ?ra = "[\<lparr>rec_key = ''a'', rec_seq = 1, rec_type = Type_VALUE, rec_value = ''x''\<rparr>]"
  let ?rb = "[\<lparr>rec_key = ''b'', rec_seq = 2, rec_type = Type_VALUE, rec_value = ''y''\<rparr>]"
  let ?T = "\<lambda>_. [] :: Record list"
  have fit: "records_fit (?ra @ ?rb)" "records_fit ?ra"
    by (simp_all add: records_fit_def records_bytes_def encodable_def length_record_bytes)
  from new_database [of "[''d'']" 1000 fp_example 100 4 1000 ?T] fp_example_ok obtain w0 db0 where
    o0: "db_open fp_example ?T [] w0 db0" and d0: "db_records ?T db0 = []" "db_nextSeq db0 = 1"
      "db_manifest db0 = empty_manifest (manifest_path [''d''])" by auto
  have ra: "number_records (db_nextSeq db0) (wb_records ?a) = ?ra" by (simp add: d0 WriteBatch_put_def WriteBatch_new_def)
  have "batch_fits ?T db0 ?a"
    by (rule example_rest [OF o0, of "[]"]) (simp_all only: ra append_Nil fit, simp_all add: d0 empty_manifest_def WriteBatch_put_def WriteBatch_new_def)
  from applied_open [OF o0 this] obtain w1 where o1: "db_open fp_example ?T [?ra] w1 (applied ?ra db0)" unfolding ra by auto
  let ?db1 = "applied ?ra db0"
  have r1: "set (mt_records (db_activeMemTable ?db1)) = set ?ra" "set (db_records ?T ?db1) = set ?ra"
    using applied_records [OF o0 ra [symmetric]] d0 by (simp_all add: db_records_def sources_def WriteBatch_put_def WriteBatch_new_def)
  from r1(1) have "mt_records (db_activeMemTable ?db1) \<noteq> []" by (metis empty_iff list.set(1) list.set_intros(1))
  then have ne1: "MemTable_size (db_activeMemTable ?db1) \<noteq> 0" unfolding apply_records_size .
  let ?db2 = "flush_db fp_example w1 ?db1" and ?T1 = "?T(mf_nextTableNumber (db_manifest ?db1) := mt_records (db_activeMemTable ?db1))"
  have room: "unat (mf_nextTableNumber (db_manifest ?db1)) + 2 < 2 ^ 64" by (simp add: d0 empty_manifest_def)
  note o2 = flush_open(1) [OF o1 ne1 room] and f2 = flush_db_fields [OF o1 ne1 room]
  have r2: "set (db_records ?T1 ?db2) = set ?ra" using flush_records [OF o1 ne1] r1 by simp
  have n2: "db_nextSeq ?db2 = 2" "mf_nextTableNumber (db_manifest ?db2) = 2" by (simp_all add: f2 d0 empty_manifest_def)
  have rb: "number_records (db_nextSeq ?db2) (wb_records ?b) = ?rb" by (simp add: n2 WriteBatch_put_def WriteBatch_new_def)
  have "batch_fits ?T1 ?db2 ?b"
    by (rule example_rest [OF o2, of ?ra]) (simp_all only: rb fit r2, simp_all add: n2 WriteBatch_put_def WriteBatch_new_def)
  from applied_open [OF o2 this] obtain w3 where o3: "db_open fp_example ?T1 [?rb] w3 (applied ?rb ?db2)" unfolding rb by auto
  let ?db3 = "applied ?rb ?db2"
  have r3: "set (mt_records (db_activeMemTable ?db3)) = set (mt_records (db_activeMemTable ?db2)) \<union> set ?rb"
    "set (db_records ?T1 ?db3) = set (?ra @ ?rb)"
    using applied_records [OF o2 rb [symmetric]] unfolding r2 by (simp_all add: n2 WriteBatch_put_def WriteBatch_new_def insert_commute)
  from r3(1) have "mt_records (db_activeMemTable ?db3) \<noteq> []" by (metis Un_iff empty_iff list.set(1) list.set_intros(1))
  then have ne3: "MemTable_size (db_activeMemTable ?db3) \<noteq> 0" unfolding apply_records_size .
  have cat: "catalogue_ok fp_example ?T w1 (db_dataDirectory ?db1) (db_manifest ?db1)"
    using o1 by (simp only: db_open_def db_ready_def db_inv_def)
  have "mt_records (db_activeMemTable ?db1) \<noteq> []" "sorted_records (mt_records (db_activeMemTable ?db1))"
    using mem_table_ok [OF o1 ne1] unfolding table_ok_def by blast+
  from flush_level [OF cat this] have lev: "Manifest_level 0 (db_manifest ?db3) \<noteq> []"
    by (metis applied_fields(1) empty_iff flush_db_manifest flushed_manifest_def list.set(1))
  have tabs: "set (concat (map (tbl ?T1) (all_tables (db_manifest ?db3)))) \<subseteq> set ?ra"
    unfolding r2 [symmetric] by (auto simp only: applied_fields db_records_def sources_def concat.simps list.map set_append)
  have u3: "unique_versions (db_records ?T1 ?db3)" by (rule open_unique [OF o3])
  have "read_value (db_records ?T1 ?db3) ''b'' (db_nextSeq ?db3 - 1) = read_value (?ra @ ?rb) ''b'' 2"
    unfolding read_value_def visible_set_cong [OF r3(2) u3] by (simp add: n2)
  also have "\<dots> = Some ''y''" by (simp add: read_value_def visible_def pick_def eligible_def)
  finally have rd: "read_value (db_records ?T1 ?db3) ''b'' (db_nextSeq ?db3 - 1) = Some ''y''" .
  have "length (db_records ?T1 ?db3) \<le> length (?ra @ ?rb)"
    using open_distinct [OF o3] r3(2) by (intro mset_sub_length mset_distinct_sub) simp_all
  then have "unat (mf_nextTableNumber (db_manifest ?db3)) + 2 + length (db_records ?T1 ?db3) < 2 ^ 64" by (simp add: n2)
  moreover have "rec_key ` set (concat (map (tbl ?T1) (all_tables (db_manifest ?db3)))) \<subseteq> {''a''}"
    by (rule order_trans [OF image_mono [OF tabs]]) simp
  ultimately show ?thesis using o3 ne3 lev rd by blast
qed

theorem compact_after_failed_flush_loses_log_witness:
  "\<exists>w db s1 e w1 db1 w2 db2 w3 db3 s. DB_get ''b'' [] (w, db) = Some (Inr (True, ''y''), s1)
    \<and> flush fp_example (w\<lparr>w_os := failing_from_third\<rparr>, db) = Some (Inl e, (w1, db1))
    \<and> DB_compact fp_example (calm w1, db1) = Some (Inr (), (w2, db2))
    \<and> DB_new (db_dataDirectory db) 100 4 1000 (db_compactionBaseThresholdBytes db) (w2\<lparr>w_fds := []\<rparr>) = Some (Inr db3, w3)
    \<and> DB_get ''b'' [] (w3, db3) = Some (Inr (False, []), s)"
proof -
  from example_table_and_log obtain T bs w db where d: "db_open fp_example T bs w db" "MemTable_size (db_activeMemTable db) \<noteq> 0"
    "Manifest_level 0 (db_manifest db) \<noteq> []" "unat (mf_nextTableNumber (db_manifest db)) + 2 + length (db_records T db) < 2 ^ 64"
    and k: "rec_key ` set (concat (map (tbl T) (all_tables (db_manifest db)))) \<subseteq> {''a''}"
    and r: "read_value (db_records T db) ''b'' (db_nextSeq db - 1) = Some ''y''" by blast
  have "db_inv fp_example T w db" "nominal w" using d(1) by (simp_all add: db_open_def db_ready_def)
  from DB_get_at_correct [OF this, of "''b''" "db_nextSeq db - 1" "[]"] r obtain s1 where
    "DB_get ''b'' [] (w, db) = Some (Inr (True, ''y''), s1)" by (auto simp: DB_get_def io_bind_def db_get_def)
  moreover have "''b'' \<notin> rec_key ` set (concat (map (tbl T) (all_tables (db_manifest db))))" using k by blast
  from compact_after_failed_flush_loses_log [OF d this, of 100 4 1000 "[]"]
  obtain e w1 db1 w2 db2 w3 db3 s where "flush fp_example (w\<lparr>w_os := failing_from_third\<rparr>, db) = Some (Inl e, (w1, db1))"
    "DB_compact fp_example (calm w1, db1) = Some (Inr (), (w2, db2))"
    "DB_new (db_dataDirectory db) 100 4 1000 (db_compactionBaseThresholdBytes db) (w2\<lparr>w_fds := []\<rparr>) = Some (Inr db3, w3)"
    "DB_get ''b'' [] (w3, db3) = Some (Inr (False, []), s)" by blast
  ultimately show ?thesis by blast
qed

end
