(* ===== verification/Spec2Isabelle.thy ===== *)
theory Spec2Isabelle
  imports DBSessions DBLostLog
begin

text \<open>
  A verification development for the LSM-tree storage engine under \<open>src/\<close> (C++23, files \<open>inc/*.h\<close>
  and \<open>src/*.cpp\<close>). The engine keeps recent writes in a MemTable backed by a write-ahead log, flushes
  it into sorted table files, keeps the catalogue of these files in a manifest, and merges them level
  by level.

  \<^bold>\<open>How the code is modelled.\<close> Pure functions are functions; a function that may throw gives
  \<open>exn + 'a\<close>. Code with effects is a program (theory Programs): a function from a state to \<open>None\<close> when
  it does not return, because it loops or because it runs into undefined behaviour, or to the exception
  or value and the new state, which an exception keeps. Undefined behaviour is reachable in the Bloom
  filter: a remainder by a zero bit count and a word index behind the array are \<open>None\<close> there, and a
  read that consults such a filter is \<open>None\<close> too. The
  state of the file level is \<open>world\<close> (theory FaultInjection): files, directories, descriptors, the
  injected fault policy and the stream of answers of the operating system, each of which may be a
  failure or a short write. A world is \<open>nominal\<close> when no call fails. A \<open>std::unique_ptr\<close> member is
  part of its owner's record, and destructors are explicit. Fixed-width integers are words; lengths
  (\<open>size_t\<close>) are natural numbers, cast to words where the code stores them.

  \<^bold>\<open>Theories\<close>, in the order of import:
  \<^item> Prelude: machine types, exceptions, little-endian coding of integers, decimal numbers
    (\<open>to_string\<close>, \<open>stoull\<close>), generic lemmas. Programs: the program combinators and the rules of a
    small Hoare logic for them.
  \<^item> Utils: \<open>inc/utils.h\<close> and the functions of \<open>src/utils.cpp\<close> without I/O (records, keys and their
    order, file names, CRC-32). The checksum detects every change of at most four adjacent bytes.
  \<^item> FaultInjection: \<open>inc/FaultInjection.h\<close>, \<open>src/FaultInjection.cpp\<close> over the world.
  \<^item> FileIO: \<open>writeAll\<close>, \<open>removeFile\<close>, \<open>FdGuard\<close> and \<open>FileWriter\<close> of \<open>src/utils.cpp\<close>. Publication by
    rename is atomic under every fault.
  \<^item> BloomFilter: \<open>src/BloomFilter.cpp\<close>. Well-formed filters have defined operations and no false
    negatives; round trip, sizes; which stored filters are accepted although no lookup can use them.
  \<^item> WAL: the log format of \<open>src/MemTable.cpp\<close>. Round trip, torn and damaged logs.
  \<^item> Versions: the specification of a read (the newest version of a key not newer than a sequence
    number) and the locale \<open>version_source\<close> of components that answer reads, interpreted on the
    MemTable, the SSTable and the cached tables of the database.
  \<^item> MemTable: \<open>src/MemTable.cpp\<close>. Order of the table, batches under any fault, recovery.
  \<^item> SSTable: \<open>src/SSTable.cpp\<close>. Writing, opening and searching a table agree; damage is detected.
  \<^item> Merge: \<open>SnapshotIterator\<close>, \<open>mergeAll\<close>, \<open>latestVisiblePerKey\<close>, \<open>retainForCompaction\<close> of
    \<open>src/utils.cpp\<close>, over the locales \<open>record_iterator\<close> and \<open>priority_queue\<close>, interpreted on the
    iterators of the code and on its priority queue.
  \<^item> Manifest: \<open>src/Manifest.cpp\<close>. Order of the levels, binary search, round trip and atomic saving.
  \<^item> WriteBatch: \<open>src/WriteBatch.cpp\<close> and the numbering of a batch in \<open>DB::write\<close>.
  \<^item> DB: \<open>inc/DB.h\<close>, \<open>src/DB.cpp\<close>, all operations.
  \<^item> DBReads: the invariant \<open>db_inv\<close> of an open database; \<open>get\<close> and \<open>scan\<close> answer as the
    specification does on all records.
  \<^item> DBCompaction, DBCompactRange, DBLevels: one compaction, its choice of tables and the loop
    \<open>maybeCompact\<close>, which ends; reads at or above the oldest snapshot do not change.
  \<^item> DBWrites, DBOpen: the invariant \<open>db_open\<close> of a database together with its directory; writes,
    flushes, and opening again.
  \<^item> DBSystem: the abstract store (the log of the operations and the active snapshots), the locale
    \<open>simulation\<close> and its interpretation on the engine: sessions of any operations answer as the
    store does.
  \<^item> Robust, Returns: rules for programs under faults. A program that returns normally in spite of
    faults has done what it does without them. Openings and scans return unless signals interrupt
    their writes forever, reads if the filters they consult have a word (\<open>filters_usable\<close>), and
    writers of tables for up to \<open>2 ^ 40\<close> records.
  \<^item> DBFaults, DBRecovery, DBCrash: what compactions, flushes and writes leave on the disk when any of
    their system calls fail, also all of them from some point on, which is what a crash of the process
    looks like; and what opening the directory then does. Acknowledged writes are kept, refused ones
    are there as a whole or not at all.
  \<^item> DBReopening: opening a directory under faults removes only files the database does not need and
    cuts from the log only what is no part of it, so openings that are interrupted lose nothing.
  \<^item> DBSessions: the locale \<open>trace_refinement\<close> and its interpretation on sessions in which the process
    may die in any operation that changes the disk, and again in the openings that follow: they refine
    the abstract store.
  \<^item> DBLostLog: how acknowledged writes are lost without a crash, by a compaction after a failed flush.

  \<^bold>\<open>Parameters and bounds.\<close>
  \<^item> The floating-point arithmetic that sizes a Bloom filter is the parameter \<open>fp\<close> (rounding and
    logarithm) with the hypothesis \<open>fp_ok\<close>: monotone rounding, exact on powers of two, logarithms
    roughly right. \<open>fp_example\<close> satisfies it.
  \<^item> \<open>records_fit\<close>: keys and values have 32 bit lengths, at most \<open>2 ^ 40\<close> records and less than
    \<open>2 ^ 57\<close> bytes; then no 64 bit size or budget wraps on the way, and levels beyond 20 stay empty.
  \<^item> \<open>flush_numbers\<close> is an upper bound of the file numbers that one flush with its compactions
    takes; an operation is admitted while that many are left of the \<open>2 ^ 64\<close>.
  \<^item> The ghost parameter \<open>T\<close> of the invariants gives the records of every table by its number;
    \<open>maybeCompact\<close> and \<open>writeAll\<close> have no fuel: they are partial functions whose termination is
    proved.

  \<^bold>\<open>Not modelled.\<close> The text of error messages that come from the operating system (\<open>strerror\<close>), output on
  \<open>std::cerr\<close>, exhaustion of memory, read errors of \<open>std::ifstream\<close> other than a missing or short
  file, a path that \<open>create_directories\<close> creates only in part before it fails, errors while a directory
  iterator advances, the \<open>errno\<close> that a short write leaves, the loss of data that was not yet
  synchronised at a power failure, and the tests, build files and tools.
\<close>

end
